(* ===== verification/Prelude.thy ===== *)
theory Prelude
  imports Main "HOL-Library.Word"
begin

text \<open>
  Shared vocabulary of the development: the machine types of \<^verbatim>\<open>types.h\<close>, the
  outcome of a kernel routine (a value, or the way it stopped), the state-passing
  combinators the components are written with, a weakest-precondition reading of them, and
  little-endian access to byte arrays and to memory.
\<close>

unbundle bit_operations_syntax

section \<open>Machine types\<close>

type_synonym u8 = "8 word"
type_synonym u16 = "16 word"
type_synonym u32 = "32 word"

text \<open>Byte-addressed memory, and the bytes of a fixed-size array (a disk block, a page).\<close>

type_synonym mem = "u32 \<Rightarrow> u8"
type_synonym bytes = "nat \<Rightarrow> u8"

section \<open>Outcomes\<close>

text \<open>
  The addresses processes sleep on (\<^verbatim>\<open>void *chan\<close>): the kernel only ever uses the
  address of one of its own objects, so a channel is that object.
\<close>

datatype chan =
    Ch_buf nat
  | Ch_inode nat
  | Ch_log
  | Ch_proc nat
  | Ch_pipe_nread nat
  | Ch_pipe_nwrite nat
  | Ch_input
  | Ch_ticks

text \<open>
  A routine that does not return a value stopped in one of three ways: \<open>Panic\<close> with
  the message of the source's call of \<^verbatim>\<open>panic\<close>; \<open>Sleep\<close> on a channel, when the
  routine calls \<^verbatim>\<open>sleep\<close> and can only go on after another thread of control has run;
  \<open>Undef\<close>, when the C program would access an array out of its bounds or
  follow a null pointer.
\<close>

datatype fault = Panic string | Sleep chan | Undef string

type_synonym ('s, 'a) kop = "'s \<Rightarrow> fault + 'a \<times> 's"

section \<open>State-passing combinators\<close>

definition ret :: "'a \<Rightarrow> ('s, 'a) kop" where
  "ret x s = Inr (x, s)"

definition stop :: "fault \<Rightarrow> ('s, 'a) kop" where
  "stop e s = Inl e"

definition andthen :: "('s, 'a) kop \<Rightarrow> ('a \<Rightarrow> ('s, 'b) kop) \<Rightarrow> ('s, 'b) kop" where
  "andthen f g s = (case f s of Inl e \<Rightarrow> Inl e | Inr (x, t) \<Rightarrow> g x t)"

definition gets :: "('s \<Rightarrow> 'a) \<Rightarrow> ('s, 'a) kop" where
  "gets f s = Inr (f s, s)"

definition upd :: "('s \<Rightarrow> 's) \<Rightarrow> ('s, unit) kop" where
  "upd f s = Inr ((), f s)"

definition panic_if :: "bool \<Rightarrow> string \<Rightarrow> ('s, unit) kop" where
  "panic_if c msg = (if c then stop (Panic msg) else ret ())"

text \<open>\<open>for(i = ...) body\<close> over a fixed sequence of indices.\<close>

fun mfor :: "'i list \<Rightarrow> ('i \<Rightarrow> ('s, unit) kop) \<Rightarrow> ('s, unit) kop" where
  "mfor [] f = ret ()"
| "mfor (i # is) f = andthen (f i) (\<lambda>_. mfor is f)"

text \<open>Run an operation of a component on the part of a larger state that belongs to it.\<close>

definition zoom :: "('s \<Rightarrow> 't) \<Rightarrow> ('t \<Rightarrow> 's \<Rightarrow> 's) \<Rightarrow> ('t, 'a) kop \<Rightarrow> ('s, 'a) kop" where
  "zoom g p f s = (case f (g s) of Inl e \<Rightarrow> Inl e | Inr (x, t) \<Rightarrow> Inr (x, p t s))"

subsection \<open>Runs that return\<close>

lemma andthen_InrE:
  assumes "andthen f g s = Inr (x, t)"
  obtains y u where "f s = Inr (y, u)" "g y u = Inr (x, t)"
  using assms by (auto simp: andthen_def split: sum.splits)

lemma gets_run: "gets f s = Inr (x, t) \<longleftrightarrow> x = f s \<and> t = s"
  by (auto simp: gets_def)

lemma ret_run: "ret y s = Inr (x, t) \<longleftrightarrow> x = y \<and> t = s"
  by (auto simp: ret_def)

lemma upd_run: "upd f s = Inr (x, t) \<longleftrightarrow> t = f s"
  by (auto simp: upd_def)

lemma panic_if_run: "panic_if c msg s = Inr (x, t) \<longleftrightarrow> \<not> c \<and> t = s"
  by (auto simp: panic_if_def ret_def stop_def)

lemma stop_run: "stop e s \<noteq> Inr (x, t)"
  by (simp add: stop_def)

subsection \<open>Total correctness\<close>

text \<open>\<open>wp f Q s\<close>: run from \<open>s\<close>, \<open>f\<close> returns, and the result and the new state satisfy \<open>Q\<close>.\<close>

definition wp :: "('s, 'a) kop \<Rightarrow> ('a \<Rightarrow> 's \<Rightarrow> bool) \<Rightarrow> 's \<Rightarrow> bool" where
  "wp f Q s \<longleftrightarrow> (case f s of Inl _ \<Rightarrow> False | Inr (x, t) \<Rightarrow> Q x t)"

named_theorems wp_simps "evaluation of the state-passing combinators under wp"

lemma wp_ret [wp_simps]: "wp (ret x) Q = Q x"
  by (simp add: fun_eq_iff wp_def ret_def)

lemma wp_stop [wp_simps]: "\<not> wp (stop e) Q s"
  by (simp add: wp_def stop_def)

lemma wp_andthen [wp_simps]: "wp (andthen f g) Q = wp f (\<lambda>x. wp (g x) Q)"
  by (simp add: fun_eq_iff wp_def andthen_def split: sum.splits prod.splits)

lemma wp_gets [wp_simps]: "wp (gets f) Q = (\<lambda>s. Q (f s) s)"
  by (simp add: fun_eq_iff wp_def gets_def)

lemma wp_upd [wp_simps]: "wp (upd f) Q = (\<lambda>s. Q () (f s))"
  by (simp add: fun_eq_iff wp_def upd_def)

lemma wp_panic_if [wp_simps]: "wp (panic_if c msg) Q = (\<lambda>s. \<not> c \<and> Q () s)"
  by (simp add: fun_eq_iff panic_if_def wp_ret wp_stop)

lemma wp_zoom [wp_simps]: "wp (zoom g p f) Q = (\<lambda>s. wp f (\<lambda>x t. Q x (p t s)) (g s))"
  by (simp add: fun_eq_iff wp_def zoom_def split: sum.splits prod.splits)

lemma wp_if [wp_simps]: "wp (if c then f else g) Q s \<longleftrightarrow> (if c then wp f Q s else wp g Q s)"
  by simp

lemma wp_conseq: "wp f Q s \<Longrightarrow> (\<And>x t. Q x t \<Longrightarrow> R x t) \<Longrightarrow> wp f R s"
  by (auto simp: wp_def split: sum.splits)

lemma wp_conj: "wp f Q s \<Longrightarrow> wp f R s \<Longrightarrow> wp f (\<lambda>x t. Q x t \<and> R x t) s"
  by (auto simp: wp_def split: sum.splits)

lemma wp_iff: "wp f Q s \<longleftrightarrow> (\<exists>x t. f s = Inr (x, t) \<and> Q x t)"
  by (auto simp: wp_def split: sum.splits)

lemma wpD: "wp f Q s \<Longrightarrow> \<exists>x t. f s = Inr (x, t) \<and> Q x t"
  by (simp add: wp_iff)

lemma wpI: "f s = Inr (x, t) \<Longrightarrow> Q x t \<Longrightarrow> wp f Q s"
  by (simp add: wp_iff)

lemma wp_run: "wp f Q s \<Longrightarrow> f s = Inr (x, t) \<Longrightarrow> Q x t"
  by (simp add: wp_iff)

text \<open>A loop over a fixed index list keeps an invariant indexed by the iterations done.\<close>

lemma wp_mfor:
  assumes "\<And>i s. i < length xs \<Longrightarrow> I i s \<Longrightarrow> wp (f (xs ! i)) (\<lambda>_. I (Suc i)) s"
    and "I 0 s"
  shows "wp (mfor xs f) (\<lambda>_. I (length xs)) s"
  using assms
proof (induction xs arbitrary: I s)
  case Nil
  then show ?case by (simp add: wp_ret)
next
  case (Cons x xs)
  have "wp (f x) (\<lambda>_. I (Suc 0)) s"
    using Cons.prems(1) [of 0 s] Cons.prems(2) by simp
  moreover have "wp (mfor xs f) (\<lambda>_. I (length (x # xs))) t" if "I (Suc 0) t" for t
  proof -
    have "wp (f (xs ! i)) (\<lambda>_. I (Suc (Suc i))) u" if "i < length xs" "I (Suc i) u" for i u
      using Cons.prems(1) [of "Suc i" u] that by simp
    then show ?thesis using Cons.IH [of "\<lambda>i. I (Suc i)" t] that by simp
  qed
  ultimately show ?case
    by (auto simp: wp_andthen elim: wp_conseq)
qed

subsection \<open>Runs that stop\<close>

lemma andthen_Inl: "f s = Inl e \<Longrightarrow> andthen f g s = Inl e"
  by (simp add: andthen_def)

lemma andthen_Inr: "f s = Inr (x, t) \<Longrightarrow> andthen f g s = g x t"
  by (simp add: andthen_def)

lemma zoom_Inr: "f (g s) = Inr (x, t) \<Longrightarrow> zoom g p f s = Inr (x, p t s)"
  by (simp add: zoom_def)

lemma zoom_Inl: "f (g s) = Inl e \<Longrightarrow> zoom g p f s = Inl e"
  by (simp add: zoom_def)

lemmas kop_defs = ret_def stop_def andthen_def gets_def upd_def panic_if_def zoom_def

section \<open>Words\<close>

lemma take_bit_unat_self: "unat w < 2 ^ n \<Longrightarrow> take_bit n w = (w :: 'a :: len word)"
  by (simp add: word_unat_eq_iff unsigned_take_bit_eq take_bit_nat_eq_self)

lemma bit_unat_less: "unat (w :: 'a :: len word) < 2 ^ n \<Longrightarrow> bit w i \<Longrightarrow> i < n"
  by (metis bit_take_bit_iff take_bit_unat_self)

lemma unat_of_nat_small: "n < 2 ^ LENGTH('a) \<Longrightarrow> unat (of_nat n :: 'a :: len word) = n"
  by (simp add: unat_of_nat)

lemma masks32: "(0xff :: u32) = mask 8" "(0x0f :: u32) = mask 4" "(0x0f :: u8) = mask 4"
  by (simp_all add: mask_eq_exp_minus_1)

section \<open>Little-endian words in byte arrays\<close>

definition byte_of :: "u32 \<Rightarrow> nat \<Rightarrow> u8" where
  "byte_of v i = ucast (drop_bit (8 * i) v)"

definition of_bytes :: "u8 \<Rightarrow> u8 \<Rightarrow> u8 \<Rightarrow> u8 \<Rightarrow> u32" where
  "of_bytes a b c d =
     ucast a OR push_bit 8 (ucast b) OR push_bit 16 (ucast c) OR push_bit 24 (ucast d)"

lemma of_bytes_byte_of [simp]:
  "of_bytes (byte_of v 0) (byte_of v (Suc 0)) (byte_of v 2) (byte_of v 3) = v"
proof (rule bit_word_eqI)
  fix n assume "n < LENGTH(32)"
  then consider "n < 8" | "8 \<le> n" "n < 16" | "16 \<le> n" "n < 24" | "24 \<le> n" "n < 32" by fastforce
  then show "bit (of_bytes (byte_of v 0) (byte_of v (Suc 0)) (byte_of v 2) (byte_of v 3)) n \<longleftrightarrow> bit v n"
    by cases (auto simp: of_bytes_def byte_of_def bit_simps)
qed

text \<open>An aligned 32-bit word and a 16-bit word of a byte array.\<close>

definition get32 :: "bytes \<Rightarrow> nat \<Rightarrow> u32" where
  "get32 f a = of_bytes (f a) (f (a + 1)) (f (a + 2)) (f (a + 3))"

definition put32 :: "bytes \<Rightarrow> nat \<Rightarrow> u32 \<Rightarrow> bytes" where
  "put32 f a v = f(a := byte_of v 0, a + 1 := byte_of v 1, a + 2 := byte_of v 2, a + 3 := byte_of v 3)"

definition get16 :: "bytes \<Rightarrow> nat \<Rightarrow> u16" where
  "get16 f a = ucast (f a) OR push_bit 8 (ucast (f (a + 1)))"

definition put16 :: "bytes \<Rightarrow> nat \<Rightarrow> u16 \<Rightarrow> bytes" where
  "put16 f a v = f(a := ucast v, a + 1 := ucast (drop_bit 8 v))"

lemma get32_put32 [simp]: "get32 (put32 f a v) a = v"
  by (simp add: get32_def put32_def)

lemma get32_put32_other: "b + 4 \<le> a \<or> a + 4 \<le> b \<Longrightarrow> get32 (put32 f a v) b = get32 f b"
  by (auto simp: get32_def put32_def)

lemma get16_put16 [simp]: "get16 (put16 f a v) a = v"
proof (rule bit_word_eqI)
  fix n assume "n < LENGTH(16)"
  then show "bit (get16 (put16 f a v) a) n \<longleftrightarrow> bit v n"
    by (cases "n < 8") (auto simp: get16_def put16_def bit_simps)
qed

lemma get16_put16_other: "b + 2 \<le> a \<or> a + 2 \<le> b \<Longrightarrow> get16 (put16 f a v) b = get16 f b"
  by (auto simp: get16_def put16_def)

lemma get16_put32_other: "b + 2 \<le> a \<or> a + 4 \<le> b \<Longrightarrow> get16 (put32 f a v) b = get16 f b"
  by (auto simp: get16_def put32_def)

lemma get32_put16_other: "b + 4 \<le> a \<or> a + 2 \<le> b \<Longrightarrow> get32 (put16 f a v) b = get32 f b"
  by (auto simp: get32_def put16_def)

lemma put32_outside: "i < a \<or> a + 4 \<le> i \<Longrightarrow> put32 f a v i = f i"
  by (auto simp: put32_def)

lemma put16_outside: "i < a \<or> a + 2 \<le> i \<Longrightarrow> put16 f a v i = f i"
  by (auto simp: put16_def)

lemma get32_cong: "(\<And>i. a \<le> i \<Longrightarrow> i < a + 4 \<Longrightarrow> f i = g i) \<Longrightarrow> get32 f a = get32 g a"
  by (simp add: get32_def)

lemma get16_cong: "(\<And>i. a \<le> i \<Longrightarrow> i < a + 2 \<Longrightarrow> f i = g i) \<Longrightarrow> get16 f a = get16 g a"
  by (simp add: get16_def)

lemma get32_zero [simp]: "get32 (\<lambda>_. 0) a = 0"
  by (simp add: get32_def of_bytes_def)

lemma get16_zero [simp]: "get16 (\<lambda>_. 0) a = 0"
  by (simp add: get16_def)

section \<open>Chains of pointers\<close>

text \<open>\<open>chain n x as y\<close>: following \<open>n\<close> from \<open>x\<close> visits exactly \<open>as\<close> and then arrives at \<open>y\<close>.\<close>

primrec chain :: "('a \<Rightarrow> 'a) \<Rightarrow> 'a \<Rightarrow> 'a list \<Rightarrow> 'a \<Rightarrow> bool" where
  "chain n x [] y \<longleftrightarrow> n x = y"
| "chain n x (a # as) y \<longleftrightarrow> n x = a \<and> chain n a as y"

lemma chain_append: "chain n x (as @ b # bs) y \<longleftrightarrow> chain n x as b \<and> chain n b bs y"
  by (induction as arbitrary: x) auto

lemma chain_upd_other: "u \<notin> set (x # as) \<Longrightarrow> chain (n(u := v)) x as y \<longleftrightarrow> chain n x as y"
  by (induction as arbitrary: x) auto

lemma chain_hd: "chain n x as y \<Longrightarrow> n x = hd (as @ [y])"
  by (cases as) auto

lemma chain_last: "chain n x as y \<Longrightarrow> n (last (x # as)) = y"
  by (induction as arbitrary: x) auto

lemma chain_upd_last:
  "chain n x as y \<Longrightarrow> distinct (x # as) \<Longrightarrow> chain (n(last (x # as) := z)) x as z"
proof (induction as arbitrary: x)
  case (Cons a as)
  have "last (a # as) \<in> set (a # as)" by (rule last_in_set) simp
  with Cons.prems have "x \<noteq> last (a # as)" by auto
  with Cons show ?case by auto
qed simp

lemma chain_remove:
  assumes "chain n x (as @ b # bs) y" and "distinct (x # as @ b # bs)"
  shows "chain (n(last (x # as) := hd (bs @ [y]))) x (as @ bs) y"
proof -
  from assms have left: "chain n x as b" and right: "chain n b bs y"
    by (auto simp: chain_append)
  have "last (x # as) \<in> set (x # as)" by (rule last_in_set) simp
  with assms(2) have fresh: "last (x # as) \<notin> set (b # bs)" by auto
  show ?thesis
  proof (cases bs)
    case Nil
    with left assms(2) show ?thesis by (auto intro: chain_upd_last simp del: last.simps)
  next
    case (Cons c cs)
    have "chain (n(last (x # as) := c)) x as c"
      using left assms(2) by (intro chain_upd_last) auto
    moreover have "chain (n(last (x # as) := c)) c cs y"
      using right fresh Cons by (subst chain_upd_other) auto
    ultimately show ?thesis using Cons by (simp add: chain_append)
  qed
qed

lemma chain_push_front:
  assumes "chain n x as y" and "b \<notin> set (x # as)" and "distinct (x # as)"
  shows "chain (n(b := n x, x := b)) x (b # as) y"
proof (cases as)
  case Nil
  with assms show ?thesis by auto
next
  case (Cons a as')
  have "chain (n(b := n x, x := b)) a as' y"
    using assms Cons by (simp add: chain_upd_other)
  with assms Cons show ?thesis by auto
qed

lemma chain_push_back:
  assumes "chain n x as y" and "b \<notin> set (x # as)" and "distinct (x # as)"
  shows "chain (n(b := y, last (x # as) := b)) x (as @ [b]) y"
proof -
  have "last (x # as) \<in> set (x # as)" by (rule last_in_set) simp
  with assms(2) have ne: "last (x # as) \<noteq> b" by auto
  have "chain (n(b := y)) x as y"
    using assms by (simp add: chain_upd_other)
  then have "chain ((n(b := y))(last (x # as) := b)) x as b"
    using assms(3) by (rule chain_upd_last)
  with ne show ?thesis by (simp add: chain_append)
qed

lemma chain_set: "chain n x as y \<Longrightarrow> \<forall>a \<in> set as. P a \<Longrightarrow> P y \<Longrightarrow> P (n x)"
  by (cases as) auto

end
