(* ===== verification/Ide.thy ===== *)
theory Ide
  imports Prelude
begin

text \<open>
  The buffer structure of \<^verbatim>\<open>buf.h\<close> and the disk drivers: \<^verbatim>\<open>ide.c\<close> with its
  request queue, interrupt handler and the programmed registers of the drive, and
  \<^verbatim>\<open>memide.c\<close>, the driver that keeps the disk in memory. The drive itself is the
  environment: its registers, its status and its sectors are fields of the state, and
  \<open>hist\<close> records the sector writes in the order the drive received them, which
  is what a crash can cut short.
\<close>

section \<open>Buffers\<close>

datatype bflag = B_BUSY | B_VALID | B_DIRTY

record buf =
  b_flags :: "bflag set"
  b_dev :: u32
  b_sector :: u32
  b_prev :: nat
  b_next :: nat
  b_data :: bytes

text \<open>
  \<open>bufs i\<close> is \<^verbatim>\<open>bcache.buf[i]\<close> for \<open>i < NBUF\<close>, and \<open>bufs NBUF\<close> is
  \<^verbatim>\<open>bcache.head\<close>; a \<^verbatim>\<open>struct buf *\<close> is an index. The request queue that the source
  threads through \<^verbatim>\<open>qnext\<close> is a list of buffers, first the active one.
\<close>

record bio =
  bufs :: "nat \<Rightarrow> buf"
  idequeue :: "nat list"
  havedisk1 :: bool
  ide_port :: "nat \<Rightarrow> u8"
  ide_status :: u8
  disk :: "u32 \<Rightarrow> u32 \<Rightarrow> bytes"
  hist :: "(u32 \<times> u32 \<times> bytes) list"

definition modify_buf :: "nat \<Rightarrow> (buf \<Rightarrow> buf) \<Rightarrow> bio \<Rightarrow> bio" where
  "modify_buf b f s = s\<lparr>bufs := (bufs s)(b := f (bufs s b))\<rparr>"

lemma modify_buf_sel [simp]:
  "bufs (modify_buf b f s) = (bufs s)(b := f (bufs s b))"
  "idequeue (modify_buf b f s) = idequeue s"
  "havedisk1 (modify_buf b f s) = havedisk1 s"
  "ide_port (modify_buf b f s) = ide_port s"
  "ide_status (modify_buf b f s) = ide_status s"
  "disk (modify_buf b f s) = disk s"
  "hist (modify_buf b f s) = hist s"
  by (simp_all add: modify_buf_def)

section \<open>The drive\<close>

definition IDE_DF :: u8 where "IDE_DF = 0x20"
definition IDE_ERR :: u8 where "IDE_ERR = 0x01"
definition IDE_CMD_READ :: u8 where "IDE_CMD_READ = 0x20"
definition IDE_CMD_WRITE :: u8 where "IDE_CMD_WRITE = 0x30"

text \<open>Writing a register, and the drive and sector the registers select (28-bit LBA).\<close>

definition outb :: "nat \<Rightarrow> u8 \<Rightarrow> (bio, unit) kop" where
  "outb p v = upd (\<lambda>s. s\<lparr>ide_port := (ide_port s)(p := v)\<rparr>)"

definition drive_sector :: "(nat \<Rightarrow> u8) \<Rightarrow> u32" where
  "drive_sector p = of_bytes (p 0x1f3) (p 0x1f4) (p 0x1f5) (p 0x1f6 AND 0x0f)"

definition drive_dev :: "(nat \<Rightarrow> u8) \<Rightarrow> u32" where
  "drive_dev p = ucast (drop_bit 4 (p 0x1f6) AND 1)"

text \<open>The data port: 128 words written to, or read from, the selected sector.\<close>

definition outsl :: "bytes \<Rightarrow> (bio, unit) kop" where
  "outsl d = upd (\<lambda>s. let k = drive_dev (ide_port s); n = drive_sector (ide_port s) in
     s\<lparr>disk := (disk s)(k := (disk s k)(n := d)), hist := hist s @ [(k, n, d)]\<rparr>)"

definition insl :: "nat \<Rightarrow> (bio, unit) kop" where
  "insl b = upd (\<lambda>s. modify_buf b (\<lambda>bp. bp\<lparr>b_data := disk s (drive_dev (ide_port s)) (drive_sector (ide_port s))\<rparr>) s)"

section \<open>The driver\<close>

text \<open>\<open>ide_status\<close> is the status the drive shows once it is ready, which ends the polling loop.\<close>

definition idewait :: "bool \<Rightarrow> (bio, int) kop" where
  "idewait checkerr = andthen (gets ide_status) (\<lambda>r.
     if checkerr \<and> r AND (IDE_DF OR IDE_ERR) \<noteq> 0 then ret (-1) else ret 0)"

text \<open>The register values of a request: the bytes of the sector number, drive and top four bits.\<close>

definition lba_reg :: "buf \<Rightarrow> nat \<Rightarrow> u8" where
  "lba_reg bp i = ucast (drop_bit (8 * i) (b_sector bp) AND 0xff)"

definition dev_reg :: "buf \<Rightarrow> u8" where
  "dev_reg bp = ucast (0xe0 OR push_bit 4 (b_dev bp AND 1) OR (drop_bit 24 (b_sector bp) AND 0x0f))"

definition idestart :: "nat \<Rightarrow> (bio, unit) kop" where
  "idestart b =
     andthen (gets (\<lambda>s. bufs s b)) (\<lambda>bp.
     andthen (idewait False) (\<lambda>_.
     andthen (outb 0x3f6 0) (\<lambda>_.
     andthen (outb 0x1f2 1) (\<lambda>_.
     andthen (outb 0x1f3 (lba_reg bp 0)) (\<lambda>_.
     andthen (outb 0x1f4 (lba_reg bp 1)) (\<lambda>_.
     andthen (outb 0x1f5 (lba_reg bp 2)) (\<lambda>_.
     andthen (outb 0x1f6 (dev_reg bp)) (\<lambda>_.
     if B_DIRTY \<in> b_flags bp
     then andthen (outb 0x1f7 IDE_CMD_WRITE) (\<lambda>_. outsl (b_data bp))
     else outb 0x1f7 IDE_CMD_READ))))))))"

definition ideintr :: "(bio, unit) kop" where
  "ideintr = andthen (gets idequeue) (\<lambda>q. case q of
       [] \<Rightarrow> ret ()
     | b # rest \<Rightarrow>
         andthen (upd (\<lambda>s. s\<lparr>idequeue := rest\<rparr>)) (\<lambda>_.
         andthen (gets (\<lambda>s. bufs s b)) (\<lambda>bp.
         andthen (if B_DIRTY \<notin> b_flags bp
                  then andthen (idewait True) (\<lambda>r. if r \<ge> 0 then insl b else ret ())
                  else ret ()) (\<lambda>_.
         andthen (upd (modify_buf b (\<lambda>bp. bp\<lparr>b_flags := insert B_VALID (b_flags bp) - {B_DIRTY}\<rparr>))) (\<lambda>_.
         case rest of [] \<Rightarrow> ret () | c # _ \<Rightarrow> idestart c)))))"

lemmas ide_op_defs = outb_def outsl_def insl_def idewait_def idestart_def ideintr_def

text \<open>Starting a request changes neither the queue nor a buffer; an interrupt removes the active request.\<close>

lemma idestart_wp: "wp (idestart b) (\<lambda>_ t. idequeue t = idequeue s \<and> bufs t = bufs s) s"
  by (simp add: ide_op_defs wp_simps Let_def)

lemma ideintr_wp: "wp ideintr (\<lambda>_ t. idequeue t = tl (idequeue s)) s"
proof (cases "idequeue s")
  case Nil
  then show ?thesis by (simp add: ideintr_def wp_simps)
next
  case (Cons b rest)
  have next_request: "idequeue v = rest \<Longrightarrow>
      wp (case rest of [] \<Rightarrow> ret () | c # _ \<Rightarrow> idestart c) (\<lambda>_ t. idequeue t = rest) v" for v
    using idestart_wp [of "hd rest" v] by (cases rest) (auto simp: wp_simps elim: wp_conseq)
  from Cons show ?thesis
    by (simp add: ideintr_def idewait_def insl_def wp_simps next_request)
qed

lemma ideintr_queue: "ideintr s = Inr (x, t) \<Longrightarrow> idequeue t = tl (idequeue s)"
  using ideintr_wp [of s] by (auto dest: wp_run)

text \<open>
  The rest of \<^verbatim>\<open>iderw\<close> sleeps until the interrupt handler has served the request; with
  the drive as the only other agent, that is one interrupt after the other.
\<close>

definition buf_synced :: "bio \<Rightarrow> nat \<Rightarrow> bool" where
  "buf_synced s b \<longleftrightarrow> B_VALID \<in> b_flags (bufs s b) \<and> B_DIRTY \<notin> b_flags (bufs s b)"

function ide_wait :: "nat \<Rightarrow> (bio, unit) kop" where
  "ide_wait b s =
     (if buf_synced s b then Inr ((), s)
      else if idequeue s = [] then Inl (Sleep (Ch_buf b))
      else case ideintr s of Inl e \<Rightarrow> Inl e | Inr (_, t) \<Rightarrow> ide_wait b t)"
  by pat_completeness auto
termination
proof (relation "measure (\<lambda>(b, s). length (idequeue s))", simp)
  fix b :: nat and s and x :: "unit \<times> bio" and y :: unit and t
  assume "idequeue s \<noteq> []" and "ideintr s = Inr x" and "(y, t) = x"
  then have "idequeue t = tl (idequeue s)" and "idequeue s \<noteq> []"
    using ideintr_queue [of s] by auto
  then show "((b, t), b, s) \<in> measure (\<lambda>(b, s). length (idequeue s))" by simp
qed

declare ide_wait.simps [simp del]

definition iderw :: "nat \<Rightarrow> (bio, unit) kop" where
  "iderw b =
     andthen (gets (\<lambda>s. bufs s b)) (\<lambda>bp.
     andthen (panic_if (B_BUSY \<notin> b_flags bp) ''iderw: buf not busy'') (\<lambda>_.
     andthen (panic_if (B_VALID \<in> b_flags bp \<and> B_DIRTY \<notin> b_flags bp) ''iderw: nothing to do'') (\<lambda>_.
     andthen (gets havedisk1) (\<lambda>have1.
     andthen (panic_if (b_dev bp \<noteq> 0 \<and> \<not> have1) ''iderw: ide disk 1 not present'') (\<lambda>_.
     andthen (upd (\<lambda>s. s\<lparr>idequeue := idequeue s @ [b]\<rparr>)) (\<lambda>_.
     andthen (gets idequeue) (\<lambda>q.
     andthen (if hd q = b then idestart b else ret ()) (\<lambda>_.
     ide_wait b))))))))"

subsection \<open>The registers select the sector of the request\<close>

lemma e0_low_bits: "i < 5 \<Longrightarrow> \<not> bit (0xe0 :: u32) i"
  by (auto simp: less_Suc_eq numeral_eq_Suc)

lemma lba_reg_byte: "lba_reg bp i = byte_of (b_sector bp) i"
  by (rule bit_word_eqI) (auto simp: lba_reg_def byte_of_def masks32 bit_simps)

lemma dev_reg_byte:
  assumes "unat (b_sector bp) < 2 ^ 28"
  shows "dev_reg bp AND 0x0f = byte_of (b_sector bp) 3"
proof (rule bit_word_eqI)
  fix n assume "n < LENGTH(8)"
  then show "bit (dev_reg bp AND 0x0f) n = bit (byte_of (b_sector bp) 3) n"
    using bit_unat_less [OF assms, of "24 + n"] e0_low_bits [of n]
    by (auto simp: dev_reg_def byte_of_def masks32 bit_simps)
qed

lemma sector_of_registers:
  assumes "unat (b_sector bp) < 2 ^ 28"
  shows "of_bytes (lba_reg bp 0) (lba_reg bp 1) (lba_reg bp 2) (dev_reg bp AND 0x0f) = b_sector bp"
  by (simp add: lba_reg_byte dev_reg_byte [OF assms])

lemma dev_of_registers: "ucast (drop_bit 4 (dev_reg bp) AND 1) = b_dev bp AND 1"
  by (rule bit_word_eqI) (auto simp: dev_reg_def masks32 bit_simps e0_low_bits)

subsection \<open>What a completed request does\<close>

text \<open>
  The contract of \<^verbatim>\<open>iderw\<close> in the driver's comment: a dirty buffer is written to its sector
  and becomes clean, a buffer that is not valid is filled from its sector; either way the buffer
  ends up valid.
\<close>

definition transfer :: "nat \<Rightarrow> bio \<Rightarrow> bio" where
  "transfer b s = (let bp = bufs s b in
     if B_DIRTY \<in> b_flags bp
     then modify_buf b (\<lambda>bp. bp\<lparr>b_flags := insert B_VALID (b_flags bp) - {B_DIRTY}\<rparr>)
            (s\<lparr>disk := (disk s)(b_dev bp := (disk s (b_dev bp))(b_sector bp := b_data bp)),
               hist := hist s @ [(b_dev bp, b_sector bp, b_data bp)]\<rparr>)
     else modify_buf b (\<lambda>bp. bp\<lparr>b_data := disk s (b_dev bp) (b_sector bp),
            b_flags := insert B_VALID (b_flags bp)\<rparr>) s)"

text \<open>A request the drive can address, to a drive that reports no error.\<close>

definition request_ok :: "nat \<Rightarrow> bio \<Rightarrow> bool" where
  "request_ok b s \<longleftrightarrow> B_BUSY \<in> b_flags (bufs s b) \<and> \<not> buf_synced s b
     \<and> b_dev (bufs s b) \<in> {0, 1} \<and> (b_dev (bufs s b) = 0 \<or> havedisk1 s)
     \<and> unat (b_sector (bufs s b)) < 2 ^ 28"

definition drive_ok :: "bio \<Rightarrow> bool" where
  "drive_ok s \<longleftrightarrow> idequeue s = [] \<and> ide_status s AND (IDE_DF OR IDE_ERR) = 0"

text \<open>Programming the registers for a request selects the buffer's sector on the buffer's drive.\<close>

definition select_regs :: "buf \<Rightarrow> (nat \<Rightarrow> u8) \<Rightarrow> (nat \<Rightarrow> u8)" where
  "select_regs bp p = p(0x3f6 := 0, 0x1f2 := 1, 0x1f3 := lba_reg bp 0, 0x1f4 := lba_reg bp 1,
     0x1f5 := lba_reg bp 2, 0x1f6 := dev_reg bp,
     0x1f7 := (if B_DIRTY \<in> b_flags bp then IDE_CMD_WRITE else IDE_CMD_READ))"

lemma select_regs_sector:
  "unat (b_sector bp) < 2 ^ 28 \<Longrightarrow> drive_sector (select_regs bp p) = b_sector bp"
  using sector_of_registers [of bp] by (simp add: drive_sector_def select_regs_def)

lemma select_regs_dev: "b_dev bp \<in> {0, 1} \<Longrightarrow> drive_dev (select_regs bp p) = b_dev bp"
  using dev_of_registers [of bp] by (auto simp: drive_dev_def select_regs_def)

lemma idestart_eq:
  assumes "unat (b_sector (bufs s b)) < 2 ^ 28" and "b_dev (bufs s b) \<in> {0, 1}"
  shows "idestart b s = Inr ((), (let bp = bufs s b; t = s\<lparr>ide_port := select_regs bp (ide_port s)\<rparr> in
    if B_DIRTY \<in> b_flags bp
    then t\<lparr>disk := (disk s)(b_dev bp := (disk s (b_dev bp))(b_sector bp := b_data bp)),
           hist := hist s @ [(b_dev bp, b_sector bp, b_data bp)]\<rparr>
    else t))"
  using select_regs_sector [OF assms(1), of "ide_port s"] select_regs_dev [OF assms(2), of "ide_port s"]
  by (cases "B_DIRTY \<in> b_flags (bufs s b)")
     (simp_all add: idestart_def idewait_def outb_def outsl_def kop_defs Let_def select_regs_def)

lemma iderw_transfer:
  assumes req: "request_ok b s" and idle: "drive_ok s"
  shows "iderw b s = Inr ((), (transfer b s)\<lparr>ide_port := select_regs (bufs s b) (ide_port s)\<rparr>)"
proof -
  let ?bp = "bufs s b"
  note start = idestart_eq [of "s\<lparr>idequeue := [b]\<rparr>" b]
  have sel: "drive_sector (select_regs ?bp p) = b_sector ?bp" "drive_dev (select_regs ?bp p) = b_dev ?bp" for p
    using req by (simp_all add: request_ok_def select_regs_sector select_regs_dev)
  show ?thesis
    using req idle start sel
    by (cases "B_DIRTY \<in> b_flags ?bp")
       (auto intro!: bio.equality simp: iderw_def kop_defs request_ok_def drive_ok_def buf_synced_def
         ide_wait.simps ideintr_def idewait_def insl_def transfer_def Let_def modify_buf_def)
qed

text \<open>The panics of \<^verbatim>\<open>iderw\<close>.\<close>

lemma iderw_panics:
  "B_BUSY \<notin> b_flags (bufs s b) \<Longrightarrow> iderw b s = Inl (Panic ''iderw: buf not busy'')"
  "B_BUSY \<in> b_flags (bufs s b) \<Longrightarrow> buf_synced s b \<Longrightarrow> iderw b s = Inl (Panic ''iderw: nothing to do'')"
  "B_BUSY \<in> b_flags (bufs s b) \<Longrightarrow> \<not> buf_synced s b \<Longrightarrow> b_dev (bufs s b) \<noteq> 0 \<Longrightarrow> \<not> havedisk1 s
     \<Longrightarrow> iderw b s = Inl (Panic ''iderw: ide disk 1 not present'')"
  by (simp_all add: iderw_def kop_defs buf_synced_def)

section \<open>The in-memory driver\<close>

text \<open>
  \<^verbatim>\<open>memide.c\<close> serves drive 1 only, from an image of \<open>disksize\<close> sectors, and completes
  the request before it returns.
\<close>

definition memide_iderw :: "u32 \<Rightarrow> nat \<Rightarrow> (bio, unit) kop" where
  "memide_iderw disksize b =
     andthen (gets (\<lambda>s. bufs s b)) (\<lambda>bp.
     andthen (panic_if (B_BUSY \<notin> b_flags bp) ''iderw: buf not busy'') (\<lambda>_.
     andthen (panic_if (B_VALID \<in> b_flags bp \<and> B_DIRTY \<notin> b_flags bp) ''iderw: nothing to do'') (\<lambda>_.
     andthen (panic_if (b_dev bp \<noteq> 1) ''iderw: request not for disk 1'') (\<lambda>_.
     andthen (panic_if (b_sector bp \<ge> disksize) ''iderw: sector out of range'') (\<lambda>_.
     andthen (if B_DIRTY \<in> b_flags bp
              then andthen (upd (modify_buf b (\<lambda>bp. bp\<lparr>b_flags := b_flags bp - {B_DIRTY}\<rparr>))) (\<lambda>_.
                   upd (\<lambda>s. s\<lparr>disk := (disk s)(1 := (disk s 1)(b_sector bp := b_data bp)),
                              hist := hist s @ [(1, b_sector bp, b_data bp)]\<rparr>))
              else upd (\<lambda>s. modify_buf b (\<lambda>bp. bp\<lparr>b_data := disk s 1 (b_sector bp)\<rparr>) s)) (\<lambda>_.
     upd (modify_buf b (\<lambda>bp. bp\<lparr>b_flags := insert B_VALID (b_flags bp)\<rparr>))))))))"

lemma memide_transfer:
  assumes "B_BUSY \<in> b_flags (bufs s b)" and "\<not> buf_synced s b"
    and "b_dev (bufs s b) = 1" and "b_sector (bufs s b) < disksize"
  shows "memide_iderw disksize b s = Inr ((), transfer b s)"
  using assms
  by (cases "B_DIRTY \<in> b_flags (bufs s b)")
     (auto intro!: bio.equality simp: memide_iderw_def kop_defs buf_synced_def transfer_def Let_def
        modify_buf_def not_le insert_Diff_if)

section \<open>The driver interface\<close>

text \<open>
  What the buffer cache relies on: served requests do what \<open>transfer\<close> says to the
  buffers, the disk and the write history, and leave the drive ready.
\<close>

locale disk_driver =
  fixes rw :: "nat \<Rightarrow> (bio, unit) kop"
    and served :: "nat \<Rightarrow> bio \<Rightarrow> bool"
  assumes rw_transfer: "served b s \<Longrightarrow> wp (rw b) (\<lambda>_ t. bufs t = bufs (transfer b s)
      \<and> disk t = disk (transfer b s) \<and> hist t = hist (transfer b s)
      \<and> idequeue t = idequeue s \<and> havedisk1 t = havedisk1 s \<and> ide_status t = ide_status s) s"
    and served_busy: "served b s \<Longrightarrow> B_BUSY \<in> b_flags (bufs s b) \<and> \<not> buf_synced s b"
begin

lemma rw_syncs: "served b s \<Longrightarrow> wp (rw b) (\<lambda>_ t. buf_synced t b) s"
  by (rule wp_conseq [OF rw_transfer]) (auto simp: transfer_def Let_def buf_synced_def)

lemma rw_write:
  "served b s \<Longrightarrow> B_DIRTY \<in> b_flags (bufs s b) \<Longrightarrow>
   wp (rw b) (\<lambda>_ t. disk t (b_dev (bufs s b)) (b_sector (bufs s b)) = b_data (bufs s b)) s"
  by (rule wp_conseq [OF rw_transfer]) (auto simp: transfer_def Let_def)

lemma rw_read:
  "served b s \<Longrightarrow> B_DIRTY \<notin> b_flags (bufs s b) \<Longrightarrow>
   wp (rw b) (\<lambda>_ t. b_data (bufs t b) = disk s (b_dev (bufs s b)) (b_sector (bufs s b))
      \<and> disk t = disk s \<and> hist t = hist s) s"
  by (rule wp_conseq [OF rw_transfer]) (auto simp: transfer_def Let_def)

lemma rw_other_buffers: "served b s \<Longrightarrow> c \<noteq> b \<Longrightarrow> wp (rw b) (\<lambda>_ t. bufs t c = bufs s c) s"
  by (rule wp_conseq [OF rw_transfer]) (auto simp: transfer_def Let_def)

end

lemma transfer_frame [simp]:
  "idequeue (transfer b s) = idequeue s" "havedisk1 (transfer b s) = havedisk1 s"
  "ide_status (transfer b s) = ide_status s"
  by (auto simp: transfer_def Let_def)

interpretation ide: disk_driver iderw "\<lambda>b s. request_ok b s \<and> drive_ok s"
  by unfold_locales (auto simp: request_ok_def iderw_transfer wp_def)

interpretation memide: disk_driver "memide_iderw disksize"
  "\<lambda>b s. B_BUSY \<in> b_flags (bufs s b) \<and> \<not> buf_synced s b \<and> b_dev (bufs s b) = 1 \<and> b_sector (bufs s b) < disksize"
  for disksize
  by unfold_locales (auto simp: memide_transfer wp_def)

end
