(* ===== verification/Bio.thy ===== *)
theory Bio
  imports Ide
begin

text \<open>
  The buffer cache of \<^verbatim>\<open>bio.c\<close>: an LRU list threaded through \<^verbatim>\<open>prev\<close> and
  \<^verbatim>\<open>next\<close>, lookup and recycling of buffers, reading and writing through the driver, and
  release. The abstraction is a \<open>view\<close>: the contents every block has for the
  kernel, whether it is cached or only on disk, with the sets of blocks that are held (locked by
  \<^verbatim>\<open>B_BUSY\<close>) and pinned (\<^verbatim>\<open>B_DIRTY\<close>). The operations are proved against it and
  offered to the layers above as the interface \<open>block_cache\<close>.
\<close>

section \<open>Operations\<close>

definition NBUF :: nat where "NBUF = 30"

text \<open>The statements that put \<open>b\<close> at the front of the list (\<^verbatim>\<open>bcache.head\<close> is index \<open>NBUF\<close>).\<close>

definition link_front :: "nat \<Rightarrow> (bio, unit) kop" where
  "link_front b =
     andthen (upd (\<lambda>s. modify_buf b (\<lambda>x. x\<lparr>b_next := b_next (bufs s NBUF)\<rparr>) s)) (\<lambda>_.
     andthen (upd (modify_buf b (\<lambda>x. x\<lparr>b_prev := NBUF\<rparr>))) (\<lambda>_.
     andthen (upd (\<lambda>s. modify_buf (b_next (bufs s NBUF)) (\<lambda>x. x\<lparr>b_prev := b\<rparr>) s)) (\<lambda>_.
     upd (modify_buf NBUF (\<lambda>x. x\<lparr>b_next := b\<rparr>)))))"

definition unlink :: "nat \<Rightarrow> (bio, unit) kop" where
  "unlink b =
     andthen (upd (\<lambda>s. modify_buf (b_next (bufs s b)) (\<lambda>x. x\<lparr>b_prev := b_prev (bufs s b)\<rparr>) s)) (\<lambda>_.
     upd (\<lambda>s. modify_buf (b_prev (bufs s b)) (\<lambda>x. x\<lparr>b_next := b_next (bufs s b)\<rparr>) s))"

definition binit :: "(bio, unit) kop" where
  "binit =
     andthen (upd (modify_buf NBUF (\<lambda>x. x\<lparr>b_prev := NBUF, b_next := NBUF\<rparr>))) (\<lambda>_.
     mfor [0..<NBUF] (\<lambda>b.
       andthen (upd (modify_buf b (\<lambda>x. x\<lparr>b_dev := -1\<rparr>))) (\<lambda>_. link_front b)))"

text \<open>
  \<open>for(b = bcache.head.step; b != &bcache.head; b = b->step)\<close> up to the first buffer
  with \<open>P\<close>. The list has \<open>NBUF\<close> members (\<open>bscan_find\<close> below), so \<open>Suc NBUF\<close> rounds suffice.
\<close>

fun bscan :: "nat \<Rightarrow> (buf \<Rightarrow> nat) \<Rightarrow> (buf \<Rightarrow> bool) \<Rightarrow> (nat \<Rightarrow> buf) \<Rightarrow> nat \<Rightarrow> nat option" where
  "bscan 0 step P B b = None"
| "bscan (Suc n) step P B b =
     (if b = NBUF then None else if P (B b) then Some b else bscan n step P B (step (B b)))"

definition bget :: "u32 \<Rightarrow> u32 \<Rightarrow> (bio, nat) kop" where
  "bget dev sector =
     andthen (gets (\<lambda>s. bscan (Suc NBUF) b_next (\<lambda>x. b_dev x = dev \<and> b_sector x = sector)
                          (bufs s) (b_next (bufs s NBUF)))) (\<lambda>found.
     case found of
       Some b \<Rightarrow>
         andthen (gets (\<lambda>s. b_flags (bufs s b))) (\<lambda>fl.
         if B_BUSY \<notin> fl
         then andthen (upd (modify_buf b (\<lambda>x. x\<lparr>b_flags := insert B_BUSY (b_flags x)\<rparr>))) (\<lambda>_. ret b)
         else stop (Sleep (Ch_buf b)))
     | None \<Rightarrow>
         andthen (gets (\<lambda>s. bscan (Suc NBUF) b_prev (\<lambda>x. B_BUSY \<notin> b_flags x \<and> B_DIRTY \<notin> b_flags x)
                              (bufs s) (b_prev (bufs s NBUF)))) (\<lambda>victim.
         case victim of
           Some b \<Rightarrow>
             andthen (upd (modify_buf b (\<lambda>x. x\<lparr>b_dev := dev, b_sector := sector, b_flags := {B_BUSY}\<rparr>))) (\<lambda>_.
             ret b)
         | None \<Rightarrow> stop (Panic ''bget: no buffers'')))"

definition bread :: "u32 \<Rightarrow> u32 \<Rightarrow> (bio, nat) kop" where
  "bread dev sector =
     andthen (bget dev sector) (\<lambda>b.
     andthen (gets (\<lambda>s. b_flags (bufs s b))) (\<lambda>fl.
     andthen (if B_VALID \<notin> fl then iderw b else ret ()) (\<lambda>_.
     ret b)))"

definition bwrite :: "nat \<Rightarrow> (bio, unit) kop" where
  "bwrite b =
     andthen (gets (\<lambda>s. b_flags (bufs s b))) (\<lambda>fl.
     andthen (panic_if (B_BUSY \<notin> fl) ''bwrite'') (\<lambda>_.
     andthen (upd (modify_buf b (\<lambda>x. x\<lparr>b_flags := insert B_DIRTY (b_flags x)\<rparr>))) (\<lambda>_.
     iderw b)))"

definition brelse :: "nat \<Rightarrow> (bio, unit) kop" where
  "brelse b =
     andthen (gets (\<lambda>s. b_flags (bufs s b))) (\<lambda>fl.
     andthen (panic_if (B_BUSY \<notin> fl) ''brelse'') (\<lambda>_.
     andthen (unlink b) (\<lambda>_.
     andthen (link_front b) (\<lambda>_.
     upd (modify_buf b (\<lambda>x. x\<lparr>b_flags := b_flags x - {B_BUSY}\<rparr>))))))"

text \<open>A caller that holds a buffer reads and changes its bytes in place (\<^verbatim>\<open>bp->data\<close>).\<close>

definition get_data :: "nat \<Rightarrow> (bio, bytes) kop" where
  "get_data b = gets (\<lambda>s. b_data (bufs s b))"

definition put_data :: "nat \<Rightarrow> (bytes \<Rightarrow> bytes) \<Rightarrow> (bio, unit) kop" where
  "put_data b f = upd (modify_buf b (\<lambda>x. x\<lparr>b_data := f (b_data x)\<rparr>))"

definition mark_dirty :: "nat \<Rightarrow> (bio, unit) kop" where
  "mark_dirty b = upd (modify_buf b (\<lambda>x. x\<lparr>b_flags := insert B_DIRTY (b_flags x)\<rparr>))"

section \<open>The LRU list\<close>

text \<open>The buffers in list order, most recently released first, linked in both directions.\<close>

definition lru_order :: "(nat \<Rightarrow> buf) \<Rightarrow> nat list \<Rightarrow> bool" where
  "lru_order B xs \<longleftrightarrow> distinct xs \<and> set xs \<subseteq> {..<NBUF}
     \<and> chain (\<lambda>i. b_next (B i)) NBUF xs NBUF \<and> chain (\<lambda>i. b_prev (B i)) NBUF (rev xs) NBUF"

lemma bscan_find:
  assumes "chain (\<lambda>i. step (B i)) x xs NBUF" and "NBUF \<notin> set xs" and "length xs < n"
  shows "bscan n step P B (step (B x)) = find (\<lambda>i. P (B i)) xs"
  using assms
proof (induction xs arbitrary: x n)
  case Nil
  then show ?case by (cases n) auto
next
  case (Cons a xs)
  then obtain m where "n = Suc m" by (cases n) auto
  with Cons show ?case by auto
qed

lemma lru_order_fields:
  "lru_order B xs \<Longrightarrow> (\<And>i. b_next (C i) = b_next (B i)) \<Longrightarrow> (\<And>i. b_prev (C i) = b_prev (B i)) \<Longrightarrow> lru_order C xs"
  by (simp add: lru_order_def)

lemma lru_distinct: "lru_order B xs \<Longrightarrow> distinct (NBUF # xs)"
  by (auto simp: lru_order_def)

lemma lru_length: "lru_order B xs \<Longrightarrow> length xs \<le> NBUF"
  using card_mono [of "{..<NBUF}" "set xs"] by (auto simp: lru_order_def distinct_card)

text \<open>Unlinking a member, and linking a buffer at the front, keep both directions in step.\<close>

definition links_only :: "bio \<Rightarrow> bio \<Rightarrow> bool" where
  "links_only s t \<longleftrightarrow> t = s\<lparr>bufs := bufs t\<rparr>
     \<and> (\<forall>i. b_flags (bufs t i) = b_flags (bufs s i) \<and> b_dev (bufs t i) = b_dev (bufs s i)
          \<and> b_sector (bufs t i) = b_sector (bufs s i) \<and> b_data (bufs t i) = b_data (bufs s i))"

lemma links_only_trans: "links_only s t \<Longrightarrow> links_only t u \<Longrightarrow> links_only s u"
  unfolding links_only_def by (metis bio.surjective bio.update_convs(1))

lemma hd_snoc_last_rev: "hd (rev as @ [x]) = last (x # as)" "last (x # rev as) = hd (as @ [x])"
  by (cases as rule: rev_cases; simp) (cases as; simp)

lemma unlink_order:
  assumes ord: "lru_order (bufs s) (as @ b # bs)"
  shows "wp (unlink b) (\<lambda>_ t. lru_order (bufs t) (as @ bs) \<and> links_only s t) s"
proof -
  let ?n = "\<lambda>i. b_next (bufs s i)" and ?p = "\<lambda>i. b_prev (bufs s i)"
  let ?succ = "hd (bs @ [NBUF])" and ?pred = "last (NBUF # as)"
  from ord have dist: "distinct (NBUF # as @ b # bs)" by (rule lru_distinct)
  from ord have n: "chain ?n NBUF (as @ b # bs) NBUF" and p: "chain ?p NBUF (rev bs @ b # rev as) NBUF"
    by (simp_all add: lru_order_def)
  have nb: "?n b = ?succ" and pb: "?p b = ?pred"
    using n p chain_hd [of ?n b bs NBUF] chain_hd [of ?p b "rev as" NBUF]
    by (auto simp: chain_append hd_snoc_last_rev)
  have succ: "?succ \<noteq> b" using dist by (cases bs) auto
  have next': "chain (?n(?pred := ?succ)) NBUF (as @ bs) NBUF"
    using n dist by (rule chain_remove)
  have "chain (?p(last (NBUF # rev bs) := hd (rev as @ [NBUF]))) NBUF (rev bs @ rev as) NBUF"
    using p dist by (intro chain_remove) auto
  then have prev': "chain (?p(?succ := ?pred)) NBUF (rev (as @ bs)) NBUF"
    by (simp add: hd_snoc_last_rev del: last.simps)
  let ?t = "modify_buf ?pred (\<lambda>x. x\<lparr>b_next := ?succ\<rparr>) (modify_buf ?succ (\<lambda>x. x\<lparr>b_prev := ?pred\<rparr>) s)"
  have run: "unlink b s = Inr ((), ?t)"
    using succ by (simp add: unlink_def kop_defs nb pb del: last.simps)
  have "(\<lambda>i. b_next (bufs ?t i)) = ?n(?pred := ?succ)" and "(\<lambda>i. b_prev (bufs ?t i)) = ?p(?succ := ?pred)"
    by (auto simp del: last.simps)
  then have "lru_order (bufs ?t) (as @ bs)"
    using ord next' prev' unfolding lru_order_def by simp
  moreover have "links_only s ?t"
    by (simp add: links_only_def modify_buf_def del: last.simps)
  ultimately show ?thesis using run by (simp add: wp_def)
qed

lemma link_front_order:
  assumes ord: "lru_order (bufs s) xs" and b: "b \<notin> set xs" "b < NBUF"
  shows "wp (link_front b) (\<lambda>_ t. lru_order (bufs t) (b # xs) \<and> links_only s t) s"
proof -
  let ?n = "\<lambda>i. b_next (bufs s i)" and ?p = "\<lambda>i. b_prev (bufs s i)"
  let ?first = "hd (xs @ [NBUF])"
  from ord have dist: "distinct (NBUF # xs)" by (rule lru_distinct)
  from ord have n: "chain ?n NBUF xs NBUF" and p: "chain ?p NBUF (rev xs) NBUF"
    by (simp_all add: lru_order_def)
  have nh: "?n NBUF = ?first" using n by (rule chain_hd)
  have first: "?first \<noteq> b" using b dist by (cases xs) auto
  have next': "chain (?n(b := ?first, NBUF := b)) NBUF (b # xs) NBUF"
    using chain_push_front [OF n, of b] b dist nh by simp
  have prev': "chain (?p(b := NBUF, ?first := b)) NBUF (rev (b # xs)) NBUF"
    using chain_push_back [OF p, of b] b dist by (simp add: hd_snoc_last_rev del: last.simps)
  let ?t = "modify_buf NBUF (\<lambda>x. x\<lparr>b_next := b\<rparr>) (modify_buf ?first (\<lambda>x. x\<lparr>b_prev := b\<rparr>)
    (modify_buf b (\<lambda>x. x\<lparr>b_next := ?first, b_prev := NBUF\<rparr>) s))"
  have run: "link_front b s = Inr ((), ?t)"
    using b first nh by (simp add: link_front_def kop_defs modify_buf_def)
  have "(\<lambda>i. b_next (bufs ?t i)) = ?n(b := ?first, NBUF := b)"
    and "(\<lambda>i. b_prev (bufs ?t i)) = ?p(b := NBUF, ?first := b)"
    using b by auto
  then have "lru_order (bufs ?t) (b # xs)"
    using ord b next' prev' unfolding lru_order_def by auto
  moreover have "links_only s ?t"
    using b by (simp add: links_only_def modify_buf_def)
  ultimately show ?thesis using run by (simp add: wp_def)
qed

section \<open>The view of the disk\<close>

definition key :: "buf \<Rightarrow> u32 \<times> u32" where
  "key x = (b_dev x, b_sector x)"

text \<open>Blocks the driver can address.\<close>

definition blk_ok :: "u32 \<Rightarrow> u32 \<Rightarrow> bool" where
  "blk_ok d k \<longleftrightarrow> d \<in> {0, 1} \<and> unat k < 2 ^ 28"

text \<open>
  A buffer at rest: locked and pinned buffers have been read from the disk, as have all buffers
  that were ever assigned a block, and only addressable blocks are assigned; a clean buffer
  nobody holds agrees with the disk.
\<close>

definition buf_ok :: "(u32 \<Rightarrow> u32 \<Rightarrow> bytes) \<Rightarrow> buf \<Rightarrow> bool" where
  "buf_ok dk x \<longleftrightarrow>
     (B_BUSY \<in> b_flags x \<or> B_DIRTY \<in> b_flags x \<longrightarrow> B_VALID \<in> b_flags x)
     \<and> (B_VALID \<in> b_flags x \<longrightarrow> blk_ok (b_dev x) (b_sector x))
     \<and> (b_dev x \<noteq> -1 \<longrightarrow> B_VALID \<in> b_flags x)
     \<and> (b_flags x = {B_VALID} \<longrightarrow> b_data x = dk (b_dev x) (b_sector x))"

definition bcache_ok :: "bio \<Rightarrow> bool" where
  "bcache_ok s \<longleftrightarrow>
     (\<exists>xs. lru_order (bufs s) xs \<and> set xs = {..<NBUF}) \<and> drive_ok s \<and> havedisk1 s
     \<and> (\<forall>i<NBUF. buf_ok (disk s) (bufs s i))
     \<and> (\<forall>i<NBUF. \<forall>j<NBUF. key (bufs s i) = key (bufs s j) \<longrightarrow> b_dev (bufs s i) \<noteq> -1 \<longrightarrow> i = j)"

definition view :: "bio \<Rightarrow> u32 \<Rightarrow> u32 \<Rightarrow> bytes" where
  "view s d k =
     (case find (\<lambda>i. key (bufs s i) = (d, k) \<and> B_VALID \<in> b_flags (bufs s i)) [0..<NBUF] of
        Some i \<Rightarrow> b_data (bufs s i)
      | None \<Rightarrow> disk s d k)"

definition held :: "bio \<Rightarrow> (u32 \<times> u32) set" where
  "held s = (\<lambda>i. key (bufs s i)) ` {i. i < NBUF \<and> B_BUSY \<in> b_flags (bufs s i)}"

definition pinned :: "bio \<Rightarrow> (u32 \<times> u32) set" where
  "pinned s = (\<lambda>i. key (bufs s i)) ` {i. i < NBUF \<and> B_DIRTY \<in> b_flags (bufs s i)}"

text \<open>\<open>holds s b d k\<close>: buffer \<open>b\<close> was returned by \<^verbatim>\<open>bread\<close> for block \<open>k\<close> of \<open>d\<close>.\<close>

definition holds :: "bio \<Rightarrow> nat \<Rightarrow> u32 \<Rightarrow> u32 \<Rightarrow> bool" where
  "holds s b d k \<longleftrightarrow> b < NBUF \<and> key (bufs s b) = (d, k) \<and> B_BUSY \<in> b_flags (bufs s b)"

lemma blk_ok_dev: "blk_ok d k \<Longrightarrow> d \<noteq> -1"
  by (auto simp: blk_ok_def)

lemma bcache_okD:
  assumes "bcache_ok s"
  shows bcache_ok_buf: "i < NBUF \<Longrightarrow> buf_ok (disk s) (bufs s i)"
    and bcache_ok_drive: "drive_ok s" "havedisk1 s"
    and bcache_ok_unique: "i < NBUF \<Longrightarrow> j < NBUF \<Longrightarrow> key (bufs s i) = key (bufs s j) \<Longrightarrow>
          b_dev (bufs s i) \<noteq> -1 \<Longrightarrow> i = j"
  using assms unfolding bcache_ok_def by blast+

lemma valid_blk_ok: "bcache_ok s \<Longrightarrow> i < NBUF \<Longrightarrow> B_VALID \<in> b_flags (bufs s i) \<Longrightarrow>
    key (bufs s i) = (d, k) \<Longrightarrow> blk_ok d k"
  using bcache_ok_buf [of s i] by (auto simp: buf_ok_def key_def)

lemma valid_unique:
  assumes "bcache_ok s" "i < NBUF" "j < NBUF" "B_VALID \<in> b_flags (bufs s i)" "key (bufs s i) = key (bufs s j)"
  shows "i = j"
proof -
  have "b_dev (bufs s i) \<noteq> -1"
    using valid_blk_ok [OF assms(1,2,4), of "b_dev (bufs s i)" "b_sector (bufs s i)"]
    by (auto simp: key_def dest: blk_ok_dev)
  with assms show ?thesis by (blast intro: bcache_ok_unique)
qed

lemma find_upt_unique:
  assumes "i < n" "P i" "\<And>j. j < n \<Longrightarrow> P j \<Longrightarrow> j = i"
  shows "find P [0..<n] = Some i"
proof (cases "find P [0..<n]")
  case None
  with assms(1,2) show ?thesis by (simp add: find_None_iff)
next
  case (Some j)
  then have "j < n" "P j" by (auto simp: find_Some_iff)
  with assms(3) Some show ?thesis by simp
qed

lemma view_valid:
  assumes "bcache_ok s" "i < NBUF" "key (bufs s i) = (d, k)" "B_VALID \<in> b_flags (bufs s i)"
  shows "view s d k = b_data (bufs s i)"
proof -
  have "find (\<lambda>i. key (bufs s i) = (d, k) \<and> B_VALID \<in> b_flags (bufs s i)) [0..<NBUF] = Some i"
  proof (rule find_upt_unique)
    fix j assume "j < NBUF" "key (bufs s j) = (d, k) \<and> B_VALID \<in> b_flags (bufs s j)"
    with assms show "j = i" using valid_unique [of s j i] by simp
  qed (use assms in simp_all)
  then show ?thesis by (simp add: view_def)
qed

lemma view_disk:
  assumes "\<And>i. i < NBUF \<Longrightarrow> key (bufs s i) = (d, k) \<Longrightarrow> B_VALID \<notin> b_flags (bufs s i)"
  shows "view s d k = disk s d k"
proof -
  have "find (\<lambda>i. key (bufs s i) = (d, k) \<and> B_VALID \<in> b_flags (bufs s i)) [0..<NBUF] = None"
    using assms by (auto simp: find_None_iff)
  then show ?thesis by (simp add: view_def)
qed

lemma holds_valid: "bcache_ok s \<Longrightarrow> holds s b d k \<Longrightarrow> B_VALID \<in> b_flags (bufs s b)"
  using bcache_ok_buf [of s b] by (auto simp: holds_def buf_ok_def)

lemma holds_data: "bcache_ok s \<Longrightarrow> holds s b d k \<Longrightarrow> b_data (bufs s b) = view s d k"
  using holds_valid [of s b d k] view_valid [of s b d k] by (auto simp: holds_def)

lemma held_iff: "(d, k) \<in> held s \<longleftrightarrow> (\<exists>b. holds s b d k)"
  by (force simp: holds_def held_def)

lemma pinned_iff: "(d, k) \<in> pinned s \<longleftrightarrow> (\<exists>i<NBUF. key (bufs s i) = (d, k) \<and> B_DIRTY \<in> b_flags (bufs s i))"
  by (force simp: pinned_def)

lemma holds_unique: "bcache_ok s \<Longrightarrow> holds s b d k \<Longrightarrow> holds s c d k \<Longrightarrow> b = c"
  using valid_unique [of s b c] holds_valid [of s b d k] by (auto simp: holds_def)

lemma flags_valid_only:
  assumes "B_VALID \<in> F" "B_BUSY \<notin> F" "B_DIRTY \<notin> F"
  shows "F = {B_VALID}"
proof (rule set_eqI)
  fix x show "x \<in> F \<longleftrightarrow> x \<in> {B_VALID}" using assms by (cases x) auto
qed

text \<open>Only a pinned or held block can differ from its copy on disk.\<close>

lemma view_clean:
  assumes "bcache_ok s" and "(d, k) \<notin> held s" and "(d, k) \<notin> pinned s"
  shows "view s d k = disk s d k"
proof (cases "\<exists>i<NBUF. key (bufs s i) = (d, k) \<and> B_VALID \<in> b_flags (bufs s i)")
  case True
  then obtain i where i: "i < NBUF" "key (bufs s i) = (d, k)" "B_VALID \<in> b_flags (bufs s i)" by blast
  with assms(2,3) have "B_BUSY \<notin> b_flags (bufs s i)" "B_DIRTY \<notin> b_flags (bufs s i)"
    by (auto simp: held_iff pinned_iff holds_def)
  with i(3) have "b_flags (bufs s i) = {B_VALID}"
    by (intro flags_valid_only)
  with i bcache_ok_buf [OF assms(1) i(1)] show ?thesis
    using view_valid [OF assms(1) i] by (simp add: buf_ok_def key_def)
next
  case False
  then show ?thesis by (auto intro: view_disk)
qed

lemma finite_held [simp]: "finite (held s)" and finite_pinned [simp]: "finite (pinned s)"
  by (simp_all add: held_def pinned_def)

text \<open>While fewer than \<open>NBUF\<close> blocks are held or pinned, some buffer can be recycled.\<close>

lemma free_buffer:
  assumes "bcache_ok s" and "card (held s \<union> pinned s) < NBUF"
  shows "\<exists>i<NBUF. B_BUSY \<notin> b_flags (bufs s i) \<and> B_DIRTY \<notin> b_flags (bufs s i)"
proof (rule ccontr)
  assume all: "\<not> ?thesis"
  then have valid: "B_VALID \<in> b_flags (bufs s i)" if "i < NBUF" for i
    using that bcache_ok_buf [OF assms(1) that] by (auto simp: buf_ok_def)
  have "inj_on (\<lambda>i. key (bufs s i)) {..<NBUF}"
    using valid valid_unique [OF assms(1)] by (auto intro!: inj_onI)
  then have "card ((\<lambda>i. key (bufs s i)) ` {..<NBUF}) = NBUF"
    by (simp add: card_image)
  moreover have "(\<lambda>i. key (bufs s i)) ` {..<NBUF} \<subseteq> held s \<union> pinned s"
    using all by (auto simp: held_def pinned_def)
  then have "card ((\<lambda>i. key (bufs s i)) ` {..<NBUF}) \<le> card (held s \<union> pinned s)"
    by (intro card_mono) auto
  ultimately show False using assms(2) by simp
qed

section \<open>What the operations do to the view\<close>

text \<open>
  \<open>same_blocks s t\<close>: the two states agree on the view, the pinned blocks, the disk and its history.
  \<open>keeps_held s t\<close>: every buffer held in \<open>s\<close> is held in \<open>t\<close> for the same block.
\<close>

definition same_blocks :: "bio \<Rightarrow> bio \<Rightarrow> bool" where
  "same_blocks s t \<longleftrightarrow> view t = view s \<and> pinned t = pinned s \<and> disk t = disk s \<and> hist t = hist s"

definition keeps_held :: "bio \<Rightarrow> bio \<Rightarrow> bool" where
  "keeps_held s t \<longleftrightarrow> (\<forall>b d k. holds s b d k \<longrightarrow> holds t b d k)"

lemma lru_bufs:
  "bcache_ok s \<Longrightarrow> (\<And>i. b_next (B i) = b_next (bufs s i)) \<Longrightarrow> (\<And>i. b_prev (B i) = b_prev (bufs s i)) \<Longrightarrow>
   \<exists>xs. lru_order B xs \<and> set xs = {..<NBUF}"
  unfolding bcache_ok_def by (blast intro: lru_order_fields)

lemma scan_hit:
  assumes ok: "bcache_ok s"
  shows "bscan (Suc NBUF) b_next P (bufs s) (b_next (bufs s NBUF)) = None \<Longrightarrow> i < NBUF \<Longrightarrow> \<not> P (bufs s i)"
    and "bscan (Suc NBUF) b_next P (bufs s) (b_next (bufs s NBUF)) = Some b \<Longrightarrow> b < NBUF \<and> P (bufs s b)"
    and "bscan (Suc NBUF) b_prev P (bufs s) (b_prev (bufs s NBUF)) = None \<Longrightarrow> i < NBUF \<Longrightarrow> \<not> P (bufs s i)"
    and "bscan (Suc NBUF) b_prev P (bufs s) (b_prev (bufs s NBUF)) = Some b \<Longrightarrow> b < NBUF \<and> P (bufs s b)"
proof -
  obtain xs where xs: "lru_order (bufs s) xs" "set xs = {..<NBUF}"
    using ok by (auto simp: bcache_ok_def)
  have len: "length xs < Suc NBUF" using lru_length [OF xs(1)] by simp
  have fwd: "bscan (Suc NBUF) b_next P (bufs s) (b_next (bufs s NBUF)) = find (\<lambda>i. P (bufs s i)) xs"
    using xs len by (intro bscan_find) (auto simp: lru_order_def)
  have bwd: "bscan (Suc NBUF) b_prev P (bufs s) (b_prev (bufs s NBUF)) = find (\<lambda>i. P (bufs s i)) (rev xs)"
    using xs len by (intro bscan_find) (auto simp: lru_order_def)
  have some: "find Q ys = Some b \<Longrightarrow> b \<in> set ys \<and> Q b" for Q ys
    by (auto simp: find_Some_iff)
  have none: "find Q ys = None \<Longrightarrow> i \<in> set ys \<Longrightarrow> \<not> Q i" for Q ys
    by (auto simp: find_None_iff)
  show "bscan (Suc NBUF) b_next P (bufs s) (b_next (bufs s NBUF)) = None \<Longrightarrow> i < NBUF \<Longrightarrow> \<not> P (bufs s i)"
    using none [of "\<lambda>i. P (bufs s i)" xs] xs(2) fwd by simp
  show "bscan (Suc NBUF) b_next P (bufs s) (b_next (bufs s NBUF)) = Some b \<Longrightarrow> b < NBUF \<and> P (bufs s b)"
    using some [of "\<lambda>i. P (bufs s i)" xs] xs(2) fwd by simp
  show "bscan (Suc NBUF) b_prev P (bufs s) (b_prev (bufs s NBUF)) = None \<Longrightarrow> i < NBUF \<Longrightarrow> \<not> P (bufs s i)"
    using none [of "\<lambda>i. P (bufs s i)" "rev xs"] xs(2) bwd by simp
  show "bscan (Suc NBUF) b_prev P (bufs s) (b_prev (bufs s NBUF)) = Some b \<Longrightarrow> b < NBUF \<and> P (bufs s b)"
    using some [of "\<lambda>i. P (bufs s i)" "rev xs"] xs(2) bwd by simp
qed

lemmas scan_next_None = scan_hit(1) and scan_next_Some = scan_hit(2)
  and scan_prev_None = scan_hit(3) and scan_prev_Some = scan_hit(4)


lemma bcache_ok_upd_disk:
  assumes ok: "bcache_ok s" and "b < NBUF" and "buf_ok (disk t) x"
    and links: "b_next x = b_next (bufs s b)" "b_prev x = b_prev (bufs s b)"
    and fresh: "\<And>i. i < NBUF \<Longrightarrow> i \<noteq> b \<Longrightarrow> key (bufs s i) = key x \<Longrightarrow> b_dev x = -1"
    and t: "bufs t = (bufs s)(b := x)" "idequeue t = idequeue s"
      "ide_status t = ide_status s" "havedisk1 t = havedisk1 s"
    and dt: "\<And>i. i < NBUF \<Longrightarrow> i \<noteq> b \<Longrightarrow> buf_ok (disk t) (bufs s i)"
  shows "bcache_ok t"
proof -
  have "\<exists>xs. lru_order (bufs t) xs \<and> set xs = {..<NBUF}"
    using links by (intro lru_bufs [OF ok]) (auto simp: t)
  moreover have "drive_ok t" "havedisk1 t"
    using bcache_ok_drive [OF ok] t by (simp_all add: drive_ok_def)
  moreover have "\<forall>i<NBUF. buf_ok (disk t) (bufs t i)"
    using assms by auto
  moreover have "\<forall>i<NBUF. \<forall>j<NBUF. key (bufs t i) = key (bufs t j) \<longrightarrow> b_dev (bufs t i) \<noteq> -1 \<longrightarrow> i = j"
  proof (intro allI impI)
    fix i j assume ij: "i < NBUF" "j < NBUF" "key (bufs t i) = key (bufs t j)" "b_dev (bufs t i) \<noteq> -1"
    then have dev: "b_dev (bufs t j) \<noteq> -1" by (simp add: key_def)
    show "i = j"
    proof (cases "i = b \<or> j = b")
      case True
      then show ?thesis
        using ij dev fresh [of i] fresh [of j] unfolding t(1) by (metis fun_upd_apply)
    next
      case False
      then show ?thesis
        using ij bcache_ok_unique [OF ok, of i j] unfolding t(1) by simp
    qed
  qed
  ultimately show ?thesis unfolding bcache_ok_def by blast
qed

lemma bcache_ok_upd:
  assumes "bcache_ok s" and "b < NBUF" and "buf_ok (disk s) x"
    and "b_next x = b_next (bufs s b)" "b_prev x = b_prev (bufs s b)"
    and "\<And>i. i < NBUF \<Longrightarrow> i \<noteq> b \<Longrightarrow> key (bufs s i) = key x \<Longrightarrow> b_dev x = -1"
    and "bufs t = (bufs s)(b := x)" "disk t = disk s" "idequeue t = idequeue s"
      "ide_status t = ide_status s" "havedisk1 t = havedisk1 s"
  shows "bcache_ok t"
  using assms bcache_ok_buf [OF assms(1)] by (intro bcache_ok_upd_disk [of s b t x]) auto

text \<open>Changing the flags or the bytes of a buffer that is in use.\<close>

lemma bcache_ok_upd_same:
  assumes ok: "bcache_ok s" and b: "b < NBUF" "B_VALID \<in> b_flags (bufs s b)" and "buf_ok (disk s) x"
    and "b_next x = b_next (bufs s b)" "b_prev x = b_prev (bufs s b)" and k: "key x = key (bufs s b)"
    and "bufs t = (bufs s)(b := x)" "disk t = disk s" "idequeue t = idequeue s"
      "ide_status t = ide_status s" "havedisk1 t = havedisk1 s"
  shows "bcache_ok t"
proof -
  have "b_dev x = -1" if "i < NBUF" "i \<noteq> b" "key (bufs s i) = key x" for i
    using that valid_unique [OF ok b(1) that(1) b(2)] k by simp
  then show ?thesis
    using assms by (intro bcache_ok_upd [OF ok b(1) assms(4-6)])
qed

lemma view_upd_same:
  assumes s: "bcache_ok s" and t: "bcache_ok t" and bt: "bufs t = (bufs s)(b := x)"
    and dt: "\<And>d' k'. (d', k') \<noteq> (d, k) \<Longrightarrow> disk t d' k' = disk s d' k'"
    and b: "b < NBUF" "key (bufs s b) = (d, k)" "B_VALID \<in> b_flags (bufs s b)"
    and x: "key x = (d, k)" "B_VALID \<in> b_flags x"
  shows "view t = (view s)(d := (view s d)(k := b_data x))"
proof (rule ext, rule ext)
  fix d' k'
  show "view t d' k' = ((view s)(d := (view s d)(k := b_data x))) d' k'"
  proof (cases "(d', k') = (d, k)")
    case True
    with view_valid [OF t b(1), of d k] x bt show ?thesis by simp
  next
    case False
    show ?thesis
    proof (cases "\<exists>i<NBUF. key (bufs s i) = (d', k') \<and> B_VALID \<in> b_flags (bufs s i)")
      case True
      then obtain i where i: "i < NBUF" "key (bufs s i) = (d', k')" "B_VALID \<in> b_flags (bufs s i)" by blast
      moreover from i False b have "i \<noteq> b" by auto
      ultimately show ?thesis
        using view_valid [OF s i] view_valid [OF t i(1), of d' k'] False bt by auto
    next
      case none: False
      then have "view t d' k' = disk t d' k'"
        using False b x by (intro view_disk) (auto simp: bt split: if_splits)
      moreover have "view s d' k' = disk s d' k'"
        using none by (intro view_disk) auto
      ultimately show ?thesis using False dt by auto
    qed
  qed
qed

text \<open>Recycling a clean buffer nobody holds for a block that is not cached leaves the view alone.\<close>

lemma view_recycle:
  assumes s: "bcache_ok s" and t: "bcache_ok t" and bt: "bufs t = (bufs s)(b := x)" and dt: "disk t = disk s"
    and b: "b < NBUF" "B_BUSY \<notin> b_flags (bufs s b)" "B_DIRTY \<notin> b_flags (bufs s b)"
    and x: "key x = (d, k)" "B_VALID \<in> b_flags x" "b_data x = disk s d k"
    and miss: "\<And>i. i < NBUF \<Longrightarrow> key (bufs s i) \<noteq> (d, k)"
  shows "view t = view s"
proof (rule ext, rule ext)
  fix d' k'
  show "view t d' k' = view s d' k'"
  proof (cases "(d', k') = (d, k)")
    case True
    have "view t d k = disk s d k" using view_valid [OF t b(1), of d k] x bt by simp
    moreover have "view s d k = disk s d k" using miss by (intro view_disk) auto
    ultimately show ?thesis using True by simp
  next
    case other: False
    show ?thesis
    proof (cases "\<exists>i<NBUF. i \<noteq> b \<and> key (bufs s i) = (d', k') \<and> B_VALID \<in> b_flags (bufs s i)")
      case True
      then obtain i where i: "i < NBUF" "key (bufs s i) = (d', k')" "B_VALID \<in> b_flags (bufs s i)" and "i \<noteq> b"
        by blast
      then show ?thesis using view_valid [OF s i] view_valid [OF t i(1), of d' k'] bt by simp
    next
      case False
      then have "view t d' k' = disk t d' k'"
        using other x by (intro view_disk) (auto simp: bt split: if_splits)
      moreover have "view s d' k' = disk s d' k'"
      proof (cases "key (bufs s b) = (d', k') \<and> B_VALID \<in> b_flags (bufs s b)")
        case True
        then have "b_flags (bufs s b) = {B_VALID}" using b by (intro flags_valid_only) auto
        then have "b_data (bufs s b) = disk s d' k'"
          using bcache_ok_buf [OF s b(1)] True by (auto simp: buf_ok_def key_def)
        then show ?thesis using view_valid [OF s b(1), of d' k'] True by simp
      next
        case no: False
        with False show ?thesis by (intro view_disk) blast
      qed
      ultimately show ?thesis by (simp add: dt)
    qed
  qed
qed

lemma bread_wp:
  assumes ok: "bcache_ok s" and blk: "blk_ok d k"
    and free: "(d, k) \<notin> held s" "(d, k) \<in> pinned s \<or> card (held s \<union> pinned s) < NBUF"
  shows "wp (bread d k) (\<lambda>b t. bcache_ok t \<and> holds t b d k \<and> held t = insert (d, k) (held s)
     \<and> same_blocks s t \<and> keeps_held s t) s"
proof (cases "bscan (Suc NBUF) b_next (\<lambda>x. b_dev x = d \<and> b_sector x = k) (bufs s) (b_next (bufs s NBUF))")
  case (Some b)
  then have b: "b < NBUF" "key (bufs s b) = (d, k)"
    using scan_next_Some [OF ok Some] by (auto simp: key_def)
  have valid: "B_VALID \<in> b_flags (bufs s b)"
    using bcache_ok_buf [OF ok b(1)] b blk_ok_dev [OF blk] by (auto simp: buf_ok_def key_def)
  have "B_BUSY \<notin> b_flags (bufs s b)"
    using free(1) b by (auto simp: held_iff holds_def)
  let ?x = "(bufs s b)\<lparr>b_flags := insert B_BUSY (b_flags (bufs s b))\<rparr>"
  let ?t = "s\<lparr>bufs := (bufs s)(b := ?x)\<rparr>"
  have run: "bread d k s = Inr (b, ?t)"
    using Some \<open>B_BUSY \<notin> _\<close> valid by (simp add: bread_def bget_def kop_defs modify_buf_def)
  have okt: "bcache_ok ?t"
    using bcache_ok_buf [OF ok b(1)] valid
    by (intro bcache_ok_upd_same [OF ok b(1) valid]) (auto simp: buf_ok_def key_def)
  have "view ?t = (view s)(d := (view s d)(k := b_data ?x))"
    using b valid by (intro view_upd_same [OF ok okt]) (auto simp: key_def)
  then have "view ?t = view s" by (simp add: view_valid [OF ok b valid, symmetric])
  moreover have "pinned ?t = pinned s" "held ?t = insert (d, k) (held s)"
    using b by (auto simp: pinned_def held_def image_iff key_def)
  moreover have "holds ?t b d k" "keeps_held s ?t"
    using b by (auto simp: holds_def keeps_held_def key_def)
  ultimately show ?thesis
    using run okt by (simp add: wp_def same_blocks_def)
next
  case None
  then have miss: "key (bufs s i) \<noteq> (d, k)" if "i < NBUF" for i
    using scan_next_None [OF ok None that] by (auto simp: key_def)
  then have "(d, k) \<notin> pinned s" by (fastforce simp: pinned_def)
  with free(2) have room: "card (held s \<union> pinned s) < NBUF" by simp
  obtain b where scan: "bscan (Suc NBUF) b_prev (\<lambda>x. B_BUSY \<notin> b_flags x \<and> B_DIRTY \<notin> b_flags x) (bufs s)
      (b_prev (bufs s NBUF)) = Some b"
    using free_buffer [OF ok room] scan_prev_None [OF ok]
    by (metis (mono_tags, lifting) not_None_eq)
  then have b: "b < NBUF" "B_BUSY \<notin> b_flags (bufs s b)" "B_DIRTY \<notin> b_flags (bufs s b)"
    using scan_prev_Some [OF ok scan] by auto
  let ?s1 = "modify_buf b (\<lambda>x. x\<lparr>b_dev := d, b_sector := k, b_flags := {B_BUSY}\<rparr>) s"
  define t where "t = (transfer b ?s1)\<lparr>ide_port := select_regs (bufs ?s1 b) (ide_port ?s1)\<rparr>"
  let ?x = "(bufs s b)\<lparr>b_dev := d, b_sector := k, b_flags := {B_VALID, B_BUSY}, b_data := disk s d k\<rparr>"
  have "request_ok b ?s1" "drive_ok ?s1"
    using blk bcache_ok_drive [OF ok] by (auto simp: request_ok_def drive_ok_def buf_synced_def blk_ok_def)
  then have "iderw b ?s1 = Inr ((), t)" unfolding t_def by (rule iderw_transfer)
  then have run: "bread d k s = Inr (b, t)"
    using None scan by (simp add: bread_def bget_def kop_defs)
  have bt: "bufs t = (bufs s)(b := ?x)" and dt: "disk t = disk s" "hist t = hist s"
    by (auto simp: t_def transfer_def Let_def)
  have "idequeue t = idequeue s" "ide_status t = ide_status s" "havedisk1 t = havedisk1 s"
    by (simp_all add: t_def)
  then have okt: "bcache_ok t"
    using b blk miss
    by (intro bcache_ok_upd [OF ok b(1), of ?x]) (auto simp: bt dt buf_ok_def key_def)
  have "view t = view s"
    using miss by (intro view_recycle [OF ok okt bt dt(1) b, of d k]) (auto simp: key_def)
  moreover have "pinned t = pinned s" "held t = insert (d, k) (held s)"
    using b by (auto simp: bt pinned_def held_def image_iff key_def)
  moreover have "holds t b d k" "keeps_held s t"
    using b by (auto simp: bt holds_def keeps_held_def key_def)
  ultimately show ?thesis
    using run okt dt by (simp add: wp_def same_blocks_def)
qed

definition set_view :: "bio \<Rightarrow> u32 \<Rightarrow> u32 \<Rightarrow> bytes \<Rightarrow> u32 \<Rightarrow> u32 \<Rightarrow> bytes" where
  "set_view s d k x = (view s)(d := (view s d)(k := x))"

lemma get_data_wp: "bcache_ok s \<Longrightarrow> holds s b d k \<Longrightarrow> wp (get_data b) (\<lambda>x t. t = s \<and> x = view s d k) s"
  by (simp add: get_data_def wp_simps holds_data)

lemma put_data_wp:
  assumes ok: "bcache_ok s" and b: "holds s b d k"
  shows "wp (put_data b f) (\<lambda>_ t. bcache_ok t \<and> view t = set_view s d k (f (view s d k)) \<and> held t = held s
     \<and> pinned t = pinned s \<and> disk t = disk s \<and> hist t = hist s \<and> keeps_held s t) s"
proof -
  let ?x = "(bufs s b)\<lparr>b_data := f (b_data (bufs s b))\<rparr>"
  let ?t = "s\<lparr>bufs := (bufs s)(b := ?x)\<rparr>"
  have run: "put_data b f s = Inr ((), ?t)" by (simp add: put_data_def upd_def modify_buf_def)
  have b': "b < NBUF" "key (bufs s b) = (d, k)" "B_BUSY \<in> b_flags (bufs s b)" using b by (auto simp: holds_def)
  have valid: "B_VALID \<in> b_flags (bufs s b)" using ok b by (rule holds_valid)
  have okt: "bcache_ok ?t"
    using bcache_ok_buf [OF ok b'(1)] b' valid
    by (intro bcache_ok_upd_same [OF ok b'(1) valid]) (auto simp: buf_ok_def key_def)
  have "view ?t = (view s)(d := (view s d)(k := b_data ?x))"
    using b' valid by (intro view_upd_same [OF ok okt]) (auto simp: key_def)
  moreover have "held ?t = held s" "pinned ?t = pinned s"
    using b' by (auto simp: pinned_def held_def image_iff key_def)
  moreover have "keeps_held s ?t" by (auto simp: keeps_held_def holds_def key_def)
  ultimately show ?thesis
    using run okt holds_data [OF ok b] by (simp add: wp_def set_view_def)
qed

lemma mark_dirty_wp:
  assumes ok: "bcache_ok s" and b: "holds s b d k"
  shows "wp (mark_dirty b) (\<lambda>_ t. bcache_ok t \<and> view t = view s \<and> held t = held s
     \<and> pinned t = insert (d, k) (pinned s) \<and> disk t = disk s \<and> hist t = hist s \<and> keeps_held s t) s"
proof -
  let ?x = "(bufs s b)\<lparr>b_flags := insert B_DIRTY (b_flags (bufs s b))\<rparr>"
  let ?t = "s\<lparr>bufs := (bufs s)(b := ?x)\<rparr>"
  have run: "mark_dirty b s = Inr ((), ?t)" by (simp add: mark_dirty_def upd_def modify_buf_def)
  have b': "b < NBUF" "key (bufs s b) = (d, k)" "B_BUSY \<in> b_flags (bufs s b)" using b by (auto simp: holds_def)
  have valid: "B_VALID \<in> b_flags (bufs s b)" using ok b by (rule holds_valid)
  have okt: "bcache_ok ?t"
    using bcache_ok_buf [OF ok b'(1)] b' valid
    by (intro bcache_ok_upd_same [OF ok b'(1) valid]) (auto simp: buf_ok_def key_def)
  have "view ?t = (view s)(d := (view s d)(k := b_data ?x))"
    using b' valid by (intro view_upd_same [OF ok okt]) (auto simp: key_def)
  then have "view ?t = view s" by (simp add: view_valid [OF ok b'(1,2) valid, symmetric])
  moreover have "held ?t = held s" "pinned ?t = insert (d, k) (pinned s)"
    using b' by (auto simp: pinned_def held_def image_iff key_def)
  moreover have "keeps_held s ?t" by (auto simp: keeps_held_def holds_def key_def)
  ultimately show ?thesis using run okt by (simp add: wp_def)
qed

lemma bwrite_wp:
  assumes ok: "bcache_ok s" and b: "holds s b d k"
  shows "wp (bwrite b) (\<lambda>_ t. bcache_ok t \<and> view t = view s \<and> held t = held s
     \<and> pinned t = pinned s - {(d, k)} \<and> disk t = (disk s)(d := (disk s d)(k := view s d k))
     \<and> hist t = hist s @ [(d, k, view s d k)] \<and> keeps_held s t) s"
proof -
  have b': "b < NBUF" "key (bufs s b) = (d, k)" "B_BUSY \<in> b_flags (bufs s b)" using b by (auto simp: holds_def)
  have valid: "B_VALID \<in> b_flags (bufs s b)" using ok b by (rule holds_valid)
  have blk: "blk_ok d k" using ok b'(1) valid b'(2) by (rule valid_blk_ok)
  let ?s1 = "modify_buf b (\<lambda>x. x\<lparr>b_flags := insert B_DIRTY (b_flags x)\<rparr>) s"
  define t where "t = (transfer b ?s1)\<lparr>ide_port := select_regs (bufs ?s1 b) (ide_port ?s1)\<rparr>"
  let ?x = "(bufs s b)\<lparr>b_flags := b_flags (bufs s b) - {B_DIRTY}\<rparr>"
  have "request_ok b ?s1" "drive_ok ?s1"
    using b' blk bcache_ok_drive [OF ok] by (auto simp: request_ok_def drive_ok_def buf_synced_def blk_ok_def key_def)
  then have "iderw b ?s1 = Inr ((), t)" unfolding t_def by (rule iderw_transfer)
  then have run: "bwrite b s = Inr ((), t)"
    using b' by (simp add: bwrite_def kop_defs)
  have bt: "bufs t = (bufs s)(b := ?x)"
    using valid by (auto simp: t_def transfer_def Let_def insert_absorb intro!: arg_cong [where f = "fun_upd (bufs s) b"])
  have dt: "disk t = (disk s)(d := (disk s d)(k := b_data (bufs s b)))" "hist t = hist s @ [(d, k, b_data (bufs s b))]"
    using b'(2) by (auto simp: t_def transfer_def Let_def key_def)
  have other: "key (bufs s i) \<noteq> (d, k)" if "i < NBUF" "i \<noteq> b" for i
    using that valid_unique [OF ok b'(1) that(1) valid] b'(2) by auto
  have "buf_ok (disk t) (bufs s i)" if "i < NBUF" "i \<noteq> b" for i
    using bcache_ok_buf [OF ok that(1)] other [OF that] by (auto simp: buf_ok_def key_def dt)
  moreover have "buf_ok (disk t) ?x"
    using bcache_ok_buf [OF ok b'(1)] b' valid by (auto simp: buf_ok_def)
  moreover have "idequeue t = idequeue s" "ide_status t = ide_status s" "havedisk1 t = havedisk1 s"
    by (simp_all add: t_def)
  ultimately have okt: "bcache_ok t"
    using other b'(2) by (intro bcache_ok_upd_disk [OF ok b'(1), of t ?x]) (auto simp: bt key_def)
  have "view t = (view s)(d := (view s d)(k := b_data ?x))"
    using b' valid by (intro view_upd_same [OF ok okt bt]) (auto simp: key_def dt)
  then have "view t = view s" by (simp add: view_valid [OF ok b'(1,2) valid, symmetric])
  moreover have "held t = held s"
    using b' by (auto simp: bt held_def image_iff key_def)
  moreover have "pinned t = pinned s - {(d, k)}"
    using b' other by (auto simp: bt pinned_def image_iff key_def)
  moreover have "keeps_held s t" by (auto simp: bt keeps_held_def holds_def key_def)
  ultimately show ?thesis
    using run okt dt holds_data [OF ok b] by (simp add: wp_def)
qed

lemma links_only_ok:
  assumes ok: "bcache_ok s" and t: "links_only s t" and "lru_order (bufs t) xs" "set xs = {..<NBUF}"
  shows "bcache_ok t" "same_blocks s t" "held t = held s" "holds t b d k = holds s b d k"
proof -
  have eqs: "disk t = disk s" "hist t = hist s" "idequeue t = idequeue s" "ide_status t = ide_status s"
      "havedisk1 t = havedisk1 s"
    using t unfolding links_only_def
    by (metis bio.ext_inject bio.surjective bio.update_convs(1))+
  have keys: "key (bufs t i) = key (bufs s i)" "b_flags (bufs t i) = b_flags (bufs s i)"
    "b_data (bufs t i) = b_data (bufs s i)" "b_dev (bufs t i) = b_dev (bufs s i)"
    "buf_ok dk (bufs t i) = buf_ok dk (bufs s i)" for i dk
    using t by (auto simp: links_only_def key_def buf_ok_def)
  show "bcache_ok t"
    using ok assms(3,4) unfolding bcache_ok_def drive_ok_def eqs keys by blast
  show "same_blocks s t"
    unfolding same_blocks_def view_def pinned_def eqs keys by (intro conjI refl)
  show "held t = held s" "holds t b d k = holds s b d k"
    by (simp_all add: held_def holds_def keys)
qed

lemma brelse_wp:
  assumes ok: "bcache_ok s" and b: "holds s b d k"
    and kept: "(d, k) \<in> pinned s \<or> view s d k = disk s d k"
  shows "wp (brelse b) (\<lambda>_ t. bcache_ok t \<and> same_blocks s t \<and> held t = held s - {(d, k)}
     \<and> (\<forall>c d' k'. (d', k') \<noteq> (d, k) \<longrightarrow> holds s c d' k' \<longrightarrow> holds t c d' k')) s"
proof -
  obtain xs where xs: "lru_order (bufs s) xs" "set xs = {..<NBUF}"
    using ok by (auto simp: bcache_ok_def)
  have busy: "B_BUSY \<in> b_flags (bufs s b)" and "b \<in> set xs" using b xs(2) by (auto simp: holds_def)
  then obtain as bs where split: "xs = as @ b # bs" by (meson split_list)
  obtain s1 where s1: "unlink b s = Inr ((), s1)" "lru_order (bufs s1) (as @ bs)" "links_only s s1"
    using wpD [OF unlink_order [of s as b bs]] xs split by auto
  have "b \<notin> set (as @ bs)" "b < NBUF"
    using lru_distinct [OF xs(1)] b by (auto simp: split holds_def)
  then obtain s2 where s2: "link_front b s1 = Inr ((), s2)" "lru_order (bufs s2) (b # as @ bs)" "links_only s1 s2"
    using wpD [OF link_front_order [OF s1(2)]] by auto
  have lo: "links_only s s2" using s1(3) s2(3) by (rule links_only_trans)
  have "set (b # as @ bs) = {..<NBUF}" using xs(2) split by auto
  note mid = links_only_ok [OF ok lo s2(2) this]
  let ?x = "(bufs s2 b)\<lparr>b_flags := b_flags (bufs s2 b) - {B_BUSY}\<rparr>"
  let ?t = "s2\<lparr>bufs := (bufs s2)(b := ?x)\<rparr>"
  have run: "brelse b s = Inr ((), ?t)"
    using busy s1(1) s2(1) by (simp add: brelse_def kop_defs modify_buf_def)
  have b': "b < NBUF" "key (bufs s2 b) = (d, k)" "B_BUSY \<in> b_flags (bufs s2 b)"
    using b mid(4) [of b d k] by (auto simp: holds_def)
  have valid: "B_VALID \<in> b_flags (bufs s2 b)" using mid(1) b mid(4) holds_valid by blast
  have other: "key (bufs s2 i) \<noteq> (d, k)" if "i < NBUF" "i \<noteq> b" for i
    using that valid_unique [OF mid(1) b'(1) that(1) valid] b'(2) by auto
  have data: "b_data (bufs s2 b) = view s d k"
    using holds_data [OF mid(1), of b d k] b mid(2,4) by (simp add: same_blocks_def)
  have pin: "(d, k) \<in> pinned s \<longleftrightarrow> B_DIRTY \<in> b_flags (bufs s2 b)"
    using mid(2) b' other unfolding same_blocks_def by (metis pinned_iff)
  have "buf_ok (disk s2) ?x"
    using bcache_ok_buf [OF mid(1) b'(1)] valid kept pin data b'(2) mid(2)
    by (auto simp: buf_ok_def key_def same_blocks_def)
  then have okt: "bcache_ok ?t"
    by (intro bcache_ok_upd_same [OF mid(1) b'(1) valid, of ?x]) (auto simp: key_def)
  have "view ?t = (view s2)(d := (view s2 d)(k := b_data ?x))"
    using b' valid by (intro view_upd_same [OF mid(1) okt]) (auto simp: key_def)
  then have "view ?t = view s2" by (simp add: view_valid [OF mid(1) b'(1,2) valid, symmetric])
  moreover have "key (bufs ?t i) = key (bufs s2 i)" "B_DIRTY \<in> b_flags (bufs ?t i) \<longleftrightarrow> B_DIRTY \<in> b_flags (bufs s2 i)" for i
    by (auto simp: key_def)
  then have "pinned ?t = pinned s2" unfolding pinned_def by presburger
  moreover have "held ?t = held s2 - {(d, k)}"
    using b' other by (auto simp: held_def image_iff key_def)
  moreover have "(d', k') \<noteq> (d, k) \<Longrightarrow> holds s2 c d' k' \<Longrightarrow> holds ?t c d' k'" for c d' k'
    using b' by (auto simp: holds_def key_def)
  ultimately show ?thesis
    using run okt mid by (auto simp: wp_def same_blocks_def)
qed

section \<open>Initialisation\<close>

text \<open>\<^verbatim>\<open>binit\<close> links all buffers, the last one first, and leaves the cache empty.\<close>

definition boot_bio :: "bio \<Rightarrow> bool" where
  "boot_bio s \<longleftrightarrow> (\<forall>i<NBUF. b_flags (bufs s i) = {}) \<and> drive_ok s \<and> havedisk1 s"

text \<open>The state after \<open>n\<close> rounds of the loop.\<close>

definition binit_done :: "bio \<Rightarrow> nat \<Rightarrow> bio \<Rightarrow> bool" where
  "binit_done s n t \<longleftrightarrow> lru_order (bufs t) (rev [0..<n])
     \<and> (\<forall>i<NBUF. b_flags (bufs t i) = {}) \<and> (\<forall>i<n. b_dev (bufs t i) = -1)
     \<and> drive_ok t \<and> havedisk1 t \<and> disk t = disk s \<and> hist t = hist s"

lemma links_only_sel:
  assumes "links_only s t"
  shows "disk t = disk s" "hist t = hist s" "idequeue t = idequeue s" "ide_status t = ide_status s"
    "havedisk1 t = havedisk1 s" "drive_ok t = drive_ok s"
proof -
  have "t = s\<lparr>bufs := bufs t\<rparr>" using assms unfolding links_only_def by (rule conjunct1)
  then obtain B where "t = s\<lparr>bufs := B\<rparr>" by blast
  then show "disk t = disk s" "hist t = hist s" "idequeue t = idequeue s" "ide_status t = ide_status s"
    "havedisk1 t = havedisk1 s" "drive_ok t = drive_ok s" by (simp_all add: drive_ok_def)
qed

lemma binit_step:
  assumes i: "i < NBUF" and inv: "binit_done s i t"
  shows "wp (andthen (upd (modify_buf i (\<lambda>x. x\<lparr>b_dev := -1\<rparr>))) (\<lambda>_. link_front i)) (\<lambda>_. binit_done s (Suc i)) t"
proof -
  define u where "u = modify_buf i (\<lambda>x. x\<lparr>b_dev := -1\<rparr>) t"
  have ord: "lru_order (bufs u) (rev [0..<i])"
    by (rule lru_order_fields [of "bufs t"]) (use inv in \<open>auto simp: u_def binit_done_def modify_buf_def\<close>)
  have u: "drive_ok u = drive_ok t" "havedisk1 u = havedisk1 t" "disk u = disk t" "hist u = hist t"
    "\<And>j. b_flags (bufs u j) = b_flags (bufs t j)" "\<And>j. b_dev (bufs u j) = (if j = i then -1 else b_dev (bufs t j))"
    by (simp_all add: u_def modify_buf_def drive_ok_def)
  have "wp (link_front i) (\<lambda>_. binit_done s (Suc i)) u"
  proof (rule wp_conseq [OF link_front_order [OF ord _ i]], simp, elim conjE)
    fix v assume v: "lru_order (bufs v) (i # rev [0..<i])" "links_only u v"
    from v(2) have "b_flags (bufs v j) = b_flags (bufs u j)" "b_dev (bufs v j) = b_dev (bufs u j)" for j
      unfolding links_only_def by blast+
    with v inv show "binit_done s (Suc i) v"
      by (simp add: binit_done_def links_only_sel [OF v(2)] u less_Suc_eq)
  qed
  then show ?thesis by (simp add: wp_andthen wp_upd u_def)
qed

lemma binit_wp:
  assumes "boot_bio s"
  shows "wp binit (\<lambda>_ t. bcache_ok t \<and> lru_order (bufs t) (rev [0..<NBUF]) \<and> held t = {} \<and> pinned t = {}
     \<and> view t = disk s \<and> disk t = disk s \<and> hist t = hist s) s"
proof -
  define u where "u = modify_buf NBUF (\<lambda>x. x\<lparr>b_prev := NBUF, b_next := NBUF\<rparr>) s"
  have init: "binit_done s 0 u"
    using assms by (simp add: u_def binit_done_def boot_bio_def lru_order_def drive_ok_def modify_buf_def)
  have "wp (mfor [0..<NBUF] (\<lambda>b. andthen (upd (modify_buf b (\<lambda>x. x\<lparr>b_dev := -1\<rparr>))) (\<lambda>_. link_front b)))
      (\<lambda>_. binit_done s (length [0..<NBUF])) u"
    by (rule wp_mfor) (use binit_step init in \<open>simp_all del: upt.simps\<close>)
  then have loop: "wp (mfor [0..<NBUF] (\<lambda>b. andthen (upd (modify_buf b (\<lambda>x. x\<lparr>b_dev := -1\<rparr>))) (\<lambda>_. link_front b)))
      (\<lambda>_. binit_done s NBUF) u"
    by (simp only: length_upt diff_zero)
  have "bcache_ok t \<and> lru_order (bufs t) (rev [0..<NBUF]) \<and> held t = {} \<and> pinned t = {}
     \<and> view t = disk s \<and> disk t = disk s \<and> hist t = hist s" if t: "binit_done s NBUF t" for t
  proof -
    have dev: "b_flags (bufs t i) = {}" "b_dev (bufs t i) = -1" if "i < NBUF" for i
      using t that by (simp_all add: binit_done_def)
    have "view t d k = disk t d k" for d k
      by (rule view_disk) (simp add: dev)
    then have "view t = disk t" by (simp add: fun_eq_iff)
    moreover have "bcache_ok t"
      unfolding bcache_ok_def using t
      by (intro conjI exI [of _ "rev [0..<NBUF]"]) (simp_all add: binit_done_def buf_ok_def atLeast_upt lessThan_atLeast0)
    moreover have "held t = {}" "pinned t = {}"
      by (simp_all add: held_def pinned_def dev)
    ultimately show ?thesis using t by (simp add: binit_done_def)
  qed
  with loop show ?thesis
    unfolding binit_def wp_andthen wp_upd u_def by (rule wp_conseq)
qed


section \<open>The interface of the cache\<close>

text \<open>
  What the log and the file system rely on. A state is seen as the current contents of the blocks
  (\<open>vw\<close>), the held and the pinned blocks, the contents on disk and the history of disk writes;
  a buffer returned by \<open>rd\<close> stands for its block until it is given back with \<open>rel\<close>.
\<close>

locale block_cache =
  fixes ok :: "'s \<Rightarrow> bool" and vw :: "'s \<Rightarrow> u32 \<Rightarrow> u32 \<Rightarrow> bytes"
    and hld :: "'s \<Rightarrow> (u32 \<times> u32) set" and pin :: "'s \<Rightarrow> (u32 \<times> u32) set"
    and dsk :: "'s \<Rightarrow> u32 \<Rightarrow> u32 \<Rightarrow> bytes" and hst :: "'s \<Rightarrow> (u32 \<times> u32 \<times> bytes) list"
    and owns :: "'s \<Rightarrow> nat \<Rightarrow> u32 \<Rightarrow> u32 \<Rightarrow> bool" and good :: "u32 \<Rightarrow> u32 \<Rightarrow> bool" and size :: nat
    and rd :: "u32 \<Rightarrow> u32 \<Rightarrow> ('s, nat) kop" and get :: "nat \<Rightarrow> ('s, bytes) kop"
    and put :: "nat \<Rightarrow> (bytes \<Rightarrow> bytes) \<Rightarrow> ('s, unit) kop"
    and wr :: "nat \<Rightarrow> ('s, unit) kop" and rel :: "nat \<Rightarrow> ('s, unit) kop"
  assumes rd: "ok s \<Longrightarrow> good d k \<Longrightarrow> (d, k) \<notin> hld s \<Longrightarrow> (d, k) \<in> pin s \<or> card (hld s \<union> pin s) < size \<Longrightarrow>
      wp (rd d k) (\<lambda>b t. ok t \<and> owns t b d k \<and> hld t = insert (d, k) (hld s) \<and> vw t = vw s \<and> pin t = pin s
        \<and> dsk t = dsk s \<and> hst t = hst s \<and> (\<forall>c d' k'. owns s c d' k' \<longrightarrow> owns t c d' k')) s"
    and get: "ok s \<Longrightarrow> owns s b d k \<Longrightarrow> wp (get b) (\<lambda>x t. t = s \<and> x = vw s d k) s"
    and put: "ok s \<Longrightarrow> owns s b d k \<Longrightarrow>
      wp (put b f) (\<lambda>_ t. ok t \<and> vw t = (vw s)(d := (vw s d)(k := f (vw s d k))) \<and> hld t = hld s \<and> pin t = pin s
        \<and> dsk t = dsk s \<and> hst t = hst s \<and> (\<forall>c d' k'. owns s c d' k' \<longrightarrow> owns t c d' k')) s"
    and wr: "ok s \<Longrightarrow> owns s b d k \<Longrightarrow>
      wp (wr b) (\<lambda>_ t. ok t \<and> vw t = vw s \<and> hld t = hld s \<and> pin t = pin s - {(d, k)}
        \<and> dsk t = (dsk s)(d := (dsk s d)(k := vw s d k)) \<and> hst t = hst s @ [(d, k, vw s d k)]
        \<and> (\<forall>c d' k'. owns s c d' k' \<longrightarrow> owns t c d' k')) s"
    and rel: "ok s \<Longrightarrow> owns s b d k \<Longrightarrow> (d, k) \<in> pin s \<or> vw s d k = dsk s d k \<Longrightarrow>
      wp (rel b) (\<lambda>_ t. ok t \<and> vw t = vw s \<and> hld t = hld s - {(d, k)} \<and> pin t = pin s
        \<and> dsk t = dsk s \<and> hst t = hst s
        \<and> (\<forall>c d' k'. (d', k') \<noteq> (d, k) \<longrightarrow> owns s c d' k' \<longrightarrow> owns t c d' k')) s"
    and clean: "ok s \<Longrightarrow> (d, k) \<notin> hld s \<Longrightarrow> (d, k) \<notin> pin s \<Longrightarrow> vw s d k = dsk s d k"
    and fin: "finite (hld s)" "finite (pin s)"
begin

text \<open>Reading a block and releasing it.\<close>

lemma read_block:
  assumes "ok s" "good d k" "(d, k) \<notin> hld s" "(d, k) \<in> pin s \<or> card (hld s \<union> pin s) < size"
  shows "wp (andthen (rd d k) (\<lambda>b. andthen (get b) (\<lambda>x. andthen (rel b) (\<lambda>_. ret (f x)))))
     (\<lambda>r t. r = f (vw s d k) \<and> ok t \<and> vw t = vw s \<and> hld t = hld s \<and> pin t = pin s \<and> dsk t = dsk s \<and> hst t = hst s) s"
proof -
  have kept: "(d, k) \<in> pin s \<or> vw s d k = dsk s d k" using assms clean by blast
  show ?thesis
    unfolding wp_andthen
    apply (rule wp_conseq [OF rd [OF assms]])
    apply (elim conjE)
    apply (rule wp_conseq [OF get], assumption+)
    apply (elim conjE)
    apply (simp)
    apply (rule wp_conseq [OF rel], assumption+)
    using kept assms apply simp
    using assms by (simp add: wp_ret)
qed

text \<open>Reading a block, changing it, writing it to the disk and releasing it.\<close>

lemma write_block:
  assumes "ok s" "good d k" "(d, k) \<notin> hld s" "(d, k) \<in> pin s \<or> card (hld s \<union> pin s) < size"
  shows "wp (andthen (rd d k) (\<lambda>b. andthen (put b f) (\<lambda>_. andthen (wr b) (\<lambda>_. rel b))))
     (\<lambda>_ t. ok t \<and> vw t = (vw s)(d := (vw s d)(k := f (vw s d k))) \<and> hld t = hld s \<and> pin t = pin s - {(d, k)}
        \<and> dsk t = (dsk s)(d := (dsk s d)(k := f (vw s d k))) \<and> hst t = hst s @ [(d, k, f (vw s d k))]) s"
  unfolding wp_andthen
  apply (rule wp_conseq [OF rd [OF assms]])
  apply (elim conjE)
  apply (rule wp_conseq [OF put], assumption+)
  apply (elim conjE)
  apply (rule wp_conseq [OF wr], assumption, blast)
  apply (elim conjE)
  apply (rule wp_conseq [OF rel], assumption, blast)
  using assms by auto

text \<open>
  Copying one block over another, both held at once: \<open>copy_to_disk\<close> takes the destination second
  and releases the source first, \<open>copy_from_cache\<close> takes the destination first.
\<close>

lemma copy_to_disk:
  assumes ok: "ok s" and src: "good d k" "(d, k) \<notin> hld s" "(d, k) \<in> pin s \<or> card (hld s \<union> pin s) < size"
    and dst: "good d j" "(d, j) \<notin> hld s" "(d, j) \<in> pin s \<or> Suc (card (hld s \<union> pin s)) < size" and ne: "j \<noteq> k"
  shows "wp (andthen (rd d k) (\<lambda>l. andthen (rd d j) (\<lambda>b. andthen (get l) (\<lambda>x. andthen (put b (\<lambda>_. x)) (\<lambda>_.
       andthen (wr b) (\<lambda>_. andthen (rel l) (\<lambda>_. rel b)))))))
     (\<lambda>_ t. ok t \<and> vw t = (vw s)(d := (vw s d)(j := vw s d k)) \<and> hld t = hld s \<and> pin t = pin s - {(d, j)}
        \<and> dsk t = (dsk s)(d := (dsk s d)(j := vw s d k)) \<and> hst t = hst s @ [(d, j, vw s d k)]) s"
proof -
  have kept: "(d, k) \<in> pin s \<or> vw s d k = dsk s d k" using ok src clean by blast
  have "card (insert (d, k) (hld s \<union> pin s)) \<le> Suc (card (hld s \<union> pin s))" by (rule card_insert_le_m1) simp_all
  then have room: "(d, j) \<in> pin s \<or> card (insert (d, k) (hld s \<union> pin s)) < size" using dst(3) by linarith
  show ?thesis
    unfolding wp_andthen
    apply (rule wp_conseq [OF rd [OF ok src]], elim conjE)
    apply (rule wp_conseq [OF rd [OF _ dst(1)]], assumption)
      apply (use dst ne in simp)
     apply (use room in simp)
    apply (elim conjE)
    apply (rule wp_conseq [OF get [where d = d and k = k]], assumption, blast, elim conjE, hypsubst)
    apply (rule wp_conseq [OF put [where d = d and k = j]], assumption, blast, elim conjE)
    apply (rule wp_conseq [OF wr [where d = d and k = j]], assumption, blast, elim conjE)
    apply (rule wp_conseq [OF rel [where d = d and k = k]], assumption, blast)
     apply (use kept ne in simp)
    apply (elim conjE)
    apply (rule wp_conseq [OF rel [where d = d and k = j]], assumption)
      apply (metis ne prod.inject)
     apply (use ne in simp)
    using src dst ne by auto
qed

lemma copy_from_cache:
  assumes ok: "ok s" and dst: "good d j" "(d, j) \<notin> hld s" "(d, j) \<in> pin s \<or> card (hld s \<union> pin s) < size"
    and src: "good d k" "(d, k) \<notin> hld s" "(d, k) \<in> pin s \<or> Suc (card (hld s \<union> pin s)) < size" and ne: "j \<noteq> k"
  shows "wp (andthen (rd d j) (\<lambda>b. andthen (rd d k) (\<lambda>l. andthen (get l) (\<lambda>x. andthen (put b (\<lambda>_. x)) (\<lambda>_.
       andthen (wr b) (\<lambda>_. andthen (rel l) (\<lambda>_. rel b)))))))
     (\<lambda>_ t. ok t \<and> vw t = (vw s)(d := (vw s d)(j := vw s d k)) \<and> hld t = hld s \<and> pin t = pin s - {(d, j)}
        \<and> dsk t = (dsk s)(d := (dsk s d)(j := vw s d k)) \<and> hst t = hst s @ [(d, j, vw s d k)]) s"
proof -
  have kept: "(d, k) \<in> pin s \<or> vw s d k = dsk s d k" using ok src clean by blast
  have "card (insert (d, j) (hld s \<union> pin s)) \<le> Suc (card (hld s \<union> pin s))" by (rule card_insert_le_m1) simp_all
  then have room: "(d, k) \<in> pin s \<or> card (insert (d, j) (hld s \<union> pin s)) < size" using src(3) by linarith
  show ?thesis
    unfolding wp_andthen
    apply (rule wp_conseq [OF rd [OF ok dst]], elim conjE)
    apply (rule wp_conseq [OF rd [OF _ src(1)]], assumption)
      apply (use src ne in simp)
     apply (use room in simp)
    apply (elim conjE)
    apply (rule wp_conseq [OF get [where d = d and k = k]], assumption, blast, elim conjE, hypsubst)
    apply (rule wp_conseq [OF put [where d = d and k = j]], assumption, blast, elim conjE)
    apply (rule wp_conseq [OF wr [where d = d and k = j]], assumption, blast, elim conjE)
    apply (rule wp_conseq [OF rel [where d = d and k = k]], assumption, blast)
     apply (use kept ne in simp)
    apply (elim conjE)
    apply (rule wp_conseq [OF rel [where d = d and k = j]], assumption)
      apply (metis ne prod.inject)
     apply (use ne in simp)
    using src dst ne by auto
qed

end

interpretation bc: block_cache bcache_ok view held pinned disk hist holds blk_ok NBUF bread get_data put_data bwrite brelse
proof unfold_locales
  fix s d k assume "bcache_ok s" "blk_ok d k" "(d, k) \<notin> held s" "(d, k) \<in> pinned s \<or> card (held s \<union> pinned s) < NBUF"
  then show "wp (bread d k) (\<lambda>b t. bcache_ok t \<and> holds t b d k \<and> held t = insert (d, k) (held s) \<and> view t = view s
      \<and> pinned t = pinned s \<and> disk t = disk s \<and> hist t = hist s
      \<and> (\<forall>c d' k'. holds s c d' k' \<longrightarrow> holds t c d' k')) s"
    by (rule wp_conseq [OF bread_wp]) (auto simp: same_blocks_def keeps_held_def)
next
  fix s b d k f assume "bcache_ok s" "holds s b d k"
  then show "wp (put_data b f) (\<lambda>_ t. bcache_ok t \<and> view t = (view s)(d := (view s d)(k := f (view s d k)))
      \<and> held t = held s \<and> pinned t = pinned s \<and> disk t = disk s \<and> hist t = hist s
      \<and> (\<forall>c d' k'. holds s c d' k' \<longrightarrow> holds t c d' k')) s"
    by (rule wp_conseq [OF put_data_wp]) (auto simp: set_view_def keeps_held_def)
next
  fix s b d k assume "bcache_ok s" "holds s b d k"
  then show "wp (bwrite b) (\<lambda>_ t. bcache_ok t \<and> view t = view s \<and> held t = held s \<and> pinned t = pinned s - {(d, k)}
      \<and> disk t = (disk s)(d := (disk s d)(k := view s d k)) \<and> hist t = hist s @ [(d, k, view s d k)]
      \<and> (\<forall>c d' k'. holds s c d' k' \<longrightarrow> holds t c d' k')) s"
    by (rule wp_conseq [OF bwrite_wp]) (auto simp: keeps_held_def)
next
  fix s b d k assume "bcache_ok s" "holds s b d k" "(d, k) \<in> pinned s \<or> view s d k = disk s d k"
  then show "wp (brelse b) (\<lambda>_ t. bcache_ok t \<and> view t = view s \<and> held t = held s - {(d, k)} \<and> pinned t = pinned s
      \<and> disk t = disk s \<and> hist t = hist s
      \<and> (\<forall>c d' k'. (d', k') \<noteq> (d, k) \<longrightarrow> holds s c d' k' \<longrightarrow> holds t c d' k')) s"
    by (rule wp_conseq [OF brelse_wp]) (auto simp: same_blocks_def)
qed (auto intro: get_data_wp view_clean)

end
