(* ===== verification/Log.thy ===== *)
theory Log
  imports Bio
begin

text \<open>
  The write-ahead log of \<^verbatim>\<open>log.c\<close>, with \<^verbatim>\<open>readsb\<close> of \<^verbatim>\<open>fs.c\<close> that it needs
  at boot. The commit sequence is proved to be atomic under crashes: every prefix of
  its disk writes leaves a disk from which recovery produces either all or none of the
  transaction, and recovery may itself be interrupted and started again.
\<close>

section \<open>The super block\<close>

definition ROOTDEV :: u32 where "ROOTDEV = 1"
definition BSIZE :: nat where "BSIZE = 512"
definition MAXOPBLOCKS :: nat where "MAXOPBLOCKS = 10"
definition LOGSIZE :: nat where "LOGSIZE = MAXOPBLOCKS * 3"

record superblock =
  sb_size :: u32
  sb_nblocks :: u32
  sb_ninodes :: u32
  sb_nlog :: u32

definition superblock_of :: "bytes \<Rightarrow> superblock" where
  "superblock_of x = \<lparr>sb_size = get32 x 0, sb_nblocks = get32 x 4, sb_ninodes = get32 x 8, sb_nlog = get32 x 12\<rparr>"

definition readsb :: "u32 \<Rightarrow> (bio, superblock) kop" where
  "readsb dev =
     andthen (bread dev 1) (\<lambda>bp.
     andthen (get_data bp) (\<lambda>x.
     andthen (brelse bp) (\<lambda>_. ret (superblock_of x))))"

section \<open>State and operations\<close>

text \<open>
  \<^verbatim>\<open>struct log\<close> with the header \<^verbatim>\<open>struct logheader\<close> it contains. \<^verbatim>\<open>int\<close> fields that are
  counted or compared are integers; a sector number is a 32-bit word.
\<close>

record log =
  lbio :: bio
  log_start :: u32
  log_size :: int
  outstanding :: int
  committing :: bool
  log_dev :: u32
  lh_n :: int
  lh_sector :: "nat \<Rightarrow> u32"

definition lio :: "(bio, 'a) kop \<Rightarrow> (log, 'a) kop" where
  "lio = zoom lbio (\<lambda>b s. s\<lparr>lbio := b\<rparr>)"

text \<open>The accesses \<open>log.lh.sector[i]\<close> for all \<open>i < log.lh.n\<close> are in bounds.\<close>

definition lh_bounds :: "(log, unit) kop" where
  "lh_bounds = andthen (gets lh_n) (\<lambda>n. if int LOGSIZE < n then stop (Undef ''log.lh.sector'') else ret ())"

text \<open>The sector of the log block that holds the \<open>tail\<close>-th logged sector.\<close>

definition log_block :: "u32 \<Rightarrow> nat \<Rightarrow> u32" where
  "log_block start tail = start + of_nat tail + 1"

text \<open>One round of the loop of \<^verbatim>\<open>install_trans\<close>, and the loop.\<close>

definition install_block :: "nat \<Rightarrow> (log, unit) kop" where
  "install_block tail =
     andthen (gets (\<lambda>s. (log_dev s, log_block (log_start s) tail, lh_sector s tail))) (\<lambda>(dev, from, dst).
     lio (andthen (bread dev from) (\<lambda>lbuf.
          andthen (bread dev dst) (\<lambda>dbuf.
          andthen (get_data lbuf) (\<lambda>x.
          andthen (put_data dbuf (\<lambda>_. x)) (\<lambda>_.
          andthen (bwrite dbuf) (\<lambda>_.
          andthen (brelse lbuf) (\<lambda>_.
          brelse dbuf))))))))"

definition install_trans :: "(log, unit) kop" where
  "install_trans =
     andthen lh_bounds (\<lambda>_.
     andthen (gets lh_n) (\<lambda>n.
     mfor [0..<nat n] install_block))"

text \<open>The header block: \<^verbatim>\<open>n\<close> at offset 0, \<^verbatim>\<open>sector[i]\<close> at offset \<open>4 + 4 * i\<close>.\<close>

definition head_n :: "bytes \<Rightarrow> int" where
  "head_n x = sint (get32 x 0)"

definition head_sector :: "bytes \<Rightarrow> nat \<Rightarrow> u32" where
  "head_sector x i = get32 x (4 + 4 * i)"

definition head_bytes :: "int \<Rightarrow> (nat \<Rightarrow> u32) \<Rightarrow> bytes \<Rightarrow> bytes" where
  "head_bytes n sec x = fold (\<lambda>i y. put32 y (4 + 4 * i) (sec i)) [0..<nat n] (put32 x 0 (word_of_int n))"

definition read_head :: "(log, unit) kop" where
  "read_head =
     andthen (gets (\<lambda>s. (log_dev s, log_start s))) (\<lambda>(dev, start).
     andthen (lio (bread dev start)) (\<lambda>buf.
     andthen (lio (get_data buf)) (\<lambda>x.
     andthen (upd (\<lambda>s. s\<lparr>lh_n := head_n x\<rparr>)) (\<lambda>_.
     andthen lh_bounds (\<lambda>_.
     andthen (upd (\<lambda>s. s\<lparr>lh_sector := (\<lambda>i. if int i < lh_n s then head_sector x i else lh_sector s i)\<rparr>)) (\<lambda>_.
     lio (brelse buf)))))))"

definition write_head :: "(log, unit) kop" where
  "write_head =
     andthen lh_bounds (\<lambda>_.
     andthen (gets (\<lambda>s. (log_dev s, log_start s, lh_n s, lh_sector s))) (\<lambda>(dev, start, n, sec).
     lio (andthen (bread dev start) (\<lambda>buf.
          andthen (put_data buf (head_bytes n sec)) (\<lambda>_.
          andthen (bwrite buf) (\<lambda>_.
          brelse buf))))))"

definition recover_from_log :: "(log, unit) kop" where
  "recover_from_log =
     andthen read_head (\<lambda>_.
     andthen install_trans (\<lambda>_.
     andthen (upd (\<lambda>s. s\<lparr>lh_n := 0\<rparr>)) (\<lambda>_.
     write_head)))"

definition initlog :: "(log, unit) kop" where
  "initlog =
     andthen (panic_if (4 + 4 * LOGSIZE \<ge> BSIZE) ''initlog: too big logheader'') (\<lambda>_.
     andthen (lio (readsb ROOTDEV)) (\<lambda>sb.
     andthen (upd (\<lambda>s. s\<lparr>log_start := sb_size sb - sb_nlog sb, log_size := sint (sb_nlog sb), log_dev := ROOTDEV\<rparr>)) (\<lambda>_.
     recover_from_log)))"

definition begin_op :: "(log, unit) kop" where
  "begin_op =
     andthen (gets (\<lambda>s. s)) (\<lambda>s.
     if committing s then stop (Sleep Ch_log)
     else if lh_n s + (outstanding s + 1) * int MAXOPBLOCKS > int LOGSIZE then stop (Sleep Ch_log)
     else upd (\<lambda>s. s\<lparr>outstanding := outstanding s + 1\<rparr>))"

text \<open>One round of the loop of \<^verbatim>\<open>write_log\<close>, and the loop.\<close>

definition write_log_block :: "nat \<Rightarrow> (log, unit) kop" where
  "write_log_block tail =
     andthen (gets (\<lambda>s. (log_dev s, log_block (log_start s) tail, lh_sector s tail))) (\<lambda>(dev, dst, src).
     lio (andthen (bread dev dst) (\<lambda>to.
          andthen (bread dev src) (\<lambda>from.
          andthen (get_data from) (\<lambda>x.
          andthen (put_data to (\<lambda>_. x)) (\<lambda>_.
          andthen (bwrite to) (\<lambda>_.
          andthen (brelse from) (\<lambda>_.
          brelse to))))))))"

definition write_log :: "(log, unit) kop" where
  "write_log =
     andthen lh_bounds (\<lambda>_.
     andthen (gets lh_n) (\<lambda>n.
     mfor [0..<nat n] write_log_block))"

definition commit :: "(log, unit) kop" where
  "commit =
     andthen (gets lh_n) (\<lambda>n.
     if n > 0 then
       andthen write_log (\<lambda>_.
       andthen write_head (\<lambda>_.
       andthen install_trans (\<lambda>_.
       andthen (upd (\<lambda>s. s\<lparr>lh_n := 0\<rparr>)) (\<lambda>_.
       write_head))))
     else ret ())"

text \<open>
  \<^verbatim>\<open>end_op\<close> in its two critical sections: \<open>end_op_enter\<close> returns \<^verbatim>\<open>do_commit\<close>, and
  \<open>end_op_finish\<close> runs after the commit.
\<close>

definition end_op_enter :: "(log, bool) kop" where
  "end_op_enter =
     andthen (upd (\<lambda>s. s\<lparr>outstanding := outstanding s - 1\<rparr>)) (\<lambda>_.
     andthen (gets committing) (\<lambda>c.
     andthen (panic_if c ''log.committing'') (\<lambda>_.
     andthen (gets outstanding) (\<lambda>n.
     if n = 0 then andthen (upd (\<lambda>s. s\<lparr>committing := True\<rparr>)) (\<lambda>_. ret True) else ret False))))"

definition end_op_finish :: "(log, unit) kop" where
  "end_op_finish = upd (\<lambda>s. s\<lparr>committing := False\<rparr>)"

definition end_op :: "(log, unit) kop" where
  "end_op =
     andthen end_op_enter (\<lambda>do_commit.
     if do_commit then andthen commit (\<lambda>_. end_op_finish) else ret ())"

text \<open>The index \<open>i\<close> at which the absorption loop stops.\<close>

definition log_slot :: "int \<Rightarrow> (nat \<Rightarrow> u32) \<Rightarrow> u32 \<Rightarrow> nat" where
  "log_slot n sec k = (case find (\<lambda>i. sec i = k) [0..<nat n] of Some i \<Rightarrow> i | None \<Rightarrow> nat n)"

definition log_write :: "nat \<Rightarrow> (log, unit) kop" where
  "log_write b =
     andthen (gets (\<lambda>s. (lh_n s, log_size s, outstanding s))) (\<lambda>(n, size, out).
     andthen (panic_if (n \<ge> int LOGSIZE \<or> n \<ge> size - 1) ''too big a transaction'') (\<lambda>_.
     andthen (panic_if (out < 1) ''log_write outside of trans'') (\<lambda>_.
     andthen (gets (\<lambda>s. b_sector (bufs (lbio s) b))) (\<lambda>sector.
     andthen (gets (\<lambda>s. log_slot n (lh_sector s) sector)) (\<lambda>i.
     andthen (upd (\<lambda>s. s\<lparr>lh_sector := (lh_sector s)(i := sector)\<rparr>)) (\<lambda>_.
     andthen (if int i = n then upd (\<lambda>s. s\<lparr>lh_n := lh_n s + 1\<rparr>) else ret ()) (\<lambda>_.
     lio (mark_dirty b))))))))"

section \<open>Disk writes\<close>

text \<open>The effect of a sequence of sector writes, in order.\<close>

definition apply_writes :: "(u32 \<times> u32 \<times> bytes) list \<Rightarrow> (u32 \<Rightarrow> u32 \<Rightarrow> bytes) \<Rightarrow> u32 \<Rightarrow> u32 \<Rightarrow> bytes" where
  "apply_writes = fold (\<lambda>(d, k, x) D. D(d := (D d)(k := x)))"

definition written :: "(u32 \<times> u32 \<times> bytes) list \<Rightarrow> (u32 \<times> u32) set" where
  "written W = (\<lambda>(d, k, x). (d, k)) ` set W"

lemma apply_writes_simps [simp]:
  "apply_writes [] D = D"
  "apply_writes ((d, k, x) # W) D = apply_writes W (D(d := (D d)(k := x)))"
  "apply_writes (V @ W) D = apply_writes W (apply_writes V D)"
  by (simp_all add: apply_writes_def)

lemma written_simps [simp]:
  "written [] = {}" "written ((d, k, x) # W) = insert (d, k) (written W)" "written (V @ W) = written V \<union> written W"
  by (simp_all add: written_def image_Un)

lemma apply_writes_other: "(d, k) \<notin> written W \<Longrightarrow> apply_writes W D d k = D d k"
  by (induction W arbitrary: D) auto

text \<open>What a sequence of writes stores in a sector depends only on the sequence.\<close>

lemma apply_writes_same: "(d, k) \<in> written W \<Longrightarrow> apply_writes W D d k = apply_writes W E d k"
proof (induction W arbitrary: D E)
  case (Cons w W)
  obtain d' k' x where w: "w = (d', k', x)" by (cases w)
  show ?case
  proof (cases "(d, k) \<in> written W")
    case True
    with Cons.IH show ?thesis by (simp add: w)
  next
    case False
    with Cons.prems show ?thesis by (auto simp: w apply_writes_other)
  qed
qed simp

lemma apply_writes_absorb:
  assumes "written V \<subseteq> written W"
  shows "apply_writes W (apply_writes V D) = apply_writes W D"
proof (rule ext, rule ext)
  fix d k
  show "apply_writes W (apply_writes V D) d k = apply_writes W D d k"
  proof (cases "(d, k) \<in> written W")
    case True
    then show ?thesis by (rule apply_writes_same)
  next
    case False
    with assms have "(d, k) \<notin> written V" by blast
    with False show ?thesis by (simp add: apply_writes_other)
  qed
qed

lemma apply_writes_map:
  assumes "distinct (map f is)" and "i \<in> set is"
  shows "apply_writes (map (\<lambda>i. (d, f i, g i)) is) D d (f i) = g i"
  using assms
proof (induction "is" arbitrary: D)
  case (Cons j js)
  show ?case
  proof (cases "i \<in> set js")
    case True
    with Cons show ?thesis by simp
  next
    case False
    with Cons.prems have "i = j" "(d, f i) \<notin> written (map (\<lambda>i. (d, f i, g i)) js)"
      by (auto simp: written_def)
    then show ?thesis by (simp add: apply_writes_other)
  qed
qed simp

text \<open>The cache has written \<open>W\<close> through to the disk, and nothing else changed.\<close>

definition wrote :: "bio \<Rightarrow> (u32 \<times> u32 \<times> bytes) list \<Rightarrow> bio \<Rightarrow> bool" where
  "wrote s W t \<longleftrightarrow> bcache_ok t \<and> held t = held s \<and> hist t = hist s @ W \<and> pinned t = pinned s - written W
     \<and> disk t = apply_writes W (disk s) \<and> view t = apply_writes W (view s)"

lemma wrote_refl: "bcache_ok s \<Longrightarrow> wrote s [] s"
  by (simp add: wrote_def)

lemma wrote_trans: "wrote s V t \<Longrightarrow> wrote t W u \<Longrightarrow> wrote s (V @ W) u"
  by (auto simp: wrote_def)


section \<open>The operations on the disk\<close>

lemma wp_lio [wp_simps]: "wp (lio f) Q = (\<lambda>s. wp f (\<lambda>x b. Q x (s\<lparr>lbio := b\<rparr>)) (lbio s))"
  by (simp add: lio_def wp_zoom)

lemma lbio_update_inj [simp]: "s\<lparr>lbio := b\<rparr> = s\<lparr>lbio := c\<rparr> \<longleftrightarrow> b = c"
proof
  assume "s\<lparr>lbio := b\<rparr> = s\<lparr>lbio := c\<rparr>"
  then have "lbio (s\<lparr>lbio := b\<rparr>) = lbio (s\<lparr>lbio := c\<rparr>)" by (rule arg_cong)
  then show "b = c" by simp
qed simp

lemma wp_mfor_wrote:
  assumes "\<And>i u. i < n \<Longrightarrow> wrote (lbio s) (map w [0..<i]) u \<Longrightarrow>
      wp (f i) (\<lambda>_ t. \<exists>b. t = s\<lparr>lbio := b\<rparr> \<and> wrote u [w i] b) (s\<lparr>lbio := u\<rparr>)"
    and "bcache_ok (lbio s)"
  shows "wp (mfor [0..<n] f) (\<lambda>_ t. \<exists>b. t = s\<lparr>lbio := b\<rparr> \<and> wrote (lbio s) (map w [0..<n]) b) s"
proof -
  let ?I = "\<lambda>i t. \<exists>b. t = s\<lparr>lbio := b\<rparr> \<and> wrote (lbio s) (map w [0..<i]) b"
  have step: "wp (f i) (\<lambda>_. ?I (Suc i)) t" if "i < n" "?I i t" for i t
  proof -
    from that(2) obtain u where u: "t = s\<lparr>lbio := u\<rparr>" "wrote (lbio s) (map w [0..<i]) u" by blast
    show ?thesis
      unfolding u(1)
      by (rule wp_conseq [OF assms(1) [OF that(1) u(2)]]) (auto dest: wrote_trans [OF u(2)])
  qed
  have "wp (mfor [0..<n] f) (\<lambda>_. ?I (length [0..<n])) s"
  proof (rule wp_mfor)
    show "?I 0 s" using assms(2) by (intro exI [of _ "lbio s"]) (simp add: wrote_refl)
  qed (use step in simp)
  then show ?thesis by simp
qed

text \<open>The log lies behind the home sectors it logs, within the reach of the driver.\<close>

definition log_geom :: "log \<Rightarrow> bool" where
  "log_geom s \<longleftrightarrow> log_dev s = ROOTDEV \<and> unat (log_start s) + LOGSIZE < 2 ^ 28
     \<and> 0 \<le> lh_n s \<and> lh_n s < int LOGSIZE \<and> (\<forall>i < nat (lh_n s). unat (lh_sector s i) < unat (log_start s))"

lemma log_geom_lbio [simp]: "log_geom (s\<lparr>lbio := b\<rparr>) = log_geom s"
  by (simp add: log_geom_def)

lemma unat_log_block:
  assumes "unat start + LOGSIZE < 2 ^ 28" and "i < LOGSIZE"
  shows "unat (log_block start i) = unat start + i + 1"
proof -
  have "log_block start i = of_nat (unat start + i + 1)"
    by (simp add: log_block_def)
  moreover have "unat (of_nat (unat start + i + 1) :: u32) = unat start + i + 1"
    by (rule unat_of_nat_small) (use assms in simp)
  ultimately show ?thesis by (simp only:)
qed

lemma log_geom_blocks:
  assumes "log_geom s" and "i < nat (lh_n s)"
  shows "blk_ok ROOTDEV (log_block (log_start s) i)" "blk_ok ROOTDEV (lh_sector s i)"
    "unat (log_block (log_start s) i) = unat (log_start s) + i + 1"
    "unat (lh_sector s i) < unat (log_start s)"
proof -
  have i: "i < LOGSIZE" and st: "unat (log_start s) + LOGSIZE < 2 ^ 28"
    using assms by (auto simp: log_geom_def)
  show "unat (log_block (log_start s) i) = unat (log_start s) + i + 1"
    by (rule unat_log_block [OF st i])
  with i st show "blk_ok ROOTDEV (log_block (log_start s) i)"
    by (auto simp: blk_ok_def ROOTDEV_def)
  show "unat (lh_sector s i) < unat (log_start s)"
    using assms by (auto simp: log_geom_def)
  with st show "blk_ok ROOTDEV (lh_sector s i)"
    by (auto simp: blk_ok_def ROOTDEV_def)
qed

lemma log_block_not_home:
  assumes "log_geom s" and "i < nat (lh_n s)" and "j < nat (lh_n s)"
  shows "log_block (log_start s) i \<noteq> lh_sector s j" "lh_sector s j \<noteq> log_block (log_start s) i"
proof -
  have "unat (lh_sector s j) < unat (log_block (log_start s) i)"
    using log_geom_blocks(3) [OF assms(1,2)] log_geom_blocks(4) [OF assms(1,3)] by simp
  then show "log_block (log_start s) i \<noteq> lh_sector s j" "lh_sector s j \<noteq> log_block (log_start s) i" by auto
qed

text \<open>Enough buffers to hold, besides the pinned blocks, one more block, and two where the second is not pinned.\<close>

definition room_for :: "(u32 \<times> u32) set \<Rightarrow> (u32 \<times> u32) set \<Rightarrow> bool" where
  "room_for P S \<longleftrightarrow> finite P \<and> card P < NBUF \<and> (\<forall>x \<in> S. x \<in> P \<or> Suc (card P) < NBUF)"

lemma room_for_mono:
  assumes "room_for P S" and "P' \<subseteq> P"
  shows "room_for P' S"
proof -
  have fin: "finite P" "card P' \<le> card P" "finite P'"
    using assms by (auto simp: room_for_def card_mono finite_subset)
  have "x \<in> P' \<or> Suc (card P') < NBUF" if "x \<in> S" for x
  proof (cases "x \<in> P - P'")
    case True
    then have "card P' < card P" using assms(2) fin by (intro psubset_card_mono) auto
    with assms show ?thesis by (auto simp: room_for_def)
  next
    case False
    with assms that fin(2) show ?thesis by (fastforce simp: room_for_def)
  qed
  with fin assms show ?thesis by (auto simp: room_for_def)
qed

definition lh_blocks :: "log \<Rightarrow> (u32 \<times> u32) set" where
  "lh_blocks s = (\<lambda>i. (ROOTDEV, lh_sector s i)) ` {..<nat (lh_n s)}"

lemma wp_lh_bounds [wp_simps]: "wp lh_bounds Q = (\<lambda>s. lh_n s \<le> int LOGSIZE \<and> Q () s)"
  by (rule ext) (simp add: lh_bounds_def wp_simps)

definition log_copies :: "log \<Rightarrow> (u32 \<times> u32 \<times> bytes) list" where
  "log_copies s = map (\<lambda>i. (ROOTDEV, log_block (log_start s) i, view (lbio s) ROOTDEV (lh_sector s i))) [0..<nat (lh_n s)]"

definition home_copies :: "log \<Rightarrow> (u32 \<times> u32 \<times> bytes) list" where
  "home_copies s = map (\<lambda>i. (ROOTDEV, lh_sector s i, view (lbio s) ROOTDEV (log_block (log_start s) i))) [0..<nat (lh_n s)]"

lemma write_log_wp:
  assumes geom: "log_geom s" and ok: "bcache_ok (lbio s)" and idle: "held (lbio s) = {}"
    and room: "room_for (pinned (lbio s)) (lh_blocks s)"
  shows "wp write_log (\<lambda>_ t. \<exists>b. t = s\<lparr>lbio := b\<rparr> \<and> wrote (lbio s) (log_copies s) b) s"
proof -
  have dev: "log_dev s = ROOTDEV" using geom by (simp add: log_geom_def)
  have "wp (mfor [0..<nat (lh_n s)] write_log_block)
     (\<lambda>_ t. \<exists>b. t = s\<lparr>lbio := b\<rparr> \<and> wrote (lbio s) (log_copies s) b) s"
    unfolding log_copies_def
  proof (rule wp_mfor_wrote [OF _ ok], goal_cases)
    case (1 i u)
    let ?V = "map (\<lambda>i. (ROOTDEV, log_block (log_start s) i, view (lbio s) ROOTDEV (lh_sector s i))) [0..<i]"
    have other: "(ROOTDEV, lh_sector s i) \<notin> written ?V" "log_block (log_start s) i \<noteq> lh_sector s i"
      using log_block_not_home [OF geom] 1(1) by (auto simp: written_def)
    then have same: "view u ROOTDEV (lh_sector s i) = view (lbio s) ROOTDEV (lh_sector s i)"
      using 1(2) by (simp add: wrote_def apply_writes_other)
    have u: "bcache_ok u" "held u = {}" "pinned u \<subseteq> pinned (lbio s)"
      using 1(2) idle by (auto simp: wrote_def)
    then have "room_for (pinned u) (lh_blocks s)" using room by (blast intro: room_for_mono)
    then have rooms: "card (pinned u) < NBUF" "(ROOTDEV, lh_sector s i) \<in> pinned u \<or> Suc (card (pinned u)) < NBUF"
      using 1(1) by (auto simp: room_for_def lh_blocks_def)
    show ?case
      unfolding write_log_block_def wp_andthen wp_gets
      apply (simp add: wp_lio dev)
      apply (rule wp_conseq [OF bc.copy_from_cache [OF u(1) log_geom_blocks(1) [OF geom 1(1)] _ _ log_geom_blocks(2) [OF geom 1(1)]]])
      using u rooms other same by (auto simp: wrote_def)
  qed
  then show ?thesis
    using geom by (simp add: write_log_def wp_simps log_geom_def)
qed

lemma install_trans_wp:
  assumes geom: "log_geom s" and ok: "bcache_ok (lbio s)" and idle: "held (lbio s) = {}"
    and room: "room_for (pinned (lbio s)) (lh_blocks s)"
  shows "wp install_trans (\<lambda>_ t. \<exists>b. t = s\<lparr>lbio := b\<rparr> \<and> wrote (lbio s) (home_copies s) b) s"
proof -
  have dev: "log_dev s = ROOTDEV" using geom by (simp add: log_geom_def)
  have "wp (mfor [0..<nat (lh_n s)] install_block)
     (\<lambda>_ t. \<exists>b. t = s\<lparr>lbio := b\<rparr> \<and> wrote (lbio s) (home_copies s) b) s"
    unfolding home_copies_def
  proof (rule wp_mfor_wrote [OF _ ok], goal_cases)
    case (1 i u)
    let ?V = "map (\<lambda>i. (ROOTDEV, lh_sector s i, view (lbio s) ROOTDEV (log_block (log_start s) i))) [0..<i]"
    have other: "(ROOTDEV, log_block (log_start s) i) \<notin> written ?V" "lh_sector s i \<noteq> log_block (log_start s) i"
      using log_block_not_home [OF geom] 1(1) by (auto simp: written_def)
    then have same: "view u ROOTDEV (log_block (log_start s) i) = view (lbio s) ROOTDEV (log_block (log_start s) i)"
      using 1(2) by (simp add: wrote_def apply_writes_other)
    have u: "bcache_ok u" "held u = {}" "pinned u \<subseteq> pinned (lbio s)"
      using 1(2) idle by (auto simp: wrote_def)
    then have "room_for (pinned u) (lh_blocks s)" using room by (blast intro: room_for_mono)
    then have rooms: "card (pinned u) < NBUF" "(ROOTDEV, lh_sector s i) \<in> pinned u \<or> Suc (card (pinned u)) < NBUF"
      using 1(1) by (auto simp: room_for_def lh_blocks_def)
    show ?case
      unfolding install_block_def wp_andthen wp_gets
      apply (simp add: wp_lio dev)
      apply (rule wp_conseq [OF bc.copy_to_disk [OF u(1) log_geom_blocks(1) [OF geom 1(1)] _ _ log_geom_blocks(2) [OF geom 1(1)]]])
      using u rooms other same by (auto simp: wrote_def)
  qed
  then show ?thesis
    using geom by (simp add: install_trans_def wp_simps log_geom_def)
qed

lemma write_head_wp:
  assumes geom: "log_geom s" and ok: "bcache_ok (lbio s)" and idle: "held (lbio s) = {}"
    and room: "card (pinned (lbio s)) < NBUF"
  shows "wp write_head (\<lambda>_ t. \<exists>b. t = s\<lparr>lbio := b\<rparr> \<and> wrote (lbio s)
     [(ROOTDEV, log_start s, head_bytes (lh_n s) (lh_sector s) (view (lbio s) ROOTDEV (log_start s)))] b) s"
proof -
  have dev: "log_dev s = ROOTDEV" and blk: "blk_ok ROOTDEV (log_start s)"
    using geom by (auto simp: log_geom_def blk_ok_def ROOTDEV_def)
  have "wp (andthen (bread ROOTDEV (log_start s)) (\<lambda>buf. andthen (put_data buf (head_bytes (lh_n s) (lh_sector s))) (\<lambda>_.
        andthen (bwrite buf) (\<lambda>_. brelse buf))))
     (\<lambda>_. wrote (lbio s) [(ROOTDEV, log_start s, head_bytes (lh_n s) (lh_sector s) (view (lbio s) ROOTDEV (log_start s)))]) (lbio s)"
    by (rule wp_conseq [OF bc.write_block [OF ok blk]]) (use idle room in \<open>auto simp: wrote_def\<close>)
  then show ?thesis
    using geom by (simp add: write_head_def wp_simps dev) (simp add: log_geom_def)
qed

lemma apply_writes_induct:
  "P (D d k) \<Longrightarrow> (\<And>x. (d, k, x) \<in> set W \<Longrightarrow> P x) \<Longrightarrow> P (apply_writes W D d k)"
proof (induction W arbitrary: D)
  case (Cons w W)
  obtain d' k' x where w: "w = (d', k', x)" by (cases w)
  have "P (apply_writes W (D(d' := (D d')(k' := x))) d k)"
    using Cons.prems by (intro Cons.IH) (auto simp: w)
  then show ?case by (simp add: w)
qed simp

section \<open>The header block\<close>

lemma get32_fold_put32:
  "get32 (fold (\<lambda>i y. put32 y (4 + 4 * i) (f i)) [0..<m] x) 0 = get32 x 0"
  by (induction m) (simp_all add: get32_put32_other)

lemma get32_fold_put32_at:
  "i < m \<Longrightarrow> get32 (fold (\<lambda>i y. put32 y (4 + 4 * i) (f i)) [0..<m] x) (4 + 4 * i) = f i"
proof (induction m)
  case (Suc m)
  then show ?case by (cases "i = m") (simp_all add: get32_put32_other)
qed simp

lemma head_n_bytes:
  assumes "0 \<le> n" "n < int LOGSIZE"
  shows "head_n (head_bytes n sec x) = n"
proof -
  have "signed_take_bit 31 n = n"
    using assms by (intro signed_take_bit_int_eq_self) (auto simp: LOGSIZE_def MAXOPBLOCKS_def)
  then show ?thesis
    by (simp add: head_n_def head_bytes_def get32_fold_put32 sint_sbintrunc')
qed

lemma head_sector_bytes: "i < nat n \<Longrightarrow> head_sector (head_bytes n sec x) i = sec i"
  unfolding head_sector_def head_bytes_def by (rule get32_fold_put32_at)

section \<open>Recovery as a function of the disk\<close>

text \<open>The writes recovery makes from a disk, and the disk with these writes.\<close>

definition redo :: "u32 \<Rightarrow> (u32 \<Rightarrow> u32 \<Rightarrow> bytes) \<Rightarrow> (u32 \<times> u32 \<times> bytes) list" where
  "redo start D = map (\<lambda>i. (ROOTDEV, head_sector (D ROOTDEV start) i, D ROOTDEV (log_block start i)))
     [0..<nat (head_n (D ROOTDEV start))]"

definition recovered :: "u32 \<Rightarrow> (u32 \<Rightarrow> u32 \<Rightarrow> bytes) \<Rightarrow> u32 \<Rightarrow> u32 \<Rightarrow> bytes" where
  "recovered start D = apply_writes (redo start D) D"

lemma recovered_clear: "head_n (D ROOTDEV start) = 0 \<Longrightarrow> recovered start D = D"
  by (simp add: recovered_def redo_def)

text \<open>A disk recovery can start from: the header names at most \<open>LOGSIZE - 1\<close> home sectors.\<close>

definition log_valid :: "u32 \<Rightarrow> (u32 \<Rightarrow> u32 \<Rightarrow> bytes) \<Rightarrow> bool" where
  "log_valid start D \<longleftrightarrow> unat start + LOGSIZE < 2 ^ 28
     \<and> 0 \<le> head_n (D ROOTDEV start) \<and> head_n (D ROOTDEV start) < int LOGSIZE
     \<and> (\<forall>i < nat (head_n (D ROOTDEV start)). unat (head_sector (D ROOTDEV start) i) < unat start)"

section \<open>The invariant of the log\<close>

definition log_ok :: "log \<Rightarrow> bool" where
  "log_ok s \<longleftrightarrow> log_geom s \<and> bcache_ok (lbio s) \<and> pinned (lbio s) = lh_blocks s
     \<and> distinct (map (lh_sector s) [0..<nat (lh_n s)]) \<and> head_n (disk (lbio s) ROOTDEV (log_start s)) = 0"

definition home_new :: "log \<Rightarrow> (u32 \<times> u32 \<times> bytes) list" where
  "home_new s = map (\<lambda>i. (ROOTDEV, lh_sector s i, view (lbio s) ROOTDEV (lh_sector s i))) [0..<nat (lh_n s)]"

definition head_new :: "log \<Rightarrow> bytes" where
  "head_new s = head_bytes (lh_n s) (lh_sector s) (view (lbio s) ROOTDEV (log_start s))"

definition commit_writes :: "log \<Rightarrow> (u32 \<times> u32 \<times> bytes) list" where
  "commit_writes s = log_copies s @ [(ROOTDEV, log_start s, head_new s)] @ home_new s
     @ [(ROOTDEV, log_start s, head_bytes 0 (lh_sector s) (head_new s))]"

lemma lengths [simp]: "length (log_copies s) = nat (lh_n s)" "length (home_new s) = nat (lh_n s)"
  by (simp_all add: log_copies_def home_new_def)

lemma written_copies:
  "written (home_new s) = lh_blocks s"
  "written (log_copies s) = (\<lambda>i. (ROOTDEV, log_block (log_start s) i)) ` {..<nat (lh_n s)}"
  by (simp_all add: home_new_def log_copies_def written_def lh_blocks_def image_image lessThan_atLeast0)

lemma log_copies_log_only:
  assumes "log_geom s" and "unat k \<le> unat (log_start s)"
  shows "(ROOTDEV, k) \<notin> written (log_copies s)"
  using assms log_geom_blocks(3) [OF assms(1)] by (fastforce simp: written_copies)

lemma home_new_home_only:
  assumes "log_geom s" and "unat (log_start s) \<le> unat k"
  shows "(ROOTDEV, k) \<notin> lh_blocks s"
  using assms log_geom_blocks(4) [OF assms(1)] by (fastforce simp: lh_blocks_def)

lemma log_copies_at:
  assumes "log_geom s" and "i < nat (lh_n s)"
  shows "apply_writes (log_copies s) D ROOTDEV (log_block (log_start s) i) = view (lbio s) ROOTDEV (lh_sector s i)"
proof -
  have "inj_on (log_block (log_start s)) {..<nat (lh_n s)}"
    using log_geom_blocks(3) [OF assms(1)] by (intro inj_onI) (metis add_left_cancel add_right_cancel lessThan_iff)
  then show ?thesis
    unfolding log_copies_def using assms(2) by (intro apply_writes_map) (auto simp: distinct_map atLeast_upt lessThan_atLeast0)
qed

lemma log_ok_room:
  assumes "log_ok s"
  shows "room_for (pinned (lbio s)) (lh_blocks s)" "card (pinned (lbio s)) < NBUF"
proof -
  have "card (lh_blocks s) \<le> nat (lh_n s)"
    unfolding lh_blocks_def by (metis card_image_le card_lessThan finite_lessThan)
  moreover have "nat (lh_n s) < NBUF"
    using assms by (auto simp: log_ok_def log_geom_def NBUF_def LOGSIZE_def MAXOPBLOCKS_def)
  ultimately show "card (pinned (lbio s)) < NBUF" "room_for (pinned (lbio s)) (lh_blocks s)"
    using assms by (auto simp: log_ok_def room_for_def lh_blocks_def)
qed

section \<open>Commit\<close>

lemma commit_wp:
  assumes ok: "log_ok s" and idle: "held (lbio s) = {}" and n: "0 < lh_n s"
  shows "wp commit (\<lambda>_ t. \<exists>b. t = s\<lparr>lh_n := 0, lbio := b\<rparr> \<and> wrote (lbio s) (commit_writes s) b) s"
proof -
  have geom: "log_geom s" and bok: "bcache_ok (lbio s)" using ok by (auto simp: log_ok_def)
  let ?h = "(ROOTDEV, log_start s, head_new s)"
  let ?g = "(ROOTDEV, log_start s, head_bytes 0 (lh_sector s) (head_new s))"
  have 1: "wp write_log (\<lambda>_ t. \<exists>b. t = s\<lparr>lbio := b\<rparr> \<and> wrote (lbio s) (log_copies s) b) s"
    by (rule write_log_wp [OF geom bok idle log_ok_room(1) [OF ok]])
  have 2: "wp write_head (\<lambda>_ t. \<exists>c. t = s\<lparr>lbio := c\<rparr> \<and> wrote (lbio s) (log_copies s @ [?h]) c) (s\<lparr>lbio := b\<rparr>)"
    if b: "wrote (lbio s) (log_copies s) b" for b
  proof -
    have "card (pinned b) \<le> card (pinned (lbio s))"
      using b bc.fin(2) by (intro card_mono) (auto simp: wrote_def)
    then have "card (pinned b) < NBUF" using log_ok_room(2) [OF ok] by simp
    then have "wp write_head (\<lambda>_ t. \<exists>c. t = s\<lparr>lbio := b, lbio := c\<rparr> \<and> wrote b [(ROOTDEV, log_start s,
        head_bytes (lh_n s) (lh_sector s) (view b ROOTDEV (log_start s)))] c) (s\<lparr>lbio := b\<rparr>)"
      using b write_head_wp [of "s\<lparr>lbio := b\<rparr>"] geom idle by (simp add: wrote_def)
    moreover have "view b ROOTDEV (log_start s) = view (lbio s) ROOTDEV (log_start s)"
      using b log_copies_log_only [OF geom] by (simp add: wrote_def apply_writes_other)
    ultimately show ?thesis
      by (elim wp_conseq) (auto simp: head_new_def dest: wrote_trans [OF b])
  qed
  have 3: "wp install_trans (\<lambda>_ t. \<exists>c. t = s\<lparr>lbio := c\<rparr> \<and> wrote (lbio s) (log_copies s @ [?h] @ home_new s) c) (s\<lparr>lbio := b\<rparr>)"
    if b: "wrote (lbio s) (log_copies s @ [?h]) b" for b
  proof -
    have "room_for (pinned b) (lh_blocks s)"
      using b by (intro room_for_mono [OF log_ok_room(1) [OF ok]]) (auto simp: wrote_def)
    then have "wp install_trans (\<lambda>_ t. \<exists>c. t = s\<lparr>lbio := b, lbio := c\<rparr> \<and> wrote b (home_copies (s\<lparr>lbio := b\<rparr>)) c) (s\<lparr>lbio := b\<rparr>)"
      using b install_trans_wp [of "s\<lparr>lbio := b\<rparr>"] geom idle by (simp add: wrote_def lh_blocks_def)
    moreover have "home_copies (s\<lparr>lbio := b\<rparr>) = home_new s"
    proof -
      have "view b ROOTDEV (log_block (log_start s) i) = view (lbio s) ROOTDEV (lh_sector s i)" if "i < nat (lh_n s)" for i
        using b log_copies_at [OF geom that] log_geom_blocks(3) [OF geom that] by (auto simp: wrote_def)
      then show ?thesis by (simp add: home_copies_def home_new_def)
    qed
    ultimately show ?thesis
      by (elim wp_conseq) (auto dest: wrote_trans [OF b])
  qed
  have 4: "wp write_head (\<lambda>_ t. \<exists>c. t = s\<lparr>lh_n := 0, lbio := c\<rparr> \<and> wrote (lbio s) (commit_writes s) c) (s\<lparr>lbio := b, lh_n := 0\<rparr>)"
    if b: "wrote (lbio s) (log_copies s @ [?h] @ home_new s) b" for b
  proof -
    have "card (pinned b) \<le> card (pinned (lbio s))"
      using b bc.fin(2) by (intro card_mono) (auto simp: wrote_def)
    then have "card (pinned b) < NBUF" using log_ok_room(2) [OF ok] by simp
    moreover have "log_geom (s\<lparr>lbio := b, lh_n := 0\<rparr>)"
      using geom by (simp add: log_geom_def LOGSIZE_def MAXOPBLOCKS_def)
    ultimately have "wp write_head (\<lambda>_ t. \<exists>c. t = s\<lparr>lh_n := 0, lbio := c\<rparr> \<and> wrote b [(ROOTDEV, log_start s,
        head_bytes 0 (lh_sector s) (view b ROOTDEV (log_start s)))] c) (s\<lparr>lbio := b, lh_n := 0\<rparr>)"
      using b write_head_wp [of "s\<lparr>lbio := b, lh_n := 0\<rparr>"] idle by (simp add: wrote_def)
    moreover have "view b ROOTDEV (log_start s) = head_new s"
      using b home_new_home_only [OF geom] by (simp add: wrote_def apply_writes_other written_copies)
    ultimately show ?thesis
      by (elim wp_conseq) (auto simp: commit_writes_def dest: wrote_trans [OF b])
  qed
  show ?thesis
    unfolding commit_def wp_andthen wp_gets
    using n by (auto simp: wp_andthen wp_upd intro!: wp_conseq [OF 1] wp_conseq [OF 2] wp_conseq [OF 3] 4)
qed


lemma home_new_at:
  assumes ok: "log_ok s" and idle: "held (lbio s) = {}"
    and E: "(ROOTDEV, k) \<notin> lh_blocks s \<Longrightarrow> E ROOTDEV k = disk (lbio s) ROOTDEV k"
  shows "apply_writes (home_new s) E ROOTDEV k = view (lbio s) ROOTDEV k"
proof (cases "(ROOTDEV, k) \<in> lh_blocks s")
  case True
  then obtain i where "k = lh_sector s i" "i < nat (lh_n s)" by (auto simp: lh_blocks_def)
  with ok show ?thesis
    unfolding home_new_def by (auto simp: log_ok_def intro!: apply_writes_map)
next
  case False
  then have "view (lbio s) ROOTDEV k = disk (lbio s) ROOTDEV k"
    using ok idle by (intro view_clean) (auto simp: log_ok_def)
  with False E show ?thesis by (simp add: apply_writes_other written_copies)
qed

text \<open>
  A crash after any number of the writes of a commit: recovery yields the old home
  sectors as long as the header has not been written, and the new ones from then on.
\<close>

lemma commit_crash:
  assumes ok: "log_ok s" and idle: "held (lbio s) = {}" and i: "i \<le> length (commit_writes s)"
    and k: "unat k < unat (log_start s)"
  shows "recovered (log_start s) (apply_writes (take i (commit_writes s)) (disk (lbio s))) ROOTDEV k
     = (if i \<le> nat (lh_n s) then disk (lbio s) ROOTDEV k else view (lbio s) ROOTDEV k)"
proof -
  let ?n = "nat (lh_n s)" and ?D = "disk (lbio s)" and ?st = "log_start s"
  let ?h = "(ROOTDEV, ?st, head_new s)"
  have geom: "log_geom s" and clear: "head_n (?D ROOTDEV ?st) = 0" using ok by (auto simp: log_ok_def)
  have n: "0 \<le> lh_n s" "lh_n s < int LOGSIZE" using geom by (auto simp: log_geom_def)
  define E where "E = apply_writes (take i (commit_writes s)) ?D"
  have kst: "k \<noteq> ?st" and not_log: "(ROOTDEV, k) \<notin> written (log_copies s)" "(ROOTDEV, ?st) \<notin> written (log_copies s)"
    and not_home: "(ROOTDEV, ?st) \<notin> lh_blocks s"
    using k log_copies_log_only [OF geom] home_new_home_only [OF geom] by auto
  have sub: "written (take j V) \<subseteq> written V" for j and V :: "(u32 \<times> u32 \<times> bytes) list"
    unfolding written_def by (rule image_mono) (rule set_take_subset)
  have "i \<le> ?n \<or> (i = Suc ?n + (i - Suc ?n) \<and> i - Suc ?n \<le> ?n) \<or> i = 2 * ?n + 2"
    using i unfolding commit_writes_def by simp linarith
  then consider (old) "i \<le> ?n" | (mid) j where "i = Suc ?n + j" "j \<le> ?n" | (all) "i = 2 * ?n + 2"
    by blast
  then have "recovered ?st E ROOTDEV k = (if i \<le> ?n then ?D ROOTDEV k else view (lbio s) ROOTDEV k)"
  proof cases
    case old
    then have "E = apply_writes (take i (log_copies s)) ?D" by (simp add: E_def commit_writes_def)
    moreover have "(ROOTDEV, k) \<notin> written (take i (log_copies s))" "(ROOTDEV, ?st) \<notin> written (take i (log_copies s))"
      using sub [of i "log_copies s"] not_log by auto
    ultimately have "E ROOTDEV k = ?D ROOTDEV k" "head_n (E ROOTDEV ?st) = 0"
      using clear by (simp_all add: apply_writes_other)
    with old show ?thesis by (simp add: recovered_clear)
  next
    case mid
    then have E: "E = apply_writes (take j (home_new s)) (apply_writes (log_copies s @ [?h]) ?D)"
      by (simp add: E_def commit_writes_def)
    have tk: "written (take j (home_new s)) \<subseteq> lh_blocks s" using sub [of j "home_new s"] by (simp add: written_copies)
    then have skip: "apply_writes (take j (home_new s)) F ROOTDEV m = F ROOTDEV m" if "(ROOTDEV, m) \<notin> lh_blocks s" for F m
      using that by (intro apply_writes_other) blast
    then have "E ROOTDEV ?st = head_new s"
      using not_home by (simp add: E)
    moreover have "E ROOTDEV (log_block ?st m) = view (lbio s) ROOTDEV (lh_sector s m)" if "m < ?n" for m
    proof -
      have "unat (log_block ?st m) = unat ?st + m + 1" using log_geom_blocks [OF geom that] by blast
      then have "(ROOTDEV, log_block ?st m) \<notin> lh_blocks s" "log_block ?st m \<noteq> ?st"
        using home_new_home_only [OF geom] by auto
      then show ?thesis by (simp add: E skip log_copies_at [OF geom that])
    qed
    ultimately have "redo ?st E = home_new s"
      using head_n_bytes [OF n] head_sector_bytes by (simp add: redo_def home_new_def head_new_def)
    moreover have "(ROOTDEV, k) \<notin> lh_blocks s \<Longrightarrow> E ROOTDEV k = ?D ROOTDEV k"
      using not_log kst by (simp add: E skip apply_writes_other)
    ultimately show ?thesis
      using mid home_new_at [OF ok idle] by (simp add: recovered_def)
  next
    case all
    then have "take i (commit_writes s) = commit_writes s" by (simp add: commit_writes_def)
    then have E: "E = apply_writes (commit_writes s) ?D" by (simp add: E_def)
    then have "head_n (E ROOTDEV ?st) = 0" using n by (simp add: commit_writes_def head_n_bytes)
    then have "recovered ?st E = E" by (rule recovered_clear)
    moreover have "E ROOTDEV k = view (lbio s) ROOTDEV k"
      using not_log kst home_new_at [OF ok idle, of k "apply_writes (log_copies s @ [?h]) ?D"]
      by (simp add: E commit_writes_def apply_writes_other)
    ultimately show ?thesis using all by simp
  qed
  then show ?thesis by (simp add: E_def)
qed

section \<open>Recovery\<close>

text \<open>Every prefix of the writes of a commit also leaves a log that recovery accepts.\<close>

lemma log_valid_home:
  assumes "log_valid start D" and "E ROOTDEV start = D ROOTDEV start"
  shows "log_valid start E"
  using assms by (simp add: log_valid_def)

lemma commit_crash_valid:
  assumes ok: "log_ok s"
  shows "log_valid (log_start s) (apply_writes (take i (commit_writes s)) (disk (lbio s)))"
proof -
  let ?st = "log_start s" and ?D = "disk (lbio s)"
  have geom: "log_geom s" and clear: "head_n (?D ROOTDEV ?st) = 0" using ok by (auto simp: log_ok_def)
  have n: "0 \<le> lh_n s" "lh_n s < int LOGSIZE" using geom by (auto simp: log_geom_def)
  have "x = head_new s \<or> head_n x = 0" if "(ROOTDEV, ?st, x) \<in> set (commit_writes s)" for x
  proof -
    have "(ROOTDEV, ?st, x) \<notin> set (log_copies s)" "(ROOTDEV, ?st, x) \<notin> set (home_new s)"
      using log_copies_log_only [OF geom, of ?st] home_new_home_only [OF geom, of ?st]
      by (force simp: written_def simp flip: written_copies(1))+
    with that show ?thesis by (auto simp: commit_writes_def head_n_bytes LOGSIZE_def MAXOPBLOCKS_def)
  qed
  then have "apply_writes (take i (commit_writes s)) ?D ROOTDEV ?st = head_new s
      \<or> head_n (apply_writes (take i (commit_writes s)) ?D ROOTDEV ?st) = 0"
    using clear by (intro apply_writes_induct [where P = "\<lambda>x. x = head_new s \<or> head_n x = 0"]) (auto dest: in_set_takeD)
  then show ?thesis
    using geom n by (auto simp: log_valid_def log_geom_def head_new_def head_n_bytes head_sector_bytes LOGSIZE_def MAXOPBLOCKS_def)
qed

lemma view_is_disk: "bcache_ok s \<Longrightarrow> held s = {} \<Longrightarrow> pinned s = {} \<Longrightarrow> view s = disk s"
  by (rule ext, rule ext, rule view_clean) simp_all

lemma read_head_wp:
  assumes ok: "bcache_ok (lbio s)" and idle: "held (lbio s) = {}" "card (pinned (lbio s)) < NBUF"
    and dev: "log_dev s = ROOTDEV" "blk_ok ROOTDEV (log_start s)"
    and n: "head_n (view (lbio s) ROOTDEV (log_start s)) \<le> int LOGSIZE"
  shows "wp read_head (\<lambda>_ t. \<exists>b. wrote (lbio s) [] b \<and>
     t = s\<lparr>lh_n := head_n (view (lbio s) ROOTDEV (log_start s)),
           lh_sector := (\<lambda>i. if int i < head_n (view (lbio s) ROOTDEV (log_start s))
              then head_sector (view (lbio s) ROOTDEV (log_start s)) i else lh_sector s i), lbio := b\<rparr>) s"
proof -
  have clean: "(ROOTDEV, log_start s) \<in> pinned (lbio s)
      \<or> view (lbio s) ROOTDEV (log_start s) = disk (lbio s) ROOTDEV (log_start s)"
    using view_clean [OF ok] idle by auto
  show ?thesis
    unfolding read_head_def
    apply (simp add: wp_simps dev)
    apply (rule wp_conseq [OF bc.rd [OF ok dev(2)]])
      apply (use idle in simp)
     apply (use idle in simp)
    apply (elim conjE)
    apply (rule wp_conseq [OF bc.get], assumption, assumption, elim conjE, hypsubst)
    apply (simp add: n)
    apply (rule wp_conseq [OF bc.rel], assumption, assumption)
     apply (use clean in simp)
    using idle by (auto simp: wrote_def cong: if_cong)
qed

text \<open>What recovery writes: the logged sectors, then a header that names none.\<close>

definition recovery_writes :: "u32 \<Rightarrow> (u32 \<Rightarrow> u32 \<Rightarrow> bytes) \<Rightarrow> (u32 \<times> u32 \<times> bytes) list" where
  "recovery_writes start D = redo start D @ [(ROOTDEV, start, put32 (D ROOTDEV start) 0 0)]"

lemma head_bytes_0: "head_bytes 0 sec x = put32 x 0 0"
  by (simp add: head_bytes_def)

lemma redo_home:
  assumes "log_valid start D" and "unat start \<le> unat k"
  shows "(ROOTDEV, k) \<notin> written (redo start D)"
  using assms by (fastforce simp: log_valid_def redo_def written_def)

lemma recover_from_log_wp:
  assumes ok: "bcache_ok (lbio s)" and idle: "held (lbio s) = {}" "pinned (lbio s) = {}"
    and dev: "log_dev s = ROOTDEV" and valid: "log_valid (log_start s) (disk (lbio s))"
  shows "wp recover_from_log (\<lambda>_ t. \<exists>b sec. t = s\<lparr>lh_sector := sec, lh_n := 0, lbio := b\<rparr>
     \<and> wrote (lbio s) (recovery_writes (log_start s) (disk (lbio s))) b) s"
proof -
  let ?D = "disk (lbio s)" and ?st = "log_start s"
  let ?n = "head_n (?D ROOTDEV ?st)"
  define sec where "sec i = (if int i < ?n then head_sector (?D ROOTDEV ?st) i else lh_sector s i)" for i
  define s1 where "s1 b = s\<lparr>lh_n := ?n, lh_sector := sec, lbio := b\<rparr>" for b
  have vd: "view (lbio s) = ?D" by (rule view_is_disk [OF ok idle])
  have blk: "blk_ok ROOTDEV ?st" using valid by (auto simp: log_valid_def blk_ok_def ROOTDEV_def)
  have geom: "log_geom (s1 b)" for b
    using valid dev by (auto simp: s1_def log_geom_def log_valid_def sec_def)
  have sels: "lbio (s1 b) = b" "log_start (s1 b) = ?st" "lh_n (s1 b) = ?n" "lh_sector (s1 b) = sec" for b
    by (simp_all add: s1_def)
  have 1: "wp read_head (\<lambda>_ t. \<exists>b. wrote (lbio s) [] b \<and> t = s1 b) s"
    using read_head_wp [OF ok idle(1) _ dev blk] valid idle
    by (simp add: vd log_valid_def NBUF_def s1_def sec_def [abs_def] cong: if_cong)
  have 2: "wp install_trans (\<lambda>_ t. \<exists>c. t = s1 c \<and> wrote (lbio s) (redo ?st ?D) c) (s1 b)"
    if b: "wrote (lbio s) [] b" for b
  proof -
    have "room_for (pinned b) (lh_blocks (s1 b))" using b idle by (simp add: wrote_def room_for_def NBUF_def)
    then have "wp install_trans (\<lambda>_ t. \<exists>c. t = (s1 b)\<lparr>lbio := c\<rparr> \<and> wrote b (home_copies (s1 b)) c) (s1 b)"
      using b install_trans_wp [OF geom, of b] idle by (simp add: sels wrote_def)
    moreover have "home_copies (s1 b) = redo ?st ?D"
      using b by (auto simp: home_copies_def redo_def sels wrote_def vd sec_def)
    ultimately show ?thesis
      using wrote_trans [OF b] by (elim wp_conseq) (auto simp: s1_def)
  qed
  have 3: "wp write_head (\<lambda>_ t. \<exists>c sec. t = s\<lparr>lh_sector := sec, lh_n := 0, lbio := c\<rparr>
      \<and> wrote (lbio s) (recovery_writes ?st ?D) c) ((s1 b)\<lparr>lh_n := 0\<rparr>)"
    if b: "wrote (lbio s) (redo ?st ?D) b" for b
  proof -
    have "log_geom ((s1 b)\<lparr>lh_n := 0\<rparr>)"
      using geom [of b] by (simp add: log_geom_def LOGSIZE_def MAXOPBLOCKS_def)
    moreover have "view b ROOTDEV ?st = ?D ROOTDEV ?st"
      using b redo_home [OF valid] by (simp add: wrote_def vd apply_writes_other)
    ultimately have "wp write_head (\<lambda>_ t. \<exists>c. t = ((s1 b)\<lparr>lh_n := 0\<rparr>)\<lparr>lbio := c\<rparr>
        \<and> wrote b [(ROOTDEV, ?st, put32 (?D ROOTDEV ?st) 0 0)] c) ((s1 b)\<lparr>lh_n := 0\<rparr>)"
      using b write_head_wp [of "(s1 b)\<lparr>lh_n := 0\<rparr>"] idle by (simp add: wrote_def sels head_bytes_0 NBUF_def)
    then show ?thesis
      by (elim wp_conseq, elim exE conjE)
        (intro exI conjI, auto simp: recovery_writes_def s1_def dest: wrote_trans [OF b])
  qed
  show ?thesis
    unfolding recover_from_log_def wp_andthen wp_upd
    apply (rule wp_conseq [OF 1], elim exE conjE, hypsubst)
    apply (rule wp_conseq [OF 2], assumption, elim exE conjE, hypsubst)
    by (rule 3)
qed

text \<open>Recovery can be interrupted after any of its writes and run again.\<close>

lemma recover_crash:
  assumes valid: "log_valid start D"
  shows "log_valid start (apply_writes (take i (recovery_writes start D)) D)"
    and "unat k < unat start \<Longrightarrow>
      recovered start (apply_writes (take i (recovery_writes start D)) D) ROOTDEV k = recovered start D ROOTDEV k"
proof -
  define E where "E = apply_writes (take i (recovery_writes start D)) D"
  have "log_valid start E \<and> (unat k < unat start \<longrightarrow> recovered start E ROOTDEV k = recovered start D ROOTDEV k)"
  proof (cases "i \<le> length (redo start D)")
    case True
    then have E: "E = apply_writes (take i (redo start D)) D" by (simp add: E_def recovery_writes_def)
    have sub: "written (take i (redo start D)) \<subseteq> written (redo start D)"
      unfolding written_def by (rule image_mono) (rule set_take_subset)
    have keep: "E ROOTDEV m = D ROOTDEV m" if "unat start \<le> unat m" for m
      unfolding E using sub redo_home [OF valid that] by (intro apply_writes_other) blast
    have "E ROOTDEV (log_block start j) = D ROOTDEV (log_block start j)" if "j < nat (head_n (D ROOTDEV start))" for j
      using that valid unat_log_block [of start j] by (intro keep) (auto simp: log_valid_def)
    then have "redo start E = redo start D"
      using keep [of start] by (simp add: redo_def)
    then have "recovered start E = recovered start D"
      by (simp add: recovered_def E apply_writes_absorb [OF sub])
    with keep [of start] valid show ?thesis by (simp add: log_valid_home)
  next
    case False
    then have E: "E = apply_writes (recovery_writes start D) D" by (simp add: E_def recovery_writes_def)
    then have clear: "head_n (E ROOTDEV start) = 0"
      by (simp add: recovery_writes_def head_n_def)
    moreover have "E ROOTDEV k = recovered start D ROOTDEV k" if "unat k < unat start"
      using that by (auto simp: E recovery_writes_def recovered_def)
    ultimately show ?thesis using valid by (simp add: recovered_clear log_valid_def LOGSIZE_def MAXOPBLOCKS_def)
  qed
  then show "log_valid start (apply_writes (take i (recovery_writes start D)) D)"
    and "unat k < unat start \<Longrightarrow>
      recovered start (apply_writes (take i (recovery_writes start D)) D) ROOTDEV k = recovered start D ROOTDEV k"
    by (auto simp: E_def)
qed

section \<open>Boot\<close>

text \<open>The part of the boot sequence that brings up the disk: \<^verbatim>\<open>binit\<close>, then \<^verbatim>\<open>initlog\<close>.\<close>

definition boot_disk :: "(log, unit) kop" where
  "boot_disk = andthen (lio binit) (\<lambda>_. initlog)"

definition log_start_of :: "(u32 \<Rightarrow> u32 \<Rightarrow> bytes) \<Rightarrow> u32" where
  "log_start_of D = sb_size (superblock_of (D ROOTDEV 1)) - sb_nlog (superblock_of (D ROOTDEV 1))"

lemma readsb_wp:
  assumes "bcache_ok s" and "blk_ok d 1" and "(d, 1) \<notin> held s" and "(d, 1) \<in> pinned s \<or> card (held s \<union> pinned s) < NBUF"
  shows "wp (readsb d) (\<lambda>r t. r = superblock_of (view s d 1) \<and> bcache_ok t \<and> same_blocks s t \<and> held t = held s) s"
  unfolding readsb_def by (rule wp_conseq [OF bc.read_block [OF assms]]) (simp add: same_blocks_def)

lemma boot_disk_wp:
  assumes boot: "boot_bio (lbio s)" and valid: "log_valid (log_start_of (disk (lbio s))) (disk (lbio s))"
  defines "D \<equiv> disk (lbio s)"
  shows "wp boot_disk (\<lambda>_ t. log_ok t \<and> held (lbio t) = {} \<and> lh_n t = 0 \<and> log_start t = log_start_of D
     \<and> log_size t = sint (sb_nlog (superblock_of (D ROOTDEV 1)))
     \<and> outstanding t = outstanding s \<and> committing t = committing s
     \<and> disk (lbio t) = apply_writes (recovery_writes (log_start_of D) D) D
     \<and> hist (lbio t) = hist (lbio s) @ recovery_writes (log_start_of D) D) s"
proof -
  let ?st = "log_start_of D"
  have blk: "blk_ok ROOTDEV 1" by (simp add: blk_ok_def ROOTDEV_def)
  have 1: "wp binit (\<lambda>_ b. bcache_ok b \<and> held b = {} \<and> pinned b = {} \<and> view b = D \<and> disk b = D
      \<and> hist b = hist (lbio s)) (lbio s)"
    using wp_conseq [OF binit_wp [OF boot]] by (simp add: D_def)
  have 2: "wp (readsb ROOTDEV) (\<lambda>r c. r = superblock_of (D ROOTDEV 1) \<and> bcache_ok c \<and> held c = {} \<and> pinned c = {}
      \<and> view c = D \<and> disk c = D \<and> hist c = hist (lbio s)) b"
    if "bcache_ok b \<and> held b = {} \<and> pinned b = {} \<and> view b = D \<and> disk b = D \<and> hist b = hist (lbio s)" for b
    by (rule wp_conseq [OF readsb_wp [OF _ blk]]) (use that in \<open>auto simp: same_blocks_def NBUF_def\<close>)
  have 3: "wp recover_from_log (\<lambda>_ t. log_ok t \<and> held (lbio t) = {} \<and> lh_n t = 0 \<and> log_start t = ?st
     \<and> log_size t = log_size u \<and> outstanding t = outstanding u \<and> committing t = committing u
     \<and> disk (lbio t) = apply_writes (recovery_writes ?st D) D
     \<and> hist (lbio t) = hist (lbio s) @ recovery_writes ?st D) u"
    if u: "log_dev u = ROOTDEV" "log_start u = ?st" and c: "bcache_ok (lbio u)" "held (lbio u) = {}" "pinned (lbio u) = {}"
       "disk (lbio u) = D" "hist (lbio u) = hist (lbio s)" for u
  proof (rule wp_conseq [OF recover_from_log_wp [OF c(1-3) u(1)]])
    show "log_valid (log_start u) (disk (lbio u))" using valid u c by (simp add: D_def)
    fix x t assume "\<exists>b sec. t = u\<lparr>lh_sector := sec, lh_n := 0, lbio := b\<rparr>
      \<and> wrote (lbio u) (recovery_writes (log_start u) (disk (lbio u))) b"
    then obtain b sec where t: "t = u\<lparr>lh_sector := sec, lh_n := 0, lbio := b\<rparr>"
      and b: "wrote (lbio u) (recovery_writes ?st D) b" using u c by auto
    have "head_n (disk b ROOTDEV ?st) = 0"
      using b by (simp add: wrote_def recovery_writes_def head_n_def)
    moreover have "unat ?st + LOGSIZE < 2 ^ 28" using valid by (simp add: log_valid_def D_def)
    ultimately show "log_ok t \<and> held (lbio t) = {} \<and> lh_n t = 0 \<and> log_start t = ?st
     \<and> log_size t = log_size u \<and> outstanding t = outstanding u \<and> committing t = committing u
     \<and> disk (lbio t) = apply_writes (recovery_writes ?st D) D
     \<and> hist (lbio t) = hist (lbio s) @ recovery_writes ?st D"
      using b u c by (simp add: t log_ok_def log_geom_def wrote_def lh_blocks_def LOGSIZE_def MAXOPBLOCKS_def)
  qed
  show ?thesis
    unfolding boot_disk_def initlog_def wp_andthen wp_lio wp_upd wp_panic_if
    apply (rule wp_conseq [OF 1])
    apply (intro conjI)
     apply (simp add: LOGSIZE_def MAXOPBLOCKS_def BSIZE_def)
    apply simp
    apply (rule wp_conseq [OF 2], assumption)
    apply (elim conjE)
    apply (rule wp_conseq [OF 3])
    by (simp_all add: log_start_of_def)
qed

section \<open>Logged writes\<close>

lemma lh_blocks_lbio [simp]: "lh_blocks (s\<lparr>lbio := b\<rparr>) = lh_blocks s"
  by (simp add: lh_blocks_def)

lemma log_slot_found:
  assumes "k \<in> sec ` {..<nat n}"
  shows "log_slot n sec k < nat n" "sec (log_slot n sec k) = k"
proof -
  from assms obtain i where "find (\<lambda>i. sec i = k) [0..<nat n] = Some i"
    by (cases "find (\<lambda>i. sec i = k) [0..<nat n]") (auto simp: find_None_iff)
  moreover from this have "i < nat n" "sec i = k" by (auto simp: find_Some_iff)
  ultimately show "log_slot n sec k < nat n" "sec (log_slot n sec k) = k"
    by (simp_all add: log_slot_def)
qed

lemma log_slot_new: "k \<notin> sec ` {..<nat n} \<Longrightarrow> log_slot n sec k = nat n"
proof -
  assume "k \<notin> sec ` {..<nat n}"
  then have "find (\<lambda>i. sec i = k) [0..<nat n] = None" by (auto simp: find_None_iff)
  then show ?thesis by (simp add: log_slot_def)
qed

text \<open>The configuration of the log that no operation of a transaction changes.\<close>

definition same_conf :: "log \<Rightarrow> log \<Rightarrow> bool" where
  "same_conf s t \<longleftrightarrow> log_start t = log_start s \<and> log_size t = log_size s \<and> outstanding t = outstanding s
     \<and> committing t = committing s \<and> log_dev t = log_dev s"

lemma log_write_wp:
  assumes ok: "log_ok s" and b: "holds (lbio s) b ROOTDEV k" and home: "unat k < unat (log_start s)"
    and room: "lh_n s < int LOGSIZE - 1" "lh_n s < log_size s - 1" and tx: "1 \<le> outstanding s"
  shows "wp (log_write b) (\<lambda>_ t. log_ok t \<and> same_conf s t \<and> view (lbio t) = view (lbio s)
     \<and> held (lbio t) = held (lbio s) \<and> pinned (lbio t) = insert (ROOTDEV, k) (pinned (lbio s))
     \<and> disk (lbio t) = disk (lbio s) \<and> hist (lbio t) = hist (lbio s)
     \<and> lh_n t = (if (ROOTDEV, k) \<in> pinned (lbio s) then lh_n s else lh_n s + 1)
     \<and> (\<forall>c d' k'. holds (lbio s) c d' k' \<longrightarrow> holds (lbio t) c d' k')) s"
proof -
  let ?i = "log_slot (lh_n s) (lh_sector s) k"
  let ?n = "if int ?i = lh_n s then lh_n s + 1 else lh_n s"
  define u where "u = s\<lparr>lh_sector := (lh_sector s)(?i := k), lh_n := ?n\<rparr>"
  have geom: "log_geom s" and bok: "bcache_ok (lbio s)" and pins: "pinned (lbio s) = lh_blocks s"
    and dist: "distinct (map (lh_sector s) [0..<nat (lh_n s)])" using ok by (auto simp: log_ok_def)
  have n: "0 \<le> lh_n s" using geom by (simp add: log_geom_def)
  have sec: "b_sector (bufs (lbio s) b) = k" using b by (simp add: holds_def key_def)
  have logged: "(ROOTDEV, k) \<in> pinned (lbio s) \<longleftrightarrow> k \<in> lh_sector s ` {..<nat (lh_n s)}"
    by (auto simp: pins lh_blocks_def)
  have u: "lh_n u = (if (ROOTDEV, k) \<in> pinned (lbio s) then lh_n s else lh_n s + 1)" (is ?c1)
    and u_geom: "log_geom u" and u_blocks: "lh_blocks u = insert (ROOTDEV, k) (lh_blocks s)"
    and u_dist: "distinct (map (lh_sector u) [0..<nat (lh_n u)])"
  proof -
    have "?c1 \<and> log_geom u \<and> lh_blocks u = insert (ROOTDEV, k) (lh_blocks s) \<and> distinct (map (lh_sector u) [0..<nat (lh_n u)])"
    proof (cases "k \<in> lh_sector s ` {..<nat (lh_n s)}")
      case True
      then have i: "?i < nat (lh_n s)" "lh_sector s ?i = k" by (rule log_slot_found)+
      then have "(lh_sector s)(?i := k) = lh_sector s" by auto
      with i have "u = s" by (simp add: u_def)
      with True logged geom dist show ?thesis by (auto simp: pins insert_absorb)
    next
      case False
      then have i: "?i = nat (lh_n s)" by (rule log_slot_new)
      have un: "nat (lh_n u) = Suc (nat (lh_n s))" "lh_n u = lh_n s + 1" "lh_sector u = (lh_sector s)(nat (lh_n s) := k)"
        using n by (simp_all add: u_def i)
      have "lh_blocks u = insert (ROOTDEV, k) (lh_blocks s)"
        unfolding lh_blocks_def un(1,3) lessThan_Suc by (simp add: image_iff cong: image_cong_simp)
      moreover have "log_geom u"
        using geom home room unfolding log_geom_def un(1,3) by (simp add: un(2) u_def less_Suc_eq)
      moreover have "distinct (map (lh_sector u) [0..<nat (lh_n u)])"
        using dist False unfolding un(1,3) by (auto simp: distinct_map inj_on_def)
      ultimately show ?thesis using False logged by (simp add: un)
    qed
    then show ?c1 "log_geom u" "lh_blocks u = insert (ROOTDEV, k) (lh_blocks s)"
      "distinct (map (lh_sector u) [0..<nat (lh_n u)])" by blast+
  qed
  have conf: "log_start u = log_start s" "same_conf s (u\<lparr>lbio := c\<rparr>)" for c
    by (simp_all add: u_def same_conf_def)
  have okt: "log_ok (u\<lparr>lbio := c\<rparr>)"
    if "bcache_ok c" "pinned c = insert (ROOTDEV, k) (pinned (lbio s))" "disk c = disk (lbio s)" for c
    using that u_geom u_blocks u_dist ok pins conf(1) by (simp add: log_ok_def)
  have "wp (mark_dirty b) (\<lambda>_ c. bcache_ok c \<and> view c = view (lbio s) \<and> held c = held (lbio s)
     \<and> pinned c = insert (ROOTDEV, k) (pinned (lbio s)) \<and> disk c = disk (lbio s) \<and> hist c = hist (lbio s)
     \<and> keeps_held (lbio s) c) (lbio s)"
    by (rule mark_dirty_wp [OF bok b])
  moreover have "wp (log_write b) Q s = wp (mark_dirty b) (\<lambda>x c. Q x (u\<lparr>lbio := c\<rparr>)) (lbio s)" for Q
    using room tx by (cases "int ?i = lh_n s") (simp_all add: log_write_def wp_simps sec u_def)
  ultimately show ?thesis
    by (simp only:, elim wp_conseq) (simp add: okt conf u keeps_held_def)
qed

section \<open>The interface of a transaction\<close>

text \<open>
  What file-system code relies on between \<^verbatim>\<open>begin_op\<close> and \<^verbatim>\<open>end_op\<close>: blocks of one device
  are read, changed in place, logged and released. \<open>used\<close> counts logged blocks, \<open>cap\<close> is the number the
  log can take, and \<open>pend\<close> holds the blocks that were changed and not yet logged: a
  buffer may not be released while its block is one of them.
\<close>

locale transaction =
  fixes ok :: "'s \<Rightarrow> bool" and vw :: "'s \<Rightarrow> u32 \<Rightarrow> bytes"
    and hld :: "'s \<Rightarrow> u32 set" and pend :: "'s \<Rightarrow> u32 set" and used :: "'s \<Rightarrow> nat" and cap :: "'s \<Rightarrow> nat"
    and owns :: "'s \<Rightarrow> nat \<Rightarrow> u32 \<Rightarrow> bool" and good :: "'s \<Rightarrow> u32 \<Rightarrow> bool" and same :: "'s \<Rightarrow> 's \<Rightarrow> bool"
    and size :: nat
    and rd :: "u32 \<Rightarrow> ('s, nat) kop" and get :: "nat \<Rightarrow> ('s, bytes) kop"
    and put :: "nat \<Rightarrow> (bytes \<Rightarrow> bytes) \<Rightarrow> ('s, unit) kop"
    and lw :: "nat \<Rightarrow> ('s, unit) kop" and rel :: "nat \<Rightarrow> ('s, unit) kop"
  assumes rd: "ok s \<Longrightarrow> good s k \<Longrightarrow> k \<notin> hld s \<Longrightarrow> used s + card (hld s) < size \<Longrightarrow>
      wp (rd k) (\<lambda>b t. ok t \<and> owns t b k \<and> hld t = insert k (hld s) \<and> vw t = vw s \<and> used t = used s \<and> pend t \<subseteq> pend s
        \<and> same s t \<and> (\<forall>c j. owns s c j \<longrightarrow> owns t c j)) s"
    and get: "ok s \<Longrightarrow> owns s b k \<Longrightarrow> wp (get b) (\<lambda>x t. t = s \<and> x = vw s k) s"
    and put: "ok s \<Longrightarrow> owns s b k \<Longrightarrow>
      wp (put b f) (\<lambda>_ t. ok t \<and> vw t = (vw s)(k := f (vw s k)) \<and> hld t = hld s \<and> used t = used s
        \<and> pend t \<subseteq> insert k (pend s) \<and> same s t \<and> (\<forall>c j. owns s c j \<longrightarrow> owns t c j)) s"
    and lw: "ok s \<Longrightarrow> owns s b k \<Longrightarrow> good s k \<Longrightarrow> used s < cap s \<Longrightarrow>
      wp (lw b) (\<lambda>_ t. ok t \<and> vw t = vw s \<and> hld t = hld s \<and> used t \<le> Suc (used s) \<and> pend t \<subseteq> pend s - {k}
        \<and> same s t \<and> (\<forall>c j. owns s c j \<longrightarrow> owns t c j)) s"
    and rel: "ok s \<Longrightarrow> owns s b k \<Longrightarrow> k \<notin> pend s \<Longrightarrow>
      wp (rel b) (\<lambda>_ t. ok t \<and> vw t = vw s \<and> hld t = hld s - {k} \<and> used t = used s \<and> pend t \<subseteq> pend s
        \<and> same s t \<and> (\<forall>c j. j \<noteq> k \<longrightarrow> owns s c j \<longrightarrow> owns t c j)) s"
    and pend: "ok s \<Longrightarrow> pend s \<subseteq> hld s"
    and same: "same s s" "same s t \<Longrightarrow> same t u \<Longrightarrow> same s u" "same s t \<Longrightarrow> cap t = cap s" "same s t \<Longrightarrow> good t k = good s k"
begin

lemma read_block:
  assumes "ok s" "good s k" "k \<notin> hld s" "used s + card (hld s) < size"
  shows "wp (andthen (rd k) (\<lambda>b. andthen (get b) (\<lambda>x. andthen (rel b) (\<lambda>_. ret (f x)))))
     (\<lambda>r t. r = f (vw s k) \<and> ok t \<and> vw t = vw s \<and> hld t = hld s \<and> used t = used s \<and> pend t \<subseteq> pend s \<and> same s t) s"
proof -
  have fresh: "k \<notin> pend s" using assms pend by blast
  have 2: "wp (rel b) (\<lambda>_ u. f (vw t k) = f (vw s k) \<and> ok u \<and> vw u = vw s \<and> hld u = hld s \<and> used u = used s
      \<and> pend u \<subseteq> pend s \<and> same s u) t"
    if t: "ok t" "owns t b k" "vw t = vw s" "hld t = insert k (hld s)" "used t = used s" "pend t \<subseteq> pend s" "same s t" for b t
    by (rule wp_conseq [OF rel [OF t(1,2)]]) (use t assms(3) fresh same(2) [OF t(7)] in auto)
  show ?thesis
    unfolding wp_andthen wp_ret
    apply (rule wp_conseq [OF rd [OF assms]], elim conjE)
    apply (rule wp_conseq [OF get], assumption, assumption, elim conjE, hypsubst)
    by (rule 2)
qed

lemma update_block:
  assumes "ok s" "good s k" "k \<notin> hld s" "used s + card (hld s) < size" "used s < cap s"
  shows "wp (andthen (rd k) (\<lambda>b. andthen (put b f) (\<lambda>_. andthen (lw b) (\<lambda>_. rel b))))
     (\<lambda>_ t. ok t \<and> vw t = (vw s)(k := f (vw s k)) \<and> hld t = hld s \<and> used t \<le> Suc (used s) \<and> pend t \<subseteq> pend s \<and> same s t) s"
proof -
  have fresh: "k \<notin> pend s" using assms pend by blast
  have 4: "wp (rel b) (\<lambda>_ t. ok t \<and> vw t = (vw s)(k := f (vw s k)) \<and> hld t = hld s \<and> used t \<le> Suc (used s)
      \<and> pend t \<subseteq> pend s \<and> same s t) t"
    if t: "ok t" "owns t b k" "vw t = (vw s)(k := f (vw s k))" "hld t = insert k (hld s)" "used t \<le> Suc (used s)"
      "pend t \<subseteq> pend s - {k}" "same s t" for b t
    by (rule wp_conseq [OF rel [OF t(1,2)]]) (use t assms(3) same(2) [OF t(7)] in auto)
  have 3: "wp (lw b) (\<lambda>_. wp (rel b) (\<lambda>_ t. ok t \<and> vw t = (vw s)(k := f (vw s k)) \<and> hld t = hld s
      \<and> used t \<le> Suc (used s) \<and> pend t \<subseteq> pend s \<and> same s t)) t"
    if t: "ok t" "owns t b k" "vw t = (vw s)(k := f (vw s k))" "hld t = insert k (hld s)" "used t = used s"
      "pend t \<subseteq> insert k (pend s)" "same s t" for b t
  proof (rule wp_conseq [OF lw [OF t(1,2)]])
    show "good t k" "used t < cap t" using same(3,4) [OF t(7)] assms t(5) by simp_all
    fix x u assume "ok u \<and> vw u = vw t \<and> hld u = hld t \<and> used u \<le> Suc (used t) \<and> pend u \<subseteq> pend t - {k}
        \<and> same t u \<and> (\<forall>c j. owns t c j \<longrightarrow> owns u c j)"
    then show "wp (rel b) (\<lambda>_ t. ok t \<and> vw t = (vw s)(k := f (vw s k)) \<and> hld t = hld s
      \<and> used t \<le> Suc (used s) \<and> pend t \<subseteq> pend s \<and> same s t) u"
      using t same(2) [OF t(7)] by (intro 4) auto
  qed
  have 2: "wp (put b f) (\<lambda>_. wp (lw b) (\<lambda>_. wp (rel b) (\<lambda>_ t. ok t \<and> vw t = (vw s)(k := f (vw s k)) \<and> hld t = hld s
      \<and> used t \<le> Suc (used s) \<and> pend t \<subseteq> pend s \<and> same s t))) t"
    if t: "ok t" "owns t b k" "vw t = vw s" "hld t = insert k (hld s)" "used t = used s" "pend t \<subseteq> pend s" "same s t" for b t
    by (rule wp_conseq [OF put [OF t(1,2)]], rule 3) (use t same(2) [OF t(7)] in auto)
  show ?thesis
    unfolding wp_andthen by (rule wp_conseq [OF rd [OF assms(1-4)]], rule 2) auto
qed

end

text \<open>The log within a transaction, on the root device.\<close>

definition tx_ok :: "log \<Rightarrow> bool" where
  "tx_ok s \<longleftrightarrow> log_ok s \<and> 1 \<le> outstanding s \<and> 1 \<le> log_size s \<and> log_size s \<le> int LOGSIZE
     \<and> fst ` held (lbio s) \<subseteq> {ROOTDEV}"

definition tx_view :: "log \<Rightarrow> u32 \<Rightarrow> bytes" where
  "tx_view s = view (lbio s) ROOTDEV"

definition tx_held :: "log \<Rightarrow> u32 set" where
  "tx_held s = snd ` held (lbio s)"

definition tx_pend :: "log \<Rightarrow> u32 set" where
  "tx_pend s = {k. (ROOTDEV, k) \<notin> pinned (lbio s) \<and> view (lbio s) ROOTDEV k \<noteq> disk (lbio s) ROOTDEV k}"

definition tx_used :: "log \<Rightarrow> nat" where
  "tx_used s = nat (lh_n s)"

definition tx_cap :: "log \<Rightarrow> nat" where
  "tx_cap s = nat (log_size s - 1)"

definition tx_owns :: "log \<Rightarrow> nat \<Rightarrow> u32 \<Rightarrow> bool" where
  "tx_owns s b k = holds (lbio s) b ROOTDEV k"

definition tx_home :: "log \<Rightarrow> u32 \<Rightarrow> bool" where
  "tx_home s k \<longleftrightarrow> unat k < unat (log_start s)"

definition tx_same :: "log \<Rightarrow> log \<Rightarrow> bool" where
  "tx_same s t \<longleftrightarrow> same_conf s t \<and> disk (lbio t) = disk (lbio s) \<and> hist (lbio t) = hist (lbio s)"

lemmas tx_defs = tx_view_def tx_held_def tx_pend_def tx_used_def tx_cap_def tx_owns_def tx_home_def tx_same_def

lemma tx_held_iff: "tx_ok s \<Longrightarrow> k \<in> tx_held s \<longleftrightarrow> (ROOTDEV, k) \<in> held (lbio s)"
  by (force simp: tx_ok_def tx_held_def)

lemma tx_room:
  assumes ok: "tx_ok s" and room: "tx_used s + card (tx_held s) < NBUF"
  shows "card (held (lbio s) \<union> pinned (lbio s)) < NBUF"
proof -
  have "card (held (lbio s)) = card (tx_held s)"
    unfolding tx_held_def using ok by (intro card_image [symmetric] inj_onI) (auto simp: tx_ok_def image_subset_iff prod_eq_iff)
  moreover have "card (pinned (lbio s)) \<le> tx_used s"
    using ok card_image_le [of "{..<nat (lh_n s)}" "\<lambda>i. (ROOTDEV, lh_sector s i)"]
    by (simp add: tx_ok_def log_ok_def lh_blocks_def tx_used_def)
  ultimately show ?thesis
    using room card_Un_le [of "held (lbio s)" "pinned (lbio s)"] by linarith
qed

lemma log_ok_lbio:
  assumes "log_ok s" and "bcache_ok b" and "pinned b = pinned (lbio s)" and "disk b = disk (lbio s)"
  shows "log_ok (s\<lparr>lbio := b\<rparr>)"
  using assms by (simp add: log_ok_def lh_blocks_def)

lemma tx_home_blk: "tx_ok s \<Longrightarrow> tx_home s k \<Longrightarrow> blk_ok ROOTDEV k"
  by (auto simp: tx_ok_def log_ok_def log_geom_def tx_home_def blk_ok_def ROOTDEV_def)

interpretation tx: transaction tx_ok tx_view tx_held tx_pend tx_used tx_cap tx_owns tx_home tx_same NBUF
  "\<lambda>k. lio (bread ROOTDEV k)" "\<lambda>b. lio (get_data b)" "\<lambda>b f. lio (put_data b f)" log_write "\<lambda>b. lio (brelse b)"
proof (unfold_locales, goal_cases)
  case (1 s k)
  then have "bcache_ok (lbio s)" "(ROOTDEV, k) \<notin> held (lbio s)" by (auto simp: tx_ok_def log_ok_def tx_held_iff)
  then show ?case
    unfolding wp_lio using 1 tx_room [OF 1(1,4)] tx_home_blk [OF 1(1,2)]
    by (intro wp_conseq [OF bc.rd]) (auto simp: tx_ok_def log_ok_lbio tx_defs same_conf_def)
next
  case (2 s b k)
  then show ?case
    unfolding wp_lio by (intro wp_conseq [OF bc.get]) (auto simp: tx_ok_def log_ok_def tx_defs)
next
  case (3 s b k f)
  then show ?case
    unfolding wp_lio by (intro wp_conseq [OF bc.put [where d = ROOTDEV and k = k]]) (auto simp: tx_ok_def log_ok_lbio tx_defs same_conf_def log_ok_def)
next
  case (4 s b k)
  then show ?case
    by (intro wp_conseq [OF log_write_wp [where k = k]])
      (auto simp: tx_ok_def tx_defs same_conf_def LOGSIZE_def MAXOPBLOCKS_def split: if_splits)
next
  case (5 s b k)
  then show ?case
    unfolding wp_lio by (intro wp_conseq [OF bc.rel [where d = ROOTDEV and k = k]]) (auto simp: tx_ok_def log_ok_lbio tx_defs same_conf_def log_ok_def)
next
  case (6 s)
  show ?case
  proof
    fix k assume k: "k \<in> tx_pend s"
    have "bcache_ok (lbio s)" using 6 by (simp add: tx_ok_def log_ok_def)
    then show "k \<in> tx_held s"
      using k view_clean [of "lbio s" ROOTDEV k] unfolding tx_held_iff [OF 6] tx_pend_def by blast
  qed
qed (auto simp: tx_defs same_conf_def)

end
