(* ===== verification/Crash.thy ===== *)
theory Crash
  imports Log
begin

text \<open>
  Crash atomicity of the log, stated over the code that runs: \<^verbatim>\<open>commit\<close>, a crash after any of its
  sector writes, and the boot sequence with recovery.
\<close>

section \<open>A concrete log\<close>

text \<open>
  A disk of 100 blocks with a log of 30 blocks at its end, and a cache in which the first buffer holds
  block 2, changed and logged by a transaction that has ended.
\<close>

definition ring_buf :: "nat \<Rightarrow> buf" where
  "ring_buf i = \<lparr>b_flags = {}, b_dev = -1, b_sector = 0, b_prev = (i + NBUF) mod Suc NBUF,
     b_next = Suc i mod Suc NBUF, b_data = (\<lambda>_. 0)\<rparr>"

definition example_disk :: "u32 \<Rightarrow> u32 \<Rightarrow> bytes" where
  "example_disk d k = (if d = ROOTDEV \<and> k = 1 then put32 (put32 (\<lambda>_. 0) 0 100) 12 30 else (\<lambda>_. 0))"

definition example_bio :: bio where
  "example_bio = \<lparr>bufs = ring_buf(0 := (ring_buf 0)\<lparr>b_flags := {B_VALID, B_DIRTY}, b_dev := ROOTDEV, b_sector := 2, b_data := (\<lambda>_. 7)\<rparr>),
     idequeue = [], havedisk1 = True, ide_port = (\<lambda>_. 0), ide_status = 0x40, disk = example_disk, hist = []\<rparr>"

definition example_log :: log where
  "example_log = \<lparr>lbio = example_bio, log_start = 70, log_size = 30, outstanding = 0, committing = False,
     log_dev = ROOTDEV, lh_n = 1, lh_sector = (\<lambda>_. 2)\<rparr>"

lemma ring_links: "b_next (ring_buf i) = Suc i mod 31" "b_prev (ring_buf i) = (i + 30) mod 31"
  by (simp_all add: ring_buf_def NBUF_def)

lemma upt_30: "[0..<30] = [0,1,2,3,4,5,6,7,8,9,10,11,12,13,14,15,16,17,18,19,20,21,22,23,24,25,26,27,28,29]"
  by (simp add: upt_rec)

lemma ring_order: "lru_order ring_buf [0..<NBUF]"
  unfolding lru_order_def ring_links NBUF_def upt_30 by simp

lemma example_lru: "lru_order (bufs example_bio) [0..<NBUF]"
  by (rule lru_order_fields [OF ring_order]) (simp_all add: example_bio_def)

lemma example_pinned: "pinned example_bio = {(ROOTDEV, 2)}"
proof -
  have "{i. i < NBUF \<and> B_DIRTY \<in> b_flags (bufs example_bio i)} = {0}"
    by (auto simp: example_bio_def ring_buf_def NBUF_def)
  then show ?thesis unfolding pinned_def by (simp add: example_bio_def key_def)
qed

lemma example_ok: "log_ok example_log" "held (lbio example_log) = {}" "0 < lh_n example_log"
  "log_start_of (disk (lbio example_log)) = log_start example_log"
proof -
  have ok: "bcache_ok example_bio"
    unfolding bcache_ok_def
    by (intro conjI exI [of _ "[0..<NBUF]"] example_lru)
      (auto simp: example_bio_def ring_buf_def buf_ok_def drive_ok_def IDE_DF_def IDE_ERR_def key_def blk_ok_def ROOTDEV_def)
  show "log_ok example_log"
    unfolding log_ok_def
    by (simp add: example_pinned ok example_log_def log_geom_def lh_blocks_def lessThan_Suc ROOTDEV_def LOGSIZE_def MAXOPBLOCKS_def)
       (simp add: example_bio_def example_disk_def head_n_def ROOTDEV_def)
  show "held (lbio example_log) = {}"
    by (auto simp: held_def example_log_def example_bio_def ring_buf_def)
  show "0 < lh_n example_log" by (simp add: example_log_def)
  show "log_start_of (disk (lbio example_log)) = log_start example_log"
    by (simp add: log_start_of_def example_log_def example_bio_def example_disk_def superblock_of_def get32_put32_other)
qed

section \<open>Crash atomicity\<close>

lemma crash_boot:
  assumes ok: "log_ok s" "held (lbio s) = {}" and sb: "log_start_of (disk (lbio s)) = log_start s"
      "view (lbio s) ROOTDEV 1 = disk (lbio s) ROOTDEV 1" "1 < unat (log_start s)"
    and i: "i \<le> length (commit_writes s)"
    and m: "boot_bio (lbio m)" "disk (lbio m) = apply_writes (take i (commit_writes s)) (disk (lbio s))"
  shows "\<exists>m'. boot_disk m = Inr ((), m') \<and> log_ok m' \<and> (\<forall>k. unat k < unat (log_start s) \<longrightarrow>
     disk (lbio m') ROOTDEV k = (if i \<le> nat (lh_n s) then disk (lbio s) ROOTDEV k else view (lbio s) ROOTDEV k))"
proof -
  let ?E = "apply_writes (take i (commit_writes s)) (disk (lbio s))" and ?st = "log_start s"
  have geom: "log_geom s" using ok by (simp add: log_ok_def)
  have sb_kept: "?E ROOTDEV 1 = disk (lbio s) ROOTDEV 1"
  proof (rule apply_writes_induct [where P = "\<lambda>x. x = disk (lbio s) ROOTDEV 1"])
    fix x assume "(ROOTDEV, 1, x) \<in> set (take i (commit_writes s))"
    then have "(ROOTDEV, 1, x) \<in> set (commit_writes s)" by (rule in_set_takeD)
    moreover have "(ROOTDEV, 1, x) \<notin> set (log_copies s)"
      using log_copies_log_only [OF geom, of 1] sb(3) by (force simp: written_def)
    moreover have "x = view (lbio s) ROOTDEV 1" if "(ROOTDEV, 1, x) \<in> set (home_new s)"
      using that by (auto simp: home_new_def)
    ultimately show "x = disk (lbio s) ROOTDEV 1"
      using sb by (auto simp: commit_writes_def)
  qed simp
  then have st: "log_start_of (disk (lbio m)) = ?st" using sb(1) by (simp add: log_start_of_def m)
  have "wp boot_disk (\<lambda>_ t. log_ok t \<and> disk (lbio t) = apply_writes (recovery_writes ?st ?E) ?E) m"
    using boot_disk_wp [OF m(1)] commit_crash_valid [OF ok(1), of i] st m(2) by (auto elim: wp_conseq)
  moreover have "apply_writes (recovery_writes ?st ?E) ?E ROOTDEV k
      = (if i \<le> nat (lh_n s) then disk (lbio s) ROOTDEV k else view (lbio s) ROOTDEV k)" if "unat k < unat ?st" for k
    using that commit_crash [OF ok i that] by (auto simp: recovery_writes_def recovered_def)
  ultimately show ?thesis
    by (auto simp: wp_iff)
qed

text \<open>
  C1: crash atomicity of the log. A commit of at least one block returns, and whenever the machine
  crashes after any number \<open>i\<close> of the sector writes it makes and boots again (\<^verbatim>\<open>binit\<close>, then \<^verbatim>\<open>initlog\<close>
  with its recovery), every home block has its contents from before the transaction if \<open>i\<close> is at most the number of
  logged blocks, and every home block has the contents the transaction gave it otherwise.
\<close>

theorem commit_crash_atomic:
  assumes "log_ok s" "held (lbio s) = {}" "0 < lh_n s"
    and "log_start_of (disk (lbio s)) = log_start s" "view (lbio s) ROOTDEV 1 = disk (lbio s) ROOTDEV 1"
    and "1 < unat (log_start s)"
  shows "\<exists>b W. commit s = Inr ((), s\<lparr>lh_n := 0, lbio := b\<rparr>) \<and> hist b = hist (lbio s) @ W
     \<and> disk b = apply_writes W (disk (lbio s))
     \<and> (\<forall>i \<le> length W. \<forall>m. boot_bio (lbio m) \<longrightarrow> disk (lbio m) = apply_writes (take i W) (disk (lbio s)) \<longrightarrow>
          (\<exists>m'. boot_disk m = Inr ((), m') \<and> log_ok m' \<and> (\<forall>k. unat k < unat (log_start s) \<longrightarrow>
             disk (lbio m') ROOTDEV k = (if i \<le> nat (lh_n s) then disk (lbio s) ROOTDEV k else view (lbio s) ROOTDEV k))))"
proof -
  obtain b where b: "commit s = Inr ((), s\<lparr>lh_n := 0, lbio := b\<rparr>)" "wrote (lbio s) (commit_writes s) b"
    using wpD [OF commit_wp [OF assms(1-3)]] by auto
  show ?thesis
    by (intro exI [of _ b] exI [of _ "commit_writes s"] conjI allI impI b(1) crash_boot [OF assms(1,2,4-6)])
      (use b(2) in \<open>auto simp: wrote_def\<close>)
qed

theorem commit_crash_atomic_witness:
  "\<exists>b W. commit example_log = Inr ((), example_log\<lparr>lh_n := 0, lbio := b\<rparr>) \<and> hist b = hist (lbio example_log) @ W"
proof -
  have "view (lbio example_log) ROOTDEV 1 = disk (lbio example_log) ROOTDEV 1"
  proof (rule view_clean)
    show "bcache_ok (lbio example_log)" using example_ok(1) by (simp add: log_ok_def)
    show "(ROOTDEV, 1) \<notin> held (lbio example_log)" by (simp add: example_ok(2))
    show "(ROOTDEV, 1) \<notin> pinned (lbio example_log)" by (simp add: example_log_def example_pinned)
  qed
  moreover have "1 < unat (log_start example_log)" by (simp add: example_log_def)
  ultimately show ?thesis
    using commit_crash_atomic [OF example_ok(1-4)] by blast
qed

section \<open>Boots that are cut off\<close>

text \<open>\<open>cut_boots D E\<close>: from the disk \<open>D\<close> the machine was booted any number of times and crashed each time after some of the sector writes of that boot, which left the disk \<open>E\<close>.\<close>

inductive cut_boots :: "(u32 \<Rightarrow> u32 \<Rightarrow> bytes) \<Rightarrow> (u32 \<Rightarrow> u32 \<Rightarrow> bytes) \<Rightarrow> bool" for D where
  cut_none: "cut_boots D D"
| cut_again: "\<lbrakk>cut_boots D (disk (lbio m)); boot_bio (lbio m); boot_disk m = Inr ((), t); hist (lbio t) = hist (lbio m) @ W\<rbrakk>
    \<Longrightarrow> cut_boots D (apply_writes (take i W) (disk (lbio m)))"

text \<open>A log that recovery can start from, behind the superblock and without a copy of it.\<close>

definition log_sound :: "(u32 \<Rightarrow> u32 \<Rightarrow> bytes) \<Rightarrow> bool" where
  "log_sound D \<longleftrightarrow> log_valid (log_start_of D) D \<and> 1 < unat (log_start_of D)
     \<and> (\<forall>i < nat (head_n (D ROOTDEV (log_start_of D))). head_sector (D ROOTDEV (log_start_of D)) i \<noteq> 1)"

lemma recovery_writes_sb:
  assumes "log_sound D"
  shows "(ROOTDEV, 1) \<notin> written (recovery_writes (log_start_of D) D)"
proof -
  have "log_start_of D \<noteq> 1" "(ROOTDEV, 1) \<notin> written (redo (log_start_of D) D)"
    using assms by (force simp: log_sound_def redo_def written_def)+
  then show ?thesis by (simp add: recovery_writes_def written_def)
qed

lemma cut_recovery:
  assumes "log_sound D" and E: "E = apply_writes (take i (recovery_writes (log_start_of D) D)) D"
  shows "log_start_of E = log_start_of D" and "log_sound E"
    and "unat k < unat (log_start_of D) \<Longrightarrow> recovered (log_start_of D) E ROOTDEV k = recovered (log_start_of D) D ROOTDEV k"
proof -
  let ?st = "log_start_of D"
  have valid: "log_valid ?st D" using assms(1) by (simp add: log_sound_def)
  have "written (take i (recovery_writes ?st D)) \<subseteq> written (recovery_writes ?st D)"
    unfolding written_def by (intro image_mono set_take_subset)
  then have "E ROOTDEV 1 = D ROOTDEV 1"
    unfolding E using recovery_writes_sb [OF assms(1)] by (intro apply_writes_other) blast
  then show st: "log_start_of E = ?st" by (simp add: log_start_of_def)
  have "E ROOTDEV ?st = D ROOTDEV ?st \<or> head_n (E ROOTDEV ?st) = 0"
    unfolding E
  proof (rule apply_writes_induct [where P = "\<lambda>x. x = D ROOTDEV ?st \<or> head_n x = 0"])
    fix x assume "(ROOTDEV, ?st, x) \<in> set (take i (recovery_writes ?st D))"
    then have "(ROOTDEV, ?st, x) \<in> set (recovery_writes ?st D)" by (rule in_set_takeD)
    then show "x = D ROOTDEV ?st \<or> head_n x = 0"
      using redo_home [OF valid, of ?st] by (force simp: recovery_writes_def written_def head_n_def)
  qed simp
  moreover have "log_valid ?st E" unfolding E by (rule recover_crash(1) [OF valid])
  ultimately show "log_sound E" using assms(1) by (auto simp: log_sound_def st)
  show "recovered ?st E ROOTDEV k = recovered ?st D ROOTDEV k" if "unat k < unat ?st"
    unfolding E by (rule recover_crash(2) [OF valid that])
qed

lemma cut_boots_sound:
  assumes "cut_boots D E" and "log_sound D"
  shows "log_sound E \<and> log_start_of E = log_start_of D
     \<and> (\<forall>k. unat k < unat (log_start_of D) \<longrightarrow> recovered (log_start_of D) E ROOTDEV k = recovered (log_start_of D) D ROOTDEV k)"
  using assms(1)
proof (induction rule: cut_boots.induct)
  case cut_none
  then show ?case using assms(2) by simp
next
  case (cut_again m t W i)
  let ?E = "disk (lbio m)"
  have E: "log_sound ?E" "log_start_of ?E = log_start_of D" using cut_again.IH by auto
  then have "W = recovery_writes (log_start_of ?E) ?E"
    using wpD [OF boot_disk_wp [OF cut_again(2)]] cut_again(3,4) by (auto simp: log_sound_def)
  with cut_recovery [OF E(1), of _ i] cut_again.IH E(2) show ?case by simp
qed

text \<open>
  C2: recovery can be cut off as well. Let the disk \<open>D\<close> hold a log that names home sectors other than the superblock. The machine is booted from it any number of times, and
  each of these boots crashes after some of the sector writes it makes (\<^verbatim>\<open>binit\<close>, then \<^verbatim>\<open>initlog\<close>, which finds the log through the superblock it reads
  again, and recovery). The boot after that returns, clears the log, and every home block has the contents that the log of \<open>D\<close> gives it, the same as without the crashes.
\<close>

theorem recovery_crash_idempotent:
  assumes "log_sound D" and "cut_boots D (disk (lbio m))" and "boot_bio (lbio m)"
  shows "\<exists>t. boot_disk m = Inr ((), t) \<and> log_ok t \<and> lh_n t = 0 \<and> log_start t = log_start_of D
     \<and> head_n (disk (lbio t) ROOTDEV (log_start_of D)) = 0
     \<and> (\<forall>k. unat k < unat (log_start_of D) \<longrightarrow> disk (lbio t) ROOTDEV k = recovered (log_start_of D) D ROOTDEV k)"
proof -
  let ?E = "disk (lbio m)"
  have E: "log_sound ?E" "log_start_of ?E = log_start_of D"
    "\<And>k. unat k < unat (log_start_of D) \<Longrightarrow> recovered (log_start_of D) ?E ROOTDEV k = recovered (log_start_of D) D ROOTDEV k"
    using cut_boots_sound [OF assms(2,1)] by auto
  obtain t where t: "boot_disk m = Inr ((), t)" "log_ok t" "lh_n t = 0" "log_start t = log_start_of D"
    "disk (lbio t) = apply_writes (recovery_writes (log_start_of D) ?E) ?E"
    using wpD [OF boot_disk_wp [OF assms(3)]] E(1,2) by (auto simp: log_sound_def)
  have "disk (lbio t) ROOTDEV k = recovered (log_start_of D) D ROOTDEV k" if "unat k < unat (log_start_of D)" for k
    using that E(3) [OF that] by (auto simp: t(5) recovery_writes_def recovered_def)
  moreover have "head_n (disk (lbio t) ROOTDEV (log_start_of D)) = 0" using t(2,4) by (simp add: log_ok_def)
  ultimately show ?thesis using t by blast
qed

text \<open>A disk with a committed transaction that was not installed: its log has the new contents of sector 2.\<close>

definition logged_disk :: "u32 \<Rightarrow> u32 \<Rightarrow> bytes" where
  "logged_disk d k = (if d = ROOTDEV \<and> k = 70 then put32 (put32 (\<lambda>_. 0) 0 1) 4 2 else if d = ROOTDEV \<and> k = 71 then (\<lambda>_. 7) else example_disk d k)"

definition machine :: "(u32 \<Rightarrow> u32 \<Rightarrow> bytes) \<Rightarrow> log" where
  "machine D = example_log\<lparr>lbio := example_bio\<lparr>bufs := ring_buf, disk := D\<rparr>, lh_n := 0\<rparr>"

lemma machine_boots: "boot_bio (lbio (machine D))" "disk (lbio (machine D)) = D"
  by (simp_all add: boot_bio_def machine_def example_bio_def ring_buf_def drive_ok_def IDE_DF_def IDE_ERR_def)

lemma logged_disk_log:
  "log_start_of logged_disk = 70" "head_n (logged_disk ROOTDEV 70) = 1" "head_sector (logged_disk ROOTDEV 70) 0 = 2"
  "log_sound logged_disk" "redo 70 logged_disk = [(ROOTDEV, 2, \<lambda>_. 7)]"
proof -
  show st: "log_start_of logged_disk = 70"
    by (simp add: log_start_of_def logged_disk_def example_disk_def superblock_of_def get32_put32_other)
  show n: "head_n (logged_disk ROOTDEV 70) = 1" by (simp add: logged_disk_def head_n_def get32_put32_other)
  show h: "head_sector (logged_disk ROOTDEV 70) 0 = 2" by (simp add: logged_disk_def head_sector_def)
  show "log_sound logged_disk" by (simp add: log_sound_def log_valid_def st n h LOGSIZE_def MAXOPBLOCKS_def)
  show "redo 70 logged_disk = [(ROOTDEV, 2, \<lambda>_. 7)]" by (simp add: redo_def n h log_block_def) (simp add: logged_disk_def)
qed

theorem recovery_crash_idempotent_witness:
  "\<exists>E t. cut_boots logged_disk E \<and> head_n (E ROOTDEV 70) = 1 \<and> E ROOTDEV 2 = (\<lambda>_. 7) \<and> boot_disk (machine E) = Inr ((), t)
     \<and> disk (lbio t) ROOTDEV 2 = (\<lambda>_. 7) \<and> head_n (disk (lbio t) ROOTDEV 70) = 0"
proof -
  let ?D = logged_disk
  obtain t where t: "boot_disk (machine ?D) = Inr ((), t)" "hist (lbio t) = hist (lbio (machine ?D)) @ recovery_writes 70 ?D"
    using wpD [OF boot_disk_wp [OF machine_boots(1)], of ?D] logged_disk_log(1,4) by (auto simp: machine_boots(2) log_sound_def)
  define E where "E = apply_writes (take 1 (recovery_writes 70 ?D)) ?D"
  have E: "cut_boots ?D E"
    unfolding E_def using cut_again [OF _ machine_boots(1) t, of ?D 1] cut_none by (simp add: machine_boots(2))
  have "take 1 (recovery_writes 70 ?D) = [(ROOTDEV, 2, \<lambda>_. 7)]" by (simp add: recovery_writes_def logged_disk_log(5))
  then have "E ROOTDEV 70 = ?D ROOTDEV 70" "E ROOTDEV 2 = (\<lambda>_. 7)" by (simp_all add: E_def)
  moreover have "recovered 70 ?D ROOTDEV 2 = (\<lambda>_. 7)" by (simp add: recovered_def logged_disk_log(5))
  moreover obtain u where "boot_disk (machine E) = Inr ((), u)" "head_n (disk (lbio u) ROOTDEV 70) = 0"
    "\<forall>k. unat k < 70 \<longrightarrow> disk (lbio u) ROOTDEV k = recovered 70 ?D ROOTDEV k"
    using recovery_crash_idempotent [OF logged_disk_log(4), of "machine E"] E by (auto simp: machine_boots logged_disk_log(1))
  ultimately show ?thesis using E logged_disk_log(2) by (intro exI [of _ E] exI [of _ u]) simp
qed

end
