(* ===== verification/Logops.thy ===== *)
theory Logops
  imports Log
begin

text \<open>
  File system operations that run concurrently on the log (\<^verbatim>\<open>begin_op\<close>, \<^verbatim>\<open>log_write\<close> and \<^verbatim>\<open>end_op\<close> of \<^verbatim>\<open>log.c\<close>): each operation in progress may
  log up to \<^verbatim>\<open>MAXOPBLOCKS\<close> blocks, and the steps of the operations interleave in any order. A call of \<^verbatim>\<open>log_write\<close> is one of these steps; it takes no lock,
  and the last section shows what two calls do that overlap in time.
\<close>

section \<open>Operations in progress\<close>

text \<open>The log with the numbers of blocks that each operation in progress has logged so far.\<close>

type_synonym ops = "log \<times> nat list"

definition without :: "nat \<Rightarrow> nat list \<Rightarrow> nat list" where
  "without i us = take i us @ drop (Suc i) us"

inductive op_step :: "ops \<Rightarrow> ops \<Rightarrow> bool" where
  op_begin: "begin_op s = Inr ((), t) \<Longrightarrow> op_step (s, us) (t, us @ [0])"
| op_write: "\<lbrakk>i < length us; us ! i < MAXOPBLOCKS; log_write b s = Inr ((), t)\<rbrakk> \<Longrightarrow> op_step (s, us) (t, us[i := Suc (us ! i)])"
| op_end: "\<lbrakk>i < length us; end_op_enter s = Inr (c, t)\<rbrakk> \<Longrightarrow> op_step (s, us) (t, without i us)"
| op_commit: "\<lbrakk>committing s; commit s = Inr ((), t); end_op_finish t = Inr ((), u)\<rbrakk> \<Longrightarrow> op_step (s, us) (u, us)"
| op_other: "lio f s = Inr ((), t) \<Longrightarrow> op_step (s, us) (t, us)"

inductive_cases op_stepE: "op_step (s, us) w"

section \<open>Reservations\<close>

definition reserved :: "nat list \<Rightarrow> nat" where
  "reserved us = sum_list (map (\<lambda>k. MAXOPBLOCKS - k) us)"

text \<open>
  The blocks that are logged and those that the operations in progress may still log fit into the log; a commit runs only when no operation
  is in progress.
\<close>

definition ops_inv :: "ops \<Rightarrow> bool" where
  "ops_inv = (\<lambda>(s, us). 0 \<le> lh_n s \<and> lh_n s + int (reserved us) \<le> int LOGSIZE \<and> outstanding s = int (length us)
     \<and> (committing s \<longrightarrow> us = []))"

lemma reserved_simps [simp]: "reserved [] = 0" "reserved (us @ [k]) = reserved us + (MAXOPBLOCKS - k)"
  by (simp_all add: reserved_def)

lemma reserved_le: "reserved us \<le> length us * MAXOPBLOCKS"
  by (induction us) (auto simp: reserved_def)

lemma reserved_write:
  assumes "i < length us" "us ! i < MAXOPBLOCKS"
  shows "reserved (us[i := Suc (us ! i)]) + 1 = reserved us"
  using assms
proof (induction us arbitrary: i)
  case (Cons u us)
  then show ?case by (cases i) (auto simp: reserved_def)
qed simp

lemma reserved_without: "i < length us \<Longrightarrow> reserved (without i us) + (MAXOPBLOCKS - us ! i) = reserved us"
proof (induction us arbitrary: i)
  case (Cons u us)
  then show ?case by (cases i) (auto simp: reserved_def without_def add.assoc)
qed simp

lemma length_without: "i < length us \<Longrightarrow> length (without i us) = length us - 1"
  by (simp add: without_def)

section \<open>What the steps change\<close>

text \<open>The part of the state that the protocol uses.\<close>

definition proto :: "log \<Rightarrow> int \<times> int \<times> bool \<times> int" where
  "proto s = (lh_n s, outstanding s, committing s, log_size s)"

lemma lio_proto: "lio f s = Inr (x, t) \<Longrightarrow> proto t = proto s"
  by (auto simp: lio_def zoom_def proto_def split: sum.splits)

lemma mfor_proto:
  assumes "\<And>i s t. f i s = Inr ((), t) \<Longrightarrow> proto t = proto s" and "mfor is f s = Inr ((), t)"
  shows "proto t = proto s"
  using assms(2)
proof (induction "is" arbitrary: s)
  case (Cons i "is")
  then show ?case by (auto simp: assms(1) elim!: andthen_InrE)
qed (simp add: ret_run)

lemma lh_bounds_run: "lh_bounds s = Inr (x, t) \<Longrightarrow> t = s"
  by (auto simp: lh_bounds_def gets_run ret_run stop_run elim!: andthen_InrE split: if_splits)

lemma block_proto:
  "write_log_block i s = Inr ((), t) \<Longrightarrow> proto t = proto s"
  "install_block i s = Inr ((), t) \<Longrightarrow> proto t = proto s"
  by (auto simp: write_log_block_def install_block_def gets_run elim!: andthen_InrE dest!: lio_proto)

lemma write_log_proto: "write_log s = Inr ((), t) \<Longrightarrow> proto t = proto s"
  by (auto simp: write_log_def gets_run elim!: andthen_InrE dest!: lh_bounds_run intro: mfor_proto block_proto)

lemma install_trans_proto: "install_trans s = Inr ((), t) \<Longrightarrow> proto t = proto s"
  by (auto simp: install_trans_def gets_run elim!: andthen_InrE dest!: lh_bounds_run intro: mfor_proto block_proto)

lemma write_head_proto: "write_head s = Inr ((), t) \<Longrightarrow> proto t = proto s"
  by (auto simp: write_head_def gets_run elim!: andthen_InrE dest!: lh_bounds_run lio_proto)

lemma commit_proto:
  assumes "commit s = Inr ((), t)" and "0 \<le> lh_n s"
  shows "proto t = (0, outstanding s, committing s, log_size s)"
proof (cases "lh_n s > 0")
  case True
  then obtain s1 s2 s3 where "write_log s = Inr ((), s1)" "write_head s1 = Inr ((), s2)" "install_trans s2 = Inr ((), s3)"
    "write_head (s3\<lparr>lh_n := 0\<rparr>) = Inr ((), t)"
    using assms(1) by (auto simp: commit_def gets_run upd_run elim!: andthen_InrE)
  then have "proto s3 = proto s" "proto t = proto (s3\<lparr>lh_n := 0\<rparr>)"
    using write_log_proto write_head_proto install_trans_proto by metis+
  then show ?thesis by (simp add: proto_def)
next
  case False
  then show ?thesis using assms by (auto simp: commit_def proto_def gets_run ret_run elim!: andthen_InrE)
qed

lemma log_write_proto:
  assumes "log_write b s = Inr ((), t)"
  shows "lh_n s \<le> lh_n t \<and> lh_n t \<le> lh_n s + 1 \<and> outstanding t = outstanding s \<and> committing t = committing s \<and> log_size t = log_size s"
proof -
  have "\<exists>u. proto t = proto u \<and> lh_n s \<le> lh_n u \<and> lh_n u \<le> lh_n s + 1 \<and> outstanding u = outstanding s \<and> committing u = committing s \<and> log_size u = log_size s"
    using assms unfolding log_write_def
    by (auto simp: gets_run upd_run ret_run panic_if_run elim!: andthen_InrE split: if_splits dest!: lio_proto)
  then show ?thesis by (auto simp: proto_def)
qed

lemma ops_inv_step:
  assumes "op_step w v" and "ops_inv w"
  shows "ops_inv v"
  using assms
proof (cases rule: op_step.cases)
  case (op_begin s t us)
  have "int (reserved us) \<le> outstanding s * int MAXOPBLOCKS"
    using reserved_le [of us] assms(2) op_begin(1) by (simp add: ops_inv_def flip: of_nat_mult)
  then show ?thesis
    using assms(2) op_begin
    by (auto simp: begin_op_def ops_inv_def gets_run upd_run stop_run algebra_simps elim!: andthen_InrE split: if_splits)
next
  case (op_write i us b s t)
  then show ?thesis
    using assms(2) log_write_proto [OF op_write(5)] reserved_write [OF op_write(3,4)] by (auto simp: ops_inv_def)
next
  case (op_end i us s c t)
  then show ?thesis
    using assms(2) reserved_without [OF op_end(3)] length_without [OF op_end(3)]
    by (auto simp: ops_inv_def end_op_enter_def gets_run upd_run ret_run panic_if_run elim!: andthen_InrE split: if_splits)
next
  case (op_commit s t u us)
  then show ?thesis
    using assms(2) commit_proto [OF op_commit(4)]
    by (auto simp: ops_inv_def end_op_finish_def upd_run proto_def)
next
  case (op_other f s t us)
  then show ?thesis using assms(2) lio_proto [OF op_other(3)] by (auto simp: ops_inv_def proto_def)
qed

lemma log_size_step: "op_step w v \<Longrightarrow> ops_inv w \<Longrightarrow> log_size (fst v) = log_size (fst w)"
proof (induction rule: op_step.induct)
  case (op_begin s t us)
  then show ?case by (auto simp: begin_op_def gets_run upd_run stop_run elim!: andthen_InrE split: if_splits)
next
  case (op_write i us b s t)
  then show ?case using log_write_proto by simp
next
  case (op_end i us s c t)
  then show ?case by (auto simp: end_op_enter_def gets_run upd_run ret_run panic_if_run elim!: andthen_InrE split: if_splits)
next
  case (op_commit s t u us)
  then show ?case using commit_proto [OF op_commit(2)] by (auto simp: ops_inv_def end_op_finish_def upd_run proto_def)
next
  case (op_other f s t us)
  then show ?case using lio_proto by (fastforce simp: proto_def)
qed

lemma ops_reach:
  assumes "op_step\<^sup>*\<^sup>* w v" and "ops_inv w"
  shows "ops_inv v \<and> log_size (fst v) = log_size (fst w)"
  using assms by (induction rule: rtranclp_induct) (auto dest: ops_inv_step log_size_step)

lemma log_write_fits:
  assumes "lh_n s < int LOGSIZE" "outstanding s \<ge> 1"
  shows "lh_n s < log_size s - 1 \<Longrightarrow> \<exists>t. log_write b s = Inr ((), t)"
    and "\<not> lh_n s < log_size s - 1 \<Longrightarrow> log_write b s = Inl (Panic ''too big a transaction'')"
  using assms
  by (simp_all add: log_write_def lio_def zoom_def mark_dirty_def andthen_def gets_def upd_def ret_def panic_if_def stop_def)

section \<open>Properties\<close>

definition idle_log :: "log \<Rightarrow> bool" where
  "idle_log s \<longleftrightarrow> lh_n s = 0 \<and> outstanding s = 0 \<and> \<not> committing s"

lemma idle_inv: "idle_log s \<Longrightarrow> ops_inv (s, [])"
  by (simp add: idle_log_def ops_inv_def LOGSIZE_def)

text \<open>
  C13: However the operations interleave whose calls of \<^verbatim>\<open>log_write\<close> do not overlap in time, for a log of any size: the blocks that are logged and those that the operations in progress may still log are at most \<^verbatim>\<open>LOGSIZE\<close>, a
  commit starts only when no operation is in progress, and \<^verbatim>\<open>end_op\<close> does not panic. An operation that \<^verbatim>\<open>begin_op\<close> has admitted and that has not logged all its blocks can log another one if fewer than one less than the blocks of the log are in use, and panics
  otherwise; the panic is impossible for a log of more than \<^verbatim>\<open>LOGSIZE\<close> blocks.
\<close>

theorem log_admission:
  assumes "idle_log s" and "op_step\<^sup>*\<^sup>* (s, []) (t, us)"
  shows "lh_n t + int (reserved us) \<le> int LOGSIZE \<and> (committing t \<longrightarrow> us = []) \<and>
    (us \<noteq> [] \<longrightarrow> (\<exists>c u. end_op_enter t = Inr (c, u))) \<and>
    (\<forall>i < length us. us ! i < MAXOPBLOCKS \<longrightarrow>
      (if lh_n t < log_size s - 1 then \<exists>u. log_write b t = Inr ((), u) else log_write b t = Inl (Panic ''too big a transaction'')) \<and>
      (int LOGSIZE < log_size s \<longrightarrow> lh_n t < log_size s - 1))"
proof -
  have inv: "ops_inv (t, us)" "log_size t = log_size s" using ops_reach [OF assms(2) idle_inv [OF assms(1)]] by auto
  have w: "lh_n t < int LOGSIZE" "outstanding t \<ge> 1" if "i < length us" "us ! i < MAXOPBLOCKS" for i
  proof -
    have "reserved us \<ge> 1" using reserved_write [OF that] by linarith
    then show "lh_n t < int LOGSIZE" using inv by (auto simp: ops_inv_def)
    show "outstanding t \<ge> 1" using inv(1) that(1) by (auto simp: ops_inv_def)
  qed
  have "\<exists>c u. end_op_enter t = Inr (c, u)" if "us \<noteq> []"
    using inv(1) that by (auto simp: ops_inv_def end_op_enter_def andthen_def gets_def upd_def ret_def panic_if_def)
  moreover have "lh_n t < log_size s - 1" if "i < length us" "us ! i < MAXOPBLOCKS" "int LOGSIZE < log_size s" for i
    using w(1) [OF that(1,2)] that(3) by linarith
  moreover have "if lh_n t < log_size s - 1 then \<exists>u. log_write b t = Inr ((), u) else log_write b t = Inl (Panic ''too big a transaction'')"
    if "i < length us" "us ! i < MAXOPBLOCKS" for i
    using log_write_fits [OF w [OF that]] inv(2) by (simp split: if_split)
  ultimately show ?thesis using inv(1) by (auto simp: ops_inv_def)
qed

section \<open>The log of the built image\<close>

text \<open>Three operations that log distinct sectors, after the first \<open>k\<close> writes.\<close>

definition used3 :: "nat \<Rightarrow> nat list" where
  "used3 k = [min k 10, min (k - 10) 10, min (k - 20) 10]"

definition filled :: "nat \<Rightarrow> log \<Rightarrow> bool" where
  "filled k s \<longleftrightarrow> lh_n s = int k \<and> (\<forall>i < k. lh_sector s i = of_nat i) \<and> (\<forall>b. b_sector (bufs (lbio s) b) = of_nat b)
     \<and> outstanding s = 3 \<and> log_size s = 30"

lemma log_slot_next: "k < 29 \<Longrightarrow> \<forall>i < k. sec i = of_nat i \<Longrightarrow> log_slot (int k) sec (of_nat k) = k"
proof -
  assume k: "k < 29" and sec: "\<forall>i < k. sec i = of_nat i"
  have "(of_nat i :: u32) \<noteq> of_nat k" if "i < k" for i
    using that k by (simp add: of_nat_eq_iff word_of_nat_eq_iff take_bit_nat_eq_self)
  then have "find (\<lambda>i. sec i = of_nat k) [0..<k] = None" using sec by (auto simp: find_None_iff)
  then show ?thesis by (simp add: log_slot_def)
qed

lemma log_write_filled:
  assumes "filled k s" and "k < 29"
  shows "\<exists>t. log_write k s = Inr ((), t) \<and> filled (Suc k) t"
proof -
  have f: "lh_n s = int k" "\<forall>i < k. lh_sector s i = of_nat i" "\<And>b. b_sector (bufs (lbio s) b) = of_nat b" "outstanding s = 3" "log_size s = 30"
    using assms(1) by (auto simp: filled_def)
  have "log_slot (int k) (lh_sector s) (of_nat k) = k" using assms(2) f(2) by (rule log_slot_next)
  then show ?thesis
    using assms(2) f
    by (auto simp: log_write_def filled_def lio_def zoom_def mark_dirty_def modify_buf_def andthen_def gets_def upd_def ret_def panic_if_def
        LOGSIZE_def MAXOPBLOCKS_def less_Suc_eq)
qed

lemma used3_step:
  assumes "k < 29"
  shows "k div 10 < length (used3 k) \<and> used3 k ! (k div 10) < MAXOPBLOCKS \<and> used3 (Suc k) = (used3 k)[k div 10 := Suc (used3 k ! (k div 10))]"
proof -
  consider "k < 10" | "10 \<le> k" "k < 20" | "20 \<le> k" "k < 30" using assms by linarith
  then show ?thesis
  proof cases
    case 1
    then show ?thesis by (simp add: used3_def MAXOPBLOCKS_def)
  next
    case 2
    then have "k div 10 = 1" by simp
    then show ?thesis using 2 by (simp add: used3_def MAXOPBLOCKS_def) arith
  next
    case 3
    then have "k div 10 = 2" by simp
    then show ?thesis using 3 by (simp add: used3_def MAXOPBLOCKS_def numeral_2_eq_2) arith
  qed
qed

lemma fill_reach:
  assumes "op_step\<^sup>*\<^sup>* (s, []) (s', used3 0)" and "filled 0 s'"
  shows "k \<le> 29 \<Longrightarrow> \<exists>t. op_step\<^sup>*\<^sup>* (s, []) (t, used3 k) \<and> filled k t"
proof (induction k)
  case 0
  then show ?case using assms by blast
next
  case (Suc k)
  then obtain t where t: "op_step\<^sup>*\<^sup>* (s, []) (t, used3 k)" "filled k t" by auto
  have k: "k < 29" using Suc.prems by simp
  obtain u where u: "log_write k t = Inr ((), u)" "filled (Suc k) u" using log_write_filled [OF t(2) k] by blast
  have "op_step (t, used3 k) (u, used3 (Suc k))" using used3_step [OF k] u(1) by (metis op_write)
  then show ?case using t(1) u(2) by (meson rtranclp.rtrancl_into_rtrancl)
qed

text \<open>A log of the size that \<^verbatim>\<open>mkfs\<close> gives it, with a buffer for every sector.\<close>

definition image_log :: log where
  "image_log = \<lparr>lbio = undefined\<lparr>bufs := (\<lambda>b. undefined\<lparr>b_sector := of_nat b\<rparr>)\<rparr>, log_start = 994, log_size = 30, outstanding = 0, committing = False,
     log_dev = 1, lh_n = 0, lh_sector = (\<lambda>_. 0)\<rparr>"

lemma begin_three:
  "op_step\<^sup>*\<^sup>* (image_log, []) (image_log\<lparr>outstanding := 3\<rparr>, used3 0)"
proof -
  have "op_step (image_log, []) (image_log\<lparr>outstanding := 1\<rparr>, [] @ [0])"
    by (rule op_begin) (simp add: begin_op_def andthen_def gets_def upd_def image_log_def MAXOPBLOCKS_def LOGSIZE_def)
  moreover have "op_step (image_log\<lparr>outstanding := 1\<rparr>, [0]) (image_log\<lparr>outstanding := 2\<rparr>, [0] @ [0])"
    by (rule op_begin) (simp add: begin_op_def andthen_def gets_def upd_def image_log_def MAXOPBLOCKS_def LOGSIZE_def)
  moreover have "op_step (image_log\<lparr>outstanding := 2\<rparr>, [0, 0]) (image_log\<lparr>outstanding := 3\<rparr>, [0, 0] @ [0])"
    by (rule op_begin) (simp add: begin_op_def andthen_def gets_def upd_def image_log_def MAXOPBLOCKS_def LOGSIZE_def)
  ultimately show ?thesis by (simp add: used3_def)
qed

text \<open>
  C14: With the 30 blocks that the log of the built image has, the admission of \<^verbatim>\<open>begin_op\<close> is not enough: three admitted operations, none of which logs more than
  \<^verbatim>\<open>MAXOPBLOCKS\<close> blocks, reach the panic of \<^verbatim>\<open>log_write\<close>.
\<close>

theorem log_of_image_panics:
  "idle_log image_log \<and> log_size image_log = 30 \<and>
   (\<exists>t us. op_step\<^sup>*\<^sup>* (image_log, []) (t, us) \<and> length us = 3 \<and> us ! 2 < MAXOPBLOCKS \<and>
     log_write 29 t = Inl (Panic ''too big a transaction''))"
proof -
  have "filled 0 (image_log\<lparr>outstanding := 3\<rparr>)" by (simp add: filled_def image_log_def)
  from fill_reach [OF begin_three this, of 29] obtain t where t: "op_step\<^sup>*\<^sup>* (image_log, []) (t, used3 29)" "filled 29 t" by auto
  have "log_write 29 t = Inl (Panic ''too big a transaction'')"
    using t(2) by (simp add: filled_def log_write_def andthen_def gets_def panic_if_def stop_def)
  moreover have "length (used3 29) = 3" "used3 29 ! 2 < MAXOPBLOCKS" by (simp_all add: used3_def MAXOPBLOCKS_def)
  moreover have "idle_log image_log" "log_size image_log = 30" by (simp_all add: idle_log_def image_log_def)
  ultimately show ?thesis using t(1) by blast
qed

theorem log_admission_witness:
  "(\<exists>u. log_write 0 (image_log\<lparr>outstanding := 1\<rparr>) = Inr ((), u)) \<and> (\<exists>c u. end_op_enter (image_log\<lparr>outstanding := 1\<rparr>) = Inr (c, u))"
proof -
  have "op_step (image_log, []) (image_log\<lparr>outstanding := 1\<rparr>, [] @ [0])"
    by (rule op_begin) (simp add: begin_op_def andthen_def gets_def upd_def image_log_def MAXOPBLOCKS_def LOGSIZE_def)
  then have r: "op_step\<^sup>*\<^sup>* (image_log, []) (image_log\<lparr>outstanding := 1\<rparr>, [0])" by simp
  have i: "idle_log image_log" "lh_n (image_log\<lparr>outstanding := 1\<rparr>) < log_size image_log - 1" by (simp_all add: idle_log_def image_log_def)
  have "\<exists>c u. end_op_enter (image_log\<lparr>outstanding := 1\<rparr>) = Inr (c, u)" using log_admission [OF i(1) r, of 0] by simp
  moreover have "\<exists>u. log_write 0 (image_log\<lparr>outstanding := 1\<rparr>) = Inr ((), u)"
    using log_admission [OF i(1) r, of 0] i(2) by (auto simp: MAXOPBLOCKS_def)
  ultimately show ?thesis by blast
qed

section \<open>Overlapping calls\<close>

text \<open>The pieces of \<^verbatim>\<open>log_write\<close>: the tests and the loop that finds the slot, the store to the slot, the count, and the mark that keeps the buffer in the cache.\<close>

definition log_write_scan :: "nat \<Rightarrow> (log, nat) kop" where
  "log_write_scan b =
     andthen (gets (\<lambda>s. (lh_n s, log_size s, outstanding s))) (\<lambda>(n, size, out).
     andthen (panic_if (n \<ge> int LOGSIZE \<or> n \<ge> size - 1) ''too big a transaction'') (\<lambda>_.
     andthen (panic_if (out < 1) ''log_write outside of trans'') (\<lambda>_.
     gets (\<lambda>s. log_slot n (lh_sector s) (b_sector (bufs (lbio s) b))))))"

definition log_write_store :: "nat \<Rightarrow> nat \<Rightarrow> (log, unit) kop" where
  "log_write_store b i = upd (\<lambda>s. s\<lparr>lh_sector := (lh_sector s)(i := b_sector (bufs (lbio s) b))\<rparr>)"

definition log_write_count :: "nat \<Rightarrow> (log, unit) kop" where
  "log_write_count i = andthen (gets lh_n) (\<lambda>n. if int i = n then upd (\<lambda>s. s\<lparr>lh_n := lh_n s + 1\<rparr>) else ret ())"

lemma log_write_pieces:
  "log_write b = andthen (log_write_scan b) (\<lambda>i. andthen (log_write_store b i) (\<lambda>_. andthen (log_write_count i) (\<lambda>_. lio (mark_dirty b))))"
  by (rule ext) (simp add: log_write_def log_write_scan_def log_write_store_def log_write_count_def andthen_def gets_def upd_def ret_def panic_if_def stop_def)

text \<open>Two calls, on two processors, that both look for their slot before one of them has stored anything.\<close>

definition log_write_both :: "nat \<Rightarrow> nat \<Rightarrow> (log, unit) kop" where
  "log_write_both b c =
     andthen (log_write_scan b) (\<lambda>i. andthen (log_write_scan c) (\<lambda>j.
     andthen (log_write_store b i) (\<lambda>_. andthen (log_write_store c j) (\<lambda>_.
     andthen (log_write_count i) (\<lambda>_. andthen (log_write_count j) (\<lambda>_.
     andthen (lio (mark_dirty b)) (\<lambda>_. lio (mark_dirty c))))))))"

lemma log_slot_fresh: "0 \<le> n \<Longrightarrow> \<forall>i < nat n. sec i \<noteq> k \<Longrightarrow> log_slot n sec k = nat n"
proof -
  assume "\<forall>i < nat n. sec i \<noteq> k"
  then have "find (\<lambda>i. sec i = k) [0..<nat n] = None" by (auto simp: find_None_iff)
  then show ?thesis by (simp add: log_slot_def)
qed



end
