(* ===== verification/Balloc.thy ===== *)
theory Balloc
  imports Crash
begin

text \<open>
  The block layer of \<^verbatim>\<open>fs.c\<close>: zeroing a block, and allocating and freeing blocks in the bitmap, within a
  transaction. Allocation is proved to return a block that was free, zeroed and now marked used,
  and to change nothing else.
\<close>

section \<open>Operations\<close>

definition BPB :: nat where "BPB = BSIZE * 8"
definition IPB :: nat where "IPB = BSIZE div 64"

definition IBLOCK :: "u32 \<Rightarrow> u32" where
  "IBLOCK i = i div of_nat IPB + 2"

definition BBLOCK :: "u32 \<Rightarrow> u32 \<Rightarrow> u32" where
  "BBLOCK b ninodes = b div of_nat BPB + ninodes div of_nat IPB + 3"

definition bzero :: "u32 \<Rightarrow> u32 \<Rightarrow> (log, unit) kop" where
  "bzero dev bno =
     andthen (lio (bread dev bno)) (\<lambda>bp.
     andthen (lio (put_data bp (\<lambda>_ _. 0))) (\<lambda>_.
     andthen (log_write bp) (\<lambda>_.
     lio (brelse bp))))"

text \<open>Bit \<open>bi\<close> of a bitmap block: bit \<open>bi mod 8\<close> of byte \<open>bi div 8\<close>.\<close>

definition bm_get :: "bytes \<Rightarrow> nat \<Rightarrow> bool" where
  "bm_get x bi = (x (bi div 8) AND push_bit (bi mod 8) 1 \<noteq> 0)"

definition bm_set :: "nat \<Rightarrow> bytes \<Rightarrow> bytes" where
  "bm_set bi x = x(bi div 8 := x (bi div 8) OR push_bit (bi mod 8) 1)"

definition bm_clear :: "nat \<Rightarrow> bytes \<Rightarrow> bytes" where
  "bm_clear bi x = x(bi div 8 := x (bi div 8) AND NOT (push_bit (bi mod 8) 1))"

text \<open>
  The outer loop of \<^verbatim>\<open>balloc\<close> over the remaining values of \<open>b\<close>; the inner loop looks for the first clear bit of the
  bitmap block that belongs to a block of the disk.
\<close>

fun balloc_loop :: "u32 \<Rightarrow> superblock \<Rightarrow> nat list \<Rightarrow> (log, u32) kop" where
  "balloc_loop dev sb [] = stop (Panic ''balloc: out of blocks'')"
| "balloc_loop dev sb (b # bs) =
     andthen (lio (bread dev (BBLOCK (of_nat b) (sb_ninodes sb)))) (\<lambda>bp.
     andthen (lio (get_data bp)) (\<lambda>x.
     case find (\<lambda>bi. b + bi < unat (sb_size sb) \<and> \<not> bm_get x bi) [0..<BPB] of
       Some bi \<Rightarrow>
         andthen (lio (put_data bp (bm_set bi))) (\<lambda>_.
         andthen (log_write bp) (\<lambda>_.
         andthen (lio (brelse bp)) (\<lambda>_.
         andthen (bzero dev (of_nat (b + bi))) (\<lambda>_.
         ret (of_nat (b + bi))))))
     | None \<Rightarrow>
         andthen (lio (brelse bp)) (\<lambda>_. balloc_loop dev sb bs)))"

definition balloc :: "u32 \<Rightarrow> (log, u32) kop" where
  "balloc dev =
     andthen (lio (readsb dev)) (\<lambda>sb.
     balloc_loop dev sb (map (\<lambda>i. i * BPB) [0..<(unat (sb_size sb) + BPB - 1) div BPB]))"

definition bfree :: "u32 \<Rightarrow> u32 \<Rightarrow> (log, unit) kop" where
  "bfree dev b =
     andthen (lio (readsb dev)) (\<lambda>sb.
     andthen (lio (bread dev (BBLOCK b (sb_ninodes sb)))) (\<lambda>bp.
     andthen (lio (get_data bp)) (\<lambda>x.
     let bi = unat b mod BPB in
     andthen (panic_if (\<not> bm_get x bi) ''freeing free block'') (\<lambda>_.
     andthen (lio (put_data bp (bm_clear bi))) (\<lambda>_.
     andthen (log_write bp) (\<lambda>_.
     lio (brelse bp)))))))"

section \<open>Bitmaps\<close>

lemma mod8_width: "bi mod 8 < LENGTH(8)"
  by simp

lemma bm_bit: "bm_get x bi \<longleftrightarrow> bit (x (bi div 8)) (bi mod 8)"
proof -
  have "x (bi div 8) AND push_bit (bi mod 8) 1 = (if bit (x (bi div 8)) (bi mod 8) then push_bit (bi mod 8) 1 else 0)"
    by (rule bit_word_eqI) (auto simp: bit_simps)
  moreover have "bit (push_bit (bi mod 8) (1 :: u8)) (bi mod 8)"
    by (simp add: bit_simps)
  then have "push_bit (bi mod 8) (1 :: u8) \<noteq> 0"
    by (metis bit_0_eq bot_apply bot_bool_def)
  ultimately show ?thesis by (simp add: bm_get_def)
qed

lemma div_mod8_eq: "bj div 8 = bi div 8 \<Longrightarrow> bj mod 8 = bi mod 8 \<Longrightarrow> bj = (bi :: nat)"
  by (metis div_mult_mod_eq)

lemma bm_set_get [simp]: "bm_get (bm_set bi x) bj \<longleftrightarrow> bj = bi \<or> bm_get x bj"
  by (auto simp: bm_bit bm_set_def bit_simps dest: div_mod8_eq)

lemma bm_clear_get [simp]: "bm_get (bm_clear bi x) bj \<longleftrightarrow> bj \<noteq> bi \<and> bm_get x bj"
  by (auto simp: bm_bit bm_clear_def bit_simps dest: div_mod8_eq)

lemma lio_andthen: "lio (andthen f g) = andthen (lio f) (\<lambda>x. lio (g x))"
  by (simp add: lio_def zoom_def andthen_def fun_eq_iff split: sum.splits prod.splits)

lemma lio_ret [simp]: "lio (ret x) = ret x"
  by (simp add: lio_def zoom_def ret_def fun_eq_iff)

section \<open>Blocks within a transaction\<close>

text \<open>
  \<open>tx_step V n s t\<close>: from \<open>s\<close> to \<open>t\<close> the transaction made the blocks read as \<open>V\<close>, with at most \<open>n\<close> more
  blocks in the log, and left locks, log geometry and disk as they were.
\<close>

definition tx_step :: "(u32 \<Rightarrow> bytes) \<Rightarrow> nat \<Rightarrow> log \<Rightarrow> log \<Rightarrow> bool" where
  "tx_step V n s t \<longleftrightarrow> tx_ok t \<and> tx_view t = V \<and> tx_held t = tx_held s \<and> tx_used t \<le> n + tx_used s
     \<and> tx_pend t \<subseteq> tx_pend s \<and> tx_same s t"

definition tx_open :: "nat \<Rightarrow> u32 \<Rightarrow> log \<Rightarrow> log \<Rightarrow> bool" where
  "tx_open b k s t \<longleftrightarrow> tx_ok t \<and> tx_owns t b k \<and> tx_held t = insert k (tx_held s) \<and> tx_view t = tx_view s
     \<and> tx_used t = tx_used s \<and> tx_pend t \<subseteq> tx_pend s \<and> tx_same s t \<and> tx_home s k \<and> k \<notin> tx_held s \<and> k \<notin> tx_pend s"

text \<open>A transaction that can take \<open>n\<close> more blocks and holds no buffer.\<close>

definition tx_room :: "nat \<Rightarrow> log \<Rightarrow> bool" where
  "tx_room n s \<longleftrightarrow> tx_ok s \<and> tx_held s = {} \<and> tx_used s + n \<le> tx_cap s"

lemma tx_cap_small: "tx_ok s \<Longrightarrow> tx_cap s < LOGSIZE"
  by (auto simp: tx_ok_def tx_cap_def LOGSIZE_def)

lemma tx_step_refl: "tx_ok s \<Longrightarrow> tx_step (tx_view s) 0 s s"
  by (simp add: tx_step_def tx.same(1))

lemma tx_step_trans: "tx_step V m s t \<Longrightarrow> tx_step W n t u \<Longrightarrow> tx_step W (m + n) s u"
  unfolding tx_step_def using tx.same(2) [of s t u] by auto

lemma tx_step_room:
  assumes "tx_step V m s t" and "tx_room (m + n) s" shows "tx_room n t"
  using assms tx.same(3) [of s t] unfolding tx_step_def tx_room_def by auto

lemma tx_step_home: "tx_step V m s t \<Longrightarrow> tx_home t k = tx_home s k"
  using tx.same(4) unfolding tx_step_def by blast

lemma open_block:
  assumes s: "tx_room n s" and k: "tx_home s k"
    and g: "\<And>b t. tx_open b k s t \<Longrightarrow> wp (g b (tx_view s k)) Q t"
  shows "wp (andthen (lio (bread ROOTDEV k)) (\<lambda>b. andthen (lio (get_data b)) (g b))) Q s"
proof -
  have ok: "tx_ok s" "k \<notin> tx_held s" "tx_used s + card (tx_held s) < NBUF"
    using s tx_cap_small [of s] by (auto simp: tx_room_def NBUF_def LOGSIZE_def MAXOPBLOCKS_def)
  have fresh: "k \<notin> tx_pend s" using s tx.pend by (auto simp: tx_room_def)
  show ?thesis
    unfolding wp_andthen
    apply (rule wp_conseq [OF tx.rd [OF ok(1) k ok(2,3)]], elim conjE)
    apply (rule wp_conseq [OF tx.get], assumption, assumption, elim conjE, hypsubst)
    using g k ok fresh by (simp add: tx_open_def)
qed

lemma close_read:
  assumes t: "tx_open b k s t"
  shows "wp (lio (brelse b)) (\<lambda>_ u. tx_step (tx_view s) 0 s u) t"
proof -
  have o: "tx_ok t" "tx_owns t b k" "k \<notin> tx_pend t" using t by (auto simp: tx_open_def)
  show ?thesis
    by (rule wp_conseq [OF tx.rel [OF o]]) (use t tx.same(2) [of s t] in \<open>auto simp: tx_open_def tx_step_def\<close>)
qed

lemma close_update:
  assumes t: "tx_open b k s t" and s: "tx_room (Suc n) s"
  shows "wp (andthen (lio (put_data b f)) (\<lambda>_. andthen (log_write b) (\<lambda>_. lio (brelse b))))
     (\<lambda>_ u. tx_step ((tx_view s)(k := f (tx_view s k))) 1 s u) t"
proof -
  have o: "tx_ok t" "tx_owns t b k" "tx_same s t" "tx_held t = insert k (tx_held s)" "k \<notin> tx_held s"
    "tx_pend t \<subseteq> tx_pend s" "k \<notin> tx_pend s" "tx_used t = tx_used s" "tx_view t = tx_view s"
    using t by (auto simp: tx_open_def)
  have home: "tx_home v k" if "tx_same s v" for v using t tx.same(4) [OF that] by (simp add: tx_open_def)
  have cap: "tx_used s < tx_cap v" if "tx_same s v" for v using s tx.same(3) [OF that] by (simp add: tx_room_def)
  have 1: "wp (lio (brelse b)) (\<lambda>_ u. tx_step ((tx_view s)(k := f (tx_view s k))) 1 s u) w"
    if w: "tx_ok w" "tx_owns w b k" "tx_view w = (tx_view s)(k := f (tx_view s k))" "tx_held w = insert k (tx_held s)"
      "tx_used w \<le> Suc (tx_used s)" "tx_pend w \<subseteq> tx_pend s" "tx_same s w" for w
  proof -
    have "k \<notin> tx_pend w" using w o by auto
    from tx.rel [OF w(1,2) this] show ?thesis
      by (rule wp_conseq) (use w o(5) tx.same(2) [OF w(7)] in \<open>auto simp: tx_step_def\<close>)
  qed
  have 2: "wp (andthen (log_write b) (\<lambda>_. lio (brelse b))) (\<lambda>_ u. tx_step ((tx_view s)(k := f (tx_view s k))) 1 s u) v"
    if v: "tx_ok v" "tx_owns v b k" "tx_view v = (tx_view s)(k := f (tx_view s k))" "tx_held v = insert k (tx_held s)"
      "tx_used v = tx_used s" "tx_pend v \<subseteq> insert k (tx_pend s)" "tx_same s v" for v
  proof -
    have c: "tx_used v < tx_cap v" using cap [OF v(7)] v(5) by simp
    show ?thesis
      unfolding wp_andthen
      by (rule wp_conseq [OF tx.lw [OF v(1,2) home [OF v(7)] c]])
        (rule 1, use v tx.same(2) [OF v(7)] in auto)
  qed
  show ?thesis
    unfolding wp_andthen [of "lio (put_data b f)"]
    by (rule wp_conseq [OF tx.put [OF o(1,2)]]) (rule 2, use o tx.same(2) [OF o(3)] in auto)
qed

lemma bzero_wp:
  assumes s: "tx_room (Suc n) s" and k: "tx_home s k"
  shows "wp (bzero ROOTDEV k) (\<lambda>_ t. tx_step ((tx_view s)(k := (\<lambda>_. 0))) 1 s t) s"
proof -
  have c: "tx_ok s" "tx_home s k" "k \<notin> tx_held s" "tx_used s + card (tx_held s) < NBUF" "tx_used s < tx_cap s"
    using s k tx_cap_small [of s] by (auto simp: tx_room_def NBUF_def LOGSIZE_def MAXOPBLOCKS_def)
  show ?thesis
    unfolding bzero_def by (rule wp_conseq [OF tx.update_block [OF c]]) (simp add: tx_step_def)
qed

lemma tx_readsb_wp:
  assumes s: "tx_room n s" and k: "tx_home s 1"
  shows "wp (lio (readsb ROOTDEV)) (\<lambda>sb t. sb = superblock_of (tx_view s 1) \<and> tx_step (tx_view s) 0 s t) s"
proof -
  have c: "tx_ok s" "tx_home s 1" "1 \<notin> tx_held s" "tx_used s + card (tx_held s) < NBUF"
    using s k tx_cap_small [of s] by (auto simp: tx_room_def NBUF_def LOGSIZE_def MAXOPBLOCKS_def)
  have "lio (readsb ROOTDEV) = andthen (lio (bread ROOTDEV 1)) (\<lambda>b. andthen (lio (get_data b))
      (\<lambda>x. andthen (lio (brelse b)) (\<lambda>_. ret (superblock_of x))))"
    unfolding readsb_def by (simp add: lio_andthen)
  then show ?thesis
    using tx.read_block [OF c, of superblock_of] by (auto elim!: wp_conseq simp: tx_step_def)
qed

section \<open>Allocation\<close>

definition block_used :: "superblock \<Rightarrow> (u32 \<Rightarrow> bytes) \<Rightarrow> nat \<Rightarrow> bool" where
  "block_used sb V b = bm_get (V (BBLOCK (of_nat b) (sb_ninodes sb))) (b mod BPB)"

definition mark_used :: "superblock \<Rightarrow> nat \<Rightarrow> (u32 \<Rightarrow> bytes) \<Rightarrow> u32 \<Rightarrow> bytes" where
  "mark_used sb b V = V(BBLOCK (of_nat b) (sb_ninodes sb) := bm_set (b mod BPB) (V (BBLOCK (of_nat b) (sb_ninodes sb))))"

text \<open>
  The layout of \<^verbatim>\<open>fs.h\<close> as the block layer needs it: the superblock, the bitmap and all blocks
  of the disk before the log are home blocks.
\<close>

definition bitmap_home :: "superblock \<Rightarrow> log \<Rightarrow> bool" where
  "bitmap_home sb s \<longleftrightarrow> superblock_of (tx_view s 1) = sb \<and> tx_home s 1 \<and> unat (sb_size sb) < 2 ^ 28
     \<and> (\<forall>b < unat (sb_size sb). tx_home s (BBLOCK (of_nat b) (sb_ninodes sb)))"

lemma BBLOCK_aligned:
  assumes "b mod BPB = 0" and "bi < BPB" and "b + bi < 2 ^ 28"
  shows "BBLOCK (of_nat (b + bi)) n = BBLOCK (of_nat b) n"
proof -
  have "(of_nat (b + bi) :: u32) div of_nat BPB = of_nat b div of_nat BPB"
  proof -
    obtain q where q: "b = BPB * q" using assms(1) by (metis mult_div_mod_eq add.right_neutral)
    then have "(b + bi) div BPB = b div BPB" using assms(2) by simp
    moreover have "unat (of_nat (b + bi) :: u32) = b + bi" "unat (of_nat b :: u32) = b" "unat (of_nat BPB :: u32) = BPB"
      using assms(3) by (auto intro!: unat_of_nat_small simp del: of_nat_add simp: BPB_def BSIZE_def)
    ultimately show ?thesis by (simp only: word_unat_eq_iff unat_div)
  qed
  then show ?thesis by (simp only: BBLOCK_def)
qed

lemma find_append: "find P (xs @ ys) = (case find P xs of None \<Rightarrow> find P ys | Some x \<Rightarrow> Some x)"
  by (induction xs) auto

lemma find_map_plus: "find P (map ((+) b) xs) = map_option ((+) b) (find (\<lambda>i. P (b + i)) xs)"
  by (induction xs) auto

lemma find_below: "n \<le> m \<Longrightarrow> find (\<lambda>k. k < n \<and> P k) [0..<m] = find P [0..<(n :: nat)]"
proof -
  assume "n \<le> m"
  then have "[0..<m] = [0..<n] @ [n..<m]" by (metis le0 upt_add_eq_append le_add_diff_inverse)
  moreover have "find (\<lambda>k. k < n \<and> P k) [0..<n] = find P [0..<n]" by (rule find_cong) auto
  moreover have "find (\<lambda>k. k < n \<and> P k) [n..<m] = None" by (auto simp: find_None_iff)
  ultimately show ?thesis by (simp add: find_append split: option.split)
qed

lemma bitmap_find:
  fixes b :: nat
  assumes "b mod BPB = 0" and "unat (sb_size sb) < 2 ^ 28"
  shows "find (\<lambda>k. k < unat (sb_size sb) \<and> \<not> block_used sb V k) [b..<b + BPB]
     = map_option ((+) b) (find (\<lambda>bi. b + bi < unat (sb_size sb) \<and> \<not> bm_get (V (BBLOCK (of_nat b) (sb_ninodes sb))) bi) [0..<BPB])"
proof -
  have "[b..<b + BPB] = map ((+) b) [0..<BPB]" by (rule nth_equalityI) simp_all
  moreover have "find (\<lambda>i. b + i < unat (sb_size sb) \<and> \<not> block_used sb V (b + i)) [0..<BPB]
      = find (\<lambda>bi. b + bi < unat (sb_size sb) \<and> \<not> bm_get (V (BBLOCK (of_nat b) (sb_ninodes sb))) bi) [0..<BPB]"
    using assms BBLOCK_aligned [of b] by (intro find_cong) (auto simp: block_used_def mod_add_eq simp del: of_nat_add)
  ultimately show ?thesis by (simp add: find_map_plus)
qed

lemma balloc_loop_wp:
  assumes "tx_room (2 + n) s" and "bitmap_home sb s" and "\<forall>b \<in> set bs. b mod BPB = 0 \<and> b < unat (sb_size sb)"
    and "find (\<lambda>k. k < unat (sb_size sb) \<and> \<not> block_used sb (tx_view s) k) (concat (map (\<lambda>b. [b..<b + BPB]) bs)) = Some k"
    and "tx_home s (of_nat k)"
  shows "wp (balloc_loop ROOTDEV sb bs) (\<lambda>r t. r = of_nat k
     \<and> tx_step ((mark_used sb k (tx_view s))(of_nat k := (\<lambda>_. 0))) 2 s t) s"
  using assms
proof (induction bs arbitrary: s)
  case (Cons b bs)
  let ?K = "BBLOCK (of_nat b) (sb_ninodes sb)"
  let ?P = "\<lambda>bi. b + bi < unat (sb_size sb) \<and> \<not> bm_get (tx_view s ?K) bi"
  let ?Q = "\<lambda>r t. r = of_nat k \<and> tx_step ((mark_used sb k (tx_view s))(of_nat k := (\<lambda>_. 0))) 2 s t"
  have b: "b mod BPB = 0" "b < unat (sb_size sb)" and size: "unat (sb_size sb) < 2 ^ 28" and home: "tx_home s ?K"
    using Cons.prems by (auto simp: bitmap_home_def)
  note step = bitmap_find [OF b(1) size, of "tx_view s"]
  have found: "wp (andthen (lio (put_data bp (bm_set bi))) (\<lambda>_. andthen (log_write bp) (\<lambda>_. andthen (lio (brelse bp)) (\<lambda>_.
      andthen (bzero ROOTDEV (of_nat (b + bi))) (\<lambda>_. ret (of_nat (b + bi))))))) ?Q t"
    if t: "tx_open bp ?K s t" and bi: "find ?P [0..<BPB] = Some bi" for bp t bi
  proof -
    have k: "k = b + bi" using Cons.prems(4) bi by (simp add: find_append step)
    have lt: "bi < BPB" "b + bi < 2 ^ 28" using bi size by (auto simp: find_Some_iff)
    have K: "BBLOCK (of_nat k) (sb_ninodes sb) = ?K" "k mod BPB = bi"
      using BBLOCK_aligned [OF b(1) lt] b(1) lt by (simp_all add: k mod_add_eq [symmetric] del: of_nat_add)
    have 1: "wp (bzero ROOTDEV (of_nat k)) (\<lambda>_ v. tx_step ((mark_used sb k (tx_view s))(of_nat k := (\<lambda>_. 0))) 2 s v) u"
      if u: "tx_step ((tx_view s)(?K := bm_set bi (tx_view s ?K))) 1 s u" for u
    proof -
      have r: "tx_room (Suc n) u" using tx_step_room [OF u, of "Suc n"] Cons.prems(1) by simp
      have h: "tx_home u (of_nat k)" using tx_step_home [OF u] Cons.prems(5) by simp
      have e: "tx_view u = mark_used sb k (tx_view s)" using u by (simp add: tx_step_def mark_used_def K)
      show ?thesis
        using tx_step_trans [OF u, of _ 1] by (intro wp_conseq [OF bzero_wp [OF r h]]) (simp add: e numeral_2_eq_2)
    qed
    show ?thesis
      using wp_conseq [OF close_update [OF t, of "Suc n" "bm_set bi"], of "\<lambda>_ u. wp (bzero ROOTDEV (of_nat k)) (\<lambda>_. ?Q (of_nat k)) u"] 1 Cons.prems(1)
      by (simp add: wp_simps k [symmetric])
  qed
  have missed: "wp (andthen (lio (brelse bp)) (\<lambda>_. balloc_loop ROOTDEV sb bs)) ?Q t"
    if t: "tx_open bp ?K s t" and bi: "find ?P [0..<BPB] = None" for bp t
  proof -
    have "wp (balloc_loop ROOTDEV sb bs) ?Q u" if u: "tx_step (tx_view s) 0 s u" for u
    proof -
      have v: "tx_view u = tx_view s" using u by (simp add: tx_step_def)
      have "wp (balloc_loop ROOTDEV sb bs) (\<lambda>r t. r = of_nat k
          \<and> tx_step ((mark_used sb k (tx_view u))(of_nat k := (\<lambda>_. 0))) 2 u t) u"
        using Cons.prems bi tx_step_room [OF u, of "2 + n"] tx_step_home [OF u] v
        by (intro Cons.IH) (auto simp: find_append step bitmap_home_def)
      then show ?thesis
        by (rule wp_conseq) (use tx_step_trans [OF u] v in fastforce)
    qed
    then show ?thesis
      unfolding wp_andthen by (intro wp_conseq [OF close_read [OF t]])
  qed
  show ?case
    unfolding balloc_loop.simps
  proof (rule open_block [OF Cons.prems(1) home], goal_cases)
    case (1 bp t)
    then show ?case
      by (cases "find ?P [0..<BPB]") (simp_all only: option.case found missed)
  qed
qed simp

lemma concat_blocks: "concat (map (\<lambda>b. [b..<b + BPB]) (map (\<lambda>i. i * BPB) [0..<m])) = [0..<m * BPB]"
  by (induction m) (simp_all add: upt_add_eq_append [symmetric] add.commute [of BPB])

text \<open>The first free block of the disk, by the bitmap.\<close>

definition first_free :: "superblock \<Rightarrow> (u32 \<Rightarrow> bytes) \<Rightarrow> nat option" where
  "first_free sb V = find (\<lambda>k. \<not> block_used sb V k) [0..<unat (sb_size sb)]"

lemma balloc_wp:
  assumes s: "tx_room (2 + n) s" and bm: "bitmap_home sb s" and free: "first_free sb (tx_view s) = Some k"
    and home: "tx_home s (of_nat k)"
  shows "wp (balloc ROOTDEV) (\<lambda>r t. r = of_nat k
     \<and> tx_step ((mark_used sb k (tx_view s))(of_nat k := (\<lambda>_. 0))) 2 s t) s"
proof -
  let ?m = "(unat (sb_size sb) + BPB - 1) div BPB"
  have pos: "0 < BPB" by (simp add: BPB_def BSIZE_def)
  have lt: "i * BPB < unat (sb_size sb)" if "i < ?m" for i
  proof -
    have "Suc i * BPB \<le> unat (sb_size sb) + BPB - 1"
      using that pos by (metis Suc_leI less_eq_div_iff_mult_less_eq)
    then show ?thesis using pos by simp
  qed
  have le: "unat (sb_size sb) \<le> ?m * BPB"
    using div_mult_mod_eq [of "unat (sb_size sb) + BPB - 1" BPB] mod_less_divisor [OF pos, of "unat (sb_size sb) + BPB - 1"] by linarith
  have "find (\<lambda>k. k < unat (sb_size sb) \<and> \<not> block_used sb V k) [0..<?m * BPB] = first_free sb V" for V
    using le find_below [of "unat (sb_size sb)" "?m * BPB" "\<lambda>k. \<not> block_used sb V k"] by (simp add: first_free_def)
  then have f: "find (\<lambda>k. k < unat (sb_size sb) \<and> \<not> block_used sb (tx_view t) k)
      (concat (map (\<lambda>b. [b..<b + BPB]) (map (\<lambda>i. i * BPB) [0..<?m]))) = Some k" if "tx_view t = tx_view s" for t
    using free that by (simp add: concat_blocks del: map_map)
  show ?thesis
    unfolding balloc_def wp_andthen
  proof (rule wp_conseq [OF tx_readsb_wp [OF s]], goal_cases)
    case (2 r t)
    then have t: "r = sb" "tx_view t = tx_view s" and st: "tx_step (tx_view s) 0 s t"
      using bm by (simp_all add: bitmap_home_def tx_step_def)
    have p: "tx_room (2 + n) t" "bitmap_home sb t" "tx_home t (of_nat k)"
      using bm home s tx_step_room [OF st, of "2 + n"] t by (auto simp: bitmap_home_def tx_step_home [OF st])
    show ?case
      unfolding t(1) using tx_step_trans [OF st, of _ 2, unfolded add_0]
      by (intro wp_conseq [OF balloc_loop_wp [OF p(1,2) _ _ p(3)]])
        (use lt f [OF t(2)] in \<open>auto simp: t\<close>)
  qed (use bm in \<open>simp add: bitmap_home_def\<close>)
qed

lemma bfree_wp:
  assumes s: "tx_room (Suc n) s" and bm: "bitmap_home sb s" and b: "unat b < unat (sb_size sb)"
    and used: "block_used sb (tx_view s) (unat b)"
  shows "wp (bfree ROOTDEV b) (\<lambda>_ t. tx_step ((tx_view s)(BBLOCK b (sb_ninodes sb) :=
     bm_clear (unat b mod BPB) (tx_view s (BBLOCK b (sb_ninodes sb))))) 1 s t) s"
  unfolding bfree_def wp_andthen [of "lio (readsb ROOTDEV)"]
proof (rule wp_conseq [OF tx_readsb_wp [OF s]], goal_cases)
  case (2 r t)
  then have t: "r = sb" "tx_view t = tx_view s" and st: "tx_step (tx_view s) 0 s t"
    using bm by (simp_all add: bitmap_home_def tx_step_def)
  have p: "tx_room (Suc n) t" "tx_home t (BBLOCK b (sb_ninodes sb))"
    using bm b s tx_step_room [OF st, of "Suc n"] t unfolding bitmap_home_def tx_step_home [OF st]
    by (auto dest!: spec [of _ "unat b"])
  show ?case
    unfolding t(1)
  proof (rule open_block [OF p], goal_cases)
    case (1 bp u)
    have "bm_get (tx_view s (BBLOCK b (sb_ninodes sb))) (unat b mod BPB)"
      using used by (simp add: block_used_def)
    then show ?case
      using close_update [OF 1 p(1), of "bm_clear (unat b mod BPB)"] tx_step_trans [OF st, of _ 1, unfolded add_0]
      by (auto simp: t Let_def panic_if_def wp_andthen [of "ret _"] wp_simps elim!: wp_conseq)
  qed
qed (use bm in \<open>simp add: bitmap_home_def\<close>)

section \<open>A machine that has just booted\<close>

text \<open>The state of log and buffer cache after boot from the disk \<open>D\<close>, inside a transaction.\<close>

definition fresh_log :: "(u32 \<Rightarrow> bytes) \<Rightarrow> u32 \<Rightarrow> int \<Rightarrow> log" where
  "fresh_log D start sz = \<lparr>lbio = \<lparr>bufs = ring_buf, idequeue = [], havedisk1 = True, ide_port = (\<lambda>_. 0),
       ide_status = 0x40, disk = (\<lambda>_. D), hist = []\<rparr>,
     log_start = start, log_size = sz, outstanding = 1, committing = False, log_dev = ROOTDEV, lh_n = 0, lh_sector = (\<lambda>_. 0)\<rparr>"

lemma fresh_log:
  assumes "unat start + LOGSIZE < 2 ^ 28" and "head_n (D start) = 0" and "1 \<le> sz" "sz \<le> int LOGSIZE"
  shows "tx_room (nat (sz - 1)) (fresh_log D start sz)" and "tx_view (fresh_log D start sz) = D"
    and "tx_home (fresh_log D start sz) k \<longleftrightarrow> unat k < unat start"
proof -
  let ?s = "fresh_log D start sz"
  have ok: "bcache_ok (lbio ?s)"
    unfolding bcache_ok_def
    by (intro conjI exI [of _ "[0..<NBUF]"])
      (auto simp: fresh_log_def ring_order ring_buf_def buf_ok_def drive_ok_def IDE_DF_def IDE_ERR_def key_def)
  have h: "held (lbio ?s) = {}" "pinned (lbio ?s) = {}"
    by (auto simp: held_def pinned_def fresh_log_def ring_buf_def)
  show "tx_view ?s = D"
    using view_clean [OF ok] h by (auto simp: tx_view_def fun_eq_iff fresh_log_def)
  have "log_ok ?s"
    using assms ok h by (auto simp: log_ok_def fresh_log_def log_geom_def lh_blocks_def LOGSIZE_def MAXOPBLOCKS_def)
  then show "tx_room (nat (sz - 1)) ?s"
    using assms h by (auto simp: tx_room_def tx_ok_def tx_held_def tx_used_def tx_cap_def fresh_log_def)
  show "tx_home ?s k \<longleftrightarrow> unat k < unat start"
    by (simp add: tx_home_def fresh_log_def)
qed

section \<open>Properties\<close>

lemma mark_used_iff:
  assumes "unat (sb_size sb) < 2 ^ 28" and "b < unat (sb_size sb)" and "k < unat (sb_size sb)"
    and "\<forall>b < unat (sb_size sb). BBLOCK (of_nat b) (sb_ninodes sb) \<noteq> of_nat k"
  shows "block_used sb ((mark_used sb k V)(of_nat k := x)) b \<longleftrightarrow> b = k \<or> block_used sb V b"
proof -
  have u: "unat (of_nat b :: u32) = b" "unat (of_nat k :: u32) = k" "unat (of_nat BPB :: u32) = BPB"
    using assms(1-3) by (auto intro!: unat_of_nat_small simp: BPB_def BSIZE_def)
  have "b = k" if "BBLOCK (of_nat b) (sb_ninodes sb) = BBLOCK (of_nat k) (sb_ninodes sb)" "b mod BPB = k mod BPB"
  proof -
    have "(of_nat b :: u32) div of_nat BPB = of_nat k div of_nat BPB" using that(1) by (simp add: BBLOCK_def)
    then have "b div BPB = k div BPB" by (simp add: word_unat_eq_iff unat_div u)
    then show ?thesis using that(2) by (metis div_mult_mod_eq)
  qed
  moreover have "BBLOCK (of_nat b) (sb_ninodes sb) \<noteq> of_nat k" using assms by simp
  ultimately show ?thesis by (auto simp: block_used_def mark_used_def)
qed

text \<open>
  C4: \<^verbatim>\<open>balloc\<close>, called in a transaction with room for two more blocks, returns the first block the
  bitmap has as free, zeroed; afterwards the bitmap has exactly that block marked in addition, at most two blocks
  more are in the log, and no other block of the disk reads differently, bitmap blocks apart.
\<close>

theorem balloc_fresh_block:
  assumes "tx_room 2 s" and "bitmap_home sb s" and "first_free sb (tx_view s) = Some k" and "tx_home s (of_nat k)"
    and "\<forall>b < unat (sb_size sb). block_used sb (tx_view s) (unat (BBLOCK (of_nat b) (sb_ninodes sb)))"
  shows "\<exists>t. balloc ROOTDEV s = Inr (of_nat k, t) \<and> tx_ok t \<and> \<not> block_used sb (tx_view s) k
     \<and> tx_view t (of_nat k) = (\<lambda>_. 0)
     \<and> (\<forall>b < unat (sb_size sb). block_used sb (tx_view t) b \<longleftrightarrow> b = k \<or> block_used sb (tx_view s) b)
     \<and> (\<forall>j. j \<noteq> of_nat k \<longrightarrow> j \<noteq> BBLOCK (of_nat k) (sb_ninodes sb) \<longrightarrow> tx_view t j = tx_view s j)
     \<and> tx_used t \<le> 2 + tx_used s \<and> tx_held t = {}"
proof -
  obtain t where t: "balloc ROOTDEV s = Inr (of_nat k, t)" "tx_step ((mark_used sb k (tx_view s))(of_nat k := (\<lambda>_. 0))) 2 s t"
    using balloc_wp [of 0, OF _ assms(2-4)] assms(1) by (auto simp: wp_iff)
  have k: "k < unat (sb_size sb)" "\<not> block_used sb (tx_view s) k"
    using assms(3) by (auto simp: first_free_def find_Some_iff)
  have size: "unat (sb_size sb) < 2 ^ 28" using assms(2) by (simp add: bitmap_home_def)
  have "BBLOCK (of_nat b) (sb_ninodes sb) \<noteq> of_nat k" if "b < unat (sb_size sb)" for b
  proof
    assume e: "BBLOCK (of_nat b) (sb_ninodes sb) = of_nat k"
    have "unat (of_nat k :: u32) = k" by (rule unat_of_nat_small) (use k size in simp)
    then show False using assms(5) that k(2) e by force
  qed
  then have "block_used sb (tx_view t) b \<longleftrightarrow> b = k \<or> block_used sb (tx_view s) b" if "b < unat (sb_size sb)" for b
    using mark_used_iff [OF size that k(1)] t(2) by (simp add: tx_step_def)
  then show ?thesis
    using t k assms(1) by (auto simp: tx_step_def mark_used_def tx_room_def)
qed

text \<open>A disk of 100 blocks with 8 inodes, its bitmap in block 4 and the first ten blocks in use.\<close>

definition small_disk :: "u32 \<Rightarrow> bytes" where
  "small_disk k = (if k = 1 then put32 (put32 (put32 (\<lambda>_. 0) 0 100) 8 8) 12 30
     else if k = 4 then (\<lambda>_. 0)(0 := 0xff, 1 := 3) else (\<lambda>_. 0))"

lemma small_disk:
  defines "s \<equiv> fresh_log small_disk 70 30" and "sb \<equiv> superblock_of (small_disk 1)"
  shows "tx_room 29 s" "tx_view s = small_disk" "bitmap_home sb s" "first_free sb small_disk = Some 10" "tx_home s 10"
    "\<forall>b < unat (sb_size sb). block_used sb small_disk (unat (BBLOCK (of_nat b) (sb_ninodes sb)))"
proof -
  have h: "head_n (small_disk 70) = 0" by (simp add: small_disk_def head_n_def)
  have g: "unat (70 :: u32) + LOGSIZE < 2 ^ 28" "1 \<le> (30 :: int)" "30 \<le> int LOGSIZE" by (simp_all add: LOGSIZE_def MAXOPBLOCKS_def)
  note f = fresh_log [of 70 small_disk 30, OF g(1) h g(2,3)]
  show "tx_room 29 s" "tx_view s = small_disk" "tx_home s 10" using f by (simp_all add: s_def)
  have sb: "sb_size sb = 100" "sb_ninodes sb = 8"
    by (simp_all add: sb_def small_disk_def superblock_of_def get32_put32_other)
  have B: "BBLOCK (of_nat b) 8 = 4" if "b < 100" for b
  proof -
    have "(of_nat b :: u32) div of_nat BPB = 0"
      using that by (simp add: word_unat_eq_iff unat_div unat_of_nat_small BPB_def BSIZE_def)
    then show ?thesis by (simp add: BBLOCK_def IPB_def BSIZE_def)
  qed
  show "bitmap_home sb s" using f by (auto simp: bitmap_home_def s_def sb sb_def [symmetric] B)
  have used: "block_used sb small_disk b \<longleftrightarrow> b < 10" if "b < 100" for b
  proof (cases "b < 16")
    case True
    have "\<forall>b \<in> set [0..<16]. bm_get ((\<lambda>_. 0)(0 := 0xff, 1 := 3)) b \<longleftrightarrow> b < 10"
      by (simp add: upt_rec bm_get_def)
    then show ?thesis using True B [OF that] by (simp add: block_used_def sb small_disk_def BPB_def BSIZE_def)
  next
    case False
    then have "b div 8 \<noteq> 0" "b div 8 \<noteq> 1" by auto
    then show ?thesis using False that B [OF that] by (simp add: block_used_def sb small_disk_def BPB_def BSIZE_def bm_get_def)
  qed
  then show "\<forall>b < unat (sb_size sb). block_used sb small_disk (unat (BBLOCK (of_nat b) (sb_ninodes sb)))"
    by (simp add: sb B)
  have "[0..<100] = [0..<10] @ 10 # [11..<100 :: nat]" by (simp add: upt_rec)
  moreover have "find (\<lambda>k. \<not> block_used sb small_disk k) [0..<10] = None" using used by (auto simp: find_None_iff)
  ultimately show "first_free sb small_disk = Some 10" using used [of 10] by (simp add: first_free_def sb find_append)
qed

theorem balloc_fresh_block_witness:
  "\<exists>t. balloc ROOTDEV (fresh_log small_disk 70 30) = Inr (10, t) \<and> tx_view t 10 = (\<lambda>_. 0)"
proof -
  have "tx_room 2 (fresh_log small_disk 70 30)" using small_disk(1) by (simp add: tx_room_def)
  then show ?thesis
    using balloc_fresh_block [OF _ small_disk(3), of 10] small_disk by auto
qed

end
