(* ===== verification/Ring.thy ===== *)
theory Ring
  imports Prelude
begin

text \<open>
  Ring buffers with free-running 32-bit counters, as \<^verbatim>\<open>pipe.c\<close> and \<^verbatim>\<open>console.c\<close> use them: the slot of a
  counter is its value modulo the size of the array, which divides \<open>2 ^ 32\<close>, so that the ring works
  across the wrap-around of the counters.
\<close>

definition ring :: "u32 \<Rightarrow> (u32 \<Rightarrow> 'a) \<Rightarrow> u32 \<Rightarrow> u32 \<Rightarrow> 'a list" where
  "ring N d r w = map (\<lambda>i. d ((r + of_nat i) mod N)) [0..<unat (w - r)]"

definition ring_size :: "u32 \<Rightarrow> bool" where
  "ring_size N \<longleftrightarrow> N \<noteq> 0 \<and> unat N dvd 2 ^ 32"

lemma length_ring [simp]: "length (ring N d r w) = unat (w - r)"
  by (simp add: ring_def)

lemma unat_add_one: "unat (x :: u32) < 2 ^ 32 - 1 \<Longrightarrow> unat (x + 1) = Suc (unat x)"
  by (simp add: unat_word_ariths)

lemma unat_diff_one: "(x :: u32) \<noteq> 0 \<Longrightarrow> unat (x - 1) = unat x - 1"
  by (rule unat_minus_one)

lemma slot_unat:
  assumes "ring_size N"
  shows "unat ((a + of_nat i :: u32) mod N) = (unat a + i) mod unat N"
proof -
  have "unat (a + of_nat i :: u32) = (unat a + i) mod 2 ^ 32"
    by (simp add: unat_word_ariths unat_of_nat mod_add_right_eq)
  moreover have "(unat a + i) mod 2 ^ 32 mod unat N = (unat a + i) mod unat N"
    using assms by (intro mod_mod_cancel) (simp add: ring_size_def)
  ultimately show ?thesis by (simp add: unat_mod)
qed

lemma slot_inj:
  assumes "ring_size N" and "(a + of_nat i) mod N = (a + of_nat j :: u32) mod N" and "i < unat N" and "j < unat N"
  shows "i = j"
proof -
  have "(unat a + i) mod unat N = (unat a + j) mod unat N"
    using assms(2) by (metis slot_unat [OF assms(1)])
  with assms(3,4) show ?thesis
  proof (induction i j rule: linorder_wlog)
    case (le i j)
    have "unat N dvd (unat a + j) - (unat a + i)"
      using le by (subst mod_eq_dvd_iff_nat [symmetric]) simp_all
    then have "j - i = 0" using le by (cases "j - i = 0") (auto dest: dvd_imp_le)
    with le show ?case by simp
  qed simp
qed

lemma ring_upd_other:
  assumes "ring_size N" and "unat (e - r) < unat N" and "unat (w - r) \<le> unat (e - r)"
  shows "ring N (d(e mod N := c)) r w = ring N d r w"
proof -
  have e: "e = r + of_nat (unat (e - r))" by simp
  have "(r + of_nat i) mod N \<noteq> e mod N" if "i < unat (w - r)" for i
  proof
    assume "(r + of_nat i) mod N = e mod N"
    then have "(r + of_nat i) mod N = (r + of_nat (unat (e - r))) mod N" by simp
    then have "i = unat (e - r)" by (rule slot_inj [OF assms(1)]) (use that assms in simp_all)
    with that assms(3) show False by simp
  qed
  then show ?thesis by (simp add: ring_def)
qed

lemma ring_push:
  assumes "ring_size N" and "unat (w - r) < unat N"
  shows "ring N (d(w mod N := c)) r (w + 1) = ring N d r w @ [c]" "unat (w + 1 - r) = Suc (unat (w - r))"
proof -
  have "unat N < 2 ^ 32" using unsigned_less [of N] by simp
  then have "unat ((w - r) + 1) = Suc (unat (w - r))" using assms(2) by (intro unat_add_one) simp
  moreover have "w + 1 - r = (w - r) + 1" by simp
  ultimately show len: "unat (w + 1 - r) = Suc (unat (w - r))" by (simp only:)
  have "ring N (d(w mod N := c)) r (w + 1) = ring N (d(w mod N := c)) r w @ [c]"
    by (simp add: ring_def len)
  then show "ring N (d(w mod N := c)) r (w + 1) = ring N d r w @ [c]"
    by (simp only: ring_upd_other [OF assms order_refl])
qed

lemma ring_pop:
  assumes "r \<noteq> w"
  shows "ring N d r w = d (r mod N) # ring N d (r + 1) w" "unat (w - (r + 1)) = unat (w - r) - 1"
proof -
  have "w - r \<noteq> 0" using assms by simp
  then have pos: "0 < unat (w - r)" by (simp add: unat_gt_0)
  show len: "unat (w - (r + 1)) = unat (w - r) - 1"
    using \<open>w - r \<noteq> 0\<close> by (metis diff_diff_eq unat_minus_one)
  have "[0..<unat (w - r)] = 0 # map Suc [0..<unat (w - r) - 1]"
    using pos by (simp add: map_Suc_upt upt_conv_Cons)
  then show "ring N d r w = d (r mod N) # ring N d (r + 1) w"
    by (simp add: ring_def len add.assoc)
qed

lemma ring_drop_last:
  assumes "r \<noteq> w"
  shows "ring N d r w = ring N d r (w - 1) @ [d ((w - 1) mod N)]" "unat (w - 1 - r) = unat (w - r) - 1"
proof -
  have "w - r \<noteq> 0" using assms by simp
  then have pos: "0 < unat (w - r)" by (simp add: unat_gt_0)
  have "w - 1 - r = (w - r) - 1" by simp
  then show len: "unat (w - 1 - r) = unat (w - r) - 1"
    using unat_diff_one [OF \<open>w - r \<noteq> 0\<close>] by (simp only:)
  have "r + of_nat (unat (w - r) - 1) = w - 1"
    using pos by (simp add: of_nat_diff)
  moreover have "[0..<unat (w - r)] = [0..<unat (w - r) - 1] @ [unat (w - r) - 1]"
    using pos by (metis Suc_diff_1 upt_Suc_append zero_le)
  ultimately show "ring N d r w = ring N d r (w - 1) @ [d ((w - 1) mod N)]"
    unfolding ring_def len by simp
qed

lemma ring_empty [simp]: "ring N d r r = []"
  by (simp add: ring_def)

lemma ring_nonempty: "ring N d r w = [] \<longleftrightarrow> r = w"
  by (metis length_0_conv length_ring ring_empty unat_eq_0 right_minus_eq)

lemma ring_append:
  assumes "unat (w - r) \<le> unat (e - r)"
  shows "ring N d r e = ring N d r w @ ring N d w e" "unat (e - w) = unat (e - r) - unat (w - r)"
proof -
  have "e - w = (e - r) - (w - r)" by simp
  moreover have "unat ((e - r) - (w - r)) = unat (e - r) - unat (w - r)"
    by (rule unat_sub) (use assms in \<open>simp add: word_le_nat_alt\<close>)
  ultimately show len: "unat (e - w) = unat (e - r) - unat (w - r)" by (simp only:)
  have w: "w = r + of_nat (unat (w - r))" by simp
  have "[0..<unat (e - r)] = [0..<unat (w - r)] @ map (\<lambda>i. i + unat (w - r)) [0..<unat (e - w)]"
    unfolding len map_add_upt using assms by (metis add.commute le_add_diff_inverse upt_add_eq_append zero_le)
  then show "ring N d r e = ring N d r w @ ring N d w e"
    by (simp add: ring_def algebra_simps)
qed

end
