(* ===== verification/Console.thy ===== *)
theory Console
  imports Ring
begin

text \<open>
  Console output and the line discipline of \<^verbatim>\<open>console.c\<close>: number and string formatting, the
  80 by 25 text screen, and the input ring with its read, write and edit indices. The input side is
  proved to implement an abstract line editor.
\<close>

section \<open>Number formatting\<close>

definition digits :: string where "digits = ''0123456789abcdef''"

text \<open>The digits of \<open>x\<close>, the least significant one first, as the loop stores them in \<^verbatim>\<open>buf\<close>.\<close>

function digits_rev :: "nat \<Rightarrow> nat \<Rightarrow> nat list" where
  "digits_rev base x =
     (if base \<le> 1 then [] else x mod base # (if x div base = 0 then [] else digits_rev base (x div base)))"
  by pat_completeness auto
termination
  by (relation "measure snd") (auto intro!: div_less_dividend simp: div_greater_zero_iff)

declare digits_rev.simps [simp del]

definition printint :: "int \<Rightarrow> nat \<Rightarrow> bool \<Rightarrow> string" where
  "printint xx base sign =
     (let neg = (sign \<and> xx < 0);
          x = nat ((if neg then - xx else xx) mod 2 ^ 32);
          buf = map (\<lambda>d. digits ! d) (digits_rev base x) @ (if neg then ''-'' else '''')
      in rev buf)"

section \<open>Formatted output\<close>

text \<open>
  The characters \<^verbatim>\<open>cprintf\<close> sends to \<^verbatim>\<open>consputc\<close>, for a format string, the words of the variable arguments
  and a function that gives the string at an address. \<open>None\<close> stands for reading past the arguments.
\<close>

fun cprintf :: "(u32 \<Rightarrow> string) \<Rightarrow> string \<Rightarrow> u32 list \<Rightarrow> string option" where
  "cprintf str [] args = Some []"
| "cprintf str (c # cs) args =
     (if c \<noteq> CHR ''%'' then map_option (Cons c) (cprintf str cs args)
      else case cs of
        [] \<Rightarrow> Some []
      | d # ds \<Rightarrow>
          if d = CHR ''d'' then
            (case args of [] \<Rightarrow> None | a # as \<Rightarrow> map_option (append (printint (sint a) 10 True)) (cprintf str ds as))
          else if d = CHR ''x'' \<or> d = CHR ''p'' then
            (case args of [] \<Rightarrow> None | a # as \<Rightarrow> map_option (append (printint (sint a) 16 False)) (cprintf str ds as))
          else if d = CHR ''s'' then
            (case args of [] \<Rightarrow> None
             | a # as \<Rightarrow> map_option (append (if a = 0 then ''(null)'' else str a)) (cprintf str ds as))
          else if d = CHR ''%'' then map_option (Cons CHR ''%'') (cprintf str ds args)
          else map_option (append [CHR ''%'', d]) (cprintf str ds args))"

section \<open>The screen\<close>

definition BACKSPACE :: int where "BACKSPACE = 0x100"
definition INPUT_BUF :: u32 where "INPUT_BUF = 128"

text \<open>
  The text screen \<^verbatim>\<open>crt\<close>, the cursor position the CRT controller holds, the bytes sent to the serial port, and the
  structure \<^verbatim>\<open>input\<close>.
\<close>

record cons =
  crt :: "nat \<Rightarrow> u16"
  cursor :: nat
  serial :: "int list"
  in_buf :: "u32 \<Rightarrow> u8"
  in_r :: u32
  in_w :: u32
  in_e :: u32

definition scroll_up :: "(nat \<Rightarrow> u16) \<Rightarrow> nat \<Rightarrow> nat \<Rightarrow> u16" where
  "scroll_up c pos = (\<lambda>i. if pos \<le> i \<and> i < 24 * 80 then 0 else if i < 23 * 80 then c (i + 80) else c i)"

definition cgaputc :: "int \<Rightarrow> (cons, unit) kop" where
  "cgaputc c =
     andthen (gets cursor) (\<lambda>pos0.
     andthen (gets crt) (\<lambda>m.
     let (pos, m) = (if c = 10 then (pos0 + (80 - pos0 mod 80), m)
                     else if c = BACKSPACE then (pos0 - 1, m)
                     else (Suc pos0, m(pos0 := word_of_int (c mod 256) OR 0x0700)))
     in if pos div 80 \<ge> 24 \<and> pos - 80 > 24 * 80 then stop (Undef ''cgaputc memset'')
        else let (pos, m) = (if pos div 80 \<ge> 24 then (pos - 80, scroll_up m (pos - 80)) else (pos, m))
             in upd (\<lambda>s. s\<lparr>cursor := pos, crt := m(pos := 0x20 OR 0x0700)\<rparr>)))"

definition uartputc :: "int \<Rightarrow> (cons, unit) kop" where
  "uartputc c = upd (\<lambda>s. s\<lparr>serial := serial s @ [c]\<rparr>)"

definition consputc :: "int \<Rightarrow> (cons, unit) kop" where
  "consputc c =
     andthen (if c = BACKSPACE then andthen (uartputc 8) (\<lambda>_. andthen (uartputc 32) (\<lambda>_. uartputc 8))
              else uartputc c) (\<lambda>_.
     cgaputc c)"

definition cputs :: "int list \<Rightarrow> (cons, unit) kop" where
  "cputs cs = mfor cs consputc"

section \<open>The line discipline\<close>

text \<open>
  The loop of \<^verbatim>\<open>C('U')\<close>. The index \<^verbatim>\<open>input.e\<close> goes down by one in each round and the loop ends at \<^verbatim>\<open>input.w\<close>,
  so the distance of the two bounds the rounds.
\<close>

fun kill_loop :: "nat \<Rightarrow> (cons, unit) kop" where
  "kill_loop 0 = ret ()"
| "kill_loop (Suc n) =
     andthen (gets (\<lambda>s. in_e s \<noteq> in_w s \<and> in_buf s ((in_e s - 1) mod INPUT_BUF) \<noteq> 10)) (\<lambda>more.
     if more then
       andthen (upd (\<lambda>s. s\<lparr>in_e := in_e s - 1\<rparr>)) (\<lambda>_.
       andthen (consputc BACKSPACE) (\<lambda>_. kill_loop n))
     else ret ())"

definition kill_line :: "(cons, unit) kop" where
  "kill_line = andthen (gets (\<lambda>s. unat (in_e s - in_w s))) kill_loop"

definition commit_input :: "int \<Rightarrow> cons \<Rightarrow> cons" where
  "commit_input c s = (if c = 10 \<or> c = 4 \<or> in_e s = in_r s + INPUT_BUF then s\<lparr>in_w := in_e s\<rparr> else s)"

definition consoleintr_char :: "int list \<Rightarrow> int \<Rightarrow> (cons, unit) kop" where
  "consoleintr_char dump c =
     (if c = 16 then cputs dump
      else if c = 21 then kill_line
      else if c = 8 \<or> c = 127 then
        andthen (gets (\<lambda>s. in_e s \<noteq> in_w s)) (\<lambda>more.
        if more then andthen (upd (\<lambda>s. s\<lparr>in_e := in_e s - 1\<rparr>)) (\<lambda>_. consputc BACKSPACE) else ret ())
      else
        andthen (gets (\<lambda>s. in_e s - in_r s < INPUT_BUF)) (\<lambda>room.
        if c \<noteq> 0 \<and> room then
          let c' = (if c = 13 then 10 else c) in
          andthen (upd (\<lambda>s. s\<lparr>in_buf := (in_buf s)(in_e s mod INPUT_BUF := word_of_int c'), in_e := in_e s + 1\<rparr>)) (\<lambda>_.
          andthen (consputc c') (\<lambda>_.
          upd (commit_input c')))
        else ret ()))"

text \<open>\<^verbatim>\<open>consoleintr\<close> for the characters \<^verbatim>\<open>getc\<close> returns before it returns a negative value.\<close>

definition consoleintr :: "int list \<Rightarrow> int list \<Rightarrow> (cons, unit) kop" where
  "consoleintr dump cs = mfor cs (consoleintr_char dump)"

text \<open>
  The copying loop of \<^verbatim>\<open>consoleread\<close> for \<open>n\<close> more characters, of which \<open>got\<close> have been copied before: the characters
  copied, or \<open>None\<close> for the result \<open>-1\<close> of a killed process.
\<close>

fun consoleread_loop :: "bool \<Rightarrow> nat \<Rightarrow> nat \<Rightarrow> (cons, u8 list option) kop" where
  "consoleread_loop killed got 0 = ret (Some [])"
| "consoleread_loop killed got (Suc n) =
     andthen (gets (\<lambda>s. in_r s = in_w s)) (\<lambda>empty.
     if empty then if killed then ret None else stop (Sleep Ch_input)
     else
       andthen (gets (\<lambda>s. in_buf s (in_r s mod INPUT_BUF))) (\<lambda>c.
       andthen (upd (\<lambda>s. s\<lparr>in_r := in_r s + 1\<rparr>)) (\<lambda>_.
       if c = 4 then
         andthen (if got > 0 then upd (\<lambda>s. s\<lparr>in_r := in_r s - 1\<rparr>) else ret ()) (\<lambda>_. ret (Some []))
       else if c = 10 then ret (Some [c])
       else andthen (consoleread_loop killed (Suc got) n) (\<lambda>r. ret (map_option (Cons c) r)))))"

definition consoleread :: "bool \<Rightarrow> int \<Rightarrow> (cons, int \<times> u8 list) kop" where
  "consoleread killed n =
     andthen (consoleread_loop killed 0 (nat n)) (\<lambda>r.
     ret (case r of None \<Rightarrow> (-1, []) | Some cs \<Rightarrow> (int (length cs), cs)))"

definition consolewrite :: "u8 list \<Rightarrow> (cons, int) kop" where
  "consolewrite buf = andthen (cputs (map uint buf)) (\<lambda>_. ret (int (length buf)))"


section \<open>Correctness of number formatting\<close>

fun digits_value :: "nat \<Rightarrow> nat list \<Rightarrow> nat" where
  "digits_value base [] = 0"
| "digits_value base (d # ds) = d + base * digits_value base ds"

lemma digits_rev_value: "1 < base \<Longrightarrow> digits_value base (digits_rev base x) = x"
proof (induction base x rule: digits_rev.induct)
  case (1 base x)
  then show ?case by (subst digits_rev.simps) (auto simp: div_eq_0_iff)
qed

lemma digits_rev_less: "1 < base \<Longrightarrow> d \<in> set (digits_rev base x) \<Longrightarrow> d < base"
proof (induction base x rule: digits_rev.induct)
  case (1 base x)
  then show ?case by (subst (asm) (2) digits_rev.simps) (auto split: if_splits)
qed

lemma digits_rev_length: "1 < base \<Longrightarrow> x < base ^ Suc n \<Longrightarrow> length (digits_rev base x) \<le> Suc n"
proof (induction n arbitrary: x)
  case 0
  then show ?case by (subst digits_rev.simps) simp
next
  case (Suc n)
  then have "x div base < base ^ Suc n" by (simp add: less_mult_imp_div_less mult.commute)
  with Suc show ?case by (subst digits_rev.simps) simp
qed

section \<open>The screen\<close>

definition cga_ok :: "cons \<Rightarrow> bool" where
  "cga_ok s \<longleftrightarrow> cursor s < 24 * 80"

text \<open>Output keeps the cursor on the screen, never writes outside it, and leaves the input ring alone.\<close>

definition same_input :: "cons \<Rightarrow> cons \<Rightarrow> bool" where
  "same_input s t \<longleftrightarrow> in_buf t = in_buf s \<and> in_r t = in_r s \<and> in_w t = in_w s \<and> in_e t = in_e s"

lemma cgaputc_wp:
  assumes "cga_ok s"
  shows "wp (cgaputc c) (\<lambda>_ t. cga_ok t \<and> same_input s t \<and> serial t = serial s \<and> (\<forall>i \<ge> 24 * 80. crt t i = crt s i)) s"
proof -
  have pos: "cursor s < 1920" using assms by (simp add: cga_ok_def)
  define p where "p = (if c = 10 then cursor s + (80 - cursor s mod 80) else if c = BACKSPACE then cursor s - 1 else Suc (cursor s))"
  define m where "m = (if c = 10 \<or> c = BACKSPACE then crt s else (crt s)(cursor s := word_of_int (c mod 256) OR 0x0700))"
  have "cursor s div 80 < 24" using pos by (simp add: div_less_iff_less_mult)
  then have "cursor s + (80 - cursor s mod 80) \<le> 1920"
    using mult_div_mod_eq [of 80 "cursor s"] mod_less_divisor [of 80 "cursor s"] by linarith
  with pos have p: "p \<le> 1920" by (auto simp: p_def)
  have m: "m i = crt s i" if "i \<ge> 1920" for i using that pos by (auto simp: m_def)
  have run: "cgaputc c s = (if p div 80 \<ge> 24
      then Inr ((), s\<lparr>cursor := p - 80, crt := (scroll_up m (p - 80))(p - 80 := 0x20 OR 0x0700)\<rparr>)
      else Inr ((), s\<lparr>cursor := p, crt := m(p := 0x20 OR 0x0700)\<rparr>))"
  proof -
    have "cgaputc c s = (if p div 80 \<ge> 24 \<and> p - 80 > 24 * 80 then Inl (Undef ''cgaputc memset'')
      else let (q, n) = (if p div 80 \<ge> 24 then (p - 80, scroll_up m (p - 80)) else (p, m))
           in Inr ((), s\<lparr>cursor := q, crt := n(q := 0x20 OR 0x0700)\<rparr>))"
      by (auto simp: cgaputc_def p_def m_def kop_defs Let_def split: prod.splits)
    with p show ?thesis by simp
  qed
  show ?thesis
  proof (cases "p div 80 \<ge> 24")
    case True
    then have "p = 1920" using p by (simp add: less_eq_div_iff_mult_less_eq)
    with run m show ?thesis by (simp add: wp_def cga_ok_def same_input_def scroll_up_def)
  next
    case False
    then have "p < 1920" by (simp add: less_eq_div_iff_mult_less_eq)
    with False run m show ?thesis by (simp add: wp_def cga_ok_def same_input_def)
  qed
qed

lemma consputc_wp:
  assumes "cga_ok s"
  shows "wp (consputc c) (\<lambda>_ t. cga_ok t \<and> same_input s t) s"
proof -
  have "wp (cgaputc c) (\<lambda>_ t. cga_ok t \<and> same_input s t) u" if "cga_ok u" "same_input s u" for u
    by (rule wp_conseq [OF cgaputc_wp [OF that(1)]]) (use that in \<open>auto simp: same_input_def\<close>)
  moreover have "cga_ok (s\<lparr>serial := out\<rparr>)" "same_input s (s\<lparr>serial := out\<rparr>)" for out
    using assms by (simp_all add: cga_ok_def same_input_def)
  ultimately show ?thesis by (cases "c = BACKSPACE") (simp_all add: consputc_def uartputc_def wp_simps)
qed

lemma cputs_wp: "cga_ok s \<Longrightarrow> wp (cputs cs) (\<lambda>_ t. cga_ok t \<and> same_input s t) s"
proof (induction cs arbitrary: s)
  case Nil
  then show ?case by (simp add: cputs_def wp_simps same_input_def)
next
  case (Cons c cs)
  have "wp (mfor cs consputc) (\<lambda>_ t. cga_ok t \<and> same_input s t) u" if u: "cga_ok u \<and> same_input s u" for u
    by (rule wp_conseq, rule Cons.IH [unfolded cputs_def]) (use u in \<open>auto simp: same_input_def\<close>)
  then show ?case
    unfolding cputs_def mfor.simps wp_andthen by (rule wp_conseq [OF consputc_wp [OF Cons.prems]])
qed


section \<open>The line editor\<close>

text \<open>The characters a reader can get, and the line that is still being edited.\<close>

definition ready :: "cons \<Rightarrow> u8 list" where
  "ready s = ring INPUT_BUF (in_buf s) (in_r s) (in_w s)"

definition editing :: "cons \<Rightarrow> u8 list" where
  "editing s = ring INPUT_BUF (in_buf s) (in_w s) (in_e s)"

definition input_ok :: "cons \<Rightarrow> bool" where
  "input_ok s \<longleftrightarrow> unat (in_w s - in_r s) \<le> unat (in_e s - in_r s) \<and> unat (in_e s - in_r s) \<le> 128 \<and> 10 \<notin> set (editing s)"

text \<open>The editor as a function of these two lists.\<close>

definition edit_char :: "int \<Rightarrow> u8 list \<times> u8 list \<Rightarrow> u8 list \<times> u8 list" where
  "edit_char c = (\<lambda>(rdy, line).
     if c = 16 then (rdy, line)
     else if c = 21 then (rdy, [])
     else if c = 8 \<or> c = 127 then (rdy, butlast line)
     else if c \<noteq> 0 \<and> length rdy + length line < 128 then
       let c' = (if c = 13 then 10 else c); line' = line @ [word_of_int c'] in
       if c' = 10 \<or> c' = 4 \<or> length rdy + length line' = 128 then (rdy @ line', []) else (rdy, line')
     else (rdy, line))"

fun take_line :: "nat \<Rightarrow> nat \<Rightarrow> u8 list \<Rightarrow> (u8 list \<times> u8 list) option" where
  "take_line got 0 cs = Some ([], cs)"
| "take_line got (Suc n) [] = None"
| "take_line got (Suc n) (c # cs) =
     (if c = 4 then Some ([], if got > 0 then c # cs else cs)
      else if c = 10 then Some ([c], cs)
      else map_option (\<lambda>(a, b). (c # a, b)) (take_line (Suc got) n cs))"

lemma input_ring: "ring_size INPUT_BUF" "unat INPUT_BUF = 128"
  by (simp_all add: ring_size_def INPUT_BUF_def)

lemma same_input_abs: "same_input s t \<Longrightarrow> ready t = ready s \<and> editing t = editing s \<and> input_ok t = input_ok s"
  by (simp add: same_input_def ready_def editing_def input_ok_def)

lemma input_lengths:
  assumes "input_ok s"
  shows "length (ready s) + length (editing s) = unat (in_e s - in_r s)"
  using assms ring_append(2) [of "in_w s" "in_r s" "in_e s"] by (simp add: ready_def editing_def input_ok_def)

text \<open>Taking back the last character of the edited line.\<close>

lemma erase_char:
  assumes ok: "input_ok s" and ne: "in_e s \<noteq> in_w s"
  defines "t \<equiv> s\<lparr>in_e := in_e s - 1\<rparr>"
  shows "input_ok t" "ready t = ready s" "editing s = editing t @ [in_buf s ((in_e s - 1) mod INPUT_BUF)]"
    "unat (in_e s - 1 - in_w s) = unat (in_e s - in_w s) - 1"
proof -
  have drop: "ring INPUT_BUF (in_buf s) (in_w s) (in_e s)
      = ring INPUT_BUF (in_buf s) (in_w s) (in_e s - 1) @ [in_buf s ((in_e s - 1) mod INPUT_BUF)]"
    and len: "unat (in_e s - 1 - in_w s) = unat (in_e s - in_w s) - 1"
    using ring_drop_last [of "in_w s" "in_e s"] ne by auto
  show "unat (in_e s - 1 - in_w s) = unat (in_e s - in_w s) - 1" by (rule len)
  show "ready t = ready s" by (simp add: ready_def t_def)
  show e: "editing s = editing t @ [in_buf s ((in_e s - 1) mod INPUT_BUF)]"
    using drop by (simp add: editing_def t_def)
  have split: "unat (in_e s - in_w s) = unat (in_e s - in_r s) - unat (in_w s - in_r s)"
    using ok ring_append(2) [of "in_w s" "in_r s" "in_e s"] by (simp add: input_ok_def)
  moreover have pos: "0 < unat (in_e s - in_w s)" using ne by (simp add: unat_gt_0)
  ultimately have "in_e s - in_r s \<noteq> 0" by auto
  then have "unat (in_e s - in_r s - 1) = unat (in_e s - in_r s) - 1" by (rule unat_diff_one)
  moreover have "in_e s - 1 - in_r s = in_e s - in_r s - 1" by simp
  ultimately have "unat (in_e s - 1 - in_r s) = unat (in_e s - in_r s) - 1" by (simp only:)
  with ok split pos e show "input_ok t" by (auto simp: input_ok_def t_def)
qed

lemma kill_loop_wp:
  assumes "cga_ok s" "input_ok s" "n = unat (in_e s - in_w s)"
  shows "wp (kill_loop n) (\<lambda>_ t. cga_ok t \<and> input_ok t \<and> ready t = ready s \<and> editing t = [] \<and> in_r t = in_r s) s"
  using assms
proof (induction n arbitrary: s)
  case 0
  then have "in_e s = in_w s" by (simp add: unat_eq_0)
  with 0 show ?case by (simp add: wp_simps editing_def)
next
  case (Suc n)
  then have ne: "in_e s \<noteq> in_w s" by auto
  let ?t = "s\<lparr>in_e := in_e s - 1\<rparr>"
  note er = erase_char [OF Suc.prems(2) ne]
  have "in_buf s ((in_e s - 1) mod INPUT_BUF) \<in> set (editing s)" by (simp add: er(3))
  then have nl: "in_buf s ((in_e s - 1) mod INPUT_BUF) \<noteq> 10" using Suc.prems(2) by (auto simp: input_ok_def)
  have "cga_ok ?t" using Suc.prems by (simp add: cga_ok_def)
  moreover have "wp (kill_loop n) (\<lambda>_ t. cga_ok t \<and> input_ok t \<and> ready t = ready s \<and> editing t = [] \<and> in_r t = in_r s) u"
    if u: "cga_ok u \<and> same_input ?t u" for u
  proof (rule wp_conseq [OF Suc.IH])
    show "cga_ok u" "input_ok u" "n = unat (in_e u - in_w u)"
      using u er(1,4) Suc.prems(3) same_input_abs [of ?t u] by (auto simp: same_input_def)
    fix x v assume "cga_ok v \<and> input_ok v \<and> ready v = ready u \<and> editing v = [] \<and> in_r v = in_r u"
    then show "cga_ok v \<and> input_ok v \<and> ready v = ready s \<and> editing v = [] \<and> in_r v = in_r s"
      using u er(2) same_input_abs [of ?t u] by (auto simp: same_input_def)
  qed
  ultimately have "wp (consputc BACKSPACE) (\<lambda>_. wp (kill_loop n)
      (\<lambda>_ t. cga_ok t \<and> input_ok t \<and> ready t = ready s \<and> editing t = [] \<and> in_r t = in_r s)) ?t"
    by (intro wp_conseq [OF consputc_wp])
  with ne nl show ?case by (simp add: wp_simps)
qed

text \<open>Appending a character.\<close>

lemma append_char:
  fixes c :: u8
  assumes ok: "input_ok s" and room: "in_e s - in_r s < INPUT_BUF"
  defines "t \<equiv> s\<lparr>in_buf := (in_buf s)(in_e s mod INPUT_BUF := c), in_e := in_e s + 1\<rparr>"
  shows "ready t = ready s" "editing t = editing s @ [c]" "unat (in_e t - in_r t) = Suc (unat (in_e s - in_r s))"
    "unat (in_e s - in_r s) < 128"
proof -
  show lt: "unat (in_e s - in_r s) < 128" using room by (simp add: word_less_nat_alt input_ring)
  show "ready t = ready s"
    using ring_upd_other [OF input_ring(1), of "in_e s" "in_r s" "in_w s"] ok lt
    by (simp add: ready_def t_def input_ok_def input_ring)
  have "unat (in_e s - in_w s) < 128"
    using ok lt ring_append(2) [of "in_w s" "in_r s" "in_e s"] by (simp add: input_ok_def)
  then show "editing t = editing s @ [c]"
    using ring_push(1) [OF input_ring(1), of "in_e s" "in_w s"] by (simp add: editing_def t_def input_ring)
  show "unat (in_e t - in_r t) = Suc (unat (in_e s - in_r s))"
    using ring_push(2) [OF input_ring(1), of "in_e s" "in_r s"] lt by (simp add: t_def input_ring)
qed

lemma commit_line:
  assumes "unat (in_w s - in_r s) \<le> unat (in_e s - in_r s)" "unat (in_e s - in_r s) \<le> 128"
  defines "t \<equiv> s\<lparr>in_w := in_e s\<rparr>"
  shows "input_ok t" "ready t = ready s @ editing s" "editing t = []"
  using assms ring_append(1) [of "in_w s" "in_r s" "in_e s"]
  by (simp_all add: input_ok_def ready_def editing_def)


lemma full_ring: "unat (in_e s - in_r s) \<le> 128 \<Longrightarrow> in_e s = in_r s + INPUT_BUF \<longleftrightarrow> unat (in_e s - in_r s) = 128"
proof -
  have "in_e s = in_r s + INPUT_BUF \<longleftrightarrow> in_e s - in_r s = 128" by (auto simp: INPUT_BUF_def diff_eq_eq add.commute)
  then show ?thesis by (simp add: word_unat_eq_iff)
qed

lemma word_of_int_newline: "0 \<le> c \<Longrightarrow> c < 256 \<Longrightarrow> (word_of_int c :: u8) = 10 \<longleftrightarrow> c = 10"
proof -
  assume c: "0 \<le> c" "c < 256"
  have "uint (word_of_int c :: u8) = c" using c by (simp add: uint_word_of_int take_bit_int_eq_self)
  then show ?thesis by (auto simp: word_uint_eq_iff)
qed

lemma commit_input_edits:
  assumes cga: "cga_ok u" and ub: "unat (in_w u - in_r u) \<le> unat (in_e u - in_r u)" "unat (in_e u - in_r u) \<le> 128"
    and ed: "editing u = E @ [word_of_int d]" "10 \<notin> set E" and d: "0 \<le> d" "d < 256"
  shows "cga_ok (commit_input d u) \<and> input_ok (commit_input d u) \<and> in_r (commit_input d u) = in_r u
     \<and> (ready (commit_input d u), editing (commit_input d u))
       = (if d = 10 \<or> d = 4 \<or> in_e u = in_r u + INPUT_BUF then (ready u @ editing u, []) else (ready u, editing u))"
proof (cases "d = 10 \<or> d = 4 \<or> in_e u = in_r u + INPUT_BUF")
  case True
  have "cga_ok (u\<lparr>in_w := in_e u\<rparr>)" using cga by (simp add: cga_ok_def)
  with True commit_line [OF ub] show ?thesis by (simp add: commit_input_def)
next
  case False
  have "10 \<notin> set (editing u)" using False ed d word_of_int_newline [of d] by auto
  with False ub cga show ?thesis by (simp add: input_ok_def commit_input_def)
qed

text \<open>A character that is not a control character of the editor, when there is room for it.\<close>

lemma insert_char_wp:
  assumes cga: "cga_ok s" and ok: "input_ok s" and c: "0 \<le> c" "c < 256" and char: "c \<noteq> 16" "c \<noteq> 21" "c \<noteq> 8" "c \<noteq> 127"
    and room: "c \<noteq> 0 \<and> in_e s - in_r s < INPUT_BUF"
  shows "wp (consoleintr_char dump c) (\<lambda>_ t. cga_ok t \<and> input_ok t \<and> in_r t = in_r s
     \<and> (ready t, editing t) = edit_char c (ready s, editing s)) s"
proof -
  define d where "d = (if c = 13 then 10 else c)"
  define t where "t = s\<lparr>in_buf := (in_buf s)(in_e s mod INPUT_BUF := word_of_int d), in_e := in_e s + 1\<rparr>"
  have ap: "ready t = ready s" "editing t = editing s @ [word_of_int d]"
      "unat (in_e t - in_r t) = Suc (unat (in_e s - in_r s))" "unat (in_e s - in_r s) < 128"
    unfolding t_def using append_char [OF ok] room by blast+
  have wr: "in_w t = in_w s" "in_r t = in_r s" "cga_ok t" using cga by (simp_all add: t_def cga_ok_def)
  have lens: "length (ready s) + length (editing s) = unat (in_e s - in_r s)" by (rule input_lengths [OF ok])
  have d: "0 \<le> d" "d < 256" using c by (simp_all add: d_def)
  have bounds: "unat (in_w t - in_r t) \<le> unat (in_e t - in_r t)" "unat (in_e t - in_r t) \<le> 128"
    using ap ok by (simp_all add: wr input_ok_def)
  have ec: "edit_char c (ready s, editing s) =
      (if d = 10 \<or> d = 4 \<or> length (ready s) + length (editing s @ [word_of_int d]) = 128
       then (ready s @ editing s @ [word_of_int d], []) else (ready s, editing s @ [word_of_int d]))"
    using char room ap(4) lens by (simp add: edit_char_def d_def Let_def)
  have "wp (consputc d) (\<lambda>_ u. cga_ok (commit_input d u) \<and> input_ok (commit_input d u) \<and> in_r (commit_input d u) = in_r s
      \<and> (ready (commit_input d u), editing (commit_input d u)) = edit_char c (ready s, editing s)) t"
  proof (rule wp_conseq [OF consputc_wp [OF wr(3)]])
    fix x u assume u: "cga_ok u \<and> same_input t u"
    then have su: "in_r u = in_r t" "in_w u = in_w t" "in_e u = in_e t" by (simp_all add: same_input_def)
    have ub: "unat (in_w u - in_r u) \<le> unat (in_e u - in_r u)" "unat (in_e u - in_r u) \<le> 128" using bounds by (simp_all add: su)
    have ur: "in_r u = in_r s" "ready u = ready s" "editing u = editing s @ [word_of_int d]"
      using u same_input_abs [of t u] wr ap by (simp_all add: su)
    have "unat (in_e u - in_r u) = Suc (unat (in_e s - in_r s))" by (simp only: su ap(3))
    then have full: "in_e u = in_r u + INPUT_BUF \<longleftrightarrow> length (ready s) + length (editing s @ [word_of_int d]) = 128"
      using full_ring [OF ub(2)] lens by simp
    have "10 \<notin> set (editing s)" using ok by (simp add: input_ok_def)
    with commit_input_edits [OF _ ub ur(3) _ d] u show "cga_ok (commit_input d u) \<and> input_ok (commit_input d u) \<and> in_r (commit_input d u) = in_r s
      \<and> (ready (commit_input d u), editing (commit_input d u)) = edit_char c (ready s, editing s)" by (simp add: ur ec full [unfolded ur(1)])
  qed
  moreover have "consoleintr_char dump c s = andthen (consputc d) (\<lambda>_. upd (commit_input d)) t"
    using char room by (simp add: consoleintr_char_def andthen_def gets_def upd_def Let_def d_def t_def)
  then have "wp (consoleintr_char dump c) Q s = wp (andthen (consputc d) (\<lambda>_. upd (commit_input d))) Q t" for Q
    by (simp only: wp_def)
  ultimately show ?thesis by (simp add: wp_simps)
qed

lemma consoleintr_char_wp:
  assumes cga: "cga_ok s" and ok: "input_ok s" and c: "0 \<le> c" "c < 256"
  shows "wp (consoleintr_char dump c) (\<lambda>_ t. cga_ok t \<and> input_ok t \<and> in_r t = in_r s
     \<and> (ready t, editing t) = edit_char c (ready s, editing s)) s"
proof -
  consider "c = 16" | "c = 21" | "c = 8 \<or> c = 127" | (char) "c \<noteq> 16" "c \<noteq> 21" "c \<noteq> 8" "c \<noteq> 127" by blast
  then show ?thesis
  proof cases
    case 1
    then have "consoleintr_char dump c = cputs dump" by (simp add: consoleintr_char_def)
    then show ?thesis
      by (simp only:) (rule wp_conseq [OF cputs_wp [OF cga]], elim conjE, frule same_input_abs,
        use ok 1 in \<open>simp add: edit_char_def same_input_def\<close>)
  next
    case 2
    then show ?thesis
      unfolding consoleintr_char_def kill_line_def
      by (simp add: wp_simps, intro wp_conseq [OF kill_loop_wp [OF cga ok refl]]) (auto simp: edit_char_def)
  next
    case 3
    show ?thesis
    proof (cases "in_e s = in_w s")
      case True
      then show ?thesis using 3 cga ok by (auto simp: consoleintr_char_def wp_simps edit_char_def editing_def)
    next
      case False
      let ?t = "s\<lparr>in_e := in_e s - 1\<rparr>"
      note er = erase_char [OF ok False]
      have cga': "cga_ok ?t" using cga by (simp add: cga_ok_def)
      have "wp (consputc BACKSPACE) (\<lambda>_ t. cga_ok t \<and> input_ok t \<and> in_r t = in_r s
          \<and> (ready t, editing t) = (ready s, butlast (editing s))) ?t"
        by (rule wp_conseq [OF consputc_wp [OF cga']], elim conjE, frule same_input_abs) (use er in \<open>simp add: same_input_def\<close>)
      with 3 False show ?thesis by (auto simp: consoleintr_char_def wp_simps edit_char_def)
    qed
  next
    case char
    show ?thesis
    proof (cases "c \<noteq> 0 \<and> in_e s - in_r s < INPUT_BUF")
      case False
      moreover have "in_e s - in_r s < INPUT_BUF \<longleftrightarrow> length (ready s) + length (editing s) < 128"
        using input_lengths [OF ok] by (simp add: word_less_nat_alt input_ring)
      ultimately show ?thesis using char cga ok by (auto simp: consoleintr_char_def wp_simps edit_char_def)
    next
      case True
      then show ?thesis by (rule insert_char_wp [OF cga ok c char])
    qed
  qed
qed

section \<open>Reading\<close>

lemma consoleread_loop_wp:
  assumes "input_ok s" and "take_line got n (ready s) = Some (cs, rest)"
  shows "wp (consoleread_loop killed got n) (\<lambda>r t. r = Some cs \<and> ready t = rest \<and> editing t = editing s
     \<and> input_ok t \<and> (cga_ok s \<longrightarrow> cga_ok t)) s"
  using assms
proof (induction n arbitrary: got s cs)
  case 0
  then show ?case by (simp add: wp_simps)
next
  case (Suc n)
  have ne: "in_r s \<noteq> in_w s"
    using Suc.prems(2) ring_nonempty by (cases "ready s") (auto simp: ready_def)
  let ?c = "in_buf s (in_r s mod INPUT_BUF)" and ?t = "s\<lparr>in_r := in_r s + 1\<rparr>"
  have rdy: "ready s = ?c # ready ?t" and len: "unat (in_w s - (in_r s + 1)) = unat (in_w s - in_r s) - 1"
    using ring_pop [OF ne] by (simp_all add: ready_def)
  have "in_e s \<noteq> in_r s"
    using Suc.prems(1) ne by (auto simp: input_ok_def unat_eq_0)
  then have "unat (in_e s - (in_r s + 1)) = unat (in_e s - in_r s) - 1"
    using ring_pop(2) [of "in_r s" "in_e s"] by auto
  with Suc.prems(1) len have ok: "input_ok ?t" and ed: "editing ?t = editing s"
    by (auto simp: input_ok_def editing_def)
  show ?case
  proof (cases "?c = 4 \<or> ?c = 10")
    case True
    with Suc.prems ne rdy ok ed show ?thesis
      by (auto simp: wp_simps cga_ok_def split: if_splits)
  next
    case False
    with Suc.prems(2) rdy obtain ds where ds: "take_line (Suc got) n (ready ?t) = Some (ds, rest)" "cs = ?c # ds"
      by auto
    have "wp (consoleread_loop killed (Suc got) n) (\<lambda>r t. map_option (Cons ?c) r = Some cs \<and> ready t = rest
        \<and> editing t = editing s \<and> input_ok t \<and> (cga_ok s \<longrightarrow> cga_ok t)) ?t"
      by (rule wp_conseq [OF Suc.IH [OF ok ds(1)]]) (use ds(2) ed in \<open>auto simp: cga_ok_def\<close>)
    with False ne show ?thesis by (simp add: wp_simps)
  qed
qed

section \<open>Properties\<close>

text \<open>
  C38: the input side of the console implements the line editor. Every character \<^verbatim>\<open>consoleintr\<close> takes changes the pair
  of readable characters and edited line as \<open>edit_char\<close> says: control-U erases the line, backspace
  its last character, and a line is handed to readers at a newline, an end-of-file mark or when the ring is full;
  the indices stay within the ring and the cursor on the screen.
\<close>

theorem consoleintr_edits:
  assumes "cga_ok s" and "input_ok s" and "0 \<le> c" and "c < 256"
  shows "\<exists>t. consoleintr_char dump c s = Inr ((), t) \<and> cga_ok t \<and> input_ok t
     \<and> (ready t, editing t) = edit_char c (ready s, editing s)"
  using wpD [OF consoleintr_char_wp [OF assms]] by auto

definition blank_cons :: cons where
  "blank_cons = \<lparr>crt = (\<lambda>_. 0), cursor = 0, serial = [], in_buf = (\<lambda>_. 0), in_r = 0, in_w = 0, in_e = 0\<rparr>"

lemma blank_ok: "cga_ok blank_cons" "input_ok blank_cons" "ready blank_cons = []" "editing blank_cons = []"
  by (simp_all add: blank_cons_def cga_ok_def input_ok_def editing_def ready_def)

theorem consoleintr_edits_witness:
  "\<exists>t. consoleintr_char [] 97 blank_cons = Inr ((), t) \<and> ready t = [] \<and> editing t = [97]"
  using consoleintr_edits [of blank_cons 97 "[]"] blank_ok by (auto simp: edit_char_def Let_def)

text \<open>
  \<^verbatim>\<open>consoleread\<close> takes characters from the readable ones up to and including a newline, up to \<open>n\<close> of them, or up
  to an end-of-file mark, which it leaves for the next call if it has copied something before; the rest stays readable
  and the edited line is untouched.
\<close>

theorem consoleread_line:
  assumes "input_ok s" and "take_line 0 (nat n) (ready s) = Some (cs, rest)"
  shows "\<exists>t. consoleread killed n s = Inr ((int (length cs), cs), t) \<and> ready t = rest \<and> editing t = editing s \<and> input_ok t"
proof -
  obtain t where "consoleread_loop killed 0 (nat n) s = Inr (Some cs, t)" "ready t = rest" "editing t = editing s" "input_ok t"
    using wpD [OF consoleread_loop_wp [OF assms, of killed]] by auto
  then show ?thesis by (simp add: consoleread_def kop_defs)
qed

definition line_cons :: cons where
  "line_cons = blank_cons\<lparr>in_buf := (\<lambda>i. if i = 1 then 10 else 97), in_w := 3, in_e := 3\<rparr>"

theorem consoleread_line_witness:
  "\<exists>t. consoleread False 5 line_cons = Inr ((2, [97, 10]), t) \<and> ready t = [97]"
proof -
  have "[0..<3] = [0, 1, 2 :: nat]" by (simp add: upt_rec)
  then have "ready line_cons = [97, 10, 97]" "input_ok line_cons"
    by (simp_all add: ready_def ring_def line_cons_def blank_cons_def INPUT_BUF_def input_ok_def editing_def)
  moreover have "take_line 0 (nat 5) [97, 10, 97] = Some ([97, 10], [97])" by code_simp
  ultimately show ?thesis
    using consoleread_line [of line_cons 5 "[97, 10]" "[97]" False] by auto
qed

text \<open>
  Number formatting. The digits \<^verbatim>\<open>printint\<close> prints, read in the given base, are the value of the
  argument taken modulo \<open>2 ^ 32\<close>, or of its magnitude after a minus sign, and they fit the 16 bytes of its buffer.
\<close>

theorem printint_digits:
  assumes "base = 10 \<or> base = 16"
  shows "\<exists>ds. printint xx base sign = (if sign \<and> xx < 0 then ''-'' else '''') @ map (\<lambda>d. digits ! d) ds
     \<and> digits_value base (rev ds) = nat ((if sign \<and> xx < 0 then - xx else xx) mod 2 ^ 32)
     \<and> (\<forall>d \<in> set ds. d < base) \<and> length (printint xx base sign) \<le> 11"
proof -
  let ?x = "nat ((if sign \<and> xx < 0 then - xx else xx) mod 2 ^ 32)"
  have lt: "?x < 2 ^ 32" by (simp add: nat_less_iff)
  have "(2::nat) ^ 32 \<le> base ^ Suc 9" using assms by auto
  with lt have "?x < base ^ Suc 9" by (rule less_le_trans)
  then have "length (digits_rev base ?x) \<le> Suc 9" using assms by (intro digits_rev_length) auto
  then show ?thesis
    using assms digits_rev_value [of base ?x] digits_rev_less [of base _ ?x]
    by (intro exI [of _ "rev (digits_rev base ?x)"]) (auto simp: printint_def Let_def rev_map)
qed

theorem printint_digits_witness: "\<exists>ds. printint (-42) 10 True = ''-'' @ map (\<lambda>d. digits ! d) ds \<and> digits_value 10 (rev ds) = 42"
  using printint_digits [of 10 "-42" True] by auto

end
