(* ===== verification/Fs.thy ===== *)
theory Fs
  imports Balloc Console
begin

text \<open>
  The inode, content, directory and path layers of \<^verbatim>\<open>fs.c\<close>, on the block layer of theory \<open>Balloc\<close>. A pointer
  into the inode cache is the index of its entry, a null result \<open>None\<close>; bytes copied out to a caller's buffer are part of
  the result. \<^verbatim>\<open>wakeup\<close> changes no state of the file system and is left out; a routine that has to wait for a locked
  inode stops with \<open>Sleep\<close>.
\<close>

section \<open>Data\<close>

definition NINODE :: nat where "NINODE = 50"
definition NDEV :: int where "NDEV = 10"
definition ROOTINO :: u32 where "ROOTINO = 1"
definition NDIRECT :: nat where "NDIRECT = 12"
definition NINDIRECT :: nat where "NINDIRECT = BSIZE div 4"
definition MAXFILE :: nat where "MAXFILE = NDIRECT + NINDIRECT"
definition DIRSIZ :: nat where "DIRSIZ = 14"
definition T_DIR :: u16 where "T_DIR = 1"
definition T_FILE :: u16 where "T_FILE = 2"
definition T_DEV :: u16 where "T_DEV = 3"
definition CONSOLE :: int where "CONSOLE = 1"

datatype iflag = I_BUSY | I_VALID

record inode =
  i_dev :: u32
  i_inum :: u32
  i_ref :: int
  i_flags :: "iflag set"
  i_type :: u16
  i_major :: u16
  i_minor :: u16
  i_nlink :: u16
  i_size :: u32
  i_addrs :: "nat \<Rightarrow> u32"

text \<open>
  The state of the file system code: the log with the buffer cache below it, the inode cache, the console device, and
  the fields of the current process the code reads (\<^verbatim>\<open>proc->cwd\<close>, \<^verbatim>\<open>proc->killed\<close>).
\<close>

record fs =
  flog :: log
  inodes :: "nat \<Rightarrow> inode"
  fcons :: cons
  fcwd :: nat
  fkilled :: bool

definition fl :: "(log, 'a) kop \<Rightarrow> (fs, 'a) kop" where
  "fl = zoom flog (\<lambda>l s. s\<lparr>flog := l\<rparr>)"

definition geti :: "nat \<Rightarrow> (fs, inode) kop" where
  "geti ip = gets (\<lambda>s. inodes s ip)"

definition seti :: "nat \<Rightarrow> (inode \<Rightarrow> inode) \<Rightarrow> (fs, unit) kop" where
  "seti ip f = upd (\<lambda>s. s\<lparr>inodes := (inodes s)(ip := f (inodes s ip))\<rparr>)"

text \<open>\<^verbatim>\<open>struct dinode\<close> in its block: the place of an inode, and copying it in either direction.\<close>

definition dip_off :: "u32 \<Rightarrow> nat" where
  "dip_off inum = 64 * (unat inum mod IPB)"

definition dinode_get :: "bytes \<Rightarrow> nat \<Rightarrow> inode \<Rightarrow> inode" where
  "dinode_get x o' ip = ip\<lparr>i_type := get16 x o', i_major := get16 x (o' + 2), i_minor := get16 x (o' + 4),
     i_nlink := get16 x (o' + 6), i_size := get32 x (o' + 8), i_addrs := (\<lambda>i. get32 x (o' + 12 + 4 * i))\<rparr>"

definition dinode_put :: "inode \<Rightarrow> nat \<Rightarrow> bytes \<Rightarrow> bytes" where
  "dinode_put ip o' x =
     foldl (\<lambda>y i. put32 y (o' + 12 + 4 * i) (i_addrs ip i))
       (put32 (put16 (put16 (put16 (put16 x o' (i_type ip)) (o' + 2) (i_major ip)) (o' + 4) (i_minor ip)) (o' + 6) (i_nlink ip))
         (o' + 8) (i_size ip))
       [0..<Suc NDIRECT]"

section \<open>Inodes\<close>

text \<open>
  The scan of \<^verbatim>\<open>iget\<close>: the entry caching \<open>(dev, inum)\<close>, or else the first entry without references.
\<close>

definition iget_find :: "u32 \<Rightarrow> u32 \<Rightarrow> (nat \<Rightarrow> inode) \<Rightarrow> nat option" where
  "iget_find dev inum is = find (\<lambda>i. 0 < i_ref (is i) \<and> i_dev (is i) = dev \<and> i_inum (is i) = inum) [0..<NINODE]"

definition iget_empty :: "(nat \<Rightarrow> inode) \<Rightarrow> nat option" where
  "iget_empty is = find (\<lambda>i. i_ref (is i) = 0) [0..<NINODE]"

definition iget :: "u32 \<Rightarrow> u32 \<Rightarrow> (fs, nat) kop" where
  "iget dev inum =
     andthen (gets inodes) (\<lambda>is.
     case iget_find dev inum is of
       Some ip \<Rightarrow> andthen (seti ip (\<lambda>i. i\<lparr>i_ref := i_ref i + 1\<rparr>)) (\<lambda>_. ret ip)
     | None \<Rightarrow> (case iget_empty is of
         None \<Rightarrow> stop (Panic ''iget: no inodes'')
       | Some ip \<Rightarrow> andthen (seti ip (\<lambda>i. i\<lparr>i_dev := dev, i_inum := inum, i_ref := 1, i_flags := {}\<rparr>)) (\<lambda>_. ret ip)))"

definition idup :: "nat \<Rightarrow> (fs, nat) kop" where
  "idup ip = andthen (seti ip (\<lambda>i. i\<lparr>i_ref := i_ref i + 1\<rparr>)) (\<lambda>_. ret ip)"

fun ialloc_loop :: "u32 \<Rightarrow> u16 \<Rightarrow> nat list \<Rightarrow> (fs, nat) kop" where
  "ialloc_loop dev type [] = stop (Panic ''ialloc: no inodes'')"
| "ialloc_loop dev type (inum # is) =
     andthen (fl (lio (bread dev (IBLOCK (of_nat inum))))) (\<lambda>bp.
     andthen (fl (lio (get_data bp))) (\<lambda>x.
     let d = dip_off (of_nat inum) in
     if get16 x d = 0 then
       andthen (fl (lio (put_data bp (\<lambda>x. put16 (\<lambda>i. if d \<le> i \<and> i < d + 64 then 0 else x i) d type)))) (\<lambda>_.
       andthen (fl (log_write bp)) (\<lambda>_.
       andthen (fl (lio (brelse bp))) (\<lambda>_.
       iget dev (of_nat inum))))
     else
       andthen (fl (lio (brelse bp))) (\<lambda>_. ialloc_loop dev type is)))"

definition ialloc :: "u32 \<Rightarrow> u16 \<Rightarrow> (fs, nat) kop" where
  "ialloc dev type =
     andthen (fl (lio (readsb dev))) (\<lambda>sb.
     ialloc_loop dev type [1..<unat (sb_ninodes sb)])"

definition iupdate :: "nat \<Rightarrow> (fs, unit) kop" where
  "iupdate ip =
     andthen (geti ip) (\<lambda>i.
     andthen (fl (lio (bread (i_dev i) (IBLOCK (i_inum i))))) (\<lambda>bp.
     andthen (fl (lio (put_data bp (dinode_put i (dip_off (i_inum i)))))) (\<lambda>_.
     andthen (fl (log_write bp)) (\<lambda>_.
     fl (lio (brelse bp))))))"

definition ilock :: "nat \<Rightarrow> (fs, unit) kop" where
  "ilock ip =
     andthen (geti ip) (\<lambda>i.
     andthen (panic_if (i_ref i < 1) ''ilock'') (\<lambda>_.
     if I_BUSY \<in> i_flags i then stop (Sleep (Ch_inode ip))
     else
       andthen (seti ip (\<lambda>i. i\<lparr>i_flags := insert I_BUSY (i_flags i)\<rparr>)) (\<lambda>_.
       if I_VALID \<in> i_flags i then ret ()
       else
         andthen (fl (lio (bread (i_dev i) (IBLOCK (i_inum i))))) (\<lambda>bp.
         andthen (fl (lio (get_data bp))) (\<lambda>x.
         andthen (seti ip (dinode_get x (dip_off (i_inum i)))) (\<lambda>_.
         andthen (fl (lio (brelse bp))) (\<lambda>_.
         andthen (seti ip (\<lambda>i. i\<lparr>i_flags := insert I_VALID (i_flags i)\<rparr>)) (\<lambda>_.
         panic_if (get16 x (dip_off (i_inum i)) = 0) ''ilock: no type'')))))))) "

definition iunlock :: "nat \<Rightarrow> (fs, unit) kop" where
  "iunlock ip =
     andthen (geti ip) (\<lambda>i.
     andthen (panic_if (I_BUSY \<notin> i_flags i \<or> i_ref i < 1) ''iunlock'') (\<lambda>_.
     seti ip (\<lambda>i. i\<lparr>i_flags := i_flags i - {I_BUSY}\<rparr>)))"

section \<open>Content\<close>

definition bmap :: "nat \<Rightarrow> nat \<Rightarrow> (fs, u32) kop" where
  "bmap ip bn =
     andthen (geti ip) (\<lambda>i.
     if bn < NDIRECT then
       if i_addrs i bn = 0 then
         andthen (fl (balloc (i_dev i))) (\<lambda>addr.
         andthen (seti ip (\<lambda>i. i\<lparr>i_addrs := (i_addrs i)(bn := addr)\<rparr>)) (\<lambda>_.
         ret addr))
       else ret (i_addrs i bn)
     else if bn - NDIRECT < NINDIRECT then
       andthen
         (if i_addrs i NDIRECT = 0 then
            andthen (fl (balloc (i_dev i))) (\<lambda>addr.
            andthen (seti ip (\<lambda>i. i\<lparr>i_addrs := (i_addrs i)(NDIRECT := addr)\<rparr>)) (\<lambda>_.
            ret addr))
          else ret (i_addrs i NDIRECT)) (\<lambda>ind.
       andthen (fl (lio (bread (i_dev i) ind))) (\<lambda>bp.
       andthen (fl (lio (get_data bp))) (\<lambda>a.
       if get32 a (4 * (bn - NDIRECT)) = 0 then
         andthen (fl (balloc (i_dev i))) (\<lambda>addr.
         andthen (fl (lio (put_data bp (\<lambda>a. put32 a (4 * (bn - NDIRECT)) addr)))) (\<lambda>_.
         andthen (fl (log_write bp)) (\<lambda>_.
         andthen (fl (lio (brelse bp))) (\<lambda>_.
         ret addr))))
       else
         andthen (fl (lio (brelse bp))) (\<lambda>_. ret (get32 a (4 * (bn - NDIRECT)))))))
     else stop (Panic ''bmap: out of range''))"

definition itrunc_direct :: "nat \<Rightarrow> nat \<Rightarrow> (fs, unit) kop" where
  "itrunc_direct ip n =
     andthen (geti ip) (\<lambda>i.
     if i_addrs i n \<noteq> 0 then
       andthen (fl (bfree (i_dev i) (i_addrs i n))) (\<lambda>_.
       seti ip (\<lambda>i. i\<lparr>i_addrs := (i_addrs i)(n := 0)\<rparr>))
     else ret ())"

definition itrunc :: "nat \<Rightarrow> (fs, unit) kop" where
  "itrunc ip =
     andthen (mfor [0..<NDIRECT] (itrunc_direct ip)) (\<lambda>_.
     andthen (geti ip) (\<lambda>i.
     andthen
       (if i_addrs i NDIRECT \<noteq> 0 then
          andthen (fl (lio (bread (i_dev i) (i_addrs i NDIRECT)))) (\<lambda>bp.
          andthen (mfor [0..<NINDIRECT] (\<lambda>j.
            andthen (fl (lio (get_data bp))) (\<lambda>a.
            if get32 a (4 * j) \<noteq> 0 then fl (bfree (i_dev i) (get32 a (4 * j))) else ret ()))) (\<lambda>_.
          andthen (fl (lio (brelse bp))) (\<lambda>_.
          andthen (fl (bfree (i_dev i) (i_addrs i NDIRECT))) (\<lambda>_.
          seti ip (\<lambda>i. i\<lparr>i_addrs := (i_addrs i)(NDIRECT := 0)\<rparr>)))))
        else ret ()) (\<lambda>_.
     andthen (seti ip (\<lambda>i. i\<lparr>i_size := 0\<rparr>)) (\<lambda>_.
     iupdate ip))))"

definition iput :: "nat \<Rightarrow> (fs, unit) kop" where
  "iput ip =
     andthen (geti ip) (\<lambda>i.
     andthen
       (if i_ref i = 1 \<and> I_VALID \<in> i_flags i \<and> i_nlink i = 0 then
          andthen (panic_if (I_BUSY \<in> i_flags i) ''iput busy'') (\<lambda>_.
          andthen (seti ip (\<lambda>i. i\<lparr>i_flags := insert I_BUSY (i_flags i)\<rparr>)) (\<lambda>_.
          andthen (itrunc ip) (\<lambda>_.
          andthen (seti ip (\<lambda>i. i\<lparr>i_type := 0\<rparr>)) (\<lambda>_.
          andthen (iupdate ip) (\<lambda>_.
          seti ip (\<lambda>i. i\<lparr>i_flags := {}\<rparr>))))))
        else ret ()) (\<lambda>_.
     seti ip (\<lambda>i. i\<lparr>i_ref := i_ref i - 1\<rparr>)))"

definition iunlockput :: "nat \<Rightarrow> (fs, unit) kop" where
  "iunlockput ip = andthen (iunlock ip) (\<lambda>_. iput ip)"

record stat =
  st_type :: u16
  st_dev :: u32
  st_ino :: u32
  st_nlink :: u16
  st_size :: u32

definition stati :: "nat \<Rightarrow> (fs, stat) kop" where
  "stati ip = gets (\<lambda>s. let i = inodes s ip in
     \<lparr>st_type = i_type i, st_dev = i_dev i, st_ino = i_inum i, st_nlink = i_nlink i, st_size = i_size i\<rparr>)"

text \<open>
  The device switch: \<^verbatim>\<open>consoleinit\<close> registers the console's functions under major number \<^verbatim>\<open>CONSOLE\<close>, and
  nothing else is registered. Both functions unlock the inode while they run.
\<close>

definition dev_registered :: "u16 \<Rightarrow> bool" where
  "dev_registered major \<longleftrightarrow> \<not> (sint major < 0 \<or> sint major \<ge> NDEV \<or> sint major \<noteq> CONSOLE)"

definition dev_read :: "nat \<Rightarrow> u32 \<Rightarrow> (fs, int \<times> u8 list) kop" where
  "dev_read ip n =
     andthen (iunlock ip) (\<lambda>_.
     andthen (gets fkilled) (\<lambda>k.
     andthen (zoom fcons (\<lambda>c s. s\<lparr>fcons := c\<rparr>) (consoleread k (sint n))) (\<lambda>r.
     andthen (ilock ip) (\<lambda>_. ret r))))"

definition dev_write :: "nat \<Rightarrow> bytes \<Rightarrow> u32 \<Rightarrow> (fs, int) kop" where
  "dev_write ip src n =
     andthen (iunlock ip) (\<lambda>_.
     andthen (zoom fcons (\<lambda>c s. s\<lparr>fcons := c\<rparr>) (consolewrite (map src [0..<nat (sint n)]))) (\<lambda>_.
     andthen (ilock ip) (\<lambda>_. ret (sint n))))"

text \<open>
  The copying loops of \<^verbatim>\<open>readi\<close> and \<^verbatim>\<open>writei\<close>, from file offset \<open>off\<close> with \<open>left = n - tot\<close> bytes to go. The checks
  before them exclude wrap-around of \<open>off + n\<close>, so both are natural numbers.
\<close>

definition chunk :: "nat \<Rightarrow> nat \<Rightarrow> nat" where
  "chunk off left = min left (BSIZE - off mod BSIZE)"

lemma chunk_bounds: "left \<noteq> 0 \<Longrightarrow> 0 < chunk off left" "chunk off left \<le> left"
  by (auto simp: chunk_def BSIZE_def)

function readi_loop :: "nat \<Rightarrow> nat \<Rightarrow> nat \<Rightarrow> (fs, u8 list) kop" where
  "readi_loop ip off left =
     (if left = 0 then ret []
      else
        andthen (geti ip) (\<lambda>i.
        andthen (bmap ip (off div BSIZE)) (\<lambda>addr.
        andthen (fl (lio (bread (i_dev i) addr))) (\<lambda>bp.
        andthen (fl (lio (get_data bp))) (\<lambda>x.
        andthen (fl (lio (brelse bp))) (\<lambda>_.
        andthen (readi_loop ip (off + chunk off left) (left - chunk off left)) (\<lambda>rest.
        ret (map (\<lambda>j. x (off mod BSIZE + j)) [0..<chunk off left] @ rest))))))))"
  by pat_completeness auto
termination by (relation "measure (\<lambda>(ip, off, left). left)") (use chunk_bounds(1) in auto)

declare readi_loop.simps [simp del]

definition readi :: "nat \<Rightarrow> u32 \<Rightarrow> u32 \<Rightarrow> (fs, int \<times> u8 list) kop" where
  "readi ip off n =
     andthen (geti ip) (\<lambda>i.
     if i_type i = T_DEV then
       if \<not> dev_registered (i_major i) then ret (-1, []) else dev_read ip n
     else if off > i_size i \<or> off + n < off then ret (-1, [])
     else
       let n = (if off + n > i_size i then i_size i - off else n) in
       andthen (readi_loop ip (unat off) (unat n)) (\<lambda>bs. ret (sint n, bs)))"

definition blit :: "bytes \<Rightarrow> nat \<Rightarrow> nat \<Rightarrow> bytes \<Rightarrow> bytes" where
  "blit src o' m x = (\<lambda>j. if o' \<le> j \<and> j < o' + m then src (j - o') else x j)"

function writei_loop :: "nat \<Rightarrow> bytes \<Rightarrow> nat \<Rightarrow> nat \<Rightarrow> (fs, nat) kop" where
  "writei_loop ip src off left =
     (if left = 0 then ret off
      else
        andthen (geti ip) (\<lambda>i.
        andthen (bmap ip (off div BSIZE)) (\<lambda>addr.
        andthen (fl (lio (bread (i_dev i) addr))) (\<lambda>bp.
        andthen (fl (lio (put_data bp (blit src (off mod BSIZE) (chunk off left))))) (\<lambda>_.
        andthen (fl (log_write bp)) (\<lambda>_.
        andthen (fl (lio (brelse bp))) (\<lambda>_.
        writei_loop ip (\<lambda>j. src (chunk off left + j)) (off + chunk off left) (left - chunk off left))))))))"
  by pat_completeness auto
termination by (relation "measure (\<lambda>(ip, src, off, left). left)") (use chunk_bounds(1) in auto)

declare writei_loop.simps [simp del]

definition writei :: "nat \<Rightarrow> bytes \<Rightarrow> u32 \<Rightarrow> u32 \<Rightarrow> (fs, int) kop" where
  "writei ip src off n =
     andthen (geti ip) (\<lambda>i.
     if i_type i = T_DEV then
       if \<not> dev_registered (i_major i) then ret (-1) else dev_write ip src n
     else if off > i_size i \<or> off + n < off then ret (-1)
     else if off + n > of_nat (MAXFILE * BSIZE) then ret (-1)
     else
       andthen (writei_loop ip src (unat off) (unat n)) (\<lambda>end.
       andthen
         (if n > 0 \<and> of_nat end > i_size i then
            andthen (seti ip (\<lambda>i. i\<lparr>i_size := of_nat end\<rparr>)) (\<lambda>_. iupdate ip)
          else ret ()) (\<lambda>_.
       ret (sint n))))"

section \<open>Directories\<close>

text \<open>
  A name is an array of \<^verbatim>\<open>DIRSIZ\<close> bytes, terminated by a NUL unless it fills the array. \<^verbatim>\<open>namecmp\<close> is \<^verbatim>\<open>strncmp\<close> on two such
  arrays, and \<open>name_field\<close> the \<^verbatim>\<open>strncpy\<close> into one.
\<close>

fun strncmp_bytes :: "nat \<Rightarrow> bytes \<Rightarrow> bytes \<Rightarrow> int" where
  "strncmp_bytes 0 p q = 0"
| "strncmp_bytes (Suc n) p q =
     (if p 0 \<noteq> 0 \<and> p 0 = q 0 then strncmp_bytes n (\<lambda>i. p (Suc i)) (\<lambda>i. q (Suc i)) else uint (p 0) - uint (q 0))"

definition namecmp :: "bytes \<Rightarrow> bytes \<Rightarrow> int" where
  "namecmp s t = strncmp_bytes DIRSIZ s t"

definition name_field :: "bytes \<Rightarrow> bytes" where
  "name_field name = (\<lambda>i. if list_all (\<lambda>j. name j \<noteq> 0) [0..<i] then name i else 0)"

definition de_size :: nat where "de_size = 16"

definition as_bytes :: "u8 list \<Rightarrow> bytes" where
  "as_bytes bs = (\<lambda>i. if i < length bs then bs ! i else 0)"

definition de_inum :: "u8 list \<Rightarrow> u16" where
  "de_inum de = get16 (as_bytes de) 0"

definition de_name :: "u8 list \<Rightarrow> bytes" where
  "de_name de = (\<lambda>i. as_bytes de (2 + i))"

definition mk_dirent :: "bytes \<Rightarrow> u32 \<Rightarrow> bytes" where
  "mk_dirent name inum = put16 (\<lambda>i. name_field name (i - 2)) 0 (ucast inum)"

definition dirent_offs :: "u32 \<Rightarrow> nat list" where
  "dirent_offs sz = map (\<lambda>i. i * de_size) [0..<(unat sz + de_size - 1) div de_size]"

definition read_dirent :: "nat \<Rightarrow> nat \<Rightarrow> (fs, u8 list) kop" where
  "read_dirent dp off =
     andthen (readi dp (of_nat off) (of_nat de_size)) (\<lambda>(r, de).
     andthen (panic_if (r \<noteq> int de_size) ''dirlink read'') (\<lambda>_. ret de))"

fun dirlookup_loop :: "nat \<Rightarrow> bytes \<Rightarrow> nat list \<Rightarrow> (fs, (nat \<times> nat) option) kop" where
  "dirlookup_loop dp name [] = ret None"
| "dirlookup_loop dp name (off # offs) =
     andthen (read_dirent dp off) (\<lambda>de.
     if de_inum de = 0 then dirlookup_loop dp name offs
     else if namecmp name (de_name de) = 0 then
       andthen (geti dp) (\<lambda>d.
       andthen (iget (i_dev d) (ucast (de_inum de))) (\<lambda>ip. ret (Some (ip, off))))
     else dirlookup_loop dp name offs)"

definition dirlookup :: "nat \<Rightarrow> bytes \<Rightarrow> (fs, (nat \<times> nat) option) kop" where
  "dirlookup dp name =
     andthen (geti dp) (\<lambda>d.
     andthen (panic_if (i_type d \<noteq> T_DIR) ''dirlookup not DIR'') (\<lambda>_.
     dirlookup_loop dp name (dirent_offs (i_size d))))"

text \<open>The offset at which the second loop of \<^verbatim>\<open>dirlink\<close> ends: an unused entry, or the first offset not below the size.\<close>

fun dirlink_slot :: "nat \<Rightarrow> nat list \<Rightarrow> nat \<Rightarrow> (fs, nat) kop" where
  "dirlink_slot dp [] end = ret end"
| "dirlink_slot dp (off # offs) end =
     andthen (read_dirent dp off) (\<lambda>de.
     if de_inum de = 0 then ret off else dirlink_slot dp offs end)"

definition dirlink :: "nat \<Rightarrow> bytes \<Rightarrow> u32 \<Rightarrow> (fs, int) kop" where
  "dirlink dp name inum =
     andthen (dirlookup dp name) (\<lambda>r.
     case r of
       Some (ip, _) \<Rightarrow> andthen (iput ip) (\<lambda>_. ret (-1))
     | None \<Rightarrow>
         andthen (geti dp) (\<lambda>d.
         let offs = dirent_offs (i_size d) in
         andthen (dirlink_slot dp offs (length offs * de_size)) (\<lambda>off.
         andthen (writei dp (mk_dirent name inum) (of_nat off) (of_nat de_size)) (\<lambda>r.
         andthen (panic_if (r \<noteq> int de_size) ''dirlink'') (\<lambda>_.
         ret 0)))))"

section \<open>Paths\<close>

text \<open>
  A path is the list of its bytes before the terminating NUL. \<^verbatim>\<open>skipelem\<close> overwrites the caller's array \<open>name\<close>, whose
  bytes beyond the NUL stay as they were.
\<close>

definition slash :: u8 where "slash = 0x2f"

definition set_name :: "u8 list \<Rightarrow> bytes \<Rightarrow> bytes" where
  "set_name s name =
     (if length s \<ge> DIRSIZ then (\<lambda>i. if i < DIRSIZ then s ! i else name i)
      else (\<lambda>i. if i < length s then s ! i else name i)(length s := 0))"

definition skipelem :: "u8 list \<Rightarrow> bytes \<Rightarrow> (u8 list \<times> bytes) option" where
  "skipelem path name =
     (let path = dropWhile (\<lambda>c. c = slash) path in
      if path = [] then None
      else
        let s = takeWhile (\<lambda>c. c \<noteq> slash) path in
        let path = dropWhile (\<lambda>c. c \<noteq> slash) path in
        Some (dropWhile (\<lambda>c. c = slash) path, set_name s name))"

lemma skipelem_shorter: "skipelem path name = Some (p, nm) \<Longrightarrow> length p < length path"
proof -
  assume a: "skipelem path name = Some (p, nm)"
  define q where "q = dropWhile (\<lambda>c. c = slash) path"
  have q: "q \<noteq> []" "hd q \<noteq> slash" "length q \<le> length path"
    using a hd_dropWhile [of "\<lambda>c. c = slash" path]
    by (auto simp: skipelem_def q_def Let_def length_dropWhile_le split: if_splits)
  have "p = dropWhile (\<lambda>c. c = slash) (dropWhile (\<lambda>c. c \<noteq> slash) q)"
    using a by (auto simp: skipelem_def q_def Let_def split: if_splits)
  then have "length p \<le> length (dropWhile (\<lambda>c. c \<noteq> slash) q)" by (simp add: length_dropWhile_le)
  also have "\<dots> < length q"
    using q by (cases q) (auto simp: length_dropWhile_le less_Suc_eq_le)
  finally show ?thesis using q(3) by simp
qed

function namex_loop :: "nat \<Rightarrow> u8 list \<Rightarrow> bool \<Rightarrow> bytes \<Rightarrow> (fs, (nat \<times> bytes) option) kop" where
  "namex_loop ip path nameiparent name =
     (case skipelem path name of
        None \<Rightarrow>
          if nameiparent then andthen (iput ip) (\<lambda>_. ret None) else ret (Some (ip, name))
      | Some (path, name) \<Rightarrow>
          andthen (ilock ip) (\<lambda>_.
          andthen (geti ip) (\<lambda>i.
          if i_type i \<noteq> T_DIR then andthen (iunlockput ip) (\<lambda>_. ret None)
          else if nameiparent \<and> path = [] then andthen (iunlock ip) (\<lambda>_. ret (Some (ip, name)))
          else
            andthen (dirlookup ip name) (\<lambda>next.
            case next of
              None \<Rightarrow> andthen (iunlockput ip) (\<lambda>_. ret None)
            | Some (next, _) \<Rightarrow>
                andthen (iunlockput ip) (\<lambda>_. namex_loop next path nameiparent name)))))"
  by pat_completeness auto
termination by (relation "measure (\<lambda>(ip, path, par, name). length path)") (auto dest: skipelem_shorter)

declare namex_loop.simps [simp del]

definition namex :: "u8 list \<Rightarrow> bool \<Rightarrow> bytes \<Rightarrow> (fs, (nat \<times> bytes) option) kop" where
  "namex path nameiparent name =
     andthen (case path of c # _ \<Rightarrow> if c = slash then iget ROOTDEV ROOTINO else andthen (gets fcwd) idup
              | [] \<Rightarrow> andthen (gets fcwd) idup) (\<lambda>ip.
     namex_loop ip path nameiparent name)"

definition namei :: "u8 list \<Rightarrow> (fs, nat option) kop" where
  "namei path = andthen (namex path False (\<lambda>_. 0)) (\<lambda>r. ret (map_option fst r))"

definition nameiparent :: "u8 list \<Rightarrow> bytes \<Rightarrow> (fs, (nat \<times> bytes) option) kop" where
  "nameiparent path name = namex path True name"

end
