(* ===== verification/Content.thy ===== *)
theory Content
  imports Fs
begin

text \<open>
  What the content layer of \<^verbatim>\<open>fs.c\<close> promises: for a file whose blocks are mapped, \<^verbatim>\<open>readi\<close> returns the bytes of the
  file and \<^verbatim>\<open>writei\<close> changes exactly the bytes it was given, within a transaction.
\<close>

section \<open>The bytes of a file\<close>

definition blk_addr :: "(u32 \<Rightarrow> bytes) \<Rightarrow> inode \<Rightarrow> nat \<Rightarrow> u32" where
  "blk_addr V i bn = (if bn < NDIRECT then i_addrs i bn else get32 (V (i_addrs i NDIRECT)) (4 * (bn - NDIRECT)))"

definition content :: "(u32 \<Rightarrow> bytes) \<Rightarrow> inode \<Rightarrow> bytes" where
  "content V i p = V (blk_addr V i (p div BSIZE)) (p mod BSIZE)"

text \<open>The first \<open>N\<close> blocks of the file are mapped, to different home blocks, apart from its indirect block.\<close>

definition file_ok :: "log \<Rightarrow> inode \<Rightarrow> nat \<Rightarrow> bool" where
  "file_ok l i N \<longleftrightarrow> i_dev i = ROOTDEV \<and> N \<le> MAXFILE
     \<and> (\<forall>bn < N. blk_addr (tx_view l) i bn \<noteq> 0 \<and> tx_home l (blk_addr (tx_view l) i bn))
     \<and> inj_on (blk_addr (tx_view l) i) {..<N}
     \<and> (NDIRECT < N \<longrightarrow> i_addrs i NDIRECT \<noteq> 0 \<and> tx_home l (i_addrs i NDIRECT)
          \<and> i_addrs i NDIRECT \<notin> blk_addr (tx_view l) i ` {..<N})"

definition fs_step :: "(u32 \<Rightarrow> bytes) \<Rightarrow> nat \<Rightarrow> fs \<Rightarrow> fs \<Rightarrow> bool" where
  "fs_step V n s t \<longleftrightarrow> (\<exists>l. t = s\<lparr>flog := l\<rparr> \<and> tx_step V n (flog s) l)"

lemma wp_fl: "wp (fl f) Q s = wp f (\<lambda>x l. Q x (s\<lparr>flog := l\<rparr>)) (flog s)"
  by (simp add: fl_def wp_zoom)

lemma fs_step_refl: "tx_ok (flog s) \<Longrightarrow> fs_step (tx_view (flog s)) 0 s s"
  unfolding fs_step_def by (rule exI [of _ "flog s"]) (simp add: tx_step_refl)

lemma fs_step_trans: "fs_step V m s t \<Longrightarrow> fs_step W n t u \<Longrightarrow> fs_step W (m + n) s u"
  unfolding fs_step_def using tx_step_trans by fastforce

lemma fs_stepD:
  assumes "fs_step V n s t"
  shows "inodes t = inodes s" "tx_view (flog t) = V" "tx_home (flog t) k = tx_home (flog s) k" "tx_ok (flog t)"
  using assms tx_step_home by (auto simp: fs_step_def tx_step_def)

lemma fs_step_room: "fs_step V m s t \<Longrightarrow> tx_room (m + n) (flog s) \<Longrightarrow> tx_room n (flog t)"
  unfolding fs_step_def using tx_step_room by fastforce

text \<open>Reading a block, and reading or updating one under the content layer's calls.\<close>

lemma fs_open_block:
  assumes "tx_room n (flog s)" and "tx_home (flog s) k"
    and "\<And>bp l. tx_open bp k (flog s) l \<Longrightarrow> wp (g bp (tx_view (flog s) k)) Q (s\<lparr>flog := l\<rparr>)"
  shows "wp (andthen (fl (lio (bread ROOTDEV k))) (\<lambda>bp. andthen (fl (lio (get_data bp))) (g bp))) Q s"
proof -
  have "wp (andthen (lio (bread ROOTDEV k)) (\<lambda>b. andthen (lio (get_data b)) (\<lambda>x. ret (b, x))))
      (\<lambda>(b, x) l. wp (g b x) Q (s\<lparr>flog := l\<rparr>)) (flog s)"
    by (rule open_block [OF assms(1,2)]) (simp add: wp_ret assms(3))
  then show ?thesis by (simp add: wp_andthen wp_fl wp_ret)
qed

lemma fs_close_read:
  "tx_open bp k (flog s) l \<Longrightarrow> wp (fl (lio (brelse bp))) (\<lambda>_. fs_step (tx_view (flog s)) 0 s) (s\<lparr>flog := l\<rparr>)"
  using wp_conseq [OF close_read [of bp k "flog s" l], of "\<lambda>_ l. fs_step (tx_view (flog s)) 0 s (s\<lparr>flog := l\<rparr>)"]
  by (auto simp: wp_fl fs_step_def)

lemma fs_read_block:
  assumes "tx_room n (flog s)" and "tx_home (flog s) k"
    and "\<And>t. fs_step (tx_view (flog s)) 0 s t \<Longrightarrow> wp (g (tx_view (flog s) k)) Q t"
  shows "wp (andthen (fl (lio (bread ROOTDEV k))) (\<lambda>bp. andthen (fl (lio (get_data bp))) (\<lambda>x.
     andthen (fl (lio (brelse bp))) (\<lambda>_. g x)))) Q s"
  by (rule fs_open_block [OF assms(1,2)]) (use assms(3) in \<open>auto simp: wp_andthen intro: wp_conseq [OF fs_close_read]\<close>)

lemma fs_update_block:
  assumes "tx_room (Suc n) (flog s)" and "tx_home (flog s) k"
    and "\<And>t. fs_step ((tx_view (flog s))(k := f (tx_view (flog s) k))) 1 s t \<Longrightarrow> wp g Q t"
  shows "wp (andthen (fl (lio (bread ROOTDEV k))) (\<lambda>bp. andthen (fl (lio (put_data bp f))) (\<lambda>_.
     andthen (fl (log_write bp)) (\<lambda>_. andthen (fl (lio (brelse bp))) (\<lambda>_. g))))) Q s"
proof -
  have c: "tx_ok (flog s)" "tx_home (flog s) k" "k \<notin> tx_held (flog s)" "tx_used (flog s) + card (tx_held (flog s)) < NBUF"
    "tx_used (flog s) < tx_cap (flog s)"
    using assms(1,2) tx_cap_small [of "flog s"] by (auto simp: tx_room_def NBUF_def LOGSIZE_def MAXOPBLOCKS_def)
  from tx.update_block [OF c, of f] show ?thesis
    unfolding wp_andthen wp_fl
    by (elim wp_conseq) (use assms(3) in \<open>auto simp: fs_step_def tx_step_def wp_fl elim!: wp_conseq\<close>)
qed

lemma wp_geti: "wp (andthen (geti ip) g) Q s = wp (g (inodes s ip)) Q s"
  by (simp add: geti_def wp_simps)

lemma wp_seti: "wp (seti ip f) Q s = Q () (s\<lparr>inodes := (inodes s)(ip := f (inodes s ip))\<rparr>)"
  by (simp add: seti_def wp_simps)

section \<open>Reading\<close>

lemma bmap_wp:
  assumes room: "tx_room n (flog s)" and ok: "file_ok (flog s) (inodes s ip) N" and bn: "bn < N"
  shows "wp (bmap ip bn) (\<lambda>r t. r = blk_addr (tx_view (flog s)) (inodes s ip) bn \<and> fs_step (tx_view (flog s)) 0 s t) s"
proof (cases "bn < NDIRECT")
  case True
  then have "i_addrs (inodes s ip) bn \<noteq> 0" using ok bn by (auto simp: file_ok_def blk_addr_def)
  then show ?thesis
    using True fs_step_refl [of s] room by (simp add: bmap_def geti_def wp_simps blk_addr_def tx_room_def)
next
  case False
  let ?i = "inodes s ip"
  have a: "i_addrs ?i NDIRECT \<noteq> 0" "tx_home (flog s) (i_addrs ?i NDIRECT)" "i_dev ?i = ROOTDEV" "bn - NDIRECT < NINDIRECT"
    "get32 (tx_view (flog s) (i_addrs ?i NDIRECT)) (4 * (bn - NDIRECT)) \<noteq> 0"
    using ok bn False by (auto simp: file_ok_def MAXFILE_def blk_addr_def)
  have b: "blk_addr (tx_view (flog s)) ?i bn = get32 (tx_view (flog s) (i_addrs ?i NDIRECT)) (4 * (bn - NDIRECT))"
    using False by (simp add: blk_addr_def)
  have "wp (andthen (fl (lio (brelse bp))) (\<lambda>_. ret (blk_addr (tx_view (flog s)) ?i bn)))
      (\<lambda>r t. r = blk_addr (tx_view (flog s)) ?i bn \<and> fs_step (tx_view (flog s)) 0 s t) (s\<lparr>flog := l\<rparr>)"
    if "tx_open bp (i_addrs ?i NDIRECT) (flog s) l" for bp l
    unfolding wp_andthen wp_ret using wp_conseq [OF fs_close_read [OF that]] by simp
  then have "wp (andthen (fl (lio (bread ROOTDEV (i_addrs ?i NDIRECT)))) (\<lambda>bp. andthen (fl (lio (get_data bp))) (\<lambda>a. g bp a)))
      (\<lambda>r t. r = blk_addr (tx_view (flog s)) ?i bn \<and> fs_step (tx_view (flog s)) 0 s t) s"
    if "\<And>bp. g bp (tx_view (flog s) (i_addrs ?i NDIRECT)) = andthen (fl (lio (brelse bp))) (\<lambda>_. ret (blk_addr (tx_view (flog s)) ?i bn))" for g
    using that by (intro fs_open_block [OF room a(2)]) simp
  then show ?thesis
    using False a(1,4,5) unfolding bmap_def wp_andthen [of "geti ip"]
    by (simp add: geti_def wp_gets a(3) wp_andthen [of "ret _"] wp_ret b)
qed

lemma chunk_positions:
  shows "map (\<lambda>j. x (off mod BSIZE + j)) [0..<chunk off left] = map (\<lambda>p. x (p mod BSIZE)) [off..<off + chunk off left]"
    and "p \<in> {off..<off + chunk off left} \<Longrightarrow> p div BSIZE = off div BSIZE \<and> p mod BSIZE = off mod BSIZE + (p - off)"
proof -
  have pos: "(off + d) div BSIZE = off div BSIZE \<and> (off + d) mod BSIZE = off mod BSIZE + d" if "d < chunk off left" for d
  proof -
    have lt: "off mod BSIZE + d < BSIZE" using that by (auto simp: chunk_def)
    have "off + d = BSIZE * (off div BSIZE) + (off mod BSIZE + d)" by simp
    then have "(off + d) div BSIZE = (BSIZE * (off div BSIZE) + (off mod BSIZE + d)) div BSIZE"
      "(off + d) mod BSIZE = (BSIZE * (off div BSIZE) + (off mod BSIZE + d)) mod BSIZE" by (simp_all only:)
    then show ?thesis using lt by (simp only: div_mult_self4 mod_mult_self4 div_less mod_less) simp
  qed
  show "map (\<lambda>j. x (off mod BSIZE + j)) [0..<chunk off left] = map (\<lambda>p. x (p mod BSIZE)) [off..<off + chunk off left]"
    using pos by (intro nth_equalityI) auto
  show "p \<in> {off..<off + chunk off left} \<Longrightarrow> p div BSIZE = off div BSIZE \<and> p mod BSIZE = off mod BSIZE + (p - off)"
    using pos [of "p - off"] by auto
qed

lemma file_ok_step: "fs_step (tx_view (flog s)) n s t \<Longrightarrow> file_ok (flog t) i N = file_ok (flog s) i N"
  using fs_stepD [of "tx_view (flog s)" n s t] by (simp add: file_ok_def)

lemma readi_loop_wp:
  assumes "tx_room n (flog s)" and "file_ok (flog s) (inodes s ip) N" and "off + left \<le> N * BSIZE"
  shows "wp (readi_loop ip off left) (\<lambda>bs t. bs = map (content (tx_view (flog s)) (inodes s ip)) [off..<off + left]
     \<and> fs_step (tx_view (flog s)) 0 s t) s"
  using assms
proof (induction ip off left arbitrary: s rule: readi_loop.induct)
  case (1 ip off left)
  show ?case
  proof (cases "left = 0")
    case True
    then show ?thesis
      using 1(2) by (subst readi_loop.simps) (simp add: wp_ret fs_step_refl tx_room_def)
  next
    case False
    let ?V = "tx_view (flog s)" and ?i = "inodes s ip" and ?m = "chunk off left"
    let ?a = "blk_addr ?V ?i (off div BSIZE)"
    have m: "0 < ?m" "?m \<le> left" using chunk_bounds False by auto
    have bn: "off div BSIZE < N" using 1(4) False by (simp add: less_mult_imp_div_less)
    have dev: "i_dev ?i = ROOTDEV" and home: "tx_home (flog s) ?a" using 1(3) bn by (auto simp: file_ok_def)
    have here: "map (\<lambda>j. ?V ?a (off mod BSIZE + j)) [0..<?m] = map (content ?V ?i) [off..<off + ?m]"
      unfolding chunk_positions(1) by (rule map_cong) (simp_all add: content_def chunk_positions(2) [THEN conjunct1])
    have split: "[off..<off + left] = [off..<off + ?m] @ [off + ?m..<off + left]"
      using upt_add_eq_append [of off "off + ?m" "left - ?m"] m(2) by simp
    have 2: "wp (andthen (readi_loop ip (off + ?m) (left - ?m)) (\<lambda>rest. ret (map (\<lambda>j. ?V ?a (off mod BSIZE + j)) [0..<?m] @ rest)))
        (\<lambda>bs t. bs = map (content ?V ?i) [off..<off + left] \<and> fs_step ?V 0 s t) t" if t: "fs_step ?V 0 s t" for t
    proof -
      have e: "inodes t = inodes s" "tx_view (flog t) = ?V" using fs_stepD [OF t] by simp_all
      have "wp (readi_loop ip (off + ?m) (left - ?m)) (\<lambda>bs u. bs = map (content ?V ?i) [off + ?m..<off + left] \<and> fs_step ?V 0 t u) t"
        using 1(1) [OF False, of t] fs_step_room [OF t] 1(2-4) m e file_ok_step [OF t] by simp
      then show ?thesis
        unfolding wp_andthen wp_ret
        by (rule wp_conseq) (use here split fs_step_trans [OF t, of _ 0, unfolded add_0] in auto)
    qed
    have 3: "wp (andthen (fl (lio (bread ROOTDEV ?a))) (\<lambda>bp. andthen (fl (lio (get_data bp))) (\<lambda>x.
        andthen (fl (lio (brelse bp))) (\<lambda>_. andthen (readi_loop ip (off + ?m) (left - ?m))
          (\<lambda>rest. ret (map (\<lambda>j. x (off mod BSIZE + j)) [0..<?m] @ rest))))))
        (\<lambda>bs t. bs = map (content ?V ?i) [off..<off + left] \<and> fs_step ?V 0 s t) t" if t: "fs_step ?V 0 s t" for t
    proof (rule fs_read_block)
      show "tx_room n (flog t)" using fs_step_room [OF t] 1(2) by simp
      show "tx_home (flog t) ?a" using fs_stepD(3) [OF t] home by simp
      show "wp (andthen (readi_loop ip (off + ?m) (left - ?m)) (\<lambda>rest. ret (map (\<lambda>j. tx_view (flog t) ?a (off mod BSIZE + j)) [0..<?m] @ rest)))
        (\<lambda>bs t. bs = map (content ?V ?i) [off..<off + left] \<and> fs_step ?V 0 s t) u" if "fs_step (tx_view (flog t)) 0 t u" for u
        using 2 [OF fs_step_trans [OF t that [unfolded fs_stepD(2) [OF t]], unfolded add_0]] by (simp only: fs_stepD(2) [OF t])
    qed
    show ?thesis
      using False 3 unfolding readi_loop.simps [of ip off left] wp_andthen [of "bmap _ _"] if_not_P [OF False] wp_geti dev
      by (intro wp_conseq [OF bmap_wp [OF 1(2,3) bn]]) auto
  qed
qed

section \<open>Writing\<close>

lemma blk_addr_upd: "k \<noteq> i_addrs i NDIRECT \<Longrightarrow> blk_addr (V(k := x)) i = blk_addr V i"
  by (simp add: blk_addr_def fun_eq_iff)

text \<open>The number of blocks that \<open>left\<close> bytes at offset \<open>off\<close> reach into.\<close>

definition blocks_of :: "nat \<Rightarrow> nat \<Rightarrow> nat" where
  "blocks_of off left = (if left = 0 then 0 else Suc ((off + left - 1) div BSIZE - off div BSIZE))"

lemma blocks_of_chunk:
  assumes "left \<noteq> 0"
  shows "blocks_of off left = Suc (blocks_of (off + chunk off left) (left - chunk off left))"
proof (cases "left \<le> BSIZE - off mod BSIZE")
  case True
  then have "chunk off left = left" by (simp add: chunk_def)
  moreover have "off + left - 1 \<in> {off..<off + chunk off left}" using assms calculation by auto
  note chunk_positions(2) [OF this]
  ultimately show ?thesis using assms by (simp add: blocks_of_def)
next
  case False
  then have m: "chunk off left = BSIZE - off mod BSIZE" "chunk off left < left" by (auto simp: chunk_def)
  have "off + chunk off left = BSIZE * Suc (off div BSIZE)"
  proof -
    have "BSIZE * (off div BSIZE) + off mod BSIZE = off" "off mod BSIZE < BSIZE" by (simp_all add: BSIZE_def)
    then show ?thesis unfolding m(1) mult_Suc_right by linarith
  qed
  then have d: "(off + chunk off left) div BSIZE = Suc (off div BSIZE)" by (simp add: BSIZE_def)
  then have "Suc (off div BSIZE) \<le> (off + left - 1) div BSIZE"
    using div_le_mono [of "off + chunk off left" "off + left - 1" BSIZE] m(2) by simp
  then show ?thesis using m(2) d by (simp add: blocks_of_def)
qed

lemma blit_chunk:
  assumes "p div BSIZE = off div BSIZE"
  shows "blit src (off mod BSIZE) m x (p mod BSIZE) = (if p \<in> {off..<off + m} then src (p - off) else x (p mod BSIZE))"
proof -
  have "p = BSIZE * (off div BSIZE) + p mod BSIZE" "off = BSIZE * (off div BSIZE) + off mod BSIZE"
    using mult_div_mod_eq [of BSIZE p] assms by simp_all
  then obtain c a b where "p = c + a" "off = c + b" "p mod BSIZE = a" "off mod BSIZE = b" by metis
  then show ?thesis by (auto simp: blit_def)
qed

text \<open>The view \<open>V'\<close> is \<open>V\<close> after the bytes of \<open>src\<close> went to the positions from \<open>off\<close> of a file of \<open>N\<close> blocks.\<close>

definition stored_at :: "nat \<Rightarrow> inode \<Rightarrow> bytes \<Rightarrow> nat \<Rightarrow> nat \<Rightarrow> (u32 \<Rightarrow> bytes) \<Rightarrow> (u32 \<Rightarrow> bytes) \<Rightarrow> bool" where
  "stored_at N i src off left V V' \<longleftrightarrow>
     (\<forall>p < N * BSIZE. content V' i p = (if p \<in> {off..<off + left} then src (p - off) else content V i p))
     \<and> (\<forall>k. k \<notin> blk_addr V i ` {..<N} \<longrightarrow> V' k = V k)"

lemma stored_at_none: "stored_at N i src off 0 V V"
  by (simp add: stored_at_def)

lemma stored_at_trans:
  assumes "stored_at N i src off m V W" and "stored_at N i (\<lambda>j. src (m + j)) (off + m) (left - m) W U" and m: "m \<le> left"
    and img: "blk_addr W i ` {..<N} = blk_addr V i ` {..<N}"
  shows "stored_at N i src off left V U"
proof -
  have "content U i p = (if p \<in> {off..<off + left} then src (p - off) else content V i p)" if "p < N * BSIZE" for p
  proof -
    have "content W i p = (if p \<in> {off..<off + m} then src (p - off) else content V i p)" using assms(1) that by (simp only: stored_at_def)
    moreover have "content U i p = (if p \<in> {off + m..<off + m + (left - m)} then src (m + (p - (off + m))) else content W i p)"
      using assms(2) that by (simp only: stored_at_def)
    ultimately show ?thesis using m by auto
  qed
  then show ?thesis using assms(1,2) by (simp add: stored_at_def img)
qed

lemma file_block_upd:
  assumes "file_ok l i N" and "k < N" and "bn < N"
  shows "blk_addr ((tx_view l)(blk_addr (tx_view l) i k := b)) i bn = blk_addr (tx_view l) i bn"
proof (cases "bn < NDIRECT")
  case False
  then have "blk_addr (tx_view l) i k \<noteq> i_addrs i NDIRECT" using assms by (force simp: file_ok_def)
  then show ?thesis by (simp add: blk_addr_upd)
qed (simp add: blk_addr_def)

lemma stored_at_chunk:
  assumes ok: "file_ok l i N" and bn: "off div BSIZE < N"
    and V_def: "V = tx_view l" and m_def: "m = chunk off left" and a_def: "a = blk_addr V i (off div BSIZE)"
  shows "stored_at N i src off m V (V(a := blit src (off mod BSIZE) m (V a)))" (is "stored_at N i src off m V ?W")
proof -
  have ind: "blk_addr ?W i k = blk_addr V i k" if "k < N" for k using file_block_upd [OF ok bn that] by (simp add: a_def V_def)
  have "content ?W i p = (if p \<in> {off..<off + m} then src (p - off) else content V i p)" if "p < N * BSIZE" for p
  proof -
    have q: "p div BSIZE < N" using that by (simp add: less_mult_imp_div_less)
    show ?thesis
    proof (cases "p div BSIZE = off div BSIZE")
      case True
      have "content ?W i p = ?W a (p mod BSIZE)" unfolding content_def ind [OF q] unfolding True a_def by (rule refl)
      moreover have "content V i p = V a (p mod BSIZE)" unfolding content_def True a_def by (rule refl)
      ultimately show ?thesis by (simp only: fun_upd_same m_def blit_chunk [OF True])
    next
      case False
      then have "blk_addr V i (p div BSIZE) \<noteq> a" using ok q bn by (auto simp: file_ok_def a_def V_def dest: inj_onD)
      moreover have "p \<notin> {off..<off + m}" unfolding m_def using False chunk_positions(2) by blast
      ultimately show ?thesis by (simp only: content_def ind [OF q] fun_upd_other if_False not_False_eq_True)
    qed
  qed
  moreover have "a \<in> blk_addr V i ` {..<N}" using bn by (simp add: a_def)
  ultimately show ?thesis unfolding stored_at_def by auto
qed

lemma writei_loop_stores:
  assumes "tx_room (blocks_of off left + n) (flog s)" and "file_ok (flog s) (inodes s ip) N" and "off + left \<le> N * BSIZE"
  shows "wp (writei_loop ip src off left)
     (\<lambda>r t. r = off + left \<and> (\<exists>V. fs_step V (blocks_of off left) s t \<and> stored_at N (inodes s ip) src off left (tx_view (flog s)) V)) s"
  using assms
proof (induction ip src off left arbitrary: s rule: writei_loop.induct)
  case (1 ip src off left)
  let ?V = "tx_view (flog s)" and ?i = "inodes s ip" and ?m = "chunk off left"
  show ?case
  proof (cases "left = 0")
    case True
    then show ?thesis
      using 1(2) fs_step_refl [of s] stored_at_none by (subst writei_loop.simps) (auto simp: wp_ret tx_room_def blocks_of_def)
  next
    case False
    let ?a = "blk_addr ?V ?i (off div BSIZE)" and ?Q = "\<lambda>r t. r = off + left \<and> (\<exists>V. fs_step V (blocks_of off left) s t \<and> stored_at N ?i src off left ?V V)"
    let ?W = "?V(?a := blit src (off mod BSIZE) ?m (?V ?a))"
    have m: "0 < ?m" "?m \<le> left" using chunk_bounds False by auto
    have bn: "off div BSIZE < N" using 1(4) False by (simp add: less_mult_imp_div_less)
    have dev: "i_dev ?i = ROOTDEV" and home: "tx_home (flog s) ?a" using 1(3) bn by (auto simp: file_ok_def)
    note ind = file_block_upd [OF 1(3) bn]
    have 2: "wp (writei_loop ip (\<lambda>j. src (?m + j)) (off + ?m) (left - ?m)) ?Q t" if t: "fs_step ?W 1 s t" for t
    proof -
      have e: "inodes t = inodes s" "tx_view (flog t) = ?W" using fs_stepD [OF t] by simp_all
      have img: "blk_addr ?W ?i ` {..<N} = blk_addr ?V ?i ` {..<N}" by (rule image_cong) (simp_all add: ind)
      have "file_ok (flog t) ?i N"
        using 1(3) inj_on_cong [of "{..<N}" "blk_addr ?W ?i" "blk_addr ?V ?i"] ind
        by (simp add: file_ok_def e(2) fs_stepD(3) [OF t] img del: fun_upd_apply)
      moreover have "tx_room (blocks_of (off + ?m) (left - ?m) + n) (flog t)"
        using fs_step_room [OF t] 1(2) blocks_of_chunk [OF False] by simp
      moreover have "off + ?m + (left - ?m) \<le> N * BSIZE" using 1(4) m by simp
      ultimately have ih: "wp (writei_loop ip (\<lambda>j. src (?m + j)) (off + ?m) (left - ?m)) (\<lambda>r u. r = off + ?m + (left - ?m)
         \<and> (\<exists>V. fs_step V (blocks_of (off + ?m) (left - ?m)) t u \<and> stored_at N ?i (\<lambda>j. src (?m + j)) (off + ?m) (left - ?m) ?W V)) t"
        using 1(1) [OF False, of t] by (simp only: e)
      have post: "fs_step V (blocks_of off left) s u \<and> stored_at N ?i src off left ?V V"
        if "fs_step V (blocks_of (off + ?m) (left - ?m)) t u" "stored_at N ?i (\<lambda>j. src (?m + j)) (off + ?m) (left - ?m) ?W V" for V u
        using fs_step_trans [OF t that(1)] blocks_of_chunk [OF False] stored_at_trans [OF stored_at_chunk [OF 1(3) bn refl refl refl] that(2) m(2) img] by simp
      have "off + ?m + (left - ?m) = off + left" using m by simp
      then show ?thesis
        by (intro wp_conseq [OF ih], elim conjE exE, intro conjI) (simp only:, rule exI, erule (1) post)
    qed
    have 3: "wp (andthen (fl (lio (bread ROOTDEV ?a))) (\<lambda>bp. andthen (fl (lio (put_data bp (blit src (off mod BSIZE) ?m)))) (\<lambda>_.
        andthen (fl (log_write bp)) (\<lambda>_. andthen (fl (lio (brelse bp))) (\<lambda>_.
        writei_loop ip (\<lambda>j. src (?m + j)) (off + ?m) (left - ?m)))))) ?Q t" if t: "fs_step ?V 0 s t" for t
    proof (rule fs_update_block)
      show "tx_room (Suc (blocks_of (off + ?m) (left - ?m) + n)) (flog t)"
        using fs_step_room [OF t] 1(2) blocks_of_chunk [OF False] by simp
      show "tx_home (flog t) ?a" using fs_stepD(3) [OF t] home by simp
    qed (rule 2, use fs_step_trans [OF t, of _ 1, unfolded add_0] in \<open>simp only: fs_stepD(2) [OF t]\<close>)
    show ?thesis
      using False 3 unfolding writei_loop.simps [of ip src off left] wp_andthen [of "bmap _ _"] if_not_P [OF False] wp_geti dev
      by (intro wp_conseq [OF bmap_wp [OF 1(2,3) bn]]) auto
  qed
qed

lemmas writei_loop_wp = writei_loop_stores [unfolded stored_at_def]

text \<open>The block of the inode itself is a home block and not one of the file's.\<close>

definition inode_apart :: "log \<Rightarrow> inode \<Rightarrow> nat \<Rightarrow> bool" where
  "inode_apart l i N \<longleftrightarrow> tx_home l (IBLOCK (i_inum i)) \<and> IBLOCK (i_inum i) \<noteq> i_addrs i NDIRECT
     \<and> IBLOCK (i_inum i) \<notin> blk_addr (tx_view l) i ` {..<N}"

lemma iupdate_wp:
  assumes "tx_room (Suc n) (flog s)" and "i_dev (inodes s ip) = ROOTDEV" and "tx_home (flog s) (IBLOCK (i_inum (inodes s ip)))"
  defines "V \<equiv> tx_view (flog s)" and "i \<equiv> inodes s ip"
  shows "wp (iupdate ip) (\<lambda>_ t. fs_step (V(IBLOCK (i_inum i) := dinode_put i (dip_off (i_inum i)) (V (IBLOCK (i_inum i))))) 1 s t) s"
proof -
  have ret: "fl (lio (brelse bp)) = andthen (fl (lio (brelse bp))) (\<lambda>_. ret ())" for bp
    by (simp add: andthen_def ret_def fun_eq_iff split: sum.splits)
  show ?thesis
    unfolding iupdate_def wp_geti assms(2)
    by (subst ret, rule fs_update_block [OF assms(1,3)]) (simp add: wp_ret V_def i_def)
qed

lemma file_ok_cong:
  assumes "\<And>k. tx_home l' k = tx_home l k" and "\<And>bn. bn < N \<Longrightarrow> blk_addr (tx_view l') i bn = blk_addr (tx_view l) i bn"
  shows "file_ok l' i N = file_ok l i N"
proof -
  have "blk_addr (tx_view l') i ` {..<N} = blk_addr (tx_view l) i ` {..<N}"
    "inj_on (blk_addr (tx_view l') i) {..<N} = inj_on (blk_addr (tx_view l) i) {..<N}"
    using assms(2) by (auto intro!: image_cong inj_on_cong)
  then show ?thesis using assms by (simp add: file_ok_def)
qed

lemma blk_addr_cong:
  assumes "bn < NDIRECT \<or> V' (i_addrs i NDIRECT) = V (i_addrs i NDIRECT)"
  shows "blk_addr V' i bn = blk_addr V i bn"
  using assms by (auto simp: blk_addr_def)

lemma content_cong:
  assumes "blk_addr V' i (p div BSIZE) = blk_addr V i (p div BSIZE)"
    and "V' (blk_addr V i (p div BSIZE)) = V (blk_addr V i (p div BSIZE))"
  shows "content V' i p = content V i p"
  using assms by (simp add: content_def)

text \<open>The update of the size at the end of \<^verbatim>\<open>writei\<close>.\<close>

lemma set_size_wp:
  assumes room: "tx_room (Suc n) (flog s)" and ok: "file_ok (flog s) i N" and ino: "inode_apart (flog s) i N" and i: "inodes s ip = i"
  shows "wp (andthen (seti ip (\<lambda>i. i\<lparr>i_size := z\<rparr>)) (\<lambda>_. iupdate ip)) (\<lambda>_ t. tx_room n (flog t)
     \<and> inodes t = (inodes s)(ip := i\<lparr>i_size := z\<rparr>) \<and> file_ok (flog t) i N
     \<and> (\<forall>p < N * BSIZE. content (tx_view (flog t)) i p = content (tx_view (flog s)) i p)) s"
proof -
  let ?s = "s\<lparr>inodes := (inodes s)(ip := i\<lparr>i_size := z\<rparr>)\<rparr>" and ?V = "tx_view (flog s)" and ?K = "IBLOCK (i_inum i)"
  have k: "?K \<noteq> i_addrs i NDIRECT" "?K \<notin> blk_addr ?V i ` {..<N}" using ino by (auto simp: inode_apart_def)
  have "wp (iupdate ip) (\<lambda>_ t. fs_step (?V(?K := dinode_put (i\<lparr>i_size := z\<rparr>) (dip_off (i_inum i)) (?V ?K))) 1 ?s t) ?s"
    using iupdate_wp [of n ?s ip] room ok ino by (simp add: file_ok_def inode_apart_def)
  then show ?thesis
    unfolding wp_andthen wp_seti i
  proof (rule wp_conseq, goal_cases)
    case (1 x t)
    note d = fs_stepD [OF 1]
    have a: "blk_addr (tx_view (flog t)) i = blk_addr ?V i" unfolding d(2) using k(1) by (simp add: blk_addr_upd)
    have "content (tx_view (flog t)) i p = content ?V i p" if "p < N * BSIZE" for p
    proof (rule content_cong)
      have "blk_addr ?V i (p div BSIZE) \<in> blk_addr ?V i ` {..<N}" using that by (simp add: less_mult_imp_div_less)
      then have "blk_addr ?V i (p div BSIZE) \<noteq> ?K" using k(2) by metis
      then show "tx_view (flog t) (blk_addr ?V i (p div BSIZE)) = ?V (blk_addr ?V i (p div BSIZE))" by (simp add: d(2))
    qed (simp add: a)
    moreover have "file_ok (flog t) i N" using ok file_ok_cong [of "flog t" "flog s"] d(3) by (simp add: a)
    ultimately show ?case using d(1) fs_step_room [OF 1, of n] room by simp
  qed
qed

lemma size_irrelevant:
  "content V (i\<lparr>i_size := z\<rparr>) = content V i" "file_ok l (i\<lparr>i_size := z\<rparr>) N = file_ok l i N"
proof -
  have e: "blk_addr V (i\<lparr>i_size := z\<rparr>) = blk_addr V i" for V by (simp add: blk_addr_def fun_eq_iff)
  then show "content V (i\<lparr>i_size := z\<rparr>) = content V i" "file_ok l (i\<lparr>i_size := z\<rparr>) N = file_ok l i N"
    by (simp add: content_def fun_eq_iff) (simp add: e file_ok_def)
qed

lemma word_sum:
  assumes "unat (a :: u32) + unat b \<le> N * BSIZE" and "N \<le> MAXFILE"
  shows "unat (a + b) = unat a + unat b" "\<not> a + b < a" "\<not> a + b > of_nat (MAXFILE * BSIZE)" "sint b = int (unat b)"
proof -
  have lim: "unat a + unat b \<le> 71680"
    using assms mult_le_mono1 [OF assms(2), of BSIZE] by (simp add: MAXFILE_def NDIRECT_def NINDIRECT_def BSIZE_def)
  show s: "unat (a + b) = unat a + unat b" using lim by (intro unat_add_lem [THEN iffD1]) simp
  show "\<not> a + b < a" by (simp add: word_less_nat_alt s)
  show "\<not> a + b > of_nat (MAXFILE * BSIZE)"
    using lim by (simp add: word_less_nat_alt s MAXFILE_def NDIRECT_def NINDIRECT_def BSIZE_def)
  have "int (unat b) < 2147483648" using lim by linarith
  then have "uint b < 2147483648" "- 2147483648 \<le> uint b" using order_trans [OF _ uint_ge_0 [of b]] by simp_all
  then show "sint b = int (unat b)" using signed_take_bit_int_eq_self [of 31 "uint b"] by (simp add: sint_uint)
qed

lemma writei_wp:
  assumes room: "tx_room (Suc (blocks_of (unat off) (unat n))) (flog s)" and ok: "file_ok (flog s) (inodes s ip) N"
    and ino: "inode_apart (flog s) (inodes s ip) N" and reg: "i_type (inodes s ip) \<noteq> T_DEV"
    and bounds: "unat off \<le> unat (i_size (inodes s ip))" "unat off + unat n \<le> N * BSIZE"
  defines "i \<equiv> inodes s ip" and "m \<equiv> unat (i_size (inodes s ip))"
  shows "wp (writei ip src off n) (\<lambda>r t. r = int (unat n) \<and> tx_room 0 (flog t)
     \<and> inodes t = (inodes s)(ip := i\<lparr>i_size := of_nat (max m (unat off + unat n))\<rparr>)
     \<and> file_ok (flog t) i N
     \<and> (\<forall>p < N * BSIZE. content (tx_view (flog t)) i p
          = (if p \<in> {unat off..<unat off + unat n} then src (p - unat off) else content (tx_view (flog s)) i p))) s"
proof -
  have N: "N \<le> MAXFILE" using ok by (simp add: file_ok_def)
  note w = word_sum [OF bounds(2) N]
  let ?e = "unat off + unat n"
  let ?Q = "\<lambda>r t. r = int (unat n) \<and> tx_room 0 (flog t)
     \<and> inodes t = (inodes s)(ip := i\<lparr>i_size := of_nat (max m ?e)\<rparr>) \<and> file_ok (flog t) i N
     \<and> (\<forall>p < N * BSIZE. content (tx_view (flog t)) i p
          = (if p \<in> {unat off..<?e} then src (p - unat off) else content (tx_view (flog s)) i p))"
  have fin: "wp (andthen (if n > 0 \<and> of_nat ?e > i_size i then andthen (seti ip (\<lambda>i. i\<lparr>i_size := of_nat ?e\<rparr>)) (\<lambda>_. iupdate ip)
      else ret ()) (\<lambda>_. ret (sint n))) ?Q t"
    if t: "fs_step V (blocks_of (unat off) (unat n)) s t"
      and c: "\<forall>p < N * BSIZE. content V i p = (if p \<in> {unat off..<?e} then src (p - unat off) else content (tx_view (flog s)) i p)"
      and o: "\<forall>k. k \<notin> blk_addr (tx_view (flog s)) i ` {..<N} \<longrightarrow> V k = tx_view (flog s) k" for V t
  proof -
    note d = fs_stepD [OF t]
    have a: "blk_addr V i bn = blk_addr (tx_view (flog s)) i bn" if "bn < N" for bn
      using ok o that by (intro blk_addr_cong) (auto simp: file_ok_def i_def)
    have ok': "file_ok (flog t) i N" using ok file_ok_cong [of "flog t" "flog s" N i] d a by (simp add: i_def)
    have room': "tx_room 1 (flog t)" using fs_step_room [OF t, of 1] room by simp
    have img: "blk_addr V i ` {..<N} = blk_addr (tx_view (flog s)) i ` {..<N}" using a by (auto intro: image_cong)
    have ino': "inode_apart (flog t) i N" using ino [folded i_def] by (simp add: inode_apart_def d img)
    show ?thesis
    proof (cases "n > 0 \<and> of_nat ?e > i_size i")
      case True
      then have "max m ?e = ?e" using w(1) by (simp add: m_def i_def word_less_nat_alt)
      then show ?thesis
        using True c wp_conseq [OF set_size_wp [of 0, OF _ ok' ino'], of ip "of_nat ?e" "\<lambda>_. ?Q (sint n)"] room' d w(4)
        by (simp add: wp_andthen wp_ret i_def)
    next
      case False
      then have "max m ?e = m" using w(1) bounds(1) by (auto simp: m_def i_def word_less_nat_alt word_gt_0_no unat_gt_0)
      then show ?thesis
        unfolding if_not_P [OF False] wp_andthen wp_ret d(1,2)
        by (intro conjI c ok' w(4)) (use room' in \<open>auto simp: m_def i_def tx_room_def\<close>)
    qed
  qed
  have "\<not> off > i_size i" using bounds(1) by (simp add: word_less_nat_alt i_def)
  then have e: "wp (writei ip src off n) ?Q s = wp (writei_loop ip src (unat off) (unat n)) (\<lambda>e. wp (andthen
      (if n > 0 \<and> of_nat e > i_size i then andthen (seti ip (\<lambda>i. i\<lparr>i_size := of_nat e\<rparr>)) (\<lambda>_. iupdate ip)
      else ret ()) (\<lambda>_. ret (sint n))) ?Q) s"
    using reg w(2,3) unfolding writei_def wp_geti by (simp add: i_def wp_andthen)
  have r: "tx_room (blocks_of (unat off) (unat n) + 1) (flog s)" using room by simp
  show ?thesis
    unfolding e by (rule wp_conseq [OF writei_loop_wp [OF r ok bounds(2)]]) (elim conjE exE, simp only:, rule fin, simp_all only: i_def)
qed


text \<open>A file of one block, inode 2 in block 2 and its data in block 9, on the disk of theory \<open>Balloc\<close>.\<close>

definition small_file :: inode where
  "small_file = \<lparr>i_dev = ROOTDEV, i_inum = 2, i_ref = 1, i_flags = {I_BUSY, I_VALID}, i_type = T_FILE, i_major = 0, i_minor = 0,
     i_nlink = 1, i_size = 100, i_addrs = (\<lambda>_. 0)(0 := 9)\<rparr>"

definition small_fs :: fs where
  "small_fs = \<lparr>flog = fresh_log small_disk 70 30, inodes = (\<lambda>_. small_file), fcons = blank_cons, fcwd = 0, fkilled = False\<rparr>"

lemma small_fs:
  "file_ok (flog small_fs) small_file 1" "inode_apart (flog small_fs) small_file 1" "tx_room 29 (flog small_fs)"
proof -
  have h: "head_n (small_disk 70) = 0" by (simp add: small_disk_def head_n_def)
  have g: "unat (70 :: u32) + LOGSIZE < 2 ^ 28" "1 \<le> (30 :: int)" "30 \<le> int LOGSIZE" by (simp_all add: LOGSIZE_def MAXOPBLOCKS_def)
  note f = fresh_log [of 70 small_disk 30, OF g(1) h g(2,3)]
  have a: "blk_addr (tx_view (flog small_fs)) small_file 0 = 9" by (simp add: blk_addr_def small_file_def NDIRECT_def)
  show "file_ok (flog small_fs) small_file 1"
    using a f by (simp add: file_ok_def lessThan_Suc) (simp add: small_file_def small_fs_def MAXFILE_def NDIRECT_def)
  have "IBLOCK 2 = 2" by (simp add: IBLOCK_def IPB_def BSIZE_def)
  then show "inode_apart (flog small_fs) small_file 1"
    using a f by (simp add: inode_apart_def lessThan_Suc) (simp add: small_file_def small_fs_def NDIRECT_def)
  show "tx_room 29 (flog small_fs)" using f by (simp add: small_fs_def)
qed


end
