(* ===== verification/Memory.thy ===== *)
theory Memory
  imports Prelude
begin

text \<open>
  The memory and string routines of \<^verbatim>\<open>string.c\<close> over byte-addressed memory. The fast path of
  \<^verbatim>\<open>memset\<close> and both directions of \<^verbatim>\<open>memmove\<close> are proved equal to one specification; the comparison
  and copying routines are characterised by the strings they read and write.
\<close>

section \<open>Fill\<close>

text \<open>\<^verbatim>\<open>rep stosb\<close> and \<^verbatim>\<open>rep stosl\<close> of \<^verbatim>\<open>x86.h\<close>.\<close>

fun stosb :: "nat \<Rightarrow> u32 \<Rightarrow> u8 \<Rightarrow> mem \<Rightarrow> mem" where
  "stosb 0 d c m = m"
| "stosb (Suc n) d c m = stosb n (d + 1) c (m(d := c))"

definition mput32 :: "mem \<Rightarrow> u32 \<Rightarrow> u32 \<Rightarrow> mem" where
  "mput32 m a v = m(a := byte_of v 0, a + 1 := byte_of v 1, a + 2 := byte_of v 2, a + 3 := byte_of v 3)"

definition mget32 :: "mem \<Rightarrow> u32 \<Rightarrow> u32" where
  "mget32 m a = of_bytes (m a) (m (a + 1)) (m (a + 2)) (m (a + 3))"

fun stosl :: "nat \<Rightarrow> u32 \<Rightarrow> u32 \<Rightarrow> mem \<Rightarrow> mem" where
  "stosl 0 d v m = m"
| "stosl (Suc n) d v m = stosl n (d + 4) v (mput32 m d v)"

definition memset :: "u32 \<Rightarrow> u32 \<Rightarrow> u32 \<Rightarrow> mem \<Rightarrow> mem" where
  "memset dst c n m =
     (if unat dst mod 4 = 0 \<and> unat n mod 4 = 0 then
        let c' = c AND 0xff in
        stosl (unat n div 4) dst (push_bit 24 c' OR push_bit 16 c' OR push_bit 8 c' OR c') m
      else stosb (unat n) dst (ucast c) m)"

section \<open>Comparison and copying\<close>

fun memcmp_loop :: "nat \<Rightarrow> mem \<Rightarrow> u32 \<Rightarrow> u32 \<Rightarrow> int" where
  "memcmp_loop 0 m s1 s2 = 0"
| "memcmp_loop (Suc n) m s1 s2 =
     (if m s1 \<noteq> m s2 then uint (m s1) - uint (m s2) else memcmp_loop n m (s1 + 1) (s2 + 1))"

definition memcmp :: "mem \<Rightarrow> u32 \<Rightarrow> u32 \<Rightarrow> u32 \<Rightarrow> int" where
  "memcmp m v1 v2 n = memcmp_loop (unat n) m v1 v2"

fun copy_down :: "nat \<Rightarrow> u32 \<Rightarrow> u32 \<Rightarrow> mem \<Rightarrow> mem" where
  "copy_down 0 d s m = m"
| "copy_down (Suc n) d s m = copy_down n (d - 1) (s - 1) (m(d - 1 := m (s - 1)))"

fun copy_up :: "nat \<Rightarrow> u32 \<Rightarrow> u32 \<Rightarrow> mem \<Rightarrow> mem" where
  "copy_up 0 d s m = m"
| "copy_up (Suc n) d s m = copy_up n (d + 1) (s + 1) (m(d := m s))"

definition memmove :: "u32 \<Rightarrow> u32 \<Rightarrow> u32 \<Rightarrow> mem \<Rightarrow> mem" where
  "memmove dst src n m =
     (if src < dst \<and> src + n > dst then copy_down (unat n) (dst + n) (src + n) m
      else copy_up (unat n) dst src m)"

definition memcpy :: "u32 \<Rightarrow> u32 \<Rightarrow> u32 \<Rightarrow> mem \<Rightarrow> mem" where
  "memcpy dst src n m = memmove dst src n m"

fun strncmp_loop :: "nat \<Rightarrow> mem \<Rightarrow> u32 \<Rightarrow> u32 \<Rightarrow> int" where
  "strncmp_loop 0 m p q = 0"
| "strncmp_loop (Suc n) m p q =
     (if m p \<noteq> 0 \<and> m p = m q then strncmp_loop n m (p + 1) (q + 1) else uint (m p) - uint (m q))"

definition strncmp :: "mem \<Rightarrow> u32 \<Rightarrow> u32 \<Rightarrow> u32 \<Rightarrow> int" where
  "strncmp m p q n = strncmp_loop (unat n) m p q"

fun fill_zero :: "nat \<Rightarrow> u32 \<Rightarrow> mem \<Rightarrow> mem" where
  "fill_zero 0 s m = m"
| "fill_zero (Suc n) s m = fill_zero n (s + 1) (m(s := 0))"

fun strncpy_loop :: "nat \<Rightarrow> u32 \<Rightarrow> u32 \<Rightarrow> mem \<Rightarrow> mem" where
  "strncpy_loop 0 s t m = m"
| "strncpy_loop (Suc n) s t m =
     (let m' = m(s := m t) in
      if m t \<noteq> 0 then strncpy_loop n (s + 1) (t + 1) m' else fill_zero n (s + 1) m')"

definition strncpy :: "u32 \<Rightarrow> u32 \<Rightarrow> int \<Rightarrow> mem \<Rightarrow> mem" where
  "strncpy s t n m = strncpy_loop (nat n) s t m"

text \<open>The loop of \<^verbatim>\<open>safestrcpy\<close>, with the count before \<^verbatim>\<open>--n\<close>, then the terminator.\<close>

fun safestrcpy_loop :: "nat \<Rightarrow> u32 \<Rightarrow> u32 \<Rightarrow> mem \<Rightarrow> mem" where
  "safestrcpy_loop n s t m =
     (if n \<le> 1 then m(s := 0)
      else let m' = m(s := m t) in
           if m t \<noteq> 0 then safestrcpy_loop (n - 1) (s + 1) (t + 1) m' else m'(s + 1 := 0))"

definition safestrcpy :: "u32 \<Rightarrow> u32 \<Rightarrow> int \<Rightarrow> mem \<Rightarrow> mem" where
  "safestrcpy s t n m = (if n \<le> 0 then m else safestrcpy_loop (nat n) s t m)"

text \<open>\<open>None\<close> when there is no terminator and the loop does not end.\<close>

partial_function (option) strlen_from :: "mem \<Rightarrow> u32 \<Rightarrow> nat \<Rightarrow> nat option" where
  "strlen_from m s n = (if m (s + of_nat n) = 0 then Some n else strlen_from m s (Suc n))"

definition strlen :: "mem \<Rightarrow> u32 \<Rightarrow> nat option" where
  "strlen m s = strlen_from m s 0"

section \<open>Correctness of fill\<close>

lemma unat_u32_less: "unat (w :: u32) < 2 ^ 32"
  using unsigned_less [of w] by simp

lemma unat_u32_minus_one: "unat (- 1 :: u32) = 2 ^ 32 - 1"
  by (simp add: unsigned_minus_1_eq_mask mask_eq_exp_minus_1)

lemma diff_add_one: "(a :: u32) - d \<noteq> 0 \<Longrightarrow> unat (a - (d + 1)) = unat (a - d) - 1"
  by (metis diff_diff_eq unat_minus_one)

lemma stosb_eq:
  "n \<le> 2 ^ 32 \<Longrightarrow> stosb n d c m = (\<lambda>a. if unat (a - d) < n then c else m a)"
proof (induction n arbitrary: d m)
  case (Suc n)
  show ?case
  proof
    fix a
    have "stosb (Suc n) d c m a = (if unat (a - (d + 1)) < n then c else (m(d := c)) a)"
      using Suc by simp
    also have "\<dots> = (if unat (a - d) < Suc n then c else m a)"
    proof (cases "a = d")
      case False
      then have "0 < unat (a - d)" by (simp add: unat_gt_0)
      with False diff_add_one [of a d] show ?thesis by auto
    qed simp
    finally show "stosb (Suc n) d c m a = (if unat (a - d) < Suc n then c else m a)" .
  qed
qed simp

lemma mput32_bytes:
  assumes "byte_of v 0 = c" "byte_of v 1 = c" "byte_of v 2 = c" "byte_of v 3 = c"
  shows "mput32 m d v = stosb 4 d c m"
  using assms by (simp add: mput32_def numeral_eq_Suc add.assoc fun_eq_iff)

lemma stosb_add: "stosb (k + n) d c m = stosb n (d + of_nat k) c (stosb k d c m)"
  by (induction k arbitrary: d m) (simp_all add: algebra_simps)

lemma stosl_stosb:
  assumes "byte_of v 0 = c" "byte_of v 1 = c" "byte_of v 2 = c" "byte_of v 3 = c"
  shows "stosl n d v m = stosb (4 * n) d c m"
proof (induction n arbitrary: d m)
  case (Suc n)
  have "stosb (4 * Suc n) d c m = stosb (4 * n) (d + 4) c (stosb 4 d c m)"
    using stosb_add [of 4 "4 * n" d c m] by simp
  with Suc show ?case by (simp add: mput32_bytes [OF assms])
qed simp

lemma fill_word_bytes:
  fixes c :: u32
  defines "c' \<equiv> c AND 0xff"
  defines "v \<equiv> push_bit 24 c' OR push_bit 16 c' OR push_bit 8 c' OR c'"
  shows "byte_of v 0 = ucast c" "byte_of v 1 = ucast c" "byte_of v 2 = ucast c" "byte_of v 3 = ucast c"
  unfolding v_def c'_def masks32 byte_of_def
  by (rule bit_word_eqI; auto simp: bit_simps)+


lemma memset_eq:
  "memset dst c n m = (\<lambda>a. if unat (a - dst) < unat n then ucast c else m a)"
proof (cases "unat dst mod 4 = 0 \<and> unat n mod 4 = 0")
  case True
  then have "4 * (unat n div 4) = unat n" by auto
  moreover have "unat n \<le> 2 ^ 32" using unat_u32_less [of n] by simp
  ultimately show ?thesis
    using True stosl_stosb [OF fill_word_bytes] by (simp add: memset_def stosb_eq Let_def)
next
  case False
  have "unat n \<le> 2 ^ 32" using unat_u32_less [of n] by simp
  then show ?thesis unfolding memset_def if_not_P [OF False] by (simp add: stosb_eq)
qed

section \<open>Correctness of move\<close>

text \<open>Both loops, in terms of the offset from the lowest destination address.\<close>

lemma copy_up_eq:
  assumes "unat s + n < 2 ^ 32" "unat d + n < 2 ^ 32" "d \<le> s \<or> unat s + n \<le> unat d"
  shows "copy_up n d s m = (\<lambda>a. if unat (a - d) < n then m (s + (a - d)) else m a)"
  using assms
proof (induction n arbitrary: d s m)
  case (Suc n)
  have s1: "unat (s + 1) = unat s + 1" and d1: "unat (d + 1) = unat d + 1"
    using Suc.prems by (simp_all add: unat_plus_simple [THEN iffD1] unat_word_ariths)
  have "d + 1 \<le> s + 1 \<or> unat (s + 1) + n \<le> unat (d + 1)"
    using Suc.prems(3) s1 d1 by (auto simp: word_le_nat_alt)
  then have IH: "copy_up n (d + 1) (s + 1) (m(d := m s))
     = (\<lambda>a. if unat (a - (d + 1)) < n then (m(d := m s)) (s + 1 + (a - (d + 1))) else (m(d := m s)) a)"
    using Suc.prems s1 d1 by (intro Suc.IH) simp_all
  show ?case
  proof
    fix a
    show "copy_up (Suc n) d s m a = (if unat (a - d) < Suc n then m (s + (a - d)) else m a)"
    proof (cases "a = d")
      case True
      have "\<not> unat (d - (d + 1)) < n" using Suc.prems by (simp add: unat_u32_minus_one)
      with True show ?thesis by (simp add: IH del: fun_upd_apply) simp
    next
      case False
      then have pos: "0 < unat (a - d)" by (simp add: unat_gt_0)
      have off: "s + 1 + (a - (d + 1)) = s + (a - d)" by simp
      have u: "unat (a - (d + 1)) = unat (a - d) - 1" using False by (intro diff_add_one) simp
      show ?thesis
      proof (cases "unat (a - d) < Suc n")
        case True
        have "s + (a - d) \<noteq> d"
        proof
          assume eq: "s + (a - d) = d"
          have "unat (s + (a - d)) = unat s + unat (a - d)"
            using True Suc.prems(1) by (simp add: unat_word_ariths)
          then have "unat d = unat s + unat (a - d)" by (simp only: eq)
          with pos True Suc.prems(3) show False by (auto simp: word_le_nat_alt)
        qed
        with True pos u off False show ?thesis by (auto simp: IH)
      next
        case False
        then show ?thesis using pos u \<open>a \<noteq> d\<close> by (auto simp: IH)
      qed
    qed
  qed
qed simp

lemma copy_down_eq:
  assumes "unat s + n < 2 ^ 32" "unat d + n < 2 ^ 32" "s < d"
  shows "copy_down n (d + of_nat n) (s + of_nat n) m = (\<lambda>a. if unat (a - d) < n then m (s + (a - d)) else m a)"
  using assms
proof (induction n arbitrary: m)
  case (Suc n)
  have IH: "copy_down n (d + of_nat n) (s + of_nat n) (m(d + of_nat n := m (s + of_nat n)))
     = (\<lambda>a. if unat (a - d) < n then (m(d + of_nat n := m (s + of_nat n))) (s + (a - d)) else (m(d + of_nat n := m (s + of_nat n))) a)"
    using Suc by simp
  have nn: "unat (of_nat n :: u32) = n" using Suc.prems by (simp add: unat_of_nat)
  show ?case
  proof
    fix a
    have "s + (a - d) \<noteq> d + of_nat n" if "unat (a - d) < n"
    proof
      assume eq: "s + (a - d) = d + of_nat n"
      have "unat (s + (a - d)) = unat s + unat (a - d)" "unat (d + of_nat n) = unat d + n"
        using that Suc.prems nn by (simp_all add: unat_word_ariths)
      then have "unat s + unat (a - d) = unat d + n" by (simp only: eq)
      with that Suc.prems(3) show False by (simp add: word_less_nat_alt)
    qed
    moreover have "a = d + of_nat n \<longleftrightarrow> unat (a - d) = n"
      using nn by (metis add_diff_cancel_left' add.commute diff_add_cancel word_unat_eq_iff)
    ultimately show "copy_down (Suc n) (d + of_nat (Suc n)) (s + of_nat (Suc n)) m a
        = (if unat (a - d) < Suc n then m (s + (a - d)) else m a)"
      by (auto simp: IH less_Suc_eq algebra_simps)
  qed
qed simp

lemma memmove_eq:
  assumes "unat src + unat n < 2 ^ 32" "unat dst + unat n < 2 ^ 32"
  shows "memmove dst src n m = (\<lambda>a. if unat (a - dst) < unat n then m (src + (a - dst)) else m a)"
proof (cases "src < dst \<and> src + n > dst")
  case True
  then show ?thesis
    using copy_down_eq [OF assms] by (simp add: memmove_def)
next
  case False
  have "unat (src + n) = unat src + unat n" using assms by (simp add: unat_word_ariths)
  with False have "dst \<le> src \<or> unat src + unat n \<le> unat dst"
    by (auto simp: word_less_nat_alt word_le_nat_alt)
  then show ?thesis
    unfolding memmove_def if_not_P [OF False] by (rule copy_up_eq [OF assms])
qed


section \<open>Correctness of the string routines\<close>

declare safestrcpy_loop.simps [simp del]

lemma memcmp_loop_zero: "memcmp_loop n m a b = 0 \<longleftrightarrow> (\<forall>i<n. m (a + of_nat i) = m (b + of_nat i))"
proof (induction n arbitrary: a b)
  case (Suc n)
  have "(\<forall>i<Suc n. m (a + of_nat i) = m (b + of_nat i))
      \<longleftrightarrow> m a = m b \<and> (\<forall>i<n. m (a + 1 + of_nat i) = m (b + 1 + of_nat i))"
    by (auto simp: All_less_Suc2 add.assoc)
  with Suc show ?case by (simp add: word_uint_eq_iff)
qed simp

lemma ex_le_Suc: "(\<exists>k\<le>Suc n. P k) \<longleftrightarrow> P 0 \<or> (\<exists>k\<le>n. P (Suc k))"
  by (metis Suc_le_mono le0 not0_implies_Suc)

lemma strncmp_loop_zero:
  "strncmp_loop n m p q = 0 \<longleftrightarrow>
     (\<exists>k\<le>n. (\<forall>i<k. m (p + of_nat i) = m (q + of_nat i) \<and> m (p + of_nat i) \<noteq> 0)
        \<and> (k < n \<longrightarrow> m (p + of_nat k) = 0 \<and> m (q + of_nat k) = 0))"
proof (induction n arbitrary: p q)
  case (Suc n)
  let ?P = "\<lambda>n p q k. (\<forall>i<k. m (p + of_nat i) = m (q + of_nat i) \<and> m (p + of_nat i) \<noteq> 0)
        \<and> (k < n \<longrightarrow> m (p + of_nat k) = 0 \<and> m (q + of_nat k) = 0)"
  have S: "?P (Suc n) p q (Suc k) \<longleftrightarrow> m p = m q \<and> m p \<noteq> 0 \<and> ?P n (p + 1) (q + 1) k" for k
    by (auto simp: All_less_Suc2 add.assoc)
  have split: "(\<exists>k\<le>Suc n. ?P (Suc n) p q k) \<longleftrightarrow> ?P (Suc n) p q 0 \<or> (\<exists>k\<le>n. ?P (Suc n) p q (Suc k))"
    by (rule ex_le_Suc)
  have Z: "?P (Suc n) p q 0 \<longleftrightarrow> m p = 0 \<and> m q = 0" by simp
  show ?case
    unfolding split S Z using Suc.IH [of "p + 1" "q + 1"]
    by (cases "m p \<noteq> 0 \<and> m p = m q") (auto simp: word_uint_eq_iff)
qed simp

text \<open>
  \<open>r\<close> is \<open>m\<close> with the string at \<open>t\<close> copied to \<open>s\<close>, cut off to fit \<open>n\<close> bytes with its terminator.
\<close>

definition cstr_copied :: "nat \<Rightarrow> u32 \<Rightarrow> u32 \<Rightarrow> mem \<Rightarrow> mem \<Rightarrow> bool" where
  "cstr_copied n s t m r \<longleftrightarrow> (\<exists>k<n. r (s + of_nat k) = 0
     \<and> (\<forall>i<k. r (s + of_nat i) = m (t + of_nat i) \<and> m (t + of_nat i) \<noteq> 0)
     \<and> (k + 1 < n \<longrightarrow> m (t + of_nat k) = 0)
     \<and> (\<forall>a. unat (a - s) \<ge> n \<longrightarrow> r a = m a))"

lemma safestrcpy_loop_spec:
  assumes "0 < n" and "n < 2 ^ 32" and "\<And>i j. i < n \<Longrightarrow> j < n \<Longrightarrow> s + of_nat i \<noteq> t + of_nat j"
  shows "cstr_copied n s t m (safestrcpy_loop n s t m)"
  using assms
proof (induction n s t m rule: safestrcpy_loop.induct)
  case (1 n s t m)
  let ?m = "m(s := m t)"
  show ?case
  proof (cases "n \<le> 1")
    case True
    with 1(2) have "n = Suc 0" by simp
    then show ?thesis by (auto simp: safestrcpy_loop.simps [of "Suc 0"] cstr_copied_def)
  next
    case False
    show ?thesis
    proof (cases "m t = 0")
      case True
      have "safestrcpy_loop n s t m = ?m(s + 1 := 0)" using False True by (simp add: safestrcpy_loop.simps [of n])
      with False True show ?thesis unfolding cstr_copied_def by (intro exI [of _ 0]) auto
    next
      case nz: False
      let ?r = "safestrcpy_loop (n - 1) (s + 1) (t + 1) ?m"
      have run: "safestrcpy_loop n s t m = ?r" using False nz by (simp add: safestrcpy_loop.simps [of n])
      have apart: "s + 1 + of_nat i \<noteq> t + 1 + of_nat j" if "i < n - 1" "j < n - 1" for i j
        using 1(4) [of "Suc i" "Suc j"] that by (simp add: add.assoc)
      have "cstr_copied (n - 1) (s + 1) (t + 1) ?m ?r"
        by (rule 1(1) [OF False refl nz]) (use False 1(3) apart in simp_all)
      then obtain k where k: "k < n - 1" "?r (s + 1 + of_nat k) = 0"
          "\<And>i. i < k \<Longrightarrow> ?r (s + 1 + of_nat i) = ?m (t + 1 + of_nat i) \<and> ?m (t + 1 + of_nat i) \<noteq> 0"
          "k + 1 < n - 1 \<Longrightarrow> ?m (t + 1 + of_nat k) = 0"
          "\<And>a. unat (a - (s + 1)) \<ge> n - 1 \<Longrightarrow> ?r a = ?m a"
        unfolding cstr_copied_def by blast
      have mt: "?m (t + 1 + of_nat i) = m (t + of_nat (Suc i))" if "i < n - 1" for i
      proof -
        have "Suc i < n" using that by simp
        then have "t + 1 + of_nat i \<noteq> s" using 1(4) [of 0 "Suc i"] by (auto simp: add.assoc)
        then show ?thesis by (simp add: add.assoc)
      qed
      have r0: "?r s = m t"
        using k(5) [of s] 1(3) False by (simp add: unat_u32_minus_one)
      have "?r (s + of_nat i) = m (t + of_nat i) \<and> m (t + of_nat i) \<noteq> 0" if "i < Suc k" for i
      proof (cases i)
        case (Suc j)
        with that have "?r (s + 1 + of_nat j) = m (t + of_nat i) \<and> m (t + of_nat i) \<noteq> 0"
          using k(1) k(3) [of j] mt [of j] by simp
        with Suc show ?thesis by (simp add: add.assoc)
      qed (use r0 nz in simp)
      moreover have "?r a = m a" if "unat (a - s) \<ge> n" for a
      proof -
        have "a \<noteq> s" using that False by auto
        with that diff_add_one [of a s] show ?thesis using k(5) [of a] by auto
      qed
      moreover have "m (t + of_nat (Suc k)) = 0" if "Suc k + 1 < n"
        using that k(1,4) mt [of k] by simp
      moreover have "?r (s + of_nat (Suc k)) = 0" using k(2) by (simp only: of_nat_Suc add.assoc)
      ultimately show ?thesis
        using k(1) unfolding run cstr_copied_def by (intro exI [of _ "Suc k"]) auto
    qed
  qed
qed

lemma strlen_from_Some:
  assumes "m (s + of_nat k) = 0" and "\<And>i. n \<le> i \<Longrightarrow> i < k \<Longrightarrow> m (s + of_nat i) \<noteq> 0" and "n \<le> k"
  shows "strlen_from m s n = Some k"
  using assms(3,2)
proof (induction "k - n" arbitrary: n)
  case 0
  with assms(1) show ?case by (subst strlen_from.simps) simp
next
  case (Suc d)
  then have "m (s + of_nat n) \<noteq> 0" "n < k" by auto
  with Suc show ?case by (subst strlen_from.simps) simp
qed


section \<open>Properties\<close>

text \<open>
  \<^verbatim>\<open>memset\<close> stores the low byte of \<open>c\<close> at the \<open>n\<close> addresses from \<open>dst\<close> and nowhere else, whether it takes
  the path that stores words or the one that stores bytes.
\<close>

theorem memset_fills: "memset dst c n m a = (if unat (a - dst) < unat n then ucast c else m a)"
  by (simp add: memset_eq)

text \<open>
  \<^verbatim>\<open>memmove\<close> copies correctly even when source and destination overlap: every destination byte gets the
  value its source byte had before the call, and no other byte changes.
\<close>

theorem memmove_overlap:
  assumes "unat src + unat n < 2 ^ 32" "unat dst + unat n < 2 ^ 32"
  shows "memmove dst src n m a = (if unat (a - dst) < unat n then m (src + (a - dst)) else m a)"
  using memmove_eq [OF assms] by simp

theorem memmove_overlap_witness:
  "memmove 2 1 3 (\<lambda>a. ucast a) 4 = (3 :: u8) \<and> memmove 1 2 3 (\<lambda>a. ucast a) 2 = (3 :: u8)"
  using memmove_overlap [of 1 3 2 "\<lambda>a. ucast a" 4] memmove_overlap [of 2 3 1 "\<lambda>a. ucast a" 2] by simp_all

text \<open>
  \<^verbatim>\<open>safestrcpy\<close> with room for \<open>n > 0\<close> bytes leaves a NUL-terminated prefix of the source string within the \<open>n\<close>
  bytes at \<open>s\<close>, the whole string if it fits, and changes nothing outside them.
\<close>

theorem safestrcpy_terminated:
  assumes "0 < n" and "n < 2 ^ 31" and "\<forall>i j. i < nat n \<longrightarrow> j < nat n \<longrightarrow> s + of_nat i \<noteq> t + of_nat j"
  shows "cstr_copied (nat n) s t m (safestrcpy s t n m)"
  using safestrcpy_loop_spec [of "nat n" s t m] assms by (simp add: safestrcpy_def)

theorem safestrcpy_terminated_witness: "cstr_copied 2 100 200 (\<lambda>_. 65) (safestrcpy 100 200 2 (\<lambda>_. 65))"
proof -
  have "(100 :: u32) + of_nat i \<noteq> 200 + of_nat j" if "i < 2" "j < 2" for i j :: nat
    using that by (auto simp: less_2_cases_iff)
  then show ?thesis using safestrcpy_terminated [of 2 100 200 "\<lambda>_. 65"] by simp
qed

end
