(* ===== verification/Mkfs.thy ===== *)
theory Mkfs
  imports Content Memory
begin

text \<open>
  The image builder of \<^verbatim>\<open>mkfs.c\<close>, a program of the host that writes the file system the kernel starts with. The image is a file of sectors; an
  assertion that fails and an error that ends the program are faults. Inodes on the disk and directory entries are those of theory \<open>Fs\<close>.
\<close>

section \<open>State\<close>

record mkfs =
  img :: "u32 \<Rightarrow> bytes"
  img_len :: nat
  freeblock :: u32
  usedblocks :: u32
  freeinode :: u32

definition nlog :: nat where "nlog = LOGSIZE"
definition nblocks :: nat where "nblocks = 995 - LOGSIZE"
definition ninodes :: nat where "ninodes = 200"
definition fssize :: nat where "fssize = 1024"
definition bitblocks :: nat where "bitblocks = fssize div (512 * 8) + 1"

text \<open>Values in the byte order of the image, read back on the host.\<close>

definition xshort :: "u16 \<Rightarrow> u16" where
  "xshort x = get16 ((\<lambda>_. 0)(0 := ucast x, 1 := ucast (drop_bit 8 x))) 0"

definition xint :: "u32 \<Rightarrow> u32" where
  "xint x = get32 ((\<lambda>_. 0)(0 := ucast x, 1 := ucast (drop_bit 8 x), 2 := ucast (drop_bit 16 x), 3 := ucast (drop_bit 24 x))) 0"

section \<open>Sectors and inodes\<close>

definition wsect :: "u32 \<Rightarrow> bytes \<Rightarrow> (mkfs, unit) kop" where
  "wsect sec buf = upd (\<lambda>s. s\<lparr>img := (img s)(sec := buf), img_len := max (img_len s) (Suc (unat sec))\<rparr>)"

definition rsect :: "u32 \<Rightarrow> (mkfs, bytes) kop" where
  "rsect sec =
     andthen (gets img_len) (\<lambda>n.
     andthen (panic_if (\<not> unat sec < n) ''read'') (\<lambda>_.
     gets (\<lambda>s. img s sec)))"

definition i2b :: "u32 \<Rightarrow> u32" where
  "i2b inum = inum div of_nat IPB + 2"

text \<open>A \<^verbatim>\<open>struct dinode\<close> of zeros.\<close>

definition din0 :: inode where
  "din0 = \<lparr>i_dev = 0, i_inum = 0, i_ref = 0, i_flags = {}, i_type = 0, i_major = 0, i_minor = 0, i_nlink = 0, i_size = 0, i_addrs = (\<lambda>_. 0)\<rparr>"

definition winode :: "u32 \<Rightarrow> inode \<Rightarrow> (mkfs, unit) kop" where
  "winode inum ip =
     andthen (rsect (i2b inum)) (\<lambda>buf.
     wsect (i2b inum) (dinode_put ip (dip_off inum) buf))"

definition rinode :: "u32 \<Rightarrow> (mkfs, inode) kop" where
  "rinode inum =
     andthen (rsect (i2b inum)) (\<lambda>buf.
     ret (dinode_get buf (dip_off inum) din0))"

definition ialloc_mkfs :: "u16 \<Rightarrow> (mkfs, u32) kop" where
  "ialloc_mkfs type =
     andthen (gets freeinode) (\<lambda>inum.
     andthen (upd (\<lambda>s. s\<lparr>freeinode := freeinode s + 1\<rparr>)) (\<lambda>_.
     andthen (winode inum (din0\<lparr>i_type := xshort type, i_nlink := xshort 1, i_size := xint 0\<rparr>)) (\<lambda>_.
     ret inum)))"

definition balloc_mkfs :: "nat \<Rightarrow> (mkfs, unit) kop" where
  "balloc_mkfs used =
     andthen (panic_if (\<not> used < 512 * 8) ''assert'') (\<lambda>_.
     wsect (of_nat (ninodes div IPB + 3)) (fold bm_set [0..<used] (\<lambda>_. 0)))"

section \<open>Appending to a file\<close>

definition new_block :: "(mkfs, u32) kop" where
  "new_block =
     andthen (gets freeblock) (\<lambda>b.
     andthen (upd (\<lambda>s. s\<lparr>freeblock := freeblock s + 1, usedblocks := usedblocks s + 1\<rparr>)) (\<lambda>_.
     ret b))"

text \<open>A block pointer of the inode, allocated where it is 0.\<close>

definition need_block :: "nat \<Rightarrow> inode \<Rightarrow> (mkfs, inode) kop" where
  "need_block k din =
     (if xint (i_addrs din k) = 0
      then andthen new_block (\<lambda>b. ret (din\<lparr>i_addrs := (i_addrs din)(k := xint b)\<rparr>))
      else ret din)"

text \<open>The pointer to block \<open>fbn\<close> in the indirect block, allocated where it is 0.\<close>

definition iappend_entry :: "inode \<Rightarrow> nat \<Rightarrow> (mkfs, u32) kop" where
  "iappend_entry din fbn =
     andthen (rsect (xint (i_addrs din NDIRECT))) (\<lambda>indirect.
     andthen
       (if get32 indirect (4 * (fbn - NDIRECT)) = 0 then
          andthen new_block (\<lambda>b.
          let indirect = put32 indirect (4 * (fbn - NDIRECT)) (xint b) in
          andthen (wsect (xint (i_addrs din NDIRECT)) indirect) (\<lambda>_.
          ret indirect))
        else ret indirect) (\<lambda>indirect.
     ret (xint (get32 indirect (4 * (fbn - NDIRECT))))))"

text \<open>The sector of block \<open>fbn\<close> of the file, and the inode that has it.\<close>

definition iappend_block :: "inode \<Rightarrow> nat \<Rightarrow> (mkfs, u32 \<times> inode) kop" where
  "iappend_block din fbn =
     andthen (panic_if (\<not> fbn < MAXFILE) ''assert'') (\<lambda>_.
     if fbn < NDIRECT then
       andthen (need_block fbn din) (\<lambda>din.
       ret (xint (i_addrs din fbn), din))
     else
       andthen (need_block NDIRECT din) (\<lambda>din.
       andthen (iappend_entry din fbn) (\<lambda>x.
       ret (x, din))))"

lemma block_end: "off < (off div 512 + 1) * (512 :: nat)"
  using dividend_less_div_times [of 512 off] by simp

function iappend_loop :: "inode \<Rightarrow> nat \<Rightarrow> u8 list \<Rightarrow> (mkfs, inode \<times> nat) kop" where
  "iappend_loop din off p =
     (if p = [] then ret (din, off)
      else
        let fbn = off div 512; n1 = min (length p) ((fbn + 1) * 512 - off) in
        andthen (iappend_block din fbn) (\<lambda>(x, din).
        andthen (rsect x) (\<lambda>buf.
        andthen (wsect x (blit (as_bytes p) (off - fbn * 512) n1 buf)) (\<lambda>_.
        iappend_loop din (off + n1) (drop n1 p)))))"
  by pat_completeness auto
termination
  by (relation "measure (\<lambda>(din, off, p). length p)") (use block_end in auto)

declare iappend_loop.simps [simp del]

definition iappend :: "u32 \<Rightarrow> u8 list \<Rightarrow> (mkfs, unit) kop" where
  "iappend inum p =
     andthen (rinode inum) (\<lambda>din.
     andthen (iappend_loop din (unat (xint (i_size din))) p) (\<lambda>(din, off).
     winode inum (din\<lparr>i_size := xint (of_nat off)\<rparr>)))"

section \<open>The image\<close>

definition dirent_of :: "u8 list \<Rightarrow> u32 \<Rightarrow> u8 list" where
  "dirent_of name inum = map (mk_dirent (as_bytes name) inum) [0..<de_size]"

text \<open>
  A file of the host: its name, and the bytes that each call of \<^verbatim>\<open>read\<close> returns, or \<open>None\<close> when it cannot be opened.
\<close>

type_synonym host_file = "u8 list \<times> u8 list list option"

definition add_file :: "u32 \<Rightarrow> host_file \<Rightarrow> (mkfs, unit) kop" where
  "add_file rootino f =
     andthen (panic_if (slash \<in> set (fst f)) ''assert'') (\<lambda>_.
     case snd f of
       None \<Rightarrow> stop (Panic ''open'')
     | Some cs \<Rightarrow>
         let name = (if fst f \<noteq> [] \<and> hd (fst f) = 0x5f then tl (fst f) else fst f) in
         andthen (ialloc_mkfs T_FILE) (\<lambda>inum.
         andthen (iappend rootino (dirent_of name inum)) (\<lambda>_.
         mfor (takeWhile (\<lambda>c. c \<noteq> []) cs) (iappend inum))))"

definition sb_bytes :: bytes where
  "sb_bytes = put32 (put32 (put32 (put32 (\<lambda>_. 0) 0 (xint (of_nat fssize))) 4 (xint (of_nat nblocks))) 8 (xint (of_nat ninodes)))
     12 (xint (of_nat nlog))"

text \<open>The root directory, the files, and what is written last; then the whole of \<open>main\<close>.\<close>

definition fix_root :: "u32 \<Rightarrow> (mkfs, unit) kop" where
  "fix_root rootino =
     andthen (rinode rootino) (\<lambda>din.
     winode rootino (din\<lparr>i_size := xint (of_nat ((unat (xint (i_size din)) div BSIZE + 1) * BSIZE))\<rparr>))"

definition fill_image :: "host_file list \<Rightarrow> (mkfs, unit) kop" where
  "fill_image files =
     andthen (ialloc_mkfs T_DIR) (\<lambda>rootino.
     andthen (panic_if (rootino \<noteq> ROOTINO) ''assert'') (\<lambda>_.
     andthen (iappend rootino (dirent_of [0x2e] rootino)) (\<lambda>_.
     andthen (iappend rootino (dirent_of [0x2e, 0x2e] rootino)) (\<lambda>_.
     andthen (mfor files (add_file rootino)) (\<lambda>_.
     andthen (fix_root rootino) (\<lambda>_.
     andthen (gets usedblocks) (\<lambda>used.
     balloc_mkfs (unat used))))))))"

definition main_mkfs :: "host_file list \<Rightarrow> (mkfs, unit) kop" where
  "main_mkfs files =
     andthen (upd (\<lambda>s. s\<lparr>usedblocks := of_nat (ninodes div IPB + 3 + bitblocks), freeblock := of_nat (ninodes div IPB + 3 + bitblocks)\<rparr>)) (\<lambda>_.
     andthen (gets usedblocks) (\<lambda>used.
     andthen (panic_if (nblocks + unat used + nlog \<noteq> fssize) ''assert'') (\<lambda>_.
     andthen (mfor [0..<nblocks + unat used + nlog] (\<lambda>i. wsect (of_nat i) (\<lambda>_. 0))) (\<lambda>_.
     andthen (wsect 1 sb_bytes) (\<lambda>_.
     fill_image files)))))"

text \<open>The image file is empty at the start.\<close>

definition mkfs0 :: mkfs where
  "mkfs0 = \<lparr>img = (\<lambda>_ _. 0), img_len = 0, freeblock = 0, usedblocks = 0, freeinode = 1\<rparr>"

section \<open>Block pointers\<close>

lemma xint_id [simp]: "xint x = x"
proof -
  have "xint x = get32 (put32 (\<lambda>_. 0) 0 x) 0" by (simp add: xint_def put32_def byte_of_def numeral_2_eq_2)
  then show ?thesis by simp
qed

lemma xshort_id [simp]: "xshort x = x"
proof -
  have "xshort x = get16 (put16 (\<lambda>_. 0) 0 x) 0" by (simp add: xshort_def put16_def)
  then show ?thesis by simp
qed

text \<open>The first sector of the data area.\<close>

definition data_start :: nat where "data_start = ninodes div IPB + 3 + bitblocks"

lemma data_start_29: "data_start = 29"
  by (simp add: data_start_def ninodes_def bitblocks_def fssize_def IPB_def BSIZE_def)

text \<open>The pointers of a file: to its blocks, and to its indirect block.\<close>

definition ptr :: "(u32 \<Rightarrow> bytes) \<Rightarrow> inode \<Rightarrow> nat \<Rightarrow> u32" where
  "ptr V i k = (if k < MAXFILE then blk_addr V i k else i_addrs i NDIRECT)"

definition ptrs_ok :: "(u32 \<Rightarrow> nat \<Rightarrow> u32) \<Rightarrow> u32 set \<Rightarrow> nat \<Rightarrow> bool" where
  "ptrs_ok P N F \<longleftrightarrow> (\<forall>n \<in> N. \<forall>k \<le> MAXFILE. P n k \<noteq> 0 \<longrightarrow> data_start \<le> unat (P n k) \<and> unat (P n k) < F)
     \<and> (\<forall>n \<in> N. \<forall>m \<in> N. \<forall>k \<le> MAXFILE. \<forall>l \<le> MAXFILE. P n k \<noteq> 0 \<and> P n k = P m l \<longrightarrow> n = m \<and> k = l)"

lemma ptrs_ok_cong: "ptrs_ok P N F \<Longrightarrow> (\<And>n. n \<in> N \<Longrightarrow> Q n = P n) \<Longrightarrow> ptrs_ok Q N F"
proof -
  assume a: "ptrs_ok P N F" and q: "\<And>n. n \<in> N \<Longrightarrow> Q n = P n"
  have "n = m \<and> k = l" if "n \<in> N" "m \<in> N" "k \<le> MAXFILE" "l \<le> MAXFILE" "Q n k \<noteq> 0 \<and> Q n k = Q m l" for n m k l
    using that a q [of n] q [of m] unfolding ptrs_ok_def by (metis (no_types, lifting))
  moreover have "\<forall>n \<in> N. \<forall>k \<le> MAXFILE. Q n k \<noteq> 0 \<longrightarrow> data_start \<le> unat (Q n k) \<and> unat (Q n k) < F" using a q by (simp add: ptrs_ok_def)
  ultimately show ?thesis unfolding ptrs_ok_def by blast
qed

lemma ptrs_new:
  assumes "ptrs_ok P N F" and "unat b = F" and "data_start \<le> F"
    and "\<And>m l. m \<in> N \<Longrightarrow> l \<le> MAXFILE \<Longrightarrow> Q m l = (if m = n \<and> l = k then b else P m l)"
  shows "ptrs_ok Q N (Suc F)"
  unfolding ptrs_ok_def
proof (intro conjI ballI allI impI)
  fix m l assume "m \<in> N" "l \<le> MAXFILE" "Q m l \<noteq> 0"
  then show "data_start \<le> unat (Q m l)" "unat (Q m l) < Suc F"
    using assms by (auto simp: ptrs_ok_def less_Suc_eq split: if_splits)
next
  fix m m' l l' assume a: "m \<in> N" "m' \<in> N" "l \<le> MAXFILE" "l' \<le> MAXFILE" "Q m l \<noteq> 0 \<and> Q m l = Q m' l'"
  have "unat (P m l) \<noteq> F" if "m \<in> N" "l \<le> MAXFILE" "P m l \<noteq> 0" for m l
    using that assms(1) by (auto simp: ptrs_ok_def)
  then have "P m l \<noteq> b" if "m \<in> N" "l \<le> MAXFILE" "P m l \<noteq> 0" for m l using that assms(2) by auto
  then have "m = m' \<and> l = l'" using a assms(1,4) unfolding ptrs_ok_def by (auto split: if_splits)
  then show "m = m'" "l = l'" by auto
qed

definition live :: "mkfs \<Rightarrow> u32 set" where
  "live s = {n. 0 < n \<and> n < freeinode s}"

text \<open>The image under construction, with the inodes \<open>ino\<close>: pointers lead to different sectors that were handed out, and the others are still zero.\<close>

definition building :: "mkfs \<Rightarrow> (u32 \<Rightarrow> inode) \<Rightarrow> bool" where
  "building s ino \<longleftrightarrow> ptrs_ok (\<lambda>n. ptr (img s) (ino n)) (live s) (unat (freeblock s)) \<and> (\<forall>b. freeblock s \<le> b \<longrightarrow> img s b = (\<lambda>_. 0))
     \<and> img s 0 = (\<lambda>_. 0) \<and> usedblocks s = freeblock s \<and> data_start \<le> unat (freeblock s) \<and> unat (freeblock s) \<le> img_len s \<and> img_len s < 2 ^ 31"

definition mapped :: "mkfs \<Rightarrow> (u32 \<Rightarrow> inode) \<Rightarrow> (u32 \<times> nat) set" where
  "mapped s ino = {(m, k). m \<in> live s \<and> k \<le> MAXFILE \<and> ptr (img s) (ino m) k \<noteq> 0}"

text \<open>A step that keeps what was there, and adds the pointers \<open>K\<close>.\<close>

definition grows :: "(u32 \<times> nat) set \<Rightarrow> mkfs \<Rightarrow> (u32 \<Rightarrow> inode) \<Rightarrow> mkfs \<Rightarrow> (u32 \<Rightarrow> inode) \<Rightarrow> bool" where
  "grows K s ino t jno \<longleftrightarrow> building t jno \<and> img_len t = img_len s \<and> freeinode t = freeinode s \<and> (\<forall>b. unat b < data_start \<longrightarrow> img t b = img s b)
     \<and> mapped t jno = mapped s ino \<union> K \<and> K \<inter> mapped s ino = {} \<and> unat (freeblock t) = unat (freeblock s) + card K
     \<and> (\<forall>m k. (m, k) \<in> mapped s ino \<longrightarrow> ptr (img t) (jno m) k = ptr (img s) (ino m) k)
     \<and> (\<forall>m k. (m, k) \<in> mapped s ino \<and> k < MAXFILE \<longrightarrow> img t (ptr (img s) (ino m) k) = img s (ptr (img s) (ino m) k))
     \<and> (\<forall>m k. (m, k) \<in> K \<and> k < MAXFILE \<longrightarrow> img t (ptr (img t) (jno m) k) = (\<lambda>_. 0))"

lemma growsD:
  assumes "grows K s ino t jno"
  shows "building t jno" "img_len t = img_len s" "freeinode t = freeinode s" "live t = live s" "unat b < data_start \<Longrightarrow> img t b = img s b"
    "mapped t jno = mapped s ino \<union> K" "K \<inter> mapped s ino = {}" "unat (freeblock t) = unat (freeblock s) + card K"
    "(m, k) \<in> mapped s ino \<Longrightarrow> ptr (img t) (jno m) k = ptr (img s) (ino m) k"
    "(m, k) \<in> mapped s ino \<Longrightarrow> k < MAXFILE \<Longrightarrow> img t (ptr (img s) (ino m) k) = img s (ptr (img s) (ino m) k)"
    "(m, k) \<in> K \<Longrightarrow> k < MAXFILE \<Longrightarrow> img t (ptr (img t) (jno m) k) = (\<lambda>_. 0)"
  using assms by (simp_all add: grows_def live_def)

lemma finite_mapped: "finite (mapped s ino)"
proof -
  have "mapped s ino \<subseteq> UNIV \<times> {..MAXFILE}" by (auto simp: mapped_def)
  then show ?thesis by (rule finite_subset) simp
qed

lemma grows_refl: "building s ino \<Longrightarrow> grows {} s ino s ino"
  by (auto simp: grows_def)

lemma grows_trans:
  assumes st: "grows K s ino t jno" and tu: "grows L t jno u kno"
  shows "grows (K \<union> L) s ino u kno"
proof -
  note s = growsD [OF st] and t = growsD [OF tu]
  have "finite K" "finite L" using s(6) t(6) finite_mapped [of u kno] by auto
  moreover have "K \<inter> L = {}" using s(6) t(7) by auto
  ultimately have c: "card (K \<union> L) = card K + card L" by (simp add: card_Un_disjoint)
  have keep: "ptr (img u) (kno m) k = ptr (img t) (jno m) k" if "(m, k) \<in> mapped s ino \<union> K" for m k
    using that t(9) s(6) by blast
  have zero: "img u (ptr (img u) (kno m) k) = (\<lambda>_. 0)" if "(m, k) \<in> K \<union> L" "k < MAXFILE" for m k
  proof (cases "(m, k) \<in> L")
    case False
    then have "(m, k) \<in> K" "(m, k) \<in> mapped t jno" using that s(6) by auto
    then show ?thesis using keep t(10) s(11) that(2) by simp
  qed (use t(11) that in simp)
  show ?thesis unfolding grows_def
  proof (intro conjI allI impI)
    show "mapped u kno = mapped s ino \<union> (K \<union> L)" using s(6) t(6) by auto
    show "(K \<union> L) \<inter> mapped s ino = {}" using s(6,7) t(7) by auto
    fix m k
    show "(m, k) \<in> mapped s ino \<Longrightarrow> ptr (img u) (kno m) k = ptr (img s) (ino m) k" using keep s(9) by simp
    show "img u (ptr (img s) (ino m) k) = img s (ptr (img s) (ino m) k)" if "(m, k) \<in> mapped s ino \<and> k < MAXFILE"
      using that s(6) s(9,10) [of m k] t(10) [of m k] by auto
    show "(m, k) \<in> K \<union> L \<and> k < MAXFILE \<Longrightarrow> img u (ptr (img u) (kno m) k) = (\<lambda>_. 0)" using zero by blast
  qed (use s t c in auto)
qed

lemma NDIRECT_less: "NDIRECT < MAXFILE" and MAXFILE_140: "MAXFILE = 140" and NDIRECT_12: "NDIRECT = 12"
  by (simp_all add: MAXFILE_def NDIRECT_def NINDIRECT_def BSIZE_def)

lemma ptr_direct: "k < NDIRECT \<Longrightarrow> ptr V (i\<lparr>i_addrs := (i_addrs i)(k := b)\<rparr>) l = (if l = k then b else ptr V i l)"
  using NDIRECT_less by (auto simp: ptr_def blk_addr_def)

lemma ptr_indirect:
  "V b = (\<lambda>_. 0) \<Longrightarrow> V 0 = (\<lambda>_. 0) \<Longrightarrow> i_addrs i NDIRECT = 0 \<Longrightarrow> l \<le> MAXFILE \<Longrightarrow>
   ptr V (i\<lparr>i_addrs := (i_addrs i)(NDIRECT := b)\<rparr>) l = (if l = MAXFILE then b else ptr V i l)"
  using NDIRECT_less by (auto simp: ptr_def blk_addr_def)

lemma ptr_entry:
  assumes "NDIRECT \<le> fbn" and "fbn < MAXFILE" and "l \<le> MAXFILE"
  shows "ptr (V(i_addrs i NDIRECT := put32 (V (i_addrs i NDIRECT)) (4 * (fbn - NDIRECT)) b)) i l = (if l = fbn then b else ptr V i l)"
proof -
  have "4 * (l - NDIRECT) + 4 \<le> 4 * (fbn - NDIRECT) \<or> 4 * (fbn - NDIRECT) + 4 \<le> 4 * (l - NDIRECT)" if "NDIRECT \<le> l" "l \<noteq> fbn"
    using that assms(1) by linarith
  then show ?thesis using assms by (auto simp: ptr_def blk_addr_def get32_put32_other not_less)
qed

lemma ptr_other: "i_addrs i NDIRECT \<noteq> a \<Longrightarrow> ptr (V(a := x)) i = ptr V i"
  by (auto simp: ptr_def blk_addr_def fun_eq_iff)

lemma ptr_MAXFILE [simp]: "ptr V i MAXFILE = i_addrs i NDIRECT"
  by (simp add: ptr_def)

lemma unat_free:
  assumes "building s ino" and "unat (freeblock s) < img_len s"
  shows "unat (freeblock s + 1) = Suc (unat (freeblock s))" "freeblock s \<noteq> 0" "freeblock s + 1 \<le> b \<Longrightarrow> freeblock s \<le> b"
proof -
  have "unat (freeblock s) < 2 ^ 31" using assms by (auto simp: building_def)
  then show u: "unat (freeblock s + 1) = Suc (unat (freeblock s))" using unat_add_lem [of "freeblock s" 1] by simp
  then show "freeblock s + 1 \<le> b \<Longrightarrow> freeblock s \<le> b" by (simp add: word_le_nat_alt)
  show "freeblock s \<noteq> 0" using assms(1) data_start_29 by (auto simp: building_def)
qed

lemma grows_new:
  assumes s: "building s ino" and n: "n \<in> live s" "k \<le> MAXFILE" "ptr (img s) (ino n) k = 0" and room: "unat (freeblock s) < img_len s"
    and t: "freeblock t = freeblock s + 1" "usedblocks t = usedblocks s + 1" "img_len t = img_len s" "freeinode t = freeinode s"
    and low: "\<And>b. unat b < data_start \<Longrightarrow> img t b = img s b" and high: "\<And>b. freeblock s \<le> b \<Longrightarrow> img t b = img s b"
    and ptrs: "\<And>m l. m \<in> live s \<Longrightarrow> l \<le> MAXFILE \<Longrightarrow> ptr (img t) (jno m) l = (if m = n \<and> l = k then freeblock s else ptr (img s) (ino m) l)"
    and data: "\<And>m l. (m, l) \<in> mapped s ino \<Longrightarrow> l < MAXFILE \<Longrightarrow> img t (ptr (img s) (ino m) l) = img s (ptr (img s) (ino m) l)"
  shows "grows {(n, k)} s ino t jno"
proof -
  note b = unat_free [OF s room]
  have l: "live t = live s" using t(4) by (simp add: live_def)
  have u: "unat (freeblock t) = Suc (unat (freeblock s))" using b(1) t(1) by simp
  have "ptrs_ok (\<lambda>n. ptr (img t) (jno n)) (live s) (Suc (unat (freeblock s)))"
    using s by (intro ptrs_new [of "\<lambda>n. ptr (img s) (ino n)" "live s" _ "freeblock s" _ n k]) (auto simp: building_def ptrs)
  moreover have "img t 0 = (\<lambda>_. 0)" using low [of 0] s data_start_29 by (simp add: building_def)
  moreover have "img t c = (\<lambda>_. 0)" if "freeblock t \<le> c" for c
    using that high [of c] b(3) [of c] s t(1) by (simp add: building_def)
  ultimately have B: "building t jno" using s room t u unfolding building_def l by auto
  have M: "mapped t jno = mapped s ino \<union> {(n, k)}"
    using n b(2) unfolding mapped_def l by (auto simp: ptrs split: if_splits)
  have new: "(n, k) \<notin> mapped s ino" using n(3) by (simp add: mapped_def)
  show ?thesis unfolding grows_def
  proof (intro conjI allI impI)
    show "img t b = img s b" if "unat b < data_start" for b using low that .
    show "ptr (img t) (jno m) l = ptr (img s) (ino m) l" if "(m, l) \<in> mapped s ino" for m l
      using that new ptrs [of m l] by (auto simp: mapped_def)
    show "img t (ptr (img t) (jno m) l) = (\<lambda>_. 0)" if "(m, l) \<in> {(n, k)} \<and> l < MAXFILE" for m l
      using that ptrs [of n k] n(1,2) high [of "freeblock s"] s by (simp add: building_def)
  qed (use B M new u t data in auto)
qed

section \<open>Blocks for appended data\<close>

lemma ptr_bounds:
  assumes "building s ino" and "(m, k) \<in> mapped s ino"
  shows "data_start \<le> unat (ptr (img s) (ino m) k)" "unat (ptr (img s) (ino m) k) < unat (freeblock s)" "unat (ptr (img s) (ino m) k) < img_len s"
    "ptr (img s) (ino m) k < freeblock s"
proof -
  show a: "data_start \<le> unat (ptr (img s) (ino m) k)" "unat (ptr (img s) (ino m) k) < unat (freeblock s)"
    using assms by (auto simp: building_def ptrs_ok_def mapped_def)
  then show "unat (ptr (img s) (ino m) k) < img_len s" "ptr (img s) (ino m) k < freeblock s"
    using assms(1) by (auto simp: building_def word_less_nat_alt)
qed

lemma ptr_inj:
  assumes "building s ino" and "(m, k) \<in> mapped s ino" and "m' \<in> live s" and "k' \<le> MAXFILE" and "ptr (img s) (ino m) k = ptr (img s) (ino m') k'"
  shows "m = m' \<and> k = k'"
  using assms unfolding building_def ptrs_ok_def mapped_def by auto

lemma building_zero: "building s ino \<Longrightarrow> img s (freeblock s) = (\<lambda>_. 0)" "building s ino \<Longrightarrow> img s 0 = (\<lambda>_. 0)"
  by (simp_all add: building_def)

definition slot :: "nat \<Rightarrow> nat" where
  "slot k = (if k < NDIRECT then k else MAXFILE)"

lemma ptr_slot: "k \<le> NDIRECT \<Longrightarrow> ptr V i (slot k) = i_addrs i k"
  using NDIRECT_less by (auto simp: slot_def ptr_def blk_addr_def)

lemma need_block_wp:
  assumes s: "building s ino" and n: "n \<in> live s" "ino n = din" and k: "k \<le> NDIRECT"
    and room: "i_addrs din k = 0 \<Longrightarrow> unat (freeblock s) < img_len s"
  shows "wp (need_block k din) (\<lambda>din' t. grows (if i_addrs din k = 0 then {(n, slot k)} else {}) s ino t (ino(n := din')) \<and> i_addrs din' k \<noteq> 0
    \<and> (\<exists>A. din' = din\<lparr>i_addrs := A\<rparr>)) s"
proof (cases "i_addrs din k = 0")
  case True
  let ?d = "din\<lparr>i_addrs := (i_addrs din)(k := freeblock s)\<rparr>" and ?t = "s\<lparr>freeblock := freeblock s + 1, usedblocks := usedblocks s + 1\<rparr>"
  have "ptr (img s) ?d l = (if l = slot k then freeblock s else ptr (img s) din l)" if "l \<le> MAXFILE" for l
    using that k True ptr_direct [of k] ptr_indirect [of "img s" "freeblock s" din l] building_zero [OF s] by (cases "k = NDIRECT") (auto simp: slot_def)
  then have "grows {(n, slot k)} s ino ?t (ino(n := ?d))"
    using n k True room NDIRECT_less ptr_slot [OF k, of "img s" din]
    by (intro grows_new [OF s n(1)]) (auto simp: slot_def)
  then show ?thesis using True unat_free(2) [OF s] room
    by (auto simp: need_block_def new_block_def wp_simps intro!: exI [of _ "(i_addrs din)(k := freeblock s)"])
next
  case False
  then show ?thesis using grows_refl [OF s] n(2) by (auto simp: need_block_def wp_simps fun_upd_idem intro!: exI [of _ "i_addrs din"])
qed

text \<open>The indirect block of a file, read and changed where it has no pointer yet.\<close>

lemma entry_wp:
  assumes s: "building s ino" and n: "n \<in> live s" "ino n = din" and ind: "i_addrs din NDIRECT \<noteq> 0" and fbn: "NDIRECT \<le> fbn" "fbn < MAXFILE"
    and room: "ptr (img s) din fbn = 0 \<Longrightarrow> unat (freeblock s) < img_len s"
  shows "wp (iappend_entry din fbn)
    (\<lambda>x t. grows (if ptr (img s) din fbn = 0 then {(n, fbn)} else {}) s ino t ino \<and> x = ptr (img t) din fbn \<and> x \<noteq> 0) s"
proof -
  let ?a = "i_addrs din NDIRECT"
  have M: "(n, MAXFILE) \<in> mapped s ino" using n ind by (simp add: mapped_def)
  note a = ptr_bounds [OF s M, simplified n(2) ptr_MAXFILE]
  have e: "ptr V din fbn = get32 (V ?a) (4 * (fbn - NDIRECT))" for V using fbn by (simp add: ptr_def blk_addr_def)
  show ?thesis
  proof (cases "ptr (img s) din fbn = 0")
    case True
    let ?t = "s\<lparr>freeblock := freeblock s + 1, usedblocks := usedblocks s + 1, img := (img s)(?a := put32 (img s ?a) (4 * (fbn - NDIRECT)) (freeblock s)),
      img_len := max (img_len s) (Suc (unat ?a))\<rparr>"
    have other: "i_addrs (ino m) NDIRECT \<noteq> ?a" if "m \<in> live s" "m \<noteq> n" for m
      using ptr_inj [OF s M that(1), of MAXFILE] that n(2) by auto
    have "grows {(n, fbn)} s ino ?t ino"
    proof (rule grows_new [OF s n(1)])
      show "ptr (img ?t) (ino m) l = (if m = n \<and> l = fbn then freeblock s else ptr (img s) (ino m) l)" if "m \<in> live s" "l \<le> MAXFILE" for m l
        using that fbn n(2) other [of m] ptr_entry [of fbn l "img s" din "freeblock s"] by (cases "m = n") (auto simp: ptr_other)
      show "img ?t (ptr (img s) (ino m) l) = img s (ptr (img s) (ino m) l)" if "(m, l) \<in> mapped s ino" "l < MAXFILE" for m l
        using ptr_inj [OF s that(1) n(1), of MAXFILE] that(2) n(2) by auto
    qed (use True n fbn room a in auto)
    then show ?thesis using True a(3) e [of "img s"] e [of "img ?t"] unat_free(2) [OF s] room
      by (simp add: iappend_entry_def rsect_def wsect_def new_block_def wp_simps Let_def)
  next
    case False
    then show ?thesis using a(3) e [of "img s"] grows_refl [OF s] by (simp add: iappend_entry_def rsect_def wp_simps)
  qed
qed

definition new_ptrs :: "mkfs \<Rightarrow> u32 \<Rightarrow> inode \<Rightarrow> nat \<Rightarrow> (u32 \<times> nat) set" where
  "new_ptrs s n din fbn = (if NDIRECT \<le> fbn \<and> i_addrs din NDIRECT = 0 then {(n, MAXFILE)} else {})
     \<union> (if ptr (img s) din fbn = 0 then {(n, fbn)} else {})"

lemma iappend_block_wp:
  assumes s: "building s ino" and n: "n \<in> live s" "ino n = din" and fbn: "fbn < MAXFILE"
    and room: "unat (freeblock s) + card (new_ptrs s n din fbn) \<le> img_len s"
  shows "wp (iappend_block din fbn) (\<lambda>(x, din') t. grows (new_ptrs s n din fbn) s ino t (ino(n := din')) \<and> x = ptr (img t) din' fbn \<and> x \<noteq> 0
    \<and> (\<exists>A. din' = din\<lparr>i_addrs := A\<rparr>)) s"
proof (cases "fbn < NDIRECT")
  case True
  then have p: "ptr V i fbn = i_addrs i fbn" "slot fbn = fbn" for V i using ptr_slot [of fbn V i] by (simp_all add: slot_def)
  have K: "new_ptrs s n din fbn = (if i_addrs din fbn = 0 then {(n, slot fbn)} else {})" using True p by (simp add: new_ptrs_def)
  have "wp (need_block fbn din) (\<lambda>din' t. grows (new_ptrs s n din fbn) s ino t (ino(n := din')) \<and> i_addrs din' fbn \<noteq> 0 \<and> (\<exists>A. din' = din\<lparr>i_addrs := A\<rparr>)) s"
    unfolding K using room True by (intro need_block_wp [OF s n]) (auto simp: K)
  then show ?thesis using True fbn p by (simp add: iappend_block_def wp_simps)
next
  case False
  let ?K = "if i_addrs din NDIRECT = 0 then {(n, MAXFILE)} else {}"
  have sl: "slot NDIRECT = MAXFILE" by (simp add: slot_def)
  have z: "i_addrs din NDIRECT = 0 \<Longrightarrow> ptr (img s) din fbn = 0" using False fbn building_zero(2) [OF s] by (simp add: ptr_def blk_addr_def)
  have c: "card (new_ptrs s n din fbn) = card ?K + (if ptr (img s) din fbn = 0 then 1 else 0)" using False fbn by (auto simp: new_ptrs_def)
  have 1: "wp (need_block NDIRECT din) (\<lambda>din' t. grows ?K s ino t (ino(n := din')) \<and> i_addrs din' NDIRECT \<noteq> 0 \<and> (\<exists>A. din' = din\<lparr>i_addrs := A\<rparr>)) s"
    using need_block_wp [OF s n, of NDIRECT] room c z unfolding sl by auto
  have 2: "wp (iappend_entry din' fbn) (\<lambda>x u. grows (new_ptrs s n din fbn) s ino u (ino(n := din')) \<and> x = ptr (img u) din' fbn \<and> x \<noteq> 0) t"
    if g: "grows ?K s ino t (ino(n := din'))" and ind: "i_addrs din' NDIRECT \<noteq> 0" for din' t
  proof -
    note G = growsD [OF g]
    have nt: "n \<in> live t" using n(1) G(4) by simp
    have "(n, fbn) \<in> mapped t (ino(n := din')) \<longleftrightarrow> (n, fbn) \<in> mapped s ino" using G(6) fbn by auto
    then have q: "ptr (img t) din' fbn = 0 \<longleftrightarrow> ptr (img s) din fbn = 0" using n nt fbn by (simp add: mapped_def)
    have K: "?K \<union> (if ptr (img t) din' fbn = 0 then {(n, fbn)} else {}) = new_ptrs s n din fbn" using q False by (simp add: new_ptrs_def)
    have "wp (iappend_entry din' fbn) (\<lambda>x u. grows (if ptr (img t) din' fbn = 0 then {(n, fbn)} else {}) t (ino(n := din')) u (ino(n := din'))
        \<and> x = ptr (img u) din' fbn \<and> x \<noteq> 0) t"
      using room c q False fbn G(2,8) by (intro entry_wp [OF G(1) nt _ ind]) auto
    then show ?thesis by (rule wp_conseq) (use grows_trans [OF g] K in metis)
  qed
  have "wp (need_block NDIRECT din) (\<lambda>din'. wp (iappend_entry din' fbn) (\<lambda>x u. grows (new_ptrs s n din fbn) s ino u (ino(n := din'))
      \<and> x = ptr (img u) din' fbn \<and> x \<noteq> 0 \<and> (\<exists>A. din' = din\<lparr>i_addrs := A\<rparr>))) s"
  proof (rule wp_conseq [OF 1])
    fix din' t
    assume a: "grows ?K s ino t (ino(n := din')) \<and> i_addrs din' NDIRECT \<noteq> 0 \<and> (\<exists>A. din' = din\<lparr>i_addrs := A\<rparr>)"
    show "wp (iappend_entry din' fbn) (\<lambda>x u. grows (new_ptrs s n din fbn) s ino u (ino(n := din')) \<and> x = ptr (img u) din' fbn \<and> x \<noteq> 0
        \<and> (\<exists>A. din' = din\<lparr>i_addrs := A\<rparr>)) t"
      by (rule wp_conseq [OF 2]) (use a in auto)
  qed
  then show ?thesis using False fbn by (simp add: iappend_block_def wp_simps)
qed

section \<open>Appended data\<close>

text \<open>The sectors of a file of \<open>z\<close> bytes.\<close>

definition nb :: "nat \<Rightarrow> nat" where
  "nb z = (z + 511) div 512 + (if NDIRECT * 512 < z then 1 else 0)"

definition sized :: "(u32 \<Rightarrow> bytes) \<Rightarrow> inode \<Rightarrow> nat \<Rightarrow> bool" where
  "sized V i z \<longleftrightarrow> z \<le> MAXFILE * 512 \<and> (\<forall>k < MAXFILE. ptr V i k \<noteq> 0 \<longleftrightarrow> k * 512 < z) \<and> (i_addrs i NDIRECT \<noteq> 0 \<longleftrightarrow> NDIRECT * 512 < z)"

text \<open>A file that an operation leaves alone.\<close>

definition kept :: "(u32 \<Rightarrow> bytes) \<Rightarrow> (u32 \<Rightarrow> bytes) \<Rightarrow> inode \<Rightarrow> bool" where
  "kept V W i \<longleftrightarrow> (\<forall>k \<le> MAXFILE. ptr W i k = ptr V i k) \<and> (\<forall>k < MAXFILE. ptr V i k \<noteq> 0 \<longrightarrow> W (ptr V i k) = V (ptr V i k))"

definition appended :: "u32 \<Rightarrow> nat \<Rightarrow> u8 list \<Rightarrow> mkfs \<Rightarrow> (u32 \<Rightarrow> inode) \<Rightarrow> mkfs \<Rightarrow> inode \<Rightarrow> bool" where
  "appended n off p s ino t din \<longleftrightarrow> building t (ino(n := din)) \<and> img_len t = img_len s \<and> freeinode t = freeinode s
     \<and> (\<forall>b. unat b < data_start \<longrightarrow> img t b = img s b) \<and> unat (freeblock t) + nb off = unat (freeblock s) + nb (off + length p)
     \<and> sized (img t) din (off + length p) \<and> (\<exists>A. din = (ino n)\<lparr>i_addrs := A\<rparr>) \<and> (\<forall>m \<in> live s. m \<noteq> n \<longrightarrow> kept (img s) (img t) (ino m))
     \<and> (\<forall>q < off + length p. content (img t) din q = (if q < off then content (img s) (ino n) q else p ! (q - off)))"

lemma kept_trans: "kept V W i \<Longrightarrow> kept W X i \<Longrightarrow> kept V X i"
  by (simp add: kept_def)

lemma appended_trans:
  assumes 1: "appended n off p s ino t d" and 2: "appended n (off + length p) p' t (ino(n := d)) u d'"
  shows "appended n off (p @ p') s ino u d'"
proof -
  have l: "live t = live s" using 1 by (simp add: appended_def live_def)
  have "content (img u) d' q = (if q < off then content (img s) (ino n) q else (p @ p') ! (q - off))" if "q < off + length (p @ p')" for q
    using that 1 2 by (auto simp: appended_def nth_append)
  moreover have "\<forall>m \<in> live s. m \<noteq> n \<longrightarrow> kept (img s) (img u) (ino m)" using 1 2 kept_trans unfolding appended_def l by (metis fun_upd_apply)
  moreover have "\<exists>A. d' = (ino n)\<lparr>i_addrs := A\<rparr>" using 1 2 by (auto simp: appended_def)
  ultimately show ?thesis using 1 2 unfolding appended_def by (simp add: add.assoc)
qed

lemma content_ptr: "q < MAXFILE * 512 \<Longrightarrow> content V i q = V (ptr V i (q div 512)) (q mod 512)"
  by (simp add: content_def ptr_def BSIZE_def div_less_iff_less_mult)

text \<open>Where a piece of data lies that begins at \<open>off\<close> and ends in the same block.\<close>

lemma piece:
  fixes off :: nat
  assumes "n1 = min len ((off div 512 + 1) * 512 - off)" and "0 < len"
  shows "0 < n1" "n1 \<le> len" "off div 512 * 512 \<le> off" "off + n1 \<le> (off div 512 + 1) * 512"
    "off div 512 * 512 < off + n1" "off - off div 512 * 512 = off mod 512"
proof -
  have o: "off div 512 * 512 + off mod 512 = off" by simp
  then show a: "off div 512 * 512 \<le> off" "off - off div 512 * 512 = off mod 512" by linarith+
  show b: "0 < n1" "n1 \<le> len" "off + n1 \<le> (off div 512 + 1) * 512" using assms block_end [of off] by auto
  show "off div 512 * 512 < off + n1" using a(1) b(1) by linarith
qed

lemma div_between: "k * 512 \<le> q \<Longrightarrow> q < (k + 1) * 512 \<Longrightarrow> q div 512 = (k :: nat) \<and> q mod 512 = q - k * 512"
proof -
  assume a: "k * 512 \<le> q" "q < (k + 1) * 512"
  then obtain r where r: "q = r + k * 512" using le_Suc_ex by (metis add.commute)
  then have "r < 512" using a(2) by simp
  then show ?thesis using r by simp
qed

lemma ceil_div:
  fixes k r :: nat
  assumes "r < 512"
  shows "(k * 512 + r + 511) div 512 = k + (if r = 0 then 0 else 1)"
proof (cases "r = 0")
  case False
  then have "k * 512 + r + 511 = (k + 1) * 512 + (r - 1)" "r - 1 < 512" using assms by simp_all
  then show ?thesis using False by (simp only: div_mult_self3) simp
qed simp

lemma ind_step:
  assumes n1: "n1 = min len ((off div 512 + 1) * 512 - off)" and "0 < len"
  shows "(NDIRECT * 512 < off + n1) = (NDIRECT * 512 < off \<or> off = NDIRECT * 512)"
proof (cases "off < NDIRECT * 512")
  case True
  then have "off div 512 < NDIRECT" by (simp add: div_less_iff_less_mult)
  then have "(off div 512 + 1) * 512 \<le> NDIRECT * 512" by simp
  then show ?thesis using piece(4) [OF assms] True by linarith
qed (use piece(1) [OF assms] in linarith)

lemma data_step:
  fixes off k :: nat
  assumes "n1 = min len ((off div 512 + 1) * 512 - off)" and "0 < len"
  shows "(k * 512 < off + n1) = (k * 512 < off \<or> k = off div 512 \<and> off mod 512 = 0)"
proof -
  note p = piece [OF assms]
  consider "k < off div 512" | "k = off div 512" | "off div 512 + 1 \<le> k" by linarith
  then show ?thesis
  proof cases
    case 1
    then have "(k + 1) * 512 \<le> off div 512 * 512" by simp
    then have "k * 512 < off" by (rule less_le_trans [OF _ le_trans [OF _ p(3)], rotated]) simp
    then show ?thesis by simp
  next
    case 2
    then show ?thesis using p(1,3,5,6) by auto
  next
    case 3
    then have "(off div 512 + 1) * 512 \<le> k * 512" by simp
    then show ?thesis using p(4) 3 p(1) by linarith
  qed
qed

lemma nb_step:
  assumes n1: "n1 = min len ((off div 512 + 1) * 512 - off)" and "0 < len"
  shows "nb (off + n1) = nb off + (if off mod 512 = 0 then 1 else 0) + (if off = NDIRECT * 512 then 1 else 0)"
proof -
  let ?k = "off div 512"
  note p = piece [OF assms]
  have o: "off = ?k * 512 + off mod 512" "off mod 512 < 512" by simp_all
  have "(off + n1 + 511) div 512 = ?k + 1" using p(4,5) by (intro div_between [THEN conjunct1]) simp_all
  moreover have "(off + 511) div 512 = ?k + (if off mod 512 = 0 then 0 else 1)" using ceil_div [of "off mod 512" ?k] by simp
  moreover note ind_step [OF assms]
  ultimately show ?thesis unfolding nb_def by auto
qed

text \<open>Writing to a block of a file changes no pointer.\<close>

lemma write_piece:
  assumes s: "building s ino" and M: "(n, k) \<in> mapped s ino" and k: "k < MAXFILE"
    and t: "t = s\<lparr>img := (img s)(ptr (img s) (ino n) k := y), img_len := max (img_len s) (Suc (unat (ptr (img s) (ino n) k)))\<rparr>"
  shows "building t ino" "m \<in> live s \<Longrightarrow> ptr (img t) (ino m) = ptr (img s) (ino m)" "img_len t = img_len s"
    "unat b < data_start \<Longrightarrow> img t b = img s b"
proof -
  let ?x = "ptr (img s) (ino n) k"
  note b = ptr_bounds [OF s M]
  have p: "ptr (img t) (ino m) = ptr (img s) (ino m)" if "m \<in> live s" for m
  proof -
    have "i_addrs (ino m) NDIRECT \<noteq> ?x" using ptr_inj [OF s M that, of MAXFILE] k by auto
    then show ?thesis unfolding t by (simp add: ptr_other)
  qed
  then show "m \<in> live s \<Longrightarrow> ptr (img t) (ino m) = ptr (img s) (ino m)" .
  show l: "img_len t = img_len s" using b(3) t by simp
  show low: "unat b < data_start \<Longrightarrow> img t b = img s b" for b using b(1) t by auto
  have lv: "live t = live s" using t by (simp add: live_def)
  have P: "ptrs_ok (\<lambda>n. ptr (img t) (ino n)) (live s) (unat (freeblock s))"
    by (rule ptrs_ok_cong [of "\<lambda>n. ptr (img s) (ino n)"]) (use s in \<open>simp add: building_def\<close>, rule p)
  have Z: "img t 0 = (\<lambda>_. 0)" using low [of 0] s data_start_29 by (simp add: building_def)
  have H: "img t c = (\<lambda>_. 0)" if "freeblock s \<le> c" for c
  proof -
    have "c \<noteq> ?x" using that b(4) by auto
    then show ?thesis using s that by (simp add: t building_def)
  qed
  have "freeblock t = freeblock s" "usedblocks t = usedblocks s" by (simp_all add: t)
  then show "building t ino" using s P Z H l unfolding building_def lv by simp
qed

lemma new_ptrs_sized:
  assumes s: "building s ino" and n: "n \<in> live s" "ino n = din" and z: "sized (img s) din off" and fbn: "fbn = off div 512" "fbn < MAXFILE"
  shows "new_ptrs s n din fbn = (if off = NDIRECT * 512 then {(n, MAXFILE)} else {}) \<union> (if off mod 512 = 0 then {(n, fbn)} else {})"
proof -
  obtain r where r: "off mod 512 = r" by blast
  then have o: "off = fbn * 512 + r" unfolding fbn using div_mult_mod_eq [of off 512] by simp
  have "ptr (img s) din fbn = 0 \<longleftrightarrow> \<not> fbn * 512 < off" using z fbn(2) by (auto simp: sized_def)
  also have "\<dots> \<longleftrightarrow> r = 0" unfolding o by simp
  finally have "ptr (img s) din fbn = 0 \<longleftrightarrow> off mod 512 = 0" using r by simp
  moreover have "NDIRECT \<le> fbn \<and> i_addrs din NDIRECT = 0 \<longleftrightarrow> off = NDIRECT * 512"
  proof -
    have "NDIRECT \<le> fbn \<longleftrightarrow> NDIRECT * 512 \<le> off" unfolding fbn by (simp add: less_eq_div_iff_mult_less_eq)
    then show ?thesis using z by (auto simp: sized_def)
  qed
  ultimately show ?thesis by (simp add: new_ptrs_def)
qed

text \<open>A piece of at most one block: what happens to the other files, to the size of this one, and to its bytes.\<close>

lemma piece_kept:
  assumes g: "grows K s ino t j" and K: "\<And>m k. (m, k) \<in> K \<Longrightarrow> m = n" and j: "\<And>m. m \<noteq> n \<Longrightarrow> j m = ino m"
    and M: "(n, fbn) \<in> mapped t j" "fbn < MAXFILE" and u: "\<And>b. b \<noteq> ptr (img t) (j n) fbn \<Longrightarrow> V b = img t b"
    and pu: "\<And>m. m \<in> live t \<Longrightarrow> ptr V (j m) = ptr (img t) (j m)" and m: "m \<in> live s" "m \<noteq> n"
  shows "kept (img s) V (ino m)"
proof -
  note G = growsD [OF g]
  have mt: "m \<in> live t" using m(1) G(4) by simp
  have e0: "(m, k) \<in> mapped t j \<longleftrightarrow> (m, k) \<in> mapped s ino" for k using G(6) m(2) K by auto
  have z: "ptr (img t) (ino m) k \<noteq> 0 \<longleftrightarrow> ptr (img s) (ino m) k \<noteq> 0" if "k \<le> MAXFILE" for k
    using that m mt e0 [of k] j [OF m(2)] by (simp add: mapped_def)
  have e: "ptr (img t) (ino m) k = ptr (img s) (ino m) k" if "k \<le> MAXFILE" for k
  proof (cases "ptr (img s) (ino m) k = 0")
    case False
    then have "(m, k) \<in> mapped s ino" using that m(1) by (simp add: mapped_def)
    then show ?thesis using G(9) j [OF m(2)] by fastforce
  qed (use z [of k] that in simp)
  have "V (ptr (img s) (ino m) k) = img s (ptr (img s) (ino m) k)" if k: "k < MAXFILE" "ptr (img s) (ino m) k \<noteq> 0" for k
  proof -
    have "(m, k) \<in> mapped s ino" using k m(1) by (simp add: mapped_def)
    then have "img t (ptr (img s) (ino m) k) = img s (ptr (img s) (ino m) k)" using G(10) k(1) by blast
    moreover have "ptr (img s) (ino m) k \<noteq> ptr (img t) (j n) fbn" using ptr_inj [OF G(1) M(1) mt, of k] k(1) m(2) e [of k] j [OF m(2)] M(2) by auto
    ultimately show ?thesis using u by simp
  qed
  moreover have "ptr V (ino m) = ptr (img t) (ino m)" using pu [OF mt] j [OF m(2)] by simp
  ultimately show ?thesis using e by (simp add: kept_def)
qed

lemma piece_sized:
  assumes z: "sized V din off" and n1: "n1 = min (length p) ((off div 512 + 1) * 512 - off)" and p: "p \<noteq> []" "off + n1 \<le> MAXFILE * 512"
    and f: "off div 512 < MAXFILE"
    and pt: "\<And>k. k \<le> MAXFILE \<Longrightarrow> ptr W din' k \<noteq> 0 \<longleftrightarrow> ptr V din k \<noteq> 0 \<or> (off = NDIRECT * 512 \<and> k = MAXFILE \<or> off mod 512 = 0 \<and> k = off div 512)"
  shows "sized W din' (off + n1)"
  unfolding sized_def
proof (intro conjI allI impI)
  show "(ptr W din' k \<noteq> 0) = (k * 512 < off + n1)" if "k < MAXFILE" for k
    using that pt [of k] z data_step [OF n1, of k] p(1) unfolding sized_def by auto
  show "(i_addrs din' NDIRECT \<noteq> 0) = (NDIRECT * 512 < off + n1)"
    using pt [of MAXFILE] z ind_step [OF n1] p(1) f unfolding sized_def by auto
qed (rule p(2))

lemma piece_content:
  assumes q: "q < off + n1" and qm: "q < MAXFILE * 512" and n1: "fbn * 512 \<le> off" "off + n1 \<le> (fbn + 1) * 512" "n1 \<le> length p"
    and x: "x = ptr U din' fbn" and pu: "ptr (U(x := blit (as_bytes p) (off - fbn * 512) n1 (U x))) din' = ptr U din'"
    and old: "q < off \<Longrightarrow> ptr U din' (q div 512) = ptr V din (q div 512) \<and> U (ptr V din (q div 512)) = V (ptr V din (q div 512))"
    and inj: "q div 512 < fbn \<Longrightarrow> ptr U din' (q div 512) \<noteq> x"
  shows "content (U(x := blit (as_bytes p) (off - fbn * 512) n1 (U x))) din' q = (if q < off then content V din q else take n1 p ! (q - off))"
proof -
  let ?U = "U(x := blit (as_bytes p) (off - fbn * 512) n1 (U x))"
  have cu: "content ?U din' q = ?U (ptr U din' (q div 512)) (q mod 512)" using content_ptr [OF qm, of ?U din'] pu by simp
  show ?thesis
  proof (cases "q div 512 = fbn")
    case True
    then have m: "fbn * 512 \<le> q" "q mod 512 = q - fbn * 512" using div_times_less_eq_dividend [of q 512] minus_div_mult_eq_mod [of q 512] by simp_all
    show ?thesis
    proof (cases "q < off")
      case qo: True
      then have "blit (as_bytes p) (off - fbn * 512) n1 (U x) (q mod 512) = U x (q mod 512)" using m by (auto simp: blit_def)
      then show ?thesis using cu old [OF qo] True x qo content_ptr [OF qm, of V din] by simp
    next
      case qo: False
      have less: "q - off < length p" using q qo n1(3) by linarith
      have "off - fbn * 512 \<le> q mod 512 \<and> q mod 512 < off - fbn * 512 + n1" "q mod 512 - (off - fbn * 512) = q - off" using m q qo n1(1) by auto
      then have "blit (as_bytes p) (off - fbn * 512) n1 (U x) (q mod 512) = p ! (q - off)" using less by (simp add: blit_def as_bytes_def)
      then show ?thesis using cu True x qo q by simp
    qed
  next
    case False
    have "q div 512 < fbn + 1" using q n1(2) by (simp add: div_less_iff_less_mult)
    then have k: "q div 512 < fbn" using False by simp
    then have "q < fbn * 512" by (simp add: div_less_iff_less_mult)
    then have qo: "q < off" using n1(1) by linarith
    then show ?thesis using cu old [OF qo] inj [OF k] content_ptr [OF qm, of V din] by simp
  qed
qed

lemma piece_bounds:
  assumes s: "building s ino" and n: "n \<in> live s" "ino n = din" and z: "sized (img s) din off"
    and fbn: "fbn = off div 512" and n1: "n1 = min (length p) ((fbn + 1) * 512 - off)" and p: "p \<noteq> []" "off + length p \<le> MAXFILE * 512"
  shows "0 < n1" "n1 \<le> length p" "fbn * 512 \<le> off" "off + n1 \<le> (fbn + 1) * 512" "fbn * 512 < off + n1" "fbn < MAXFILE"
    "new_ptrs s n din fbn = (if off = NDIRECT * 512 then {(n, MAXFILE)} else {}) \<union> (if off mod 512 = 0 then {(n, fbn)} else {})"
    "nb (off + n1) = nb off + card (new_ptrs s n din fbn)"
proof -
  show b: "0 < n1" "n1 \<le> length p" "fbn * 512 \<le> off" "off + n1 \<le> (fbn + 1) * 512" "fbn * 512 < off + n1"
    using piece [OF n1 [unfolded fbn]] p(1) unfolding fbn by auto
  have "fbn * 512 < MAXFILE * 512" using b(2,5) p(2) by linarith
  then show f: "fbn < MAXFILE" by simp
  show K: "new_ptrs s n din fbn = (if off = NDIRECT * 512 then {(n, MAXFILE)} else {}) \<union> (if off mod 512 = 0 then {(n, fbn)} else {})"
    by (rule new_ptrs_sized [OF s n z fbn f])
  show "nb (off + n1) = nb off + card (new_ptrs s n din fbn)"
    unfolding K using nb_step [OF n1 [unfolded fbn]] p(1) f by auto
qed

lemma piece_written:
  assumes s: "building s ino" and n: "n \<in> live s" "ino n = din" and z: "sized (img s) din off"
    and fbn: "fbn = off div 512" and n1: "n1 = min (length p) ((fbn + 1) * 512 - off)" and p: "p \<noteq> []" "off + length p \<le> MAXFILE * 512"
    and g: "grows (new_ptrs s n din fbn) s ino t (ino(n := din'))" and x: "x = ptr (img t) din' fbn" "x \<noteq> 0" and A: "\<exists>A. din' = din\<lparr>i_addrs := A\<rparr>"
  shows "unat x < img_len t \<and> appended n off (take n1 p) s ino
      (t\<lparr>img := (img t)(x := blit (as_bytes p) (off - fbn * 512) n1 (img t x)), img_len := max (img_len t) (Suc (unat x))\<rparr>) din'"
proof -
  note n1p = piece_bounds [OF s n z fbn n1 p]
  note f = n1p(6) and K = n1p(7) and nb = n1p(8)
  let ?j = "ino(n := din')" and ?u = "t\<lparr>img := (img t)(x := blit (as_bytes p) (off - fbn * 512) n1 (img t x)), img_len := max (img_len t) (Suc (unat x))\<rparr>"
  note G = growsD [OF g]
  have nt: "n \<in> live t" using n(1) G(4) by simp
  have M: "(n, fbn) \<in> mapped t ?j" using x nt f by (simp add: mapped_def)
  have xj: "ptr (img t) (?j n) fbn = x" using x by simp
  have uj: "?u = t\<lparr>img := (img t)(ptr (img t) (?j n) fbn := blit (as_bytes p) (off - fbn * 512) n1 (img t x)),
    img_len := max (img_len t) (Suc (unat (ptr (img t) (?j n) fbn)))\<rparr>" using xj by simp
  note W = write_piece [OF G(1) M f uj]
  have len: "length (take n1 p) = n1" using n1p(2) by simp
  have pu: "ptr (img ?u) din' = ptr (img t) din'" using W(2) [OF nt] by simp
  have ms: "(n, k) \<in> mapped s ino \<longleftrightarrow> ptr (img s) din k \<noteq> 0" if "k \<le> MAXFILE" for k using that n by (simp add: mapped_def)
  have mt: "(n, k) \<in> mapped t ?j \<longleftrightarrow> ptr (img t) din' k \<noteq> 0" if "k \<le> MAXFILE" for k using that nt by (simp add: mapped_def)
  have pt: "ptr (img t) din' k \<noteq> 0 \<longleftrightarrow> ptr (img s) din k \<noteq> 0 \<or> (n, k) \<in> new_ptrs s n din fbn" if "k \<le> MAXFILE" for k
    using that ms [of k] mt [of k] G(6) by auto
  have Z: "sized (img ?u) din' (off + n1)"
  proof (rule piece_sized [OF z n1 [unfolded fbn] p(1)])
    show "off + n1 \<le> MAXFILE * 512" using n1p(2) p(2) by linarith
    show "off div 512 < MAXFILE" using f fbn by simp
    show "(ptr (img ?u) din' k \<noteq> 0) = (ptr (img s) din k \<noteq> 0 \<or> off = NDIRECT * 512 \<and> k = MAXFILE \<or> off mod 512 = 0 \<and> k = off div 512)" if "k \<le> MAXFILE" for k
    proof -
      have "(n, k) \<in> new_ptrs s n din fbn \<longleftrightarrow> off = NDIRECT * 512 \<and> k = MAXFILE \<or> off mod 512 = 0 \<and> k = off div 512" unfolding K using fbn by auto
      then show ?thesis using pt [OF that] by (simp only: pu)
    qed
  qed
  have kp: "kept (img s) (img ?u) (ino m)" if m: "m \<in> live s" "m \<noteq> n" for m
    by (rule piece_kept [OF g _ _ M f _ W(2) m]) (use K xj in \<open>auto split: if_splits\<close>)
  have ct: "content (img ?u) din' q = (if q < off then content (img s) (ino n) q else take n1 p ! (q - off))" if q: "q < off + n1" for q
  proof -
    have qm: "q < MAXFILE * 512" using q n1p(2) p(2) by linarith
    have k: "q div 512 < MAXFILE" using qm by (simp add: div_less_iff_less_mult)
    have old: "ptr (img t) din' (q div 512) = ptr (img s) din (q div 512) \<and> img t (ptr (img s) din (q div 512)) = img s (ptr (img s) din (q div 512))" if "q < off"
    proof -
      have "q div 512 * 512 < off" using le_less_trans [OF div_times_less_eq_dividend that] .
      then have "(n, q div 512) \<in> mapped s ino" using k ms [of "q div 512"] z by (simp add: sized_def)
      then show ?thesis using G(9) [of n] G(10) [of n] k n(2) by fastforce
    qed
    have inj: "ptr (img t) din' (q div 512) \<noteq> x" if "q div 512 < fbn" using ptr_inj [OF G(1) M nt, of "q div 512"] xj that f by auto
    show ?thesis using piece_content [OF q qm n1p(3,4,2) x(1) _ old inj] pu n(2) by simp
  qed
  have "unat x < img_len t" using ptr_bounds(3) [OF G(1) M] xj by simp
  moreover have "unat (freeblock ?u) + nb off = unat (freeblock s) + nb (off + n1)" using G(8) nb by simp
  moreover have "img ?u b = img s b" if "unat b < data_start" for b using W(4) [OF that] G(5) [OF that] by simp
  moreover have "img_len ?u = img_len s" "freeinode ?u = freeinode s" using W(3) G(2,3) by simp_all
  ultimately show ?thesis using W(1) Z kp ct A n(2) unfolding appended_def len by blast
qed

lemma piece_wp:
  assumes s: "building s ino" and n: "n \<in> live s" "ino n = din" and z: "sized (img s) din off"
    and fbn: "fbn = off div 512" and n1: "n1 = min (length p) ((fbn + 1) * 512 - off)" and p: "p \<noteq> []" "off + length p \<le> MAXFILE * 512"
    and room: "unat (freeblock s) + nb (off + length p) \<le> img_len s + nb off"
  shows "wp (andthen (iappend_block din fbn) (\<lambda>(x, din). andthen (rsect x) (\<lambda>buf.
      andthen (wsect x (blit (as_bytes p) (off - fbn * 512) n1 buf)) (\<lambda>_. ret din)))) (\<lambda>din' u. appended n off (take n1 p) s ino u din') s"
proof -
  note n1p = piece_bounds [OF s n z fbn n1 p] and step = piece_written [OF s n z fbn n1 p]
  have "nb (off + n1) \<le> nb (off + length p)" using n1p(2) by (auto simp: nb_def intro!: add_mono div_le_mono)
  then have room': "unat (freeblock s) + card (new_ptrs s n din fbn) \<le> img_len s" using n1p(8) room by linarith
  show ?thesis
    unfolding wp_andthen [of "iappend_block din fbn"]
  proof (rule wp_conseq [OF iappend_block_wp [OF s n n1p(6) room']], clarify)
    fix x din' t A
    assume "grows (new_ptrs s n din fbn) s ino t (ino(n := din\<lparr>i_addrs := A\<rparr>))" "ptr (img t) (din\<lparr>i_addrs := A\<rparr>) fbn \<noteq> 0"
    from step [OF this(1) refl this(2)] show "wp (andthen (rsect (ptr (img t) (din\<lparr>i_addrs := A\<rparr>) fbn)) (\<lambda>buf.
        andthen (wsect (ptr (img t) (din\<lparr>i_addrs := A\<rparr>) fbn) (blit (as_bytes p) (off - fbn * 512) n1 buf)) (\<lambda>_. ret (din\<lparr>i_addrs := A\<rparr>))))
      (\<lambda>din' u. appended n off (take n1 p) s ino u din') t" by (auto simp: rsect_def wsect_def wp_simps)
  qed
qed

lemma appended_refl:
  assumes "building s ino" and "ino n = din" and "sized (img s) din off"
  shows "appended n off [] s ino s din"
proof -
  have "din = din\<lparr>i_addrs := i_addrs din\<rparr>" by simp
  then show ?thesis using assms by (auto simp: appended_def kept_def fun_upd_idem intro: exI [of _ "i_addrs din"])
qed

lemma iappend_loop_wp:
  "building s ino \<Longrightarrow> n \<in> live s \<Longrightarrow> ino n = din \<Longrightarrow> sized (img s) din off \<Longrightarrow> off + length p \<le> MAXFILE * 512 \<Longrightarrow>
   unat (freeblock s) + nb (off + length p) \<le> img_len s + nb off \<Longrightarrow>
   wp (iappend_loop din off p) (\<lambda>(din', off') t. off' = off + length p \<and> appended n off p s ino t din') s"
proof (induction "length p" arbitrary: p off din s ino rule: less_induct)
  case less
  note prems = less.prems
  show ?case
  proof (cases "p = []")
    case True
    then show ?thesis using appended_refl [OF prems(1,3,4)] by (subst iappend_loop.simps) (simp add: wp_ret)
  next
    case False
    define fbn n1 where d: "fbn = off div 512" "n1 = min (length p) ((fbn + 1) * 512 - off)"
    have len: "n1 \<le> length p" "length (take n1 p) = n1" using d by simp_all
    have n1: "0 < n1" using piece(1) [OF d(2) [unfolded d(1)]] False by simp
    have "wp (iappend_loop din' (off + n1) (drop n1 p)) (\<lambda>(din', off') t. off' = off + length p \<and> appended n off p s ino t din') t"
      if a: "appended n off (take n1 p) s ino t din'" for din' t
    proof -
      have A: "building t (ino(n := din'))" "img_len t = img_len s" "freeinode t = freeinode s" "unat (freeblock t) + nb off = unat (freeblock s) + nb (off + n1)"
        "sized (img t) din' (off + n1)" using a unfolding appended_def len(2) by blast+
      have "n \<in> live t" using prems(2) A(3) by (simp add: live_def)
      moreover have "unat (freeblock t) + nb (off + n1 + length (drop n1 p)) \<le> img_len t + nb (off + n1)" using prems(6) A(2,4) len(1) by simp
      ultimately have "wp (iappend_loop din' (off + n1) (drop n1 p)) (\<lambda>(din'', off') u. off' = off + n1 + length (drop n1 p)
          \<and> appended n (off + n1) (drop n1 p) t (ino(n := din')) u din'') t"
        using A(1,5) prems(5) len(1) n1 False by (intro less.hyps) auto
      then show ?thesis
        by (rule wp_conseq) (use appended_trans [OF a, unfolded len(2), of "drop n1 p"] len(1) in auto)
    qed
    then have "wp (andthen (andthen (iappend_block din fbn) (\<lambda>(x, din). andthen (rsect x) (\<lambda>buf.
      andthen (wsect x (blit (as_bytes p) (off - fbn * 512) n1 buf)) (\<lambda>_. ret din)))) (\<lambda>din'. iappend_loop din' (off + n1) (drop n1 p)))
      (\<lambda>(din', off') t. off' = off + length p \<and> appended n off p s ino t din') s"
      unfolding wp_andthen [of "andthen (iappend_block din fbn) _"]
      by (intro wp_conseq [OF piece_wp [OF prems(1-4) d False prems(5,6)]])
    then show ?thesis using False by (subst iappend_loop.simps) (simp add: d Let_def wp_andthen wp_ret split_def)
  qed
qed

section \<open>Inodes on the disk\<close>

lemma get32_addrs:
  "k < N \<Longrightarrow> get32 (foldl (\<lambda>y i. put32 y (c + 4 * i) (A i)) x [0..<N]) (c + 4 * k) = A k"
proof (induction N)
  case (Suc N)
  then show ?case by (cases "k = N") (simp_all add: get32_put32_other)
qed simp

lemma addrs_outside: "j < c \<or> c + 4 * N \<le> j \<Longrightarrow> foldl (\<lambda>y i. put32 y (c + 4 * i) (A i)) x [0..<N] j = x j"
  by (induction N) (auto simp: put32_outside)

lemma dinode_outside: "j < c \<or> c + 64 \<le> j \<Longrightarrow> dinode_put ip c x j = x j"
  unfolding dinode_put_def using NDIRECT_12 by (subst addrs_outside) (auto simp: put32_outside put16_outside)

text \<open>Inodes with the same fields on the disk.\<close>

definition same :: "inode \<Rightarrow> inode \<Rightarrow> bool" where
  "same i j \<longleftrightarrow> i_type i = i_type j \<and> i_nlink i = i_nlink j \<and> i_size i = i_size j \<and> (\<forall>k \<le> NDIRECT. i_addrs i k = i_addrs j k)"

lemma same_ptr: "same i j \<Longrightarrow> ptr V i = ptr V j" and same_content: "same i j \<Longrightarrow> content V i = content V j"
  by (auto simp: same_def ptr_def blk_addr_def content_def fun_eq_iff)

lemma same_sym: "same i j \<Longrightarrow> same j i"
  by (simp add: same_def)

lemma dinode_get_put: "same (dinode_get (dinode_put ip c x) c d) ip"
proof -
  let ?h = "put32 (put16 (put16 (put16 (put16 x c (i_type ip)) (c + 2) (i_major ip)) (c + 4) (i_minor ip)) (c + 6) (i_nlink ip)) (c + 8) (i_size ip)"
  have o: "dinode_put ip c x j = ?h j" if "j < c + 12" for j unfolding dinode_put_def using that by (intro addrs_outside) simp
  have "get16 (dinode_put ip c x) c = get16 ?h c" "get16 (dinode_put ip c x) (c + 6) = get16 ?h (c + 6)" "get32 (dinode_put ip c x) (c + 8) = get32 ?h (c + 8)"
    using o by (intro get16_cong get32_cong; simp)+
  moreover have "get16 ?h c = i_type ip" "get16 ?h (c + 6) = i_nlink ip" by (simp_all add: get16_put16_other get16_put32_other)
  moreover have "get32 (dinode_put ip c x) (c + 12 + 4 * k) = i_addrs ip k" if "k \<le> NDIRECT" for k
    unfolding dinode_put_def using that by (intro get32_addrs) simp
  ultimately show ?thesis by (simp add: same_def dinode_get_def)
qed

lemma dinode_get_other:
  assumes "c + 64 \<le> c' \<or> c' + 64 \<le> c"
  shows "same (dinode_get (dinode_put ip c x) c' d) (dinode_get x c' d)"
proof -
  have o: "dinode_put ip c x j = x j" if "c' \<le> j" "j < c' + 64" for j using that assms by (intro dinode_outside) auto
  have "get16 (dinode_put ip c x) c' = get16 x c'" "get16 (dinode_put ip c x) (c' + 6) = get16 x (c' + 6)"
    "get32 (dinode_put ip c x) (c' + 8) = get32 x (c' + 8)" using o by (intro get16_cong get32_cong; simp)+
  moreover have "get32 (dinode_put ip c x) (c' + 12 + 4 * k) = get32 x (c' + 12 + 4 * k)" if "k \<le> NDIRECT" for k
    using that o NDIRECT_12 by (intro get32_cong) simp
  ultimately show ?thesis by (simp add: same_def dinode_get_def)
qed

definition inode_of :: "(u32 \<Rightarrow> bytes) \<Rightarrow> u32 \<Rightarrow> inode" where
  "inode_of V n = dinode_get (V (i2b n)) (dip_off n) din0"

text \<open>The bytes of a file: what the kernel's \<^verbatim>\<open>readi\<close> returns for all of it.\<close>

definition file_bytes :: "(u32 \<Rightarrow> bytes) \<Rightarrow> u32 \<Rightarrow> u8 list" where
  "file_bytes V n = map (content V (inode_of V n)) [0..<unat (i_size (inode_of V n))]"

lemma i2b_unat: "unat (i2b n) = unat n div 8 + 2"
proof -
  have d: "unat (n div 8) = unat n div 8" by (simp add: unat_div)
  moreover have "unat n div 8 < 2 ^ 29" using unat_u32_less [of n] by (simp add: div_less_iff_less_mult)
  ultimately show ?thesis using unat_add_lem [of "n div 8" 2] by (simp add: i2b_def IPB_def BSIZE_def)
qed

lemma i2b_low: "unat n < 208 \<Longrightarrow> 1 < unat (i2b n) \<and> unat (i2b n) < 28"
  using i2b_unat [of n] by (simp add: div_less_iff_less_mult)

lemma inode_place: "n \<noteq> m \<Longrightarrow> i2b n = i2b m \<Longrightarrow> dip_off n + 64 \<le> dip_off m \<or> dip_off m + 64 \<le> dip_off n"
proof -
  assume a: "n \<noteq> m" "i2b n = i2b m"
  then have "unat n div 8 = unat m div 8" using i2b_unat [of n] i2b_unat [of m] by simp
  moreover have "unat n \<noteq> unat m" using a(1) by (simp add: word_unat_eq_iff)
  ultimately have "unat n mod 8 \<noteq> unat m mod 8" by (metis div_mult_mod_eq)
  then show ?thesis by (auto simp: dip_off_def IPB_def BSIZE_def)
qed

lemma building_cong: "building s ino \<Longrightarrow> (\<And>m. m \<in> live s \<Longrightarrow> ptr (img s) (jno m) = ptr (img s) (ino m)) \<Longrightarrow> building s jno"
  unfolding building_def using ptrs_ok_cong [of "\<lambda>n. ptr (img s) (ino n)" "live s" _ "\<lambda>n. ptr (img s) (jno n)"] by blast

text \<open>A write to a sector before the data area.\<close>

lemma meta_write:
  assumes s: "building s ino" and c: "0 < unat c" "unat c < data_start"
    and t: "t = s\<lparr>img := (img s)(c := y), img_len := max (img_len s) (Suc (unat c))\<rparr>"
  shows "building t ino" "m \<in> live s \<Longrightarrow> ptr (img t) (ino m) = ptr (img s) (ino m)" "img_len t = img_len s" "live t = live s"
proof -
  show l: "img_len t = img_len s" using s c(2) by (simp add: t building_def)
  show lv: "live t = live s" by (simp add: t live_def)
  have p: "ptr (img t) (ino m) = ptr (img s) (ino m)" if "m \<in> live s" for m
  proof -
    have "(m, MAXFILE) \<in> mapped s ino" if "i_addrs (ino m) NDIRECT \<noteq> 0" using that \<open>m \<in> live s\<close> by (simp add: mapped_def)
    then have "i_addrs (ino m) NDIRECT \<noteq> c" using ptr_bounds(1) [OF s, of m MAXFILE] c by (cases "i_addrs (ino m) NDIRECT = 0") auto
    then show ?thesis unfolding t by (simp add: ptr_other)
  qed
  then show "m \<in> live s \<Longrightarrow> ptr (img t) (ino m) = ptr (img s) (ino m)" .
  have P: "ptrs_ok (\<lambda>n. ptr (img t) (ino n)) (live s) (unat (freeblock s))"
    by (rule ptrs_ok_cong [of "\<lambda>n. ptr (img s) (ino n)"]) (use s in \<open>simp add: building_def\<close>, rule p)
  have H: "img t b = (\<lambda>_. 0)" if "freeblock s \<le> b" for b
  proof -
    have "unat c < unat b" using that c(2) s by (auto simp: building_def word_le_nat_alt)
    then show ?thesis using s that by (auto simp: t building_def)
  qed
  have "img t 0 = (\<lambda>_. 0)" using s c(1) by (auto simp: t building_def)
  moreover have "freeblock t = freeblock s" "usedblocks t = usedblocks s" by (simp_all add: t)
  ultimately show "building t ino" using s P H l unfolding building_def lv by simp
qed

lemma winode_wp:
  assumes s: "building s ino" and n: "unat n < 208"
  shows "wp (winode n ip) (\<lambda>_ t. building t ino \<and> img_len t = img_len s \<and> freeinode t = freeinode s \<and> freeblock t = freeblock s
    \<and> (\<forall>m \<in> live s. ptr (img t) (ino m) = ptr (img s) (ino m)) \<and> (\<forall>b. b \<noteq> i2b n \<longrightarrow> img t b = img s b)
    \<and> same (inode_of (img t) n) ip \<and> (\<forall>m. m \<noteq> n \<longrightarrow> same (inode_of (img t) m) (inode_of (img s) m))) s"
proof -
  let ?c = "i2b n" and ?y = "dinode_put ip (dip_off n) (img s (i2b n))"
  let ?t = "s\<lparr>img := (img s)(?c := ?y), img_len := max (img_len s) (Suc (unat ?c))\<rparr>"
  have c: "0 < unat ?c" "unat ?c < data_start" using i2b_low [OF n] data_start_29 by auto
  note W = meta_write [where y = ?y, OF s c refl]
  have "same (inode_of (img ?t) m) (inode_of (img s) m)" if "m \<noteq> n" for m
  proof (cases "i2b m = i2b n")
    case True
    then show ?thesis using dinode_get_other [of "dip_off n" "dip_off m"] inode_place [of n m] that by (auto simp: inode_of_def)
  qed (simp add: inode_of_def same_def)
  moreover have "same (inode_of (img ?t) n) ip" by (simp add: inode_of_def dinode_get_put)
  moreover have "unat ?c < img_len s" using c(2) s by (simp add: building_def)
  ultimately show ?thesis using W by (simp add: winode_def rsect_def wsect_def wp_simps)
qed

definition image_ok :: "mkfs \<Rightarrow> bool" where
  "image_ok s \<longleftrightarrow> building s (inode_of (img s)) \<and> unat (freeinode s) \<le> ninodes
     \<and> (\<forall>n \<in> live s. sized (img s) (inode_of (img s) n) (unat (i_size (inode_of (img s) n))))"

lemma live_low: "unat (freeinode s) \<le> ninodes \<Longrightarrow> n \<in> live s \<Longrightarrow> unat n < 200 \<and> unat n < 208"
  by (auto simp: live_def ninodes_def word_less_nat_alt)

lemma kept_content: "kept V W i \<Longrightarrow> sized V i z \<Longrightarrow> q < z \<Longrightarrow> content W i q = content V i q"
proof -
  assume a: "kept V W i" "sized V i z" "q < z"
  then have q: "q < MAXFILE * 512" by (auto simp: sized_def)
  have k: "q div 512 < MAXFILE" using q by (simp add: div_less_iff_less_mult)
  have "q div 512 * 512 < z" using le_less_trans [OF div_times_less_eq_dividend a(3)] .
  then have "ptr V i (q div 512) \<noteq> 0" using a(2) k by (simp add: sized_def)
  then show ?thesis using a(1) k content_ptr [OF q] by (simp add: kept_def)
qed

text \<open>
  What an operation on file \<open>n\<close> promises: its bytes are \<open>bs\<close> afterwards, all other files stay, and so do the boot sector, the superblock and the bitmap;
  the sectors that it takes are those that the larger file needs.
\<close>

definition file_step :: "u32 \<Rightarrow> u8 list \<Rightarrow> mkfs \<Rightarrow> mkfs \<Rightarrow> bool" where
  "file_step n bs s t \<longleftrightarrow> image_ok t \<and> img_len t = img_len s \<and> freeinode t = freeinode s \<and> file_bytes (img t) n = bs
     \<and> i_type (inode_of (img t) n) = i_type (inode_of (img s) n)
     \<and> unat (freeblock t) + nb (length (file_bytes (img s) n)) = unat (freeblock s) + nb (length bs)
     \<and> (\<forall>m \<in> live s. m \<noteq> n \<longrightarrow> file_bytes (img t) m = file_bytes (img s) m \<and> i_type (inode_of (img t) m) = i_type (inode_of (img s) m))
     \<and> (\<forall>b. unat b \<in> {0, 1, 28} \<longrightarrow> img t b = img s b)"

lemma file_bytes_eq:
  assumes "i_size (inode_of W n) = of_nat z" and "z < 2 ^ 32" and "\<And>q. q < z \<Longrightarrow> content W (inode_of W n) q = f q"
  shows "file_bytes W n = map f [0..<z]"
proof -
  have "unat (i_size (inode_of W n)) = z" using assms(1,2) by (simp add: unat_of_nat)
  then show ?thesis using assms(3) by (simp add: file_bytes_def)
qed

lemma sized_cong: "sized V i z \<Longrightarrow> (\<And>k. k \<le> MAXFILE \<Longrightarrow> ptr W j k = ptr V i k) \<Longrightarrow> sized W j z"
  unfolding sized_def using ptr_MAXFILE [of V i] ptr_MAXFILE [of W j] by (metis le_refl less_imp_le)

lemma kept_meta:
  assumes s: "building s ino" and m: "m \<in> live s" and p: "ptr W (ino m) = ptr (img s) (ino m)" and w: "\<And>b. b \<noteq> c \<Longrightarrow> W b = img s b" and c: "unat c < data_start"
  shows "kept (img s) W (ino m)"
proof -
  have "W (ptr (img s) (ino m) k) = img s (ptr (img s) (ino m) k)" if "k < MAXFILE" "ptr (img s) (ino m) k \<noteq> 0" for k
  proof -
    have "(m, k) \<in> mapped s ino" using that m by (simp add: mapped_def)
    then have "ptr (img s) (ino m) k \<noteq> c" using ptr_bounds(1) [OF s] c by fastforce
    then show ?thesis using w by simp
  qed
  then show ?thesis using p by (simp add: kept_def)
qed

text \<open>The inode of a file whose data has been appended is written back.\<close>

lemma iappend_finish:
  assumes ok: "image_ok s" and n: "n \<in> live s" and z: "z = unat (i_size (inode_of (img s) n))" and a: "appended n z p s (inode_of (img s)) t din'"
    and u: "building u ((inode_of (img s))(n := din'))" "img_len u = img_len t" "freeinode u = freeinode t" "freeblock u = freeblock t"
      "\<forall>m \<in> live t. ptr (img u) (((inode_of (img s))(n := din')) m) = ptr (img t) (((inode_of (img s))(n := din')) m)"
      "\<forall>b. b \<noteq> i2b n \<longrightarrow> img u b = img t b" "same (inode_of (img u) n) (din'\<lparr>i_size := of_nat (z + length p)\<rparr>)"
      "\<forall>m. m \<noteq> n \<longrightarrow> same (inode_of (img u) m) (inode_of (img t) m)"
  shows "file_step n (file_bytes (img s) n @ p) s u"
proof -
  let ?ino = "inode_of (img s)"
  let ?j = "?ino(n := din')"
  have A: "building t ?j" "img_len t = img_len s" "freeinode t = freeinode s" "\<And>b. unat b < data_start \<Longrightarrow> img t b = img s b"
    "unat (freeblock t) + nb z = unat (freeblock s) + nb (z + length p)" "sized (img t) din' (z + length p)" "i_type din' = i_type (?ino n)"
    "\<And>m. m \<in> live s \<Longrightarrow> m \<noteq> n \<Longrightarrow> kept (img s) (img t) (?ino m)"
    "\<And>q. q < z + length p \<Longrightarrow> content (img t) din' q = (if q < z then content (img s) (?ino n) q else p ! (q - z))"
    using a by (auto simp: appended_def)
  have lv: "live t = live s" "live u = live s" using A(3) u(3) by (simp_all add: live_def)
  have low: "unat (freeinode s) \<le> ninodes" using ok by (simp add: image_ok_def)
  have n28: "1 < unat (i2b n)" "unat (i2b n) < 28" using i2b_low live_low [OF low n] by auto
  have kt: "kept (img t) (img u) (?j m)" if "m \<in> live s" for m
    using that u(5,6) n28 data_start_29 lv by (intro kept_meta [OF A(1)]) auto
  have same_n: "ptr V (inode_of (img u) n) = ptr V din'" "content V (inode_of (img u) n) = content V din'" for V
    using same_ptr [OF u(7), of V] same_content [OF u(7), of V] by (simp_all add: ptr_def blk_addr_def content_def fun_eq_iff)
  have same_m: "same (inode_of (img u) m) (?ino m)" if "m \<in> live s" "m \<noteq> n" for m
  proof -
    have "img t (i2b m) = img s (i2b m)" using A(4) [of "i2b m"] i2b_low [of m] live_low [OF low that(1)] data_start_29 by simp
    then have "inode_of (img t) m = ?ino m" by (simp add: inode_of_def)
    then show ?thesis using u(8) that(2) by metis
  qed
  have pj: "ptr V (inode_of (img u) m) = ptr V (?j m)" if "m \<in> live s" for V m
    using that same_n(1) same_ptr [OF same_m] by (cases "m = n") auto
  have B: "building u (inode_of (img u))" using building_cong [OF u(1)] pj lv(2) by simp
  have len: "z + length p < 2 ^ 32" "z + length p \<le> MAXFILE * 512" using A(6) MAXFILE_140 by (auto simp: sized_def)
  have sz: "i_size (inode_of (img u) n) = of_nat (z + length p)" using u(7) by (simp add: same_def)
  have Zn: "sized (img u) (inode_of (img u) n) (unat (i_size (inode_of (img u) n)))"
  proof -
    have "unat (of_nat (z + length p) :: u32) = z + length p" using len(1) by (simp only: unat_of_nat) simp
    then show ?thesis using sized_cong [OF A(6), of "img u" "inode_of (img u) n"] same_n(1) kt [OF n] unfolding sz by (simp add: kept_def)
  qed
  have km: "kept (img s) (img u) (?ino m)" if "m \<in> live s" "m \<noteq> n" for m
    using kept_trans [OF A(8) [OF that]] kt [OF that(1)] that(2) by simp
  have zs: "sized (img s) (?ino m) (unat (i_size (?ino m)))" if "m \<in> live s" for m using ok that by (simp add: image_ok_def)
  have Zm: "sized (img u) (inode_of (img u) m) (unat (i_size (inode_of (img u) m)))" if "m \<in> live s" "m \<noteq> n" for m
    using sized_cong [OF zs [OF that(1)], of "img u" "inode_of (img u) m"] pj [OF that(1)] km [OF that] same_m [OF that] that(2) by (simp add: kept_def same_def)
  have "file_bytes (img u) n = map (\<lambda>q. if q < z then content (img s) (?ino n) q else p ! (q - z)) [0..<z + length p]"
    using sz len(1) same_n(2) kept_content [OF kt [OF n], of "z + length p"] A(6,9) by (intro file_bytes_eq) simp_all
  also have "\<dots> = file_bytes (img s) n @ p" unfolding file_bytes_def z [symmetric] by (rule nth_equalityI) (auto simp: nth_append)
  finally have fn: "file_bytes (img u) n = file_bytes (img s) n @ p" .
  have fm: "file_bytes (img u) m = file_bytes (img s) m" if "m \<in> live s" "m \<noteq> n" for m
  proof -
    have "content (img u) (inode_of (img u) m) q = content (img s) (?ino m) q" if "q < unat (i_size (?ino m))" for q
      using same_content [OF same_m] kept_content [OF km zs that] \<open>m \<in> live s\<close> \<open>m \<noteq> n\<close> by simp
    moreover have "i_size (inode_of (img u) m) = i_size (?ino m)" using same_m [OF that] by (simp add: same_def)
    ultimately show ?thesis by (simp add: file_bytes_def)
  qed
  have "image_ok u" unfolding image_ok_def lv using B low A(3) u(3) Zn Zm by metis
  moreover have "length (file_bytes (img s) n) = z" by (simp add: file_bytes_def z)
  moreover have "img u b = img s b" if "unat b \<in> {0, 1, 28}" for b
  proof -
    have "b \<noteq> i2b n" "unat b < data_start" using that n28 data_start_29 by auto
    then show ?thesis using u(6) A(4) by simp
  qed
  moreover have "i_type (inode_of (img u) n) = i_type (?ino n)" using u(7) A(7) by (simp add: same_def)
  moreover have "i_type (inode_of (img u) m) = i_type (?ino m)" if "m \<in> live s" "m \<noteq> n" for m using same_m [OF that] by (simp add: same_def)
  ultimately show ?thesis using A(2,3,5) u(2,3,4) fn fm by (simp add: file_step_def)
qed

lemma iappend_wp:
  assumes ok: "image_ok s" and n: "n \<in> live s" and size: "length (file_bytes (img s) n) + length p \<le> MAXFILE * 512"
    and room: "unat (freeblock s) + nb (length (file_bytes (img s) n) + length p) \<le> img_len s + nb (length (file_bytes (img s) n))"
  shows "wp (iappend n p) (\<lambda>_ t. file_step n (file_bytes (img s) n @ p) s t) s"
proof -
  let ?ino = "inode_of (img s)"
  let ?din = "?ino n"
  define z where "z = unat (i_size ?din)"
  have lz: "length (file_bytes (img s) n) = z" by (simp add: file_bytes_def z_def)
  have s: "building s ?ino" and low: "unat (freeinode s) \<le> ninodes" and zn: "sized (img s) ?din z" using ok n by (auto simp: image_ok_def z_def)
  have n8: "unat n < 208" using live_low [OF low n] by simp
  have rd: "wp (rinode n) (\<lambda>d t. d = ?din \<and> t = s) s"
    using i2b_low [OF n8] s data_start_29 by (auto simp: rinode_def rsect_def wp_simps building_def inode_of_def)
  have wr: "wp (winode n (din'\<lparr>i_size := xint (of_nat (z + length p))\<rparr>)) (\<lambda>_ u. file_step n (file_bytes (img s) n @ p) s u) t"
    if a: "appended n z p s ?ino t din'" for din' t
  proof -
    have "building t (?ino(n := din'))" using a by (simp add: appended_def)
    from winode_wp [OF this n8, of "din'\<lparr>i_size := xint (of_nat (z + length p))\<rparr>"] show ?thesis
      by (rule wp_conseq) (rule iappend_finish [OF ok n z_def a], auto)
  qed
  have "wp (iappend_loop ?din z p) (\<lambda>(din', off') t. off' = z + length p \<and> appended n z p s ?ino t din') s"
    using s n zn size room unfolding lz by (intro iappend_loop_wp) auto
  then have "wp (iappend_loop ?din z p) (\<lambda>(din', off') t. wp (winode n (din'\<lparr>i_size := xint (of_nat off')\<rparr>)) (\<lambda>_ u. file_step n (file_bytes (img s) n @ p) s u) t) s"
    by (rule wp_conseq) (use wr in auto)
  then have "wp (rinode n) (\<lambda>d. wp (iappend_loop d (unat (xint (i_size d))) p) (\<lambda>(din', off') t. wp (winode n (din'\<lparr>i_size := xint (of_nat off')\<rparr>))
      (\<lambda>_ u. file_step n (file_bytes (img s) n @ p) s u) t)) s"
    by (intro wp_conseq [OF rd]) (simp add: z_def)
  then show ?thesis by (simp add: iappend_def wp_andthen split_def)
qed

end
