(* ===== verification/Image.thy ===== *)
theory Image
  imports Mkfs
begin

text \<open>
  The image that \<^verbatim>\<open>mkfs.c\<close> builds: its files hold the bytes of the files of the host, the root directory names them, and the bitmap has the sectors in use.
\<close>

section \<open>Files one after the other\<close>

lemma file_step_refl: "image_ok s \<Longrightarrow> file_step n (file_bytes (img s) n) s s"
  by (simp add: file_step_def)

lemma file_step_trans: "file_step n bs s t \<Longrightarrow> file_step n cs t u \<Longrightarrow> file_step n cs s u"
  by (auto simp: file_step_def live_def)

lemma file_stepD:
  assumes "file_step n bs s t"
  shows "image_ok t" "live t = live s" "img_len t = img_len s" "freeinode t = freeinode s" "file_bytes (img t) n = bs"
    "unat (freeblock t) + nb (length (file_bytes (img s) n)) = unat (freeblock s) + nb (length bs)"
  using assms by (simp_all add: file_step_def live_def)

lemma nb_mono: "a \<le> b \<Longrightarrow> nb a \<le> nb b"
  by (auto simp: nb_def intro!: add_mono div_le_mono)

lemma iappends_wp:
  "image_ok s \<Longrightarrow> n \<in> live s \<Longrightarrow> length (file_bytes (img s) n) + length (concat cs) \<le> MAXFILE * 512 \<Longrightarrow>
   unat (freeblock s) + nb (length (file_bytes (img s) n) + length (concat cs)) \<le> img_len s + nb (length (file_bytes (img s) n)) \<Longrightarrow>
   wp (mfor cs (iappend n)) (\<lambda>_ t. file_step n (file_bytes (img s) n @ concat cs) s t) s"
proof (induction cs arbitrary: s)
  case Nil
  then show ?case using file_step_refl [of s n] by (simp add: wp_simps)
next
  case (Cons c cs)
  let ?b = "file_bytes (img s) n"
  have "nb (length (?b @ c)) \<le> nb (length ?b + length (concat (c # cs)))" by (rule nb_mono) simp
  then have "wp (iappend n c) (\<lambda>_ t. file_step n (?b @ c) s t) s" using Cons.prems(3,4) by (intro iappend_wp [OF Cons.prems(1,2)]) simp_all
  moreover have "wp (mfor cs (iappend n)) (\<lambda>_ u. file_step n (?b @ concat (c # cs)) s u) t" if t: "file_step n (?b @ c) s t" for t
  proof -
    note T = file_stepD [OF t]
    have "wp (mfor cs (iappend n)) (\<lambda>_ u. file_step n ((?b @ c) @ concat cs) t u) t"
      using Cons.IH [OF T(1), unfolded T(2,3,5)] Cons.prems(2,3,4) T(6) by (simp add: add.assoc)
    then show ?thesis by (rule wp_conseq) (use file_step_trans [OF t] in simp)
  qed
  ultimately show ?case unfolding mfor.simps wp_andthen by (rule wp_conseq)
qed

text \<open>A new inode.\<close>

lemma fresh_ptr: "V 0 = (\<lambda>_. 0) \<Longrightarrow> i_addrs i = (\<lambda>_. 0) \<Longrightarrow> ptr V i = (\<lambda>_. 0)"
  by (rule ext) (simp add: ptr_def blk_addr_def)

definition new_inode :: "u16 \<Rightarrow> mkfs \<Rightarrow> mkfs \<Rightarrow> bool" where
  "new_inode ty s t \<longleftrightarrow> image_ok t \<and> img_len t = img_len s \<and> freeblock t = freeblock s \<and> freeinode t = freeinode s + 1
     \<and> file_bytes (img t) (freeinode s) = [] \<and> i_type (inode_of (img t) (freeinode s)) = ty
     \<and> (\<forall>m \<in> live s. file_bytes (img t) m = file_bytes (img s) m \<and> i_type (inode_of (img t) m) = i_type (inode_of (img s) m))
     \<and> (\<forall>b. unat b \<in> {0, 1, 28} \<longrightarrow> img t b = img s b)"

lemma ptrs_insert:
  assumes "ptrs_ok P N F" and "\<And>m. m \<in> N \<Longrightarrow> Q m = P m" and "Q n = (\<lambda>_. 0)"
  shows "ptrs_ok Q (insert n N) F"
proof -
  have "ptrs_ok Q N F" using ptrs_ok_cong [OF assms(1)] assms(2) by simp
  then have Q: "\<And>m k. m \<in> N \<Longrightarrow> k \<le> MAXFILE \<Longrightarrow> Q m k \<noteq> 0 \<Longrightarrow> data_start \<le> unat (Q m k) \<and> unat (Q m k) < F"
    "\<And>m m' k k'. m \<in> N \<Longrightarrow> m' \<in> N \<Longrightarrow> k \<le> MAXFILE \<Longrightarrow> k' \<le> MAXFILE \<Longrightarrow> Q m k \<noteq> 0 \<and> Q m k = Q m' k' \<Longrightarrow> m = m' \<and> k = k'"
    unfolding ptrs_ok_def by blast+
  have in_N: "m \<in> N" if "m \<in> insert n N" "Q m k \<noteq> 0" for m k using that assms(3) by auto
  show ?thesis unfolding ptrs_ok_def
  proof (intro conjI ballI allI impI)
    fix m m' k k' assume a: "m \<in> insert n N" "m' \<in> insert n N" "k \<le> MAXFILE" "k' \<le> MAXFILE" "Q m k \<noteq> 0 \<and> Q m k = Q m' k'"
    then have "m \<in> N" "m' \<in> N" using in_N by metis+
    then show "m = m'" "k = k'" using Q(2) a(3-5) by blast+
  qed (use Q(1) in_N in blast)+
qed

lemma sized_fresh: "ptr V i = (\<lambda>_. 0) \<Longrightarrow> sized V i 0"
  using ptr_MAXFILE [of V i] by (simp add: sized_def)

lemma new_inode_ok:
  assumes ok: "image_ok s" and n: "0 < freeinode s" "unat (freeinode s) < ninodes"
    and din: "din = din0\<lparr>i_type := ty, i_nlink := 1, i_size := 0\<rparr>" and s': "s' = s\<lparr>freeinode := freeinode s + 1\<rparr>" and j: "j = (inode_of (img s))(freeinode s := din)"
    and lv: "live s' = insert (freeinode s) (live s)" and B: "building s' j"
    and u: "building u j" "img_len u = img_len s'" "freeinode u = freeinode s'" "freeblock u = freeblock s'"
      "\<forall>m \<in> live s'. ptr (img u) (j m) = ptr (img s') (j m)" "\<forall>b. b \<noteq> i2b (freeinode s) \<longrightarrow> img u b = img s' b" "same (inode_of (img u) (freeinode s)) din"
      "\<forall>m. m \<noteq> freeinode s \<longrightarrow> same (inode_of (img u) m) (inode_of (img s') m)"
  shows "new_inode ty s u"
proof -
  let ?n = "freeinode s" and ?ino = "inode_of (img s)"
  have img: "img s' = img s" by (simp add: s')
  have nl: "?n \<notin> live s" by (simp add: live_def)
  have lu: "live u = insert ?n (live s)" using lv u(3) by (simp add: live_def)
  have n28: "1 < unat (i2b ?n)" "unat (i2b ?n) < 28" using i2b_low [of ?n] n(2) by (simp_all add: ninodes_def)
  have sm: "same (inode_of (img u) m) (?ino m)" if "m \<in> live s" for m using that nl u(8) img by metis
  have km: "kept (img s) (img u) (?ino m)" if "m \<in> live s" for m
  proof -
    have jm: "j m = ?ino m" using that nl j by auto
    have "kept (img s') (img u) (j m)" using that u(5,6) n28 data_start_29 lv by (intro kept_meta [OF B]) auto
    then show ?thesis using jm img by simp
  qed
  have pj: "ptr V (inode_of (img u) m) = ptr V (j m)" if "m \<in> live u" for V m
    using that same_ptr [OF u(7)] same_ptr [OF sm] nl unfolding lu j by (cases "m = ?n") auto
  have Bu: "building u (inode_of (img u))" using building_cong [OF u(1)] pj by simp
  have zs: "sized (img s) (?ino m) (unat (i_size (?ino m)))" if "m \<in> live s" for m using ok that by (simp add: image_ok_def)
  have Zm: "sized (img u) (inode_of (img u) m) (unat (i_size (inode_of (img u) m)))" if m: "m \<in> live s" for m
    using sized_cong [OF zs [OF m], of "img u" "inode_of (img u) m"] same_ptr [OF sm [OF m]] km [OF m] sm [OF m] by (simp add: kept_def same_def)
  have sz: "i_size (inode_of (img u) ?n) = 0" using u(7) by (simp add: same_def din)
  have "ptr (img u) (inode_of (img u) ?n) = (\<lambda>_. 0)"
    using same_ptr [OF u(7), of "img u"] fresh_ptr [of "img u" din, OF building_zero(2) [OF u(1)]] by (simp add: din din0_def)
  then have Zn: "sized (img u) (inode_of (img u) ?n) (unat (i_size (inode_of (img u) ?n)))" using sized_fresh sz by simp
  have "unat (freeinode u) \<le> ninodes" using u(3) n(2) unat_add_lem [of ?n 1] by (simp add: s' ninodes_def)
  then have "image_ok u" unfolding image_ok_def lu using Bu Zm Zn by blast
  moreover have "file_bytes (img u) m = file_bytes (img s) m" if m: "m \<in> live s" for m
  proof -
    have "content (img u) (inode_of (img u) m) q = content (img s) (?ino m) q" if "q < unat (i_size (?ino m))" for q
      using same_content [OF sm [OF m]] kept_content [OF km [OF m] zs [OF m] that] by simp
    moreover have "i_size (inode_of (img u) m) = i_size (?ino m)" using sm [OF m] by (simp add: same_def)
    ultimately show ?thesis by (simp add: file_bytes_def)
  qed
  moreover have "file_bytes (img u) ?n = []" using sz by (simp add: file_bytes_def)
  moreover have "i_type (inode_of (img u) ?n) = ty" using u(7) by (simp add: same_def din)
  moreover have "i_type (inode_of (img u) m) = i_type (?ino m)" if "m \<in> live s" for m using sm [OF that] by (simp add: same_def)
  moreover have "img u b = img s b" if "unat b \<in> {0, 1, 28}" for b
  proof -
    have "b \<noteq> i2b ?n" using that n28 by auto
    then show ?thesis using u(6) img by simp
  qed
  ultimately show ?thesis using u(2,3,4) by (simp add: new_inode_def s')
qed

lemma ialloc_wp:
  assumes ok: "image_ok s" and n: "0 < freeinode s" "unat (freeinode s) < ninodes"
  shows "wp (ialloc_mkfs ty) (\<lambda>n t. n = freeinode s \<and> new_inode ty s t) s"
proof -
  let ?n = "freeinode s" and ?din = "din0\<lparr>i_type := ty, i_nlink := 1, i_size := 0\<rparr>" and ?s = "s\<lparr>freeinode := freeinode s + 1\<rparr>" and ?ino = "inode_of (img s)"
  let ?j = "?ino(?n := ?din)"
  have s: "building s ?ino" using ok by (simp add: image_ok_def)
  have un: "unat (?n + 1) = unat ?n + 1" using n(2) unat_add_lem [of ?n 1] by (simp add: ninodes_def)
  have lv: "live ?s = insert ?n (live s)" using un n(1) by (auto simp: live_def word_less_nat_alt word_unat_eq_iff)
  have nl: "?n \<notin> live s" by (simp add: live_def)
  have z: "ptr (img s) ?din = (\<lambda>_. 0)" using building_zero(2) [OF s] by (intro fresh_ptr) (simp_all add: din0_def)
  have P: "ptrs_ok (\<lambda>m. ptr (img s) (?j m)) (insert ?n (live s)) (unat (freeblock s))"
    using s nl z by (intro ptrs_insert [of "\<lambda>m. ptr (img s) (?ino m)"]) (auto simp: building_def)
  have B: "building ?s ?j" using s P unfolding building_def lv by simp
  have n8: "unat ?n < 208" using n(2) by (simp add: ninodes_def)
  have "new_inode ty s u" if u: "building u ?j" "img_len u = img_len ?s" "freeinode u = freeinode ?s" "freeblock u = freeblock ?s"
      "\<forall>m \<in> live ?s. ptr (img u) (?j m) = ptr (img ?s) (?j m)" "\<forall>b. b \<noteq> i2b ?n \<longrightarrow> img u b = img ?s b" "same (inode_of (img u) ?n) ?din"
      "\<forall>m. m \<noteq> ?n \<longrightarrow> same (inode_of (img u) m) (inode_of (img ?s) m)" for u
    by (rule new_inode_ok [OF ok n refl refl refl lv B u])
  then show ?thesis using winode_wp [OF B n8, of ?din] by (auto simp: ialloc_mkfs_def wp_simps elim!: wp_conseq)
qed

section \<open>The files of the image\<close>

definition fname :: "host_file \<Rightarrow> u8 list" where
  "fname f = (if fst f \<noteq> [] \<and> hd (fst f) = 0x5f then tl (fst f) else fst f)"

definition data_of :: "host_file \<Rightarrow> u8 list" where
  "data_of f = concat (takeWhile (\<lambda>c. c \<noteq> []) (the (snd f)))"

definition good_file :: "host_file \<Rightarrow> bool" where
  "good_file f \<longleftrightarrow> slash \<notin> set (fst f) \<and> snd f \<noteq> None \<and> length (data_of f) \<le> MAXFILE * 512"

text \<open>The entries of the root directory: itself twice, and the files, whose inodes are numbered from 2.\<close>

definition root_bytes :: "host_file list \<Rightarrow> u8 list" where
  "root_bytes fs = dirent_of [0x2e] ROOTINO @ dirent_of [0x2e, 0x2e] ROOTINO @ concat (map (\<lambda>i. dirent_of (fname (fs ! i)) (of_nat (i + 2))) [0..<length fs])"

text \<open>The sectors that the files need, with those before the data area.\<close>

definition sectors :: "host_file list \<Rightarrow> nat" where
  "sectors fs = data_start + nb (length (root_bytes fs)) + sum_list (map (\<lambda>f. nb (length (data_of f))) fs)"

definition built :: "host_file list \<Rightarrow> mkfs \<Rightarrow> bool" where
  "built fs s \<longleftrightarrow> image_ok s \<and> freeinode s = of_nat (length fs + 2) \<and> img_len s = fssize \<and> unat (freeblock s) = sectors fs
     \<and> file_bytes (img s) ROOTINO = root_bytes fs \<and> i_type (inode_of (img s) ROOTINO) = T_DIR
     \<and> (\<forall>i < length fs. file_bytes (img s) (of_nat (i + 2)) = data_of (fs ! i) \<and> i_type (inode_of (img s) (of_nat (i + 2))) = T_FILE)
     \<and> superblock_of (img s 1) = superblock_of sb_bytes"

lemma length_dirent: "length (dirent_of nm i) = 16"
  by (simp add: dirent_of_def de_size_def)

lemma length_root: "length (root_bytes fs) = 16 * (length fs + 2)"
  by (simp add: root_bytes_def length_dirent length_concat comp_def sum_list_triv)

lemma root_snoc: "root_bytes (fs @ [f]) = root_bytes fs @ dirent_of (fname f) (of_nat (length fs + 2))"
proof -
  have "concat (map (\<lambda>i. dirent_of (fname ((fs @ [f]) ! i)) (of_nat (i + 2))) [0..<length fs]) = concat (map (\<lambda>i. dirent_of (fname (fs ! i)) (of_nat (i + 2))) [0..<length fs])"
    by (intro arg_cong [of _ _ concat] map_cong) (simp_all add: nth_append)
  then show ?thesis by (simp add: root_bytes_def)
qed

lemma ino_unat: "i < 1000 \<Longrightarrow> unat (of_nat i :: u32) = i"
  by (simp add: unat_of_nat)

lemma live_built:
  assumes "built fs s" and "length fs + 2 \<le> ninodes"
  shows "m \<in> live s \<longleftrightarrow> 0 < unat m \<and> unat m < length fs + 2"
  using assms ino_unat [of "length fs + 2"] by (simp add: built_def live_def ninodes_def word_less_nat_alt)

text \<open>The steps of \<open>add_file\<close>: a new inode, an entry of the root directory, and the data.\<close>

lemma built_add:
  assumes b: "built fs s" and f: "length fs + 2 < ninodes" and n: "n = of_nat (length fs + 2)"
    and t: "new_inode T_FILE s t" and u: "file_step ROOTINO (root_bytes fs @ dirent_of (fname f) n) t u" and v: "file_step n (data_of f) u v"
  shows "built (fs @ [f]) v"
proof -
  have N: "freeinode s = n" using b n by (simp add: built_def)
  have un: "unat n = length fs + 2" "unat (n + 1) = length fs + 3" using f n ino_unat [of "length fs + 2"] ino_unat [of "length fs + 3"] by (simp_all add: ninodes_def add.commute)
  have R: "unat ROOTINO = 1" by (simp add: ROOTINO_def)
  have ls: "m \<in> live s \<longleftrightarrow> 0 < unat m \<and> unat m < length fs + 2" for m using live_built [OF b] f by simp
  have lt: "m \<in> live t \<longleftrightarrow> 0 < unat m \<and> unat m < length fs + 3" for m using t N un by (simp add: new_inode_def live_def word_less_nat_alt)
  have lu: "live u = live t" using file_stepD(2) [OF u] .
  have T: "\<And>m. m \<in> live s \<Longrightarrow> file_bytes (img t) m = file_bytes (img s) m \<and> i_type (inode_of (img t) m) = i_type (inode_of (img s) m)"
    "file_bytes (img t) n = []" "i_type (inode_of (img t) n) = T_FILE" "freeblock t = freeblock s" "img_len t = img_len s" "freeinode t = n + 1"
    "\<And>b. unat b \<in> {0, 1, 28} \<Longrightarrow> img t b = img s b" using t N by (auto simp: new_inode_def)
  have U: "\<And>m. m \<in> live t \<Longrightarrow> m \<noteq> ROOTINO \<Longrightarrow> file_bytes (img u) m = file_bytes (img t) m \<and> i_type (inode_of (img u) m) = i_type (inode_of (img t) m)"
    "i_type (inode_of (img u) ROOTINO) = i_type (inode_of (img t) ROOTINO)" "\<And>b. unat b \<in> {0, 1, 28} \<Longrightarrow> img u b = img t b"
    using u by (auto simp: file_step_def)
  have V: "\<And>m. m \<in> live u \<Longrightarrow> m \<noteq> n \<Longrightarrow> file_bytes (img v) m = file_bytes (img u) m \<and> i_type (inode_of (img v) m) = i_type (inode_of (img u) m)"
    "i_type (inode_of (img v) n) = i_type (inode_of (img u) n)" "\<And>b. unat b \<in> {0, 1, 28} \<Longrightarrow> img v b = img u b"
    using v by (auto simp: file_step_def)
  have nR: "n \<noteq> ROOTINO" using un(1) R by auto
  have r: "ROOTINO \<in> live s" "ROOTINO \<in> live t" "n \<in> live t" using ls lt R un(1) by auto
  have "file_bytes (img v) (of_nat (i + 2)) = data_of ((fs @ [f]) ! i) \<and> i_type (inode_of (img v) (of_nat (i + 2))) = T_FILE" if i: "i < length (fs @ [f])" for i
  proof (cases "i = length fs")
    case True
    then show ?thesis using file_stepD(5) [OF v] V(2) U(1) [OF r(3) nR] T(3) n by (simp add: add.commute)
  next
    case False
    let ?m = "of_nat (i + 2) :: u32"
    have m: "unat ?m = i + 2" using i f ino_unat [of "i + 2"] by (simp add: ninodes_def)
    then have "?m \<in> live s" "?m \<in> live t" "?m \<noteq> n" "?m \<noteq> ROOTINO" using ls [of ?m] lt [of ?m] un(1) R i False by auto
    then show ?thesis using V(1) U(1) T(1) b i False lu unfolding built_def by (simp add: nth_append)
  qed
  moreover have "file_bytes (img v) ROOTINO = root_bytes (fs @ [f])" "i_type (inode_of (img v) ROOTINO) = T_DIR"
    using V(1) [of ROOTINO] lu r nR file_stepD(5) [OF u] U(2) T(1) [OF r(1)] b n by (simp_all add: root_snoc built_def)
  moreover have "unat (freeblock v) = sectors (fs @ [f])"
  proof -
    have "file_bytes (img t) ROOTINO = root_bytes fs" using T(1) [OF r(1)] b by (simp add: built_def)
    then have "unat (freeblock u) + nb (length (root_bytes fs)) = unat (freeblock s) + nb (length (root_bytes (fs @ [f])))"
      using file_stepD(6) [OF u] T(4) n by (simp add: root_snoc)
    moreover have "file_bytes (img u) n = []" using U(1) [OF r(3) nR] T(2) by simp
    then have "unat (freeblock v) = unat (freeblock u) + nb (length (data_of f))" using file_stepD(6) [OF v] by (simp add: nb_def)
    ultimately show ?thesis using b by (simp add: built_def sectors_def)
  qed
  moreover have "img v 1 = img s 1" using V(3) U(3) T(7) by simp
  moreover have "freeinode v = of_nat (length (fs @ [f]) + 2)" using file_stepD(4) [OF v] file_stepD(4) [OF u] T(6) n by (simp add: add.commute)
  moreover have "img_len v = img_len s" using file_stepD(3) [OF v] file_stepD(3) [OF u] T(5) by simp
  ultimately show ?thesis using b file_stepD(1) [OF v] by (simp add: built_def)
qed

lemma built_root: "built fs s \<Longrightarrow> length fs + 2 \<le> ninodes \<Longrightarrow> ROOTINO \<in> live s"
  by (simp add: live_built ROOTINO_def)

lemma root_small: "length fs + 2 \<le> ninodes \<Longrightarrow> length (root_bytes fs) \<le> MAXFILE * 512"
  by (simp add: length_root ninodes_def MAXFILE_def NDIRECT_def NINDIRECT_def BSIZE_def)

lemma add_file_wp:
  assumes b: "built fs s" and l: "length fs + 2 < ninodes" and g: "good_file f" and room: "sectors (fs @ [f]) \<le> fssize"
  shows "wp (add_file ROOTINO f) (\<lambda>_. built (fs @ [f])) s"
proof -
  obtain cs where cs: "snd f = Some cs" using g by (auto simp: good_file_def)
  define n where nn: "n = (of_nat (length fs + 2) :: u32)"
  have ok: "image_ok s" "freeinode s = n" "img_len s = fssize" "unat (freeblock s) = sectors fs" using b by (simp_all add: built_def nn)
  have un: "unat n = length fs + 2" "unat (n + 1) = length fs + 3"
    using l nn ino_unat [of "length fs + 2"] ino_unat [of "length fs + 3"] by (simp_all add: ninodes_def add.commute)
  then have pos: "0 < freeinode s" "unat (freeinode s) < ninodes" using ok(2) l un by (simp_all add: word_less_nat_alt)
  have data: "data_of f = concat (takeWhile (\<lambda>c. c \<noteq> []) cs)" using cs by (simp add: data_of_def)
  have sec: "sectors (fs @ [f]) + nb (length (root_bytes fs)) = sectors fs + nb (length (root_bytes (fs @ [f]))) + nb (length (data_of f))" by (simp add: sectors_def)
  have app: "length (root_bytes (fs @ [f])) = length (root_bytes fs) + 16" by (simp add: length_root)
  have lt: "m \<in> live t \<longleftrightarrow> 0 < unat m \<and> unat m < length fs + 3" if "new_inode T_FILE s t" for m t
    using that ok(2) un by (simp add: new_inode_def live_def word_less_nat_alt)
  have rs: "ROOTINO \<in> live s" "unat ROOTINO = 1" using built_root [OF b] l by (simp_all add: ROOTINO_def)
  have step2: "wp (iappend ROOTINO (dirent_of (fname f) n)) (\<lambda>_. file_step ROOTINO (root_bytes fs @ dirent_of (fname f) n) t) t" if t: "new_inode T_FILE s t" for t
  proof -
    have r: "ROOTINO \<in> live t" using lt [OF t] rs(2) by simp
    have R: "file_bytes (img t) ROOTINO = root_bytes fs" using t rs(1) b by (simp add: new_inode_def built_def)
    have T: "image_ok t" "img_len t = fssize" "freeblock t = freeblock s" using t ok by (simp_all add: new_inode_def)
    show ?thesis using iappend_wp [OF T(1) r, of "dirent_of (fname f) n"] R T ok(4) sec app room root_small [of "fs @ [f]"] l by (simp add: length_dirent)
  qed
  have step3: "wp (mfor (takeWhile (\<lambda>c. c \<noteq> []) cs) (iappend n)) (\<lambda>_ v. built (fs @ [f]) v) u"
    if t: "new_inode T_FILE s t" and u: "file_step ROOTINO (root_bytes fs @ dirent_of (fname f) n) t u" for t u
  proof -
    have ln: "n \<in> live t" using lt [OF t] un by simp
    have "n \<noteq> ROOTINO" using un(1) rs(2) by auto
    then have e: "file_bytes (img u) n = []" using u ln t ok(2) unfolding file_step_def new_inode_def by metis
    have R: "file_bytes (img t) ROOTINO = root_bytes fs" using t rs(1) b by (simp add: new_inode_def built_def)
    have U: "image_ok u" "n \<in> live u" "img_len u = fssize" using u t ok(3) ln file_stepD(2) [OF u] by (simp_all add: file_step_def new_inode_def)
    have fb: "unat (freeblock u) + nb (length (root_bytes fs)) = sectors fs + nb (length (root_bytes (fs @ [f])))"
      using file_stepD(6) [OF u] R t ok(4) app by (simp add: new_inode_def length_dirent)
    have "length (data_of f) \<le> MAXFILE * 512" using g by (simp add: good_file_def)
    then have "wp (mfor (takeWhile (\<lambda>c. c \<noteq> []) cs) (iappend n)) (\<lambda>_ v. file_step n (data_of f) u v) u"
      using iappends_wp [OF U(1,2), of "takeWhile (\<lambda>c. c \<noteq> []) cs"] e fb sec room U(3) by (simp add: data)
    then show ?thesis by (rule wp_conseq) (use built_add [OF b l nn t u] in simp)
  qed
  have "wp (add_file ROOTINO f) (\<lambda>_. built (fs @ [f])) s \<longleftrightarrow> wp (ialloc_mkfs T_FILE) (\<lambda>k t. wp (iappend ROOTINO (dirent_of (fname f) k)) (\<lambda>_ u. wp (mfor (takeWhile (\<lambda>c. c \<noteq> []) cs) (iappend k)) (\<lambda>_. built (fs @ [f])) u) t) s"
    using g cs by (simp add: add_file_def good_file_def fname_def wp_simps Let_def)
  moreover have "wp (ialloc_mkfs T_FILE) (\<lambda>k t. wp (iappend ROOTINO (dirent_of (fname f) k)) (\<lambda>_ u. wp (mfor (takeWhile (\<lambda>c. c \<noteq> []) cs) (iappend k)) (\<lambda>_. built (fs @ [f])) u) t) s"
    using ialloc_wp [OF ok(1) pos, of T_FILE]
  proof (rule wp_conseq)
    fix k t
    assume a: "k = freeinode s \<and> new_inode T_FILE s t"
    have "wp (iappend ROOTINO (dirent_of (fname f) n)) (\<lambda>_ u. wp (mfor (takeWhile (\<lambda>c. c \<noteq> []) cs) (iappend n)) (\<lambda>_. built (fs @ [f])) u) t"
      using step2 [of t] step3 [of t] a by (auto elim!: wp_conseq)
    then show "wp (iappend ROOTINO (dirent_of (fname f) k)) (\<lambda>_ u. wp (mfor (takeWhile (\<lambda>c. c \<noteq> []) cs) (iappend k)) (\<lambda>_. built (fs @ [f])) u) t" using a ok(2) by simp
  qed
  ultimately show ?thesis by simp
qed

lemma sectors_mono: "sectors fs \<le> sectors (fs @ [f])"
  using nb_mono [of "length (root_bytes fs)" "length (root_bytes (fs @ [f]))"] by (simp add: sectors_def length_root)

lemma sectors_prefix: "sectors fs \<le> sectors (fs @ gs)"
proof (induction gs rule: rev_induct)
  case (snoc g gs)
  then show ?case using sectors_mono [of "fs @ gs" g] by simp
qed simp

lemma add_files_wp:
  "built fs s \<Longrightarrow> length (fs @ gs) + 2 \<le> ninodes \<Longrightarrow> \<forall>g \<in> set gs. good_file g \<Longrightarrow> sectors (fs @ gs) \<le> fssize \<Longrightarrow> wp (mfor gs (add_file ROOTINO)) (\<lambda>_. built (fs @ gs)) s"
proof (induction gs arbitrary: fs s)
  case (Cons g gs)
  have "sectors (fs @ [g]) \<le> fssize" using Cons.prems(4) sectors_prefix [of "fs @ [g]" gs] by simp
  then have "wp (add_file ROOTINO g) (\<lambda>_. built (fs @ [g])) s" using Cons.prems by (intro add_file_wp) auto
  then show ?case using Cons.IH [of "fs @ [g]"] Cons.prems by (auto simp: wp_simps elim!: wp_conseq)
qed (simp add: wp_simps)

section \<open>The whole image\<close>

text \<open>The start: zero sectors, the superblock, and the root directory with its two entries.\<close>

lemma zero_sectors:
  assumes "img s = (\<lambda>_ _. 0)" and "img_len s = 0" and "n < 2 ^ 32"
  shows "wp (mfor [0..<n] (\<lambda>i. wsect (of_nat i) (\<lambda>_. 0))) (\<lambda>_ t. t = s\<lparr>img_len := n\<rparr>) s"
proof -
  have "wp (mfor [0..<n] (\<lambda>i. wsect (of_nat i) (\<lambda>_. 0))) (\<lambda>_ t. t = s\<lparr>img_len := length [0..<n]\<rparr>) s"
  proof (rule wp_mfor [where I = "\<lambda>i t. t = s\<lparr>img_len := i\<rparr>"])
    fix i t
    assume i: "i < length [0..<n]" and t: "t = s\<lparr>img_len := i\<rparr>"
    have "(\<lambda>_ _. 0)(of_nat i := (\<lambda>_. 0)) = (\<lambda>_ :: u32. \<lambda>_ :: nat. 0 :: u8)" by auto
    then show "wp (wsect (of_nat ([0..<n] ! i)) (\<lambda>_. 0)) (\<lambda>_ t. t = s\<lparr>img_len := Suc i\<rparr>) t"
      using i t assms by (cases s) (simp add: wsect_def wp_simps unat_of_nat)
  qed (use assms in \<open>cases s; simp\<close>)
  then show ?thesis by simp
qed

definition mkfs1 :: mkfs where
  "mkfs1 = \<lparr>img = (\<lambda>_ _. 0)(1 := sb_bytes), img_len = fssize, freeblock = of_nat data_start, usedblocks = of_nat data_start, freeinode = 1\<rparr>"

lemma mkfs1_ok: "image_ok mkfs1"
proof -
  have "live mkfs1 = {}" by (auto simp: live_def mkfs1_def word_less_nat_alt)
  moreover have "b \<noteq> 1" if "(29 :: u32) \<le> b" for b using that by (auto simp: word_le_nat_alt)
  ultimately show ?thesis by (auto simp: data_start_29 image_ok_def building_def ptrs_ok_def mkfs1_def fssize_def ninodes_def)
qed

lemma built_nil:
  assumes t: "new_inode T_DIR mkfs1 t" and u: "file_step ROOTINO (root_bytes []) t u"
  shows "built [] u"
proof -
  have T: "file_bytes (img t) ROOTINO = []" "i_type (inode_of (img t) ROOTINO) = T_DIR" "freeblock t = of_nat data_start" "img t 1 = sb_bytes" "freeinode t = 2" "img_len t = fssize"
    using t by (simp_all add: new_inode_def mkfs1_def ROOTINO_def)
  have "unat (freeblock u) = sectors []" using file_stepD(6) [OF u] T(1,3) by (simp add: sectors_def nb_def data_start_29)
  moreover have "img u 1 = sb_bytes" "i_type (inode_of (img u) ROOTINO) = T_DIR" using u T(2,4) by (simp_all add: file_step_def)
  ultimately show ?thesis using file_stepD(1,3,4,5) [OF u] T(5,6) by (simp add: built_def)
qed

lemma root_wp:
  "wp (andthen (iappend ROOTINO (dirent_of [0x2e] ROOTINO)) (\<lambda>_. iappend ROOTINO (dirent_of [0x2e, 0x2e] ROOTINO))) (\<lambda>_. built []) t" if t: "new_inode T_DIR mkfs1 t"
proof -
  have T: "image_ok t" "img_len t = fssize" "freeblock t = of_nat data_start" "file_bytes (img t) ROOTINO = []" "ROOTINO \<in> live t"
    using t by (simp_all add: new_inode_def mkfs1_def live_def ROOTINO_def word_less_nat_alt)
  let ?cs = "[dirent_of [0x2e] ROOTINO, dirent_of [0x2e, 0x2e] ROOTINO]"
  have "root_bytes [] = concat ?cs" by (simp add: root_bytes_def)
  then have "wp (mfor ?cs (iappend ROOTINO)) (\<lambda>_ u. file_step ROOTINO (root_bytes []) t u) t"
    using iappends_wp [OF T(1,5), of ?cs] T(2,3,4) by (simp add: data_start_29 MAXFILE_140 length_dirent nb_def NDIRECT_def fssize_def)
  then show ?thesis using built_nil [OF t] by (auto simp: wp_simps elim!: wp_conseq)
qed

text \<open>What a file holds, whatever the size its inode has.\<close>

definition stores :: "(u32 \<Rightarrow> bytes) \<Rightarrow> u32 \<Rightarrow> u8 list \<Rightarrow> bool" where
  "stores V n bs \<longleftrightarrow> sized V (inode_of V n) (length bs) \<and> (\<forall>q < length bs. content V (inode_of V n) q = bs ! q)"

lemma stores_file: "image_ok s \<Longrightarrow> n \<in> live s \<Longrightarrow> stores (img s) n (file_bytes (img s) n)"
  by (simp add: image_ok_def stores_def file_bytes_def)

lemma stores_size: "stores V n bs \<Longrightarrow> length bs \<le> unat (i_size (inode_of V n)) \<Longrightarrow> take (length bs) (file_bytes V n) = bs"
  by (auto simp: stores_def file_bytes_def list_eq_iff_nth_eq)

lemma stores_meta:
  assumes s: "building s (inode_of (img s))" and m: "m \<in> live s" and p: "ptr W (inode_of (img s) m) = ptr (img s) (inode_of (img s) m)"
    and w: "\<And>b. b \<noteq> c \<Longrightarrow> W b = img s b" and c: "unat c < data_start" and h: "stores (img s) m bs"
    and i: "\<And>V. ptr V (inode_of W m) = ptr V (inode_of (img s) m)" "\<And>V. content V (inode_of W m) = content V (inode_of (img s) m)"
  shows "stores W m bs"
proof -
  let ?i = "inode_of (img s) m"
  have z: "sized (img s) ?i (length bs)" "\<And>q. q < length bs \<Longrightarrow> content (img s) ?i q = bs ! q" using h by (simp_all add: stores_def)
  have "sized W (inode_of W m) (length bs)" using sized_cong [OF z(1)] p i(1) by simp
  moreover have "content W (inode_of W m) q = bs ! q" if "q < length bs" for q
    using kept_content [OF kept_meta [OF s m p w c] z(1) that] z(2) [OF that] i(2) by simp
  ultimately show ?thesis by (simp add: stores_def)
qed

text \<open>The end: the size of the root directory is rounded up, and the bitmap is written.\<close>

definition contents :: "host_file list \<Rightarrow> u32 \<Rightarrow> u8 list" where
  "contents fs m = (if m = ROOTINO then root_bytes fs else data_of (fs ! (unat m - 2)))"

definition stored :: "host_file list \<Rightarrow> mkfs \<Rightarrow> bool" where
  "stored fs s \<longleftrightarrow> building s (inode_of (img s)) \<and> freeinode s = of_nat (length fs + 2) \<and> unat (freeblock s) = sectors fs \<and> img_len s = fssize
     \<and> (\<forall>m \<in> live s. stores (img s) m (contents fs m) \<and> i_type (inode_of (img s) m) = (if m = ROOTINO then T_DIR else T_FILE)
          \<and> (m \<noteq> ROOTINO \<longrightarrow> unat (i_size (inode_of (img s) m)) = length (contents fs m)))
     \<and> superblock_of (img s 1) = superblock_of sb_bytes"

lemma built_stored:
  assumes b: "built fs s" and l: "length fs + 2 \<le> ninodes"
  shows "stored fs s" "unat (i_size (inode_of (img s) ROOTINO)) = length (root_bytes fs)"
proof -
  have ok: "image_ok s" using b by (simp add: built_def)
  show "unat (i_size (inode_of (img s) ROOTINO)) = length (root_bytes fs)" using b by (auto simp: built_def file_bytes_def dest: arg_cong [of _ _ length])
  have F: "file_bytes (img s) m = contents fs m" "i_type (inode_of (img s) m) = (if m = ROOTINO then T_DIR else T_FILE)" if m: "m \<in> live s" for m
  proof -
    have i: "unat m - 2 < length fs" "of_nat (unat m - 2 + 2) = m" if "m \<noteq> ROOTINO"
    proof -
      have "0 < unat m" "unat m < length fs + 2" using m live_built [OF b l] by auto
      moreover have "unat m \<noteq> 1" using that by (metis ROOTINO_def unat_1 word_eq_iff_unsigned)
      ultimately have "2 \<le> unat m" "unat m - 2 < length fs" by auto
      then show "unat m - 2 < length fs" "of_nat (unat m - 2 + 2) = m" by simp_all
    qed
    then have "m \<noteq> ROOTINO \<Longrightarrow> file_bytes (img s) m = data_of (fs ! (unat m - 2)) \<and> i_type (inode_of (img s) m) = T_FILE"
      using b unfolding built_def by metis
    then show "file_bytes (img s) m = contents fs m" "i_type (inode_of (img s) m) = (if m = ROOTINO then T_DIR else T_FILE)" using b by (auto simp: contents_def built_def)
  qed
  have "unat (i_size (inode_of (img s) m)) = length (contents fs m)" if "m \<in> live s" for m using F(1) [OF that] by (auto simp: file_bytes_def dest: arg_cong [of _ _ length])
  then show "stored fs s" using b F stores_file [OF ok] ok by (simp add: stored_def built_def image_ok_def)
qed

lemma root_size_wp:
  assumes st: "stored fs s" and l: "length fs + 2 \<le> ninodes" and ip: "ip = (inode_of (img s) ROOTINO)\<lparr>i_size := z\<rparr>"
  shows "wp (winode ROOTINO ip) (\<lambda>_ t. stored fs t \<and> i_size (inode_of (img t) ROOTINO) = z) s"
proof -
  let ?ino = "inode_of (img s)"
  have s: "building s ?ino" using st by (simp add: stored_def)
  have R: "unat ROOTINO < 208" by (simp add: ROOTINO_def)
  show ?thesis using winode_wp [OF s R, of ip]
  proof (rule wp_conseq)
    fix t :: mkfs and a :: unit
    assume "building t ?ino \<and> img_len t = img_len s \<and> freeinode t = freeinode s \<and> freeblock t = freeblock s
      \<and> (\<forall>m \<in> live s. ptr (img t) (?ino m) = ptr (img s) (?ino m)) \<and> (\<forall>b. b \<noteq> i2b ROOTINO \<longrightarrow> img t b = img s b)
      \<and> same (inode_of (img t) ROOTINO) ip \<and> (\<forall>m. m \<noteq> ROOTINO \<longrightarrow> same (inode_of (img t) m) (?ino m))"
    then have t: "building t ?ino" "img_len t = img_len s" "freeinode t = freeinode s" "freeblock t = freeblock s"
      "\<And>m. m \<in> live s \<Longrightarrow> ptr (img t) (?ino m) = ptr (img s) (?ino m)" "\<And>b. b \<noteq> i2b ROOTINO \<Longrightarrow> img t b = img s b"
      "same (inode_of (img t) ROOTINO) ip" "\<And>m. m \<noteq> ROOTINO \<Longrightarrow> same (inode_of (img t) m) (?ino m)" by auto
    have lv: "live t = live s" using t(3) by (simp add: live_def)
    have P: "ptr V (inode_of (img t) m) = ptr V (?ino m)" "content V (inode_of (img t) m) = content V (?ino m)" for V m
      using same_ptr [OF t(7), of V] same_content [OF t(7), of V] same_ptr [OF t(8), of m V] same_content [OF t(8), of m V]
      by (cases "m = ROOTINO"; simp add: ip ptr_def blk_addr_def content_def fun_eq_iff)+
    have low: "1 < unat (i2b ROOTINO)" "unat (i2b ROOTINO) < data_start" using i2b_low [OF R] data_start_29 by auto
    have "building t (inode_of (img t))" using building_cong [OF t(1)] P(1) by simp
    moreover have "stores (img t) m (contents fs m)" if "m \<in> live s" for m
      using stores_meta [OF s that t(5) [OF that] t(6) low(2) _ P] st that by (simp add: stored_def)
    moreover have "i_type (inode_of (img t) m) = i_type (?ino m)" "m \<noteq> ROOTINO \<Longrightarrow> i_size (inode_of (img t) m) = i_size (?ino m)" for m
      using t(7) t(8) [of m] ip by (cases "m = ROOTINO"; simp add: same_def)+
    moreover have "img t 1 = img s 1" using t(6) [of 1] low(1) by fastforce
    moreover have "i_size (inode_of (img t) ROOTINO) = z" using t(7) ip by (simp add: same_def)
    ultimately show "stored fs t \<and> i_size (inode_of (img t) ROOTINO) = z" using st t(2,3,4) lv by (simp add: stored_def)
  qed
qed

lemma bm_fold [simp]: "bm_get (fold bm_set bs x) b \<longleftrightarrow> b \<in> set bs \<or> bm_get x b"
  by (induction bs arbitrary: x) auto

lemma bitmap_wp:
  assumes st: "stored fs s" and l: "length fs + 2 \<le> ninodes" and room: "sectors fs \<le> fssize"
  shows "wp (balloc_mkfs (sectors fs)) (\<lambda>_ t. stored fs t \<and> i_size (inode_of (img t) ROOTINO) = i_size (inode_of (img s) ROOTINO) \<and> img t 28 = fold bm_set [0..<sectors fs] (\<lambda>_. 0)) s"
proof -
  let ?c = "28 :: u32" and ?y = "fold bm_set [0..<sectors fs] (\<lambda>_. 0)" and ?ino = "inode_of (img s)"
  let ?t = "s\<lparr>img := (img s)(?c := ?y), img_len := max (img_len s) (Suc (unat ?c))\<rparr>"
  have s: "building s ?ino" using st by (simp add: stored_def)
  have c: "0 < unat ?c" "unat ?c < data_start" by (simp_all add: data_start_29)
  note W = meta_write [where y = ?y, OF s c refl]
  have un: "unat (freeinode s) \<le> ninodes" using st l ino_unat [of "length fs + 2"] by (simp add: stored_def ninodes_def)
  have I: "inode_of (img ?t) m = ?ino m" if "unat m < 208" for m
    using i2b_low [OF that] by (auto simp: inode_of_def)
  have lv: "unat m < 208" if "m \<in> live s" for m using live_low [OF un that] by simp
  have B: "building ?t (inode_of (img ?t))" by (rule building_cong [OF W(1)]) (use I lv W(4) in simp)
  have h: "stores (img ?t) m (contents fs m)" if m: "m \<in> live s" for m
    using stores_meta [OF s m W(2) [OF m], of ?c "contents fs m"] st m c(2) I [OF lv [OF m]] by (simp add: stored_def)
  have "stored fs ?t" using st B h I lv W(3,4) by (simp add: stored_def)
  moreover have "i_size (inode_of (img ?t) ROOTINO) = i_size (?ino ROOTINO)" using I [of ROOTINO] by (simp add: ROOTINO_def)
  ultimately show ?thesis using room by (simp add: balloc_mkfs_def wsect_def wp_simps ninodes_def IPB_def BSIZE_def fssize_def)
qed

lemma unat_small: "k < 2 ^ 32 \<Longrightarrow> unat (of_nat k :: u32) = k"
  by (simp add: unat_of_nat)

lemma fix_root_wp:
  assumes b: "built fs s" and l: "length fs + 2 \<le> ninodes"
  shows "wp (fix_root ROOTINO) (\<lambda>_ t. stored fs t \<and> length (root_bytes fs) \<le> unat (i_size (inode_of (img t) ROOTINO))) s"
proof -
  let ?z = "of_nat ((length (root_bytes fs) div 512 + 1) * 512) :: u32"
  note S = built_stored [OF b l]
  have rd: "wp (rinode ROOTINO) (\<lambda>d t. d = inode_of (img s) ROOTINO \<and> t = s) s"
    using S(1) i2b_low [of ROOTINO] data_start_29 by (auto simp: rinode_def rsect_def wp_simps stored_def building_def inode_of_def ROOTINO_def)
  have "length (root_bytes fs) \<le> 3200" using l by (simp add: length_root ninodes_def)
  then have "(length (root_bytes fs) div 512 + 1) * 512 < 2 ^ 32" by simp
  then have z: "length (root_bytes fs) \<le> unat ?z" using unat_small [of "(length (root_bytes fs) div 512 + 1) * 512"] by simp
  show ?thesis unfolding fix_root_def using rd root_size_wp [OF S(1) l refl, of ?z] S(2) z by (auto simp: wp_simps BSIZE_def elim!: wp_conseq)
qed

definition finished :: "host_file list \<Rightarrow> mkfs \<Rightarrow> bool" where
  "finished fs t \<longleftrightarrow> stored fs t \<and> length (root_bytes fs) \<le> unat (i_size (inode_of (img t) ROOTINO)) \<and> img t 28 = fold bm_set [0..<sectors fs] (\<lambda>_. 0)"

lemma fill_wp:
  assumes g: "\<forall>f \<in> set fs. good_file f" and l: "length fs + 2 \<le> ninodes" and room: "sectors fs \<le> fssize"
  shows "wp (fill_image fs) (\<lambda>_. finished fs) mkfs1"
proof -
  have last: "wp (balloc_mkfs (unat (usedblocks t))) (\<lambda>_. finished fs) t"
    if t: "stored fs t" "length (root_bytes fs) \<le> unat (i_size (inode_of (img t) ROOTINO))" for t
  proof -
    have "unat (usedblocks t) = sectors fs" using t(1) by (simp add: stored_def building_def)
    then show ?thesis using bitmap_wp [OF t(1) l room] t(2) by (auto simp: finished_def elim!: wp_conseq)
  qed
  then have fixing: "wp (andthen (fix_root ROOTINO) (\<lambda>_. andthen (gets usedblocks) (\<lambda>used. balloc_mkfs (unat used)))) (\<lambda>_. finished fs) s" if "built fs s" for s
    using fix_root_wp [OF that l] by (auto simp: wp_simps elim!: wp_conseq)
  have fs: "wp (andthen (mfor fs (add_file ROOTINO)) (\<lambda>_. andthen (fix_root ROOTINO) (\<lambda>_. andthen (gets usedblocks) (\<lambda>used. balloc_mkfs (unat used))))) (\<lambda>_. finished fs) s" if "built [] s" for s
    using add_files_wp [OF that, of fs] g l room fixing unfolding wp_andthen by (auto elim!: wp_conseq)
  have root: "wp (andthen (iappend ROOTINO (dirent_of [0x2e] ROOTINO)) (\<lambda>_. andthen (iappend ROOTINO (dirent_of [0x2e, 0x2e] ROOTINO)) (\<lambda>_.
      andthen (mfor fs (add_file ROOTINO)) (\<lambda>_. andthen (fix_root ROOTINO) (\<lambda>_. andthen (gets usedblocks) (\<lambda>used. balloc_mkfs (unat used))))))) (\<lambda>_. finished fs) t"
    if "new_inode T_DIR mkfs1 t" for t
    using root_wp [OF that] fs unfolding wp_andthen by (auto elim!: wp_conseq)
  have "wp (ialloc_mkfs T_DIR) (\<lambda>n t. n = ROOTINO \<and> new_inode T_DIR mkfs1 t) mkfs1"
    using ialloc_wp [OF mkfs1_ok, of T_DIR] by (simp add: mkfs1_def ROOTINO_def ninodes_def)
  then show ?thesis unfolding fill_image_def wp_andthen by (rule wp_conseq) (use root in \<open>auto simp: wp_simps\<close>)
qed

lemma main_wp:
  assumes "\<forall>f \<in> set fs. good_file f" and "length fs + 2 \<le> ninodes" and "sectors fs \<le> fssize"
  shows "wp (main_mkfs fs) (\<lambda>_. finished fs) mkfs0"
proof -
  let ?s = "mkfs0\<lparr>usedblocks := 29, freeblock := 29\<rparr>"
  have zero: "wp (mfor [0..<1024] (\<lambda>i. wsect (of_nat i) (\<lambda>_. 0))) (\<lambda>_ t. t = ?s\<lparr>img_len := 1024\<rparr>) ?s" by (rule zero_sectors) (simp_all add: mkfs0_def)
  have "(?s\<lparr>img_len := 1024\<rparr>)\<lparr>img := (img ?s)(1 := sb_bytes), img_len := max 1024 (Suc (unat (1 :: u32)))\<rparr> = mkfs1" by (simp add: mkfs0_def mkfs1_def fssize_def data_start_29)
  then have "wp (andthen (wsect 1 sb_bytes) (\<lambda>_. fill_image fs)) (\<lambda>_. finished fs) (?s\<lparr>img_len := 1024\<rparr>)"
    using fill_wp [OF assms] by (simp add: wsect_def wp_simps)
  then have "wp (andthen (mfor [0..<1024] (\<lambda>i. wsect (of_nat i) (\<lambda>_. 0))) (\<lambda>_. andthen (wsect 1 sb_bytes) (\<lambda>_. fill_image fs))) (\<lambda>_. finished fs) ?s"
    unfolding wp_andthen by (intro wp_conseq [OF zero]) simp
  moreover have nums: "nblocks = 965" "nlog = 30" "ninodes div IPB + 3 + bitblocks = 29"
    by (simp_all add: nblocks_def nlog_def ninodes_def IPB_def BSIZE_def bitblocks_def fssize_def LOGSIZE_def MAXOPBLOCKS_def)
  ultimately show ?thesis unfolding main_mkfs_def nums by (simp add: wp_upd wp_gets wp_panic_if wp_andthen fssize_def)
qed

text \<open>C5: \<open>mkfs\<close> builds the file system that the kernel then reads.  Given at most 198 files whose names have no slash, whose data fits a file each and whose blocks fit the disk, it does not fail, and the image has the superblock, a bitmap in which exactly the sectors handed out are used, each file under the inode number that its place gives, with its data as the kernel reads it, the root directory with the entries of all of them, and block pointers that lead to different sectors of the data area.\<close>

theorem mkfs_image:
  assumes "\<forall>f \<in> set fs. good_file f" and "length fs + 2 \<le> ninodes" and "sectors fs \<le> fssize"
  shows "\<exists>t. main_mkfs fs mkfs0 = Inr ((), t) \<and> superblock_of (img t 1) = \<lparr>sb_size = 1024, sb_nblocks = 965, sb_ninodes = 200, sb_nlog = 30\<rparr>
     \<and> (\<forall>b < fssize. block_used (superblock_of (img t 1)) (img t) b \<longleftrightarrow> b < sectors fs)
     \<and> (\<forall>i < length fs. file_bytes (img t) (of_nat (i + 2)) = data_of (fs ! i) \<and> i_type (inode_of (img t) (of_nat (i + 2))) = T_FILE)
     \<and> take (length (root_bytes fs)) (file_bytes (img t) ROOTINO) = root_bytes fs \<and> i_type (inode_of (img t) ROOTINO) = T_DIR
     \<and> ptrs_ok (\<lambda>n. ptr (img t) (inode_of (img t) n)) {n. 0 < n \<and> unat n < length fs + 2} (sectors fs)"
proof -
  obtain t where t: "main_mkfs fs mkfs0 = Inr ((), t)" "finished fs t" using main_wp [OF assms] by (auto simp: wp_iff)
  have S: "stored fs t" "length (root_bytes fs) \<le> unat (i_size (inode_of (img t) ROOTINO))" "img t 28 = fold bm_set [0..<sectors fs] (\<lambda>_. 0)" using t(2) by (simp_all add: finished_def)
  have un: "unat (freeinode t) = length fs + 2" using S(1) assms(2) ino_unat [of "length fs + 2"] by (simp add: stored_def ninodes_def)
  have lv: "live t = {n. 0 < n \<and> unat n < length fs + 2}" using un by (simp add: live_def word_less_nat_alt)
  have sb: "superblock_of (img t 1) = \<lparr>sb_size = 1024, sb_nblocks = 965, sb_ninodes = 200, sb_nlog = 30\<rparr>"
    using S(1) by (simp add: stored_def superblock_of_def sb_bytes_def fssize_def nblocks_def ninodes_def nlog_def LOGSIZE_def MAXOPBLOCKS_def get32_put32_other)
  have "block_used (superblock_of (img t 1)) (img t) b \<longleftrightarrow> b < sectors fs" if "b < fssize" for b
  proof -
    have "BBLOCK (of_nat b) 200 = 28" using BBLOCK_aligned [of 0 b 200] that by (simp add: fssize_def BPB_def BSIZE_def BBLOCK_def IPB_def)
    moreover have "\<not> bm_get (\<lambda>_. 0) b" by (simp add: bm_bit)
    ultimately show ?thesis using that by (simp add: block_used_def sb S(3) fssize_def BPB_def BSIZE_def)
  qed
  moreover have "file_bytes (img t) (of_nat (i + 2)) = data_of (fs ! i) \<and> i_type (inode_of (img t) (of_nat (i + 2))) = T_FILE" if i: "i < length fs" for i
  proof -
    define m where mm: "m = (of_nat (i + 2) :: u32)"
    have m: "unat m = i + 2" using i assms(2) ino_unat [of "i + 2"] by (simp add: ninodes_def mm)
    have "unat ROOTINO = 1" by (simp add: ROOTINO_def)
    then have "m \<noteq> ROOTINO" using m by auto
    moreover from this have "contents fs m = data_of (fs ! i)" using m by (simp add: contents_def)
    moreover have "m \<in> live t" using m i lv by (simp add: word_less_nat_alt)
    ultimately have h: "stores (img t) m (data_of (fs ! i))" "i_type (inode_of (img t) m) = T_FILE" "unat (i_size (inode_of (img t) m)) = length (data_of (fs ! i))"
      using S(1) unfolding stored_def by metis+
    then show ?thesis using stores_size [OF h(1)] unfolding mm [symmetric] by (simp add: file_bytes_def)
  qed
  moreover have "ROOTINO \<in> live t" using lv by (simp add: ROOTINO_def)
  then have "stores (img t) ROOTINO (root_bytes fs)" "i_type (inode_of (img t) ROOTINO) = T_DIR" using S(1) by (auto simp: stored_def contents_def)
  moreover have "ptrs_ok (\<lambda>n. ptr (img t) (inode_of (img t) n)) (live t) (sectors fs)" using S(1) unfolding stored_def building_def by metis
  ultimately show ?thesis using t(1) sb lv stores_size [of "img t" ROOTINO "root_bytes fs"] S(2) by simp
qed

definition one_file :: "host_file list" where
  "one_file = [([0x5f, 0x61], Some [[1, 2, 3]])]"

theorem mkfs_image_witness:
  "\<exists>t. main_mkfs one_file mkfs0 = Inr ((), t) \<and> file_bytes (img t) 2 = [1, 2, 3] \<and> take (length (root_bytes one_file)) (file_bytes (img t) ROOTINO) = root_bytes one_file
     \<and> block_used (superblock_of (img t 1)) (img t) 30 \<and> \<not> block_used (superblock_of (img t 1)) (img t) 31"
proof -
  have d: "data_of ([0x5f, 0x61], Some [[1, 2, 3]]) = [1, 2, 3]" by (simp add: data_of_def)
  then have g: "\<forall>f \<in> set one_file. good_file f" by (simp add: one_file_def good_file_def slash_def MAXFILE_140)
  have s: "sectors one_file = 31" using d by (simp add: one_file_def sectors_def length_root nb_def data_start_29 NDIRECT_def)
  have l: "length one_file + 2 \<le> ninodes" by (simp add: one_file_def ninodes_def)
  have one: "length one_file = 1" "one_file ! 0 = ([0x5f, 0x61], Some [[1, 2, 3]])" by (simp_all add: one_file_def)
  have r: "sectors one_file \<le> fssize" by (simp add: s fssize_def)
  show ?thesis using mkfs_image [OF g l r] d by (auto simp: s fssize_def one)
qed

text \<open>C7: \<open>iappend\<close> keeps the image well formed, that is, block pointers lead to different sectors below the first free one, everything past that is zero, and each inode maps exactly the blocks its size needs; it appends the bytes to the file, across block boundaries and into the indirect block, and leaves every other file as it was.\<close>

theorem iappend_keeps_image:
  assumes "image_ok s" and "n \<in> live s" and "length (file_bytes (img s) n) + length p \<le> MAXFILE * 512"
    and "unat (freeblock s) + nb (length (file_bytes (img s) n) + length p) \<le> img_len s + nb (length (file_bytes (img s) n))"
  shows "\<exists>t. iappend n p s = Inr ((), t) \<and> image_ok t \<and> file_bytes (img t) n = file_bytes (img s) n @ p
     \<and> (\<forall>m \<in> live s. m \<noteq> n \<longrightarrow> file_bytes (img t) m = file_bytes (img s) m)"
  using iappend_wp [OF assms] by (auto simp: wp_iff file_step_def)

theorem iappend_keeps_image_witness:
  "\<exists>s t. ialloc_mkfs T_FILE mkfs1 = Inr (1, s) \<and> iappend 1 (replicate 6500 7) s = Inr ((), t) \<and> image_ok t \<and> file_bytes (img t) 1 = replicate 6500 7"
proof -
  obtain s where s: "ialloc_mkfs T_FILE mkfs1 = Inr (1, s)" "new_inode T_FILE mkfs1 s"
    using ialloc_wp [OF mkfs1_ok, of T_FILE] by (auto simp: wp_iff mkfs1_def ninodes_def)
  then have S: "image_ok s" "1 \<in> live s" "file_bytes (img s) 1 = []" "freeblock s = 29" "img_len s = 1024"
    by (simp_all add: new_inode_def mkfs1_def live_def word_less_nat_alt fssize_def data_start_29)
  then show ?thesis using iappend_keeps_image [OF S(1,2), of "replicate 6500 7"] s(1) by (auto simp: MAXFILE_140 nb_def NDIRECT_def)
qed

end
