(* ===== verification/Mount.thy ===== *)
theory Mount
  imports Image
begin

text \<open>The kernel on the image that \<^verbatim>\<open>mkfs\<close> has built: \<^verbatim>\<open>readi\<close> returns the bytes of the files of the host.\<close>

lemma blocks_lt: "bn < (len + 511) div 512 \<Longrightarrow> bn * 512 < (len :: nat)"
  by (simp add: less_eq_div_iff_mult_less_eq flip: Suc_le_eq)

lemma stored_file_ok:
  assumes st: "stored fs t" and n: "n \<in> live t" and i: "same i (inode_of (img t) n)" "i_dev i = ROOTDEV"
    and view: "tx_view l = img t" and start: "sectors fs \<le> unat (log_start l)"
  shows "file_ok l i ((length (contents fs n) + 511) div 512)"
proof -
  let ?ino = "inode_of (img t)" and ?len = "length (contents fs n)" and ?N = "(length (contents fs n) + 511) div 512"
  have b: "building t ?ino" and z: "sized (img t) (?ino n) ?len" and fb: "unat (freeblock t) = sectors fs" using st n by (auto simp: stored_def stores_def)
  have "?len \<le> 71680" using z by (simp add: sized_def MAXFILE_140)
  then have N: "?N \<le> MAXFILE" using div_le_mono [of "?len + 511" "71680 + 511" 512] by (simp add: MAXFILE_140)
  have p: "ptr (img t) i = ptr (img t) (?ino n)" by (rule same_ptr [OF i(1)])
  have M: "(n, k) \<in> mapped t ?ino" if "k < ?N" for k
    using z that N blocks_lt [OF that] n by (auto simp: mapped_def sized_def)
  have blk: "blk_addr (img t) i k = ptr (img t) (?ino n) k" if "k < ?N" for k using that N by (simp add: p [symmetric] ptr_def)
  have home: "unat (ptr (img t) (?ino n) k) < unat (log_start l)" "ptr (img t) (?ino n) k \<noteq> 0" if "(n, k) \<in> mapped t ?ino" for k
    using ptr_bounds(2) [OF b that] that fb start by (auto simp: mapped_def)
  have inj: "inj_on (blk_addr (img t) i) {..<?N}"
  proof (rule inj_onI)
    fix x y
    assume "x \<in> {..<?N}" "y \<in> {..<?N}" "blk_addr (img t) i x = blk_addr (img t) i y"
    then show "x = y" using ptr_inj [OF b M n, of x y] N by (simp add: blk)
  qed
  have ind: "i_addrs i NDIRECT \<noteq> 0 \<and> unat (i_addrs i NDIRECT) < unat (log_start l) \<and> i_addrs i NDIRECT \<notin> blk_addr (img t) i ` {..<?N}" if "NDIRECT < ?N"
  proof -
    have a: "i_addrs i NDIRECT = ptr (img t) (?ino n) MAXFILE" using i(1) by (simp add: ptr_MAXFILE same_def)
    have "i_addrs (?ino n) NDIRECT \<noteq> 0" using z blocks_lt [OF that] by (simp add: sized_def)
    then have m: "(n, MAXFILE) \<in> mapped t ?ino" using n by (simp add: mapped_def ptr_MAXFILE)
    have "ptr (img t) (?ino n) MAXFILE \<noteq> blk_addr (img t) i k" if "k < ?N" for k
      using ptr_inj [OF b m n, of k] blk [OF that] that N by auto
    then show ?thesis using home [OF m] by (auto simp: a)
  qed
  show ?thesis unfolding file_ok_def view using i(2) N inj ind home M by (simp add: tx_home_def blk)
qed

text \<open>
  C6: From the image builder to the kernel. On the image that \<^verbatim>\<open>mkfs\<close> has built, if no file reaches into the log, \<^verbatim>\<open>readi\<close> of the whole of a file returns exactly the bytes that the
  file had on the host.
\<close>

theorem mkfs_then_readi:
  assumes "\<forall>f \<in> set fs. good_file f" and l: "length fs + 2 \<le> ninodes" and "sectors fs \<le> fssize" and m: "main_mkfs fs mkfs0 = Inr ((), t)" and k: "k < length fs"
    and room: "tx_room 0 (flog s)" and view: "tx_view (flog s) = img t" and start: "sectors fs \<le> unat (log_start (flog s))"
    and i: "same (inodes s ip) (inode_of (img t) (of_nat (k + 2)))" "i_dev (inodes s ip) = ROOTDEV"
  shows "\<exists>u. readi ip 0 (of_nat (length (data_of (fs ! k)))) s = Inr ((int (length (data_of (fs ! k))), data_of (fs ! k)), u)"
proof -
  define n where nn: "n = (of_nat (k + 2) :: u32)"
  let ?d = "data_of (fs ! k)"
  have un: "unat n = k + 2" using k l ino_unat [of "k + 2"] by (simp add: ninodes_def nn)
  have st: "stored fs t" using main_wp [OF assms(1-3)] m by (simp add: wp_iff finished_def)
  have "unat (freeinode t) = length fs + 2" using st l ino_unat [of "length fs + 2"] by (simp add: stored_def ninodes_def)
  then have live: "n \<in> live t" using un k by (simp add: live_def word_less_nat_alt)
  have "unat ROOTINO = 1" by (simp add: ROOTINO_def)
  then have nr: "n \<noteq> ROOTINO" using un by auto
  then have c: "contents fs n = ?d" using un by (simp add: contents_def)
  have F: "stores (img t) n ?d" "i_type (inode_of (img t) n) = T_FILE" "unat (i_size (inode_of (img t) n)) = length ?d"
    using st live nr c unfolding stored_def by metis+
  have len: "length ?d \<le> 71680" using F(1) by (simp add: stores_def sized_def MAXFILE_140)
  have ud: "unat (of_nat (length ?d) :: u32) = length ?d" using len by (intro unat_of_nat_small) auto
  have sz: "i_size (inodes s ip) = of_nat (length ?d)" using i(1) F(3) unfolding nn [symmetric] by (simp add: same_def flip: F(3))
  have ty: "i_type (inodes s ip) \<noteq> T_DEV" using i(1) F(2) unfolding nn [symmetric] by (simp add: same_def T_FILE_def T_DEV_def)
  have fok: "file_ok (flog s) (inodes s ip) ((length ?d + 511) div 512)"
    using stored_file_ok [OF st live i(1) [folded nn] i(2) view start] by (simp add: c)
  have "length ?d \<le> (length ?d + 511) div 512 * BSIZE" by (simp add: BSIZE_def)
  then have "wp (readi_loop ip 0 (length ?d)) (\<lambda>bs u. bs = map (content (img t) (inodes s ip)) [0..<length ?d]) s"
    using readi_loop_wp [OF room fok, of 0 "length ?d"] by (auto simp: view elim!: wp_conseq)
  moreover have "map (content (img t) (inodes s ip)) [0..<length ?d] = ?d"
    using F(1) same_content [OF i(1), of "img t"] unfolding nn [symmetric] by (intro nth_equalityI) (simp_all add: stores_def)
  moreover have "sint (of_nat (length ?d) :: u32) = int (length ?d)" using word_sum(4) [of 0 "of_nat (length ?d)" "(length ?d + 511) div 512"] ud fok by (simp add: file_ok_def BSIZE_def)
  ultimately have "wp (readi ip 0 (of_nat (length ?d))) (\<lambda>r u. r = (int (length ?d), ?d)) s"
    unfolding readi_def wp_geti using ty sz ud by (simp add: Let_def wp_andthen wp_ret)
  then show ?thesis by (auto simp: wp_iff)
qed

text \<open>A kernel that has just started on the image: empty buffer cache and log, and the inode \<open>n\<close> in memory.\<close>

definition mounted_fs :: "mkfs \<Rightarrow> u32 \<Rightarrow> fs" where
  "mounted_fs t n = \<lparr>flog = fresh_log (img t) 994 30, inodes = (\<lambda>_. (inode_of (img t) n)\<lparr>i_dev := ROOTDEV\<rparr>), fcons = blank_cons, fcwd = 0, fkilled = False\<rparr>"

theorem mkfs_then_readi_witness:
  "\<exists>t u. main_mkfs one_file mkfs0 = Inr ((), t) \<and> readi 0 0 3 (mounted_fs t 2) = Inr ((3, [1, 2, 3]), u)"
proof -
  have d: "data_of ([0x5f, 0x61], Some [[1, 2, 3]]) = [1, 2, 3]" by (simp add: data_of_def)
  then have g: "\<forall>f \<in> set one_file. good_file f" by (simp add: one_file_def good_file_def slash_def MAXFILE_140)
  have sec: "sectors one_file = 31" using d by (simp add: one_file_def sectors_def length_root nb_def data_start_29 NDIRECT_def)
  have r: "sectors one_file \<le> fssize" by (simp add: sec fssize_def)
  have l: "length one_file + 2 \<le> ninodes" and one: "0 < length one_file" "one_file ! 0 = ([0x5f, 0x61], Some [[1, 2, 3]])" by (simp_all add: one_file_def ninodes_def)
  obtain t where t: "main_mkfs one_file mkfs0 = Inr ((), t)" "stored one_file t" using main_wp [OF g l r] by (auto simp: wp_iff finished_def)
  have fb: "unat (freeblock t) = 31" "building t (inode_of (img t))" using t(2) by (simp_all add: stored_def sec)
  have "img t 994 = (\<lambda>_. 0)" using fb unfolding building_def by (simp add: word_le_nat_alt)
  then have h: "head_n (img t 994) = 0" by (simp add: head_n_def)
  have b: "unat (994 :: u32) + LOGSIZE < 2 ^ 28" "1 \<le> (30 :: int)" "30 \<le> int LOGSIZE" by (simp_all add: LOGSIZE_def MAXOPBLOCKS_def)
  note F = fresh_log [of 994 "img t" 30, OF b(1) h b(2,3)]
  have "tx_room 0 (flog (mounted_fs t 2))" using F(1) by (auto simp: mounted_fs_def tx_room_def)
  moreover have "tx_view (flog (mounted_fs t 2)) = img t" using F(2) by (simp add: mounted_fs_def)
  moreover have "sectors one_file \<le> unat (log_start (flog (mounted_fs t 2)))" by (simp add: sec mounted_fs_def fresh_log_def)
  moreover have "same (inodes (mounted_fs t 2) 0) (inode_of (img t) (of_nat (0 + 2)))" "i_dev (inodes (mounted_fs t 2) 0) = ROOTDEV" by (simp_all add: mounted_fs_def same_def)
  ultimately have "\<exists>u. readi 0 0 (of_nat (length (data_of (one_file ! 0)))) (mounted_fs t 2) = Inr ((int (length (data_of (one_file ! 0))), data_of (one_file ! 0)), u)"
    by (rule mkfs_then_readi [OF g l r t(1) one(1)])
  then show ?thesis using t(1) d by (auto simp: one(2))
qed

end
