(* ===== verification/Names.thy ===== *)
theory Names
  imports Fs
begin

text \<open>
  Path names, directory names and the inode cache of \<^verbatim>\<open>fs.c\<close>: \<^verbatim>\<open>skipelem\<close> against the elements of a
  path, \<^verbatim>\<open>namecmp\<close> on names cut to \<^verbatim>\<open>DIRSIZ\<close> bytes, and the uniqueness of cached inodes under \<^verbatim>\<open>iget\<close>.
\<close>

section \<open>Path elements\<close>

fun split_slash :: "u8 list \<Rightarrow> u8 list list" where
  "split_slash [] = [[]]"
| "split_slash (c # cs) =
     (if c = slash then [] # split_slash cs
      else case split_slash cs of [] \<Rightarrow> [[c]] | w # ws \<Rightarrow> (c # w) # ws)"

definition elems :: "u8 list \<Rightarrow> u8 list list" where
  "elems p = filter (\<lambda>w. w \<noteq> []) (split_slash p)"

lemma takeWhile_dropWhile: "takeWhile P (dropWhile P xs) = []"
  by (induction xs) auto

lemma elems_slash [simp]: "elems (slash # p) = elems p"
  by (simp add: elems_def)

lemma elems_Nil_list [simp]: "elems [] = []"
  by (simp add: elems_def)

lemma elems_drop_slashes: "elems (dropWhile (\<lambda>c. c = slash) p) = elems p"
  by (induction p) auto

lemma split_slash_first:
  "split_slash p = takeWhile (\<lambda>c. c \<noteq> slash) p #
     (case dropWhile (\<lambda>c. c \<noteq> slash) p of [] \<Rightarrow> [] | c # q \<Rightarrow> split_slash q)"
  by (induction p) auto

lemma elems_first:
  assumes "p \<noteq> []" and "hd p \<noteq> slash"
  shows "elems p = takeWhile (\<lambda>c. c \<noteq> slash) p # elems (dropWhile (\<lambda>c. c \<noteq> slash) p)"
proof -
  have w: "takeWhile (\<lambda>c. c \<noteq> slash) p \<noteq> []" using assms by (cases p) auto
  show ?thesis
  proof (cases "dropWhile (\<lambda>c. c \<noteq> slash) p")
    case Nil
    then show ?thesis unfolding elems_def by (subst split_slash_first) (simp only: w Nil list.case split_slash.simps filter.simps, simp)
  next
    case (Cons c q)
    then have "c = slash" by (auto simp: dropWhile_eq_Cons_conv)
    then show ?thesis unfolding elems_def by (subst split_slash_first) (simp add: w Cons)
  qed
qed

lemma elems_Nil: "takeWhile (\<lambda>c. c = slash) p = [] \<Longrightarrow> elems p = [] \<longleftrightarrow> p = []"
proof (cases p)
  case (Cons c q)
  assume "takeWhile (\<lambda>c. c = slash) p = []"
  then have "hd p \<noteq> slash" by (simp add: Cons split: if_splits)
  then show ?thesis using elems_first [of p] Cons by simp
qed simp

text \<open>
  \<^verbatim>\<open>skipelem\<close> yields the first element of the path, cut to \<^verbatim>\<open>DIRSIZ\<close> bytes in \<open>name\<close>, and a rest without leading slashes
  that has the remaining elements, so that it is empty exactly after the last element; it returns null exactly
  for a path without elements.
\<close>

theorem skipelem_elems:
  "case skipelem path name of
     None \<Rightarrow> elems path = []
   | Some (rest, name') \<Rightarrow> (\<exists>w. elems path = w # elems rest \<and> name' = set_name w name
        \<and> takeWhile (\<lambda>c. c = slash) rest = [] \<and> (rest = [] \<longleftrightarrow> elems rest = []))"
proof -
  define q where "q = dropWhile (\<lambda>c. c = slash) path"
  have e: "elems path = elems q" by (simp add: q_def elems_drop_slashes)
  show ?thesis
  proof (cases "q = []")
    case True
    then have "skipelem path name = None" by (simp add: skipelem_def q_def Let_def)
    then show ?thesis using e True by simp
  next
    case False
    let ?w = "takeWhile (\<lambda>c. c \<noteq> slash) q" and ?r = "dropWhile (\<lambda>c. c = slash) (dropWhile (\<lambda>c. c \<noteq> slash) q)"
    have "hd q \<noteq> slash" using False hd_dropWhile [of "\<lambda>c. c = slash" path] by (simp add: q_def)
    then have "elems path = ?w # elems ?r" using e False by (simp add: elems_first elems_drop_slashes)
    moreover have "takeWhile (\<lambda>c. c = slash) ?r = []" by (rule takeWhile_dropWhile)
    moreover have "skipelem path name = Some (?r, set_name ?w name)" using False by (simp add: skipelem_def q_def Let_def)
    ultimately show ?thesis using elems_Nil [of ?r] by auto
  qed
qed

section \<open>Names\<close>

text \<open>The name an array holds: its bytes before the first NUL.\<close>

definition name_of :: "nat \<Rightarrow> bytes \<Rightarrow> u8 list" where
  "name_of n x = takeWhile (\<lambda>c. c \<noteq> 0) (map x [0..<n])"

lemma strncmp_bytes_zero: "strncmp_bytes n p q = 0 \<longleftrightarrow> name_of n p = name_of n q"
proof (induction n p q rule: strncmp_bytes.induct)
  case (2 n p q)
  have u: "map f [0..<Suc n] = f 0 # map (\<lambda>i. f (Suc i)) [0..<n]" for f :: bytes
    by (rule map_upt_Suc)
  show ?case
  proof (cases "p 0 \<noteq> 0 \<and> p 0 = q 0")
    case True
    then show ?thesis using 2 [OF True] by (simp add: name_of_def u del: upt_Suc)
  next
    case False
    then show ?thesis by (auto simp: name_of_def u word_uint_eq_iff simp del: upt_Suc)
  qed
qed (simp add: name_of_def)

lemma name_of_field: "name_of n (name_field x) = name_of n x"
proof (induction n)
  case (Suc n)
  have e: "map (name_field x) [0..<n] = map x [0..<n]" if "\<forall>i < n. x i \<noteq> 0"
    using that by (auto simp: name_field_def list_all_iff)
  show ?case
  proof (cases "\<forall>i < n. x i \<noteq> 0")
    case True
    then have "name_field x n = x n" by (simp add: name_field_def list_all_iff)
    then have "map (name_field x) [0..<Suc n] = map x [0..<Suc n]" using e [OF True] by simp
    then show ?thesis by (simp only: name_of_def)
  next
    case False
    then obtain i where "i < n" "x i = 0" "\<forall>j < i. x j \<noteq> 0"
      using exists_least_iff [of "\<lambda>i. i < n \<and> x i = 0"] by auto
    then have "\<exists>c \<in> set (map x [0..<n]). c = 0" "\<exists>c \<in> set (map (name_field x) [0..<n]). c = 0"
      by (auto simp: name_field_def list_all_iff intro!: bexI [of _ i])
    then show ?thesis using Suc by (auto simp: name_of_def takeWhile_append)
  qed
qed (simp add: name_of_def)

lemma name_of_set:
  assumes "0 \<notin> set w"
  shows "name_of DIRSIZ (set_name w name) = take DIRSIZ w"
proof (cases "length w \<ge> DIRSIZ")
  case True
  then have "map (set_name w name) [0..<DIRSIZ] = take DIRSIZ w" by (intro nth_equalityI) (auto simp: set_name_def)
  moreover have "\<forall>c \<in> set (take DIRSIZ w). c \<noteq> 0" using assms by (auto dest: in_set_takeD)
  ultimately show ?thesis by (simp add: name_of_def takeWhile_eq_all_conv)
next
  case False
  then have "[0..<DIRSIZ] = [0..<length w] @ length w # [Suc (length w)..<DIRSIZ]"
    using upt_add_eq_append [of 0 "length w" "DIRSIZ - length w"] upt_conv_Cons [of "length w" DIRSIZ] by simp
  moreover have "map (set_name w name) [0..<length w] = w" using False by (intro nth_equalityI) (auto simp: set_name_def)
  moreover have "set_name w name (length w) = 0" using False by (simp add: set_name_def)
  moreover have "takeWhile (\<lambda>c. c \<noteq> 0) w = w" using assms by (auto simp: takeWhile_eq_all_conv)
  ultimately show ?thesis using False assms by (simp add: name_of_def takeWhile_append2)
qed

text \<open>
  Directory entries hold names cut to \<^verbatim>\<open>DIRSIZ\<close> bytes: the name of a path element \<open>w\<close> matches the entry written for \<open>v\<close> exactly if the two
  agree in their first \<^verbatim>\<open>DIRSIZ\<close> bytes.
\<close>

theorem namecmp_truncates:
  assumes "0 \<notin> set w" and "0 \<notin> set v"
  shows "namecmp (set_name w name) (name_field (set_name v name')) = 0 \<longleftrightarrow> take DIRSIZ w = take DIRSIZ v"
  using assms by (simp add: namecmp_def strncmp_bytes_zero name_of_field name_of_set)

theorem namecmp_truncates_witness:
  "namecmp (set_name [1, 2] (\<lambda>_. 5)) (name_field (set_name [1, 3] (\<lambda>_. 0))) \<noteq> 0"
  using namecmp_truncates [of "[1, 2]" "[1, 3]" "\<lambda>_. 5" "\<lambda>_. 0"] by (simp add: DIRSIZ_def)

section \<open>The inode cache\<close>

definition icache_ok :: "(nat \<Rightarrow> inode) \<Rightarrow> bool" where
  "icache_ok is \<longleftrightarrow> (\<forall>i < NINODE. 0 \<le> i_ref (is i))
     \<and> inj_on (\<lambda>i. (i_dev (is i), i_inum (is i))) {i. i < NINODE \<and> 0 < i_ref (is i)}"

lemma icache_inj:
  assumes "icache_ok is" "i < NINODE" "j < NINODE" "0 < i_ref (is i)" "0 < i_ref (is j)"
    and "i_dev (is i) = i_dev (is j)" "i_inum (is i) = i_inum (is j)"
  shows "i = j"
proof -
  have "inj_on (\<lambda>i. (i_dev (is i), i_inum (is i))) {i. i < NINODE \<and> 0 < i_ref (is i)}" using assms(1) by (simp add: icache_ok_def)
  then show ?thesis by (rule inj_onD) (use assms in simp_all)
qed

lemma icache_upd:
  assumes "icache_ok is" and "0 \<le> i_ref x"
    and "\<And>j. j < NINODE \<Longrightarrow> j \<noteq> ip \<Longrightarrow> 0 < i_ref (is j) \<Longrightarrow> (i_dev (is j), i_inum (is j)) \<noteq> (i_dev x, i_inum x)"
  shows "icache_ok (is(ip := x))"
  unfolding icache_ok_def
proof (intro conjI inj_onI)
  show "\<forall>i < NINODE. 0 \<le> i_ref ((is(ip := x)) i)" using assms(1,2) by (simp add: icache_ok_def)
next
  fix i j
  assume i: "i \<in> {i. i < NINODE \<and> 0 < i_ref ((is(ip := x)) i)}" and j: "j \<in> {i. i < NINODE \<and> 0 < i_ref ((is(ip := x)) i)}"
    and e: "(i_dev ((is(ip := x)) i), i_inum ((is(ip := x)) i)) = (i_dev ((is(ip := x)) j), i_inum ((is(ip := x)) j))"
  consider "i = ip" "j = ip" | "i = ip" "j \<noteq> ip" | "i \<noteq> ip" "j = ip" | "i \<noteq> ip" "j \<noteq> ip" by blast
  then show "i = j"
  proof cases
    case 2
    then show ?thesis using assms(3) [of j] j e by simp
  next
    case 3
    then show ?thesis using assms(3) [of i] i e by simp
  next
    case 4
    then show ?thesis using icache_inj [OF assms(1), of i j] i j e by simp
  qed simp
qed

lemma iget_hit:
  "iget_find dev inum (inodes s) = Some i \<Longrightarrow>
     iget dev inum s = Inr (i, s\<lparr>inodes := (inodes s)(i := (inodes s i)\<lparr>i_ref := i_ref (inodes s i) + 1\<rparr>)\<rparr>)"
  by (simp add: iget_def andthen_def gets_def seti_def upd_def ret_def)

lemma iget_cases:
  assumes ok: "icache_ok (inodes s)" and r: "iget dev inum s = Inr (ip, t)"
  shows "icache_ok (inodes t) \<and> ip < NINODE \<and> i_dev (inodes t ip) = dev \<and> i_inum (inodes t ip) = inum
     \<and> i_ref (inodes t ip) = i_ref (inodes s ip) + 1 \<and> flog t = flog s \<and> (\<forall>j. j \<noteq> ip \<longrightarrow> inodes t j = inodes s j)"
proof (cases "iget_find dev inum (inodes s)")
  case (Some i)
  then have i: "i < NINODE" "0 < i_ref (inodes s i)" "i_dev (inodes s i) = dev" "i_inum (inodes s i) = inum"
    by (auto simp: iget_find_def find_Some_iff)
  have "ip = i" "t = s\<lparr>inodes := (inodes s)(i := (inodes s i)\<lparr>i_ref := i_ref (inodes s i) + 1\<rparr>)\<rparr>"
    using r iget_hit [OF Some] by auto
  moreover have "icache_ok ((inodes s)(i := (inodes s i)\<lparr>i_ref := i_ref (inodes s i) + 1\<rparr>))"
  proof (rule icache_upd [OF ok])
    fix j assume "j < NINODE" "j \<noteq> i" "0 < i_ref (inodes s j)"
    then show "(i_dev (inodes s j), i_inum (inodes s j)) \<noteq> (i_dev ((inodes s i)\<lparr>i_ref := i_ref (inodes s i) + 1\<rparr>),
        i_inum ((inodes s i)\<lparr>i_ref := i_ref (inodes s i) + 1\<rparr>))"
      using icache_inj [OF ok, of j i] i by auto
  qed (use i in simp)
  ultimately show ?thesis using i by simp
next
  case None
  then have free: "\<not> (0 < i_ref (inodes s j) \<and> i_dev (inodes s j) = dev \<and> i_inum (inodes s j) = inum)" if "j < NINODE" for j
    using that by (auto simp: iget_find_def find_None_iff)
  obtain i where i: "iget_empty (inodes s) = Some i"
    using r None by (auto simp: iget_def andthen_def gets_def stop_def split: option.splits)
  then have i0: "i < NINODE" "i_ref (inodes s i) = 0" by (auto simp: iget_empty_def find_Some_iff)
  have "ip = i" "t = s\<lparr>inodes := (inodes s)(i := (inodes s i)\<lparr>i_dev := dev, i_inum := inum, i_ref := 1, i_flags := {}\<rparr>)\<rparr>"
    using r None i by (auto simp: iget_def andthen_def gets_def seti_def upd_def ret_def)
  moreover have "icache_ok ((inodes s)(i := (inodes s i)\<lparr>i_dev := dev, i_inum := inum, i_ref := 1, i_flags := {}\<rparr>))"
    by (rule icache_upd [OF ok]) (use free in auto)
  ultimately show ?thesis using i0 by simp
qed

text \<open>
  C36: \<^verbatim>\<open>iget\<close> keeps at most one cache entry per inode, counts the reference it returns, changes no other entry, and returns the same
  entry again while the inode is cached.
\<close>

theorem iget_unique:
  assumes "icache_ok (inodes s)" and "iget dev inum s = Inr (ip, t)"
  shows "icache_ok (inodes t) \<and> ip < NINODE \<and> i_dev (inodes t ip) = dev \<and> i_inum (inodes t ip) = inum
     \<and> i_ref (inodes t ip) = i_ref (inodes s ip) + 1 \<and> (\<forall>j. j \<noteq> ip \<longrightarrow> inodes t j = inodes s j)
     \<and> (\<exists>u. iget dev inum t = Inr (ip, u))"
proof -
  note c = iget_cases [OF assms]
  have pos: "0 < i_ref (inodes t ip)" using assms(1) c by (auto simp: icache_ok_def)
  then obtain i where i: "iget_find dev inum (inodes t) = Some i"
    using c by (cases "iget_find dev inum (inodes t)") (auto simp: iget_find_def find_None_iff)
  then have "i < NINODE" "0 < i_ref (inodes t i)" "i_dev (inodes t i) = dev" "i_inum (inodes t i) = inum"
    by (auto simp: iget_find_def find_Some_iff)
  then have "i = ip" using c pos by (intro icache_inj [of "inodes t"]) simp_all
  then show ?thesis using c iget_hit [OF i] by simp
qed

definition empty_icache :: "fs \<Rightarrow> fs" where
  "empty_icache s = s\<lparr>inodes := (\<lambda>_. \<lparr>i_dev = 0, i_inum = 0, i_ref = 0, i_flags = {}, i_type = 0, i_major = 0, i_minor = 0, i_nlink = 0,
     i_size = 0, i_addrs = (\<lambda>_. 0)\<rparr>)\<rparr>"

theorem iget_unique_witness:
  "\<exists>ip t. iget ROOTDEV ROOTINO (empty_icache undefined) = Inr (ip, t) \<and> i_inum (inodes t ip) = ROOTINO"
proof -
  have "icache_ok (inodes (empty_icache undefined))" by (simp add: icache_ok_def empty_icache_def)
  moreover obtain ip t where "iget ROOTDEV ROOTINO (empty_icache undefined) = Inr (ip, t)"
  proof -
    have "iget_find ROOTDEV ROOTINO (inodes (empty_icache undefined)) = None" "iget_empty (inodes (empty_icache undefined)) = Some 0"
      by (simp_all add: iget_find_def find_None_iff iget_empty_def empty_icache_def NINODE_def upt_rec [of 0])
    then show ?thesis using that by (simp add: iget_def andthen_def gets_def seti_def upd_def ret_def)
  qed
  ultimately show ?thesis using iget_unique by blast
qed

end
