(* ===== verification/Kalloc.thy ===== *)
theory Kalloc
  imports Memory
begin

text \<open>
  The page allocator of \<^verbatim>\<open>kalloc.c\<close>: free pages are linked through their own first word. The free list
  is proved to behave as a stack of distinct pages, and the allocator is offered to its clients as the
  interface \<open>page_allocator\<close>.
\<close>

section \<open>Operations\<close>

definition PGSIZE :: u32 where "PGSIZE = 4096"
definition KERNBASE :: u32 where "KERNBASE = 0x80000000"
definition PHYSTOP :: u32 where "PHYSTOP = 0xE000000"

definition v2p :: "u32 \<Rightarrow> u32" where "v2p a = a - KERNBASE"
definition p2v :: "u32 \<Rightarrow> u32" where "p2v a = a + KERNBASE"

definition PGROUNDUP :: "u32 \<Rightarrow> u32" where
  "PGROUNDUP sz = (sz + PGSIZE - 1) AND NOT (PGSIZE - 1)"

definition PGROUNDDOWN :: "u32 \<Rightarrow> u32" where
  "PGROUNDDOWN a = a AND NOT (PGSIZE - 1)"

text \<open>\<^verbatim>\<open>kmem\<close> with the memory it manages; \<^verbatim>\<open>end\<close>, which the linker sets, is the field \<open>kend\<close>.\<close>

record kmem =
  kram :: mem
  use_lock :: bool
  freelist :: u32
  kend :: u32

definition kfree :: "u32 \<Rightarrow> (kmem, unit) kop" where
  "kfree v =
     andthen (gets kend) (\<lambda>e.
     andthen (panic_if (v mod PGSIZE \<noteq> 0 \<or> v < e \<or> v2p v \<ge> PHYSTOP) ''kfree'') (\<lambda>_.
     andthen (upd (\<lambda>s. s\<lparr>kram := memset v 1 PGSIZE (kram s)\<rparr>)) (\<lambda>_.
     andthen (upd (\<lambda>s. s\<lparr>kram := mput32 (kram s) v (freelist s)\<rparr>)) (\<lambda>_.
     upd (\<lambda>s. s\<lparr>freelist := v\<rparr>)))))"

definition kalloc :: "(kmem, u32) kop" where
  "kalloc =
     andthen (gets freelist) (\<lambda>r.
     andthen (if r \<noteq> 0 then upd (\<lambda>s. s\<lparr>freelist := mget32 (kram s) r\<rparr>) else ret ()) (\<lambda>_.
     ret r))"

text \<open>
  The loop frees one page after another. A run of it frees at most \<open>2 ^ 20\<close> pages, the number there are
  in the address space, before an address is not below \<^verbatim>\<open>vend\<close> or \<^verbatim>\<open>kfree\<close> panics.
\<close>

fun freerange_loop :: "nat \<Rightarrow> u32 \<Rightarrow> u32 \<Rightarrow> (kmem, unit) kop" where
  "freerange_loop 0 p vend = stop (Undef ''freerange'')"
| "freerange_loop (Suc n) p vend =
     (if p + PGSIZE \<le> vend then andthen (kfree p) (\<lambda>_. freerange_loop n (p + PGSIZE) vend) else ret ())"

definition freerange :: "u32 \<Rightarrow> u32 \<Rightarrow> (kmem, unit) kop" where
  "freerange vstart vend = freerange_loop (Suc (2 ^ 20)) (PGROUNDUP vstart) vend"

definition kinit1 :: "u32 \<Rightarrow> u32 \<Rightarrow> (kmem, unit) kop" where
  "kinit1 vstart vend = andthen (upd (\<lambda>s. s\<lparr>use_lock := False\<rparr>)) (\<lambda>_. freerange vstart vend)"

definition kinit2 :: "u32 \<Rightarrow> u32 \<Rightarrow> (kmem, unit) kop" where
  "kinit2 vstart vend = andthen (freerange vstart vend) (\<lambda>_. upd (\<lambda>s. s\<lparr>use_lock := True\<rparr>))"

section \<open>The free list\<close>

text \<open>A page \<^verbatim>\<open>kfree\<close> accepts.\<close>

definition page_ok :: "u32 \<Rightarrow> u32 \<Rightarrow> bool" where
  "page_ok e v \<longleftrightarrow> v mod PGSIZE = 0 \<and> e \<le> v \<and> v2p v < PHYSTOP"

primrec free_pages :: "mem \<Rightarrow> u32 \<Rightarrow> u32 \<Rightarrow> u32 list \<Rightarrow> bool" where
  "free_pages m e r [] \<longleftrightarrow> r = 0"
| "free_pages m e r (p # ps) \<longleftrightarrow> r = p \<and> page_ok e p \<and> free_pages m e (mget32 m p) ps"

definition kmem_ok :: "u32 list \<Rightarrow> kmem \<Rightarrow> bool" where
  "kmem_ok ps s \<longleftrightarrow> free_pages (kram s) (kend s) (freelist s) ps \<and> distinct ps \<and> 0 < kend s"

text \<open>The bytes of a page.\<close>

definition in_page :: "u32 \<Rightarrow> u32 \<Rightarrow> bool" where
  "in_page v a \<longleftrightarrow> unat (a - v) < unat PGSIZE"

lemma mget32_mput32 [simp]: "mget32 (mput32 m a v) a = v"
  by (simp add: mget32_def mput32_def)

lemma mget32_cong: "(\<And>i. unat (i - a) < 4 \<Longrightarrow> m i = m' i) \<Longrightarrow> mget32 m a = mget32 m' a"
  by (simp add: mget32_def)

lemma mput32_outside: "\<not> unat (i - a) < 4 \<Longrightarrow> mput32 m a v i = m i"
  by (auto simp: mput32_def)

lemma page_offset:
  fixes v a :: u32
  assumes "v mod PGSIZE = 0" and "in_page v a"
  shows "unat (a - v) = unat a mod 4096"
proof -
  have "unat (v mod PGSIZE) = 0" using assms(1) by simp
  then have v: "unat v mod 4096 = 0" by (simp add: unat_mod PGSIZE_def)
  have b: "unat (a - v) < 4096" using assms(2) by (simp add: in_page_def PGSIZE_def)
  have "unat a = unat (v + (a - v))" by simp
  also have "\<dots> = (unat v + unat (a - v)) mod 2 ^ 32" by (simp only: unat_word_ariths) simp
  finally have "unat a mod 4096 = (unat v + unat (a - v)) mod 2 ^ 32 mod 4096" by simp
  also have "\<dots> = (unat v + unat (a - v)) mod 4096" by (rule mod_mod_cancel) simp
  also have "\<dots> = unat (a - v)" using v b by (metis add_0 mod_add_left_eq mod_less)
  finally show ?thesis by simp
qed

lemma pages_apart:
  assumes "v mod PGSIZE = 0" "w mod PGSIZE = 0" "in_page v a" "in_page w a"
  shows "v = w"
proof -
  have "unat (a - v) = unat (a - w)" using page_offset [OF assms(1,3)] page_offset [OF assms(2,4)] by simp
  then have "a - v = a - w" by (simp add: word_unat_eq_iff)
  then show ?thesis by simp
qed

lemma word_in_page: "unat (i - v) < 4 \<Longrightarrow> in_page v i"
  by (simp add: in_page_def PGSIZE_def)

text \<open>Changing memory outside the free pages, or the contents of one page that is not free.\<close>

lemma free_pages_cong:
  "free_pages m e r ps \<Longrightarrow> (\<And>p i. p \<in> set ps \<Longrightarrow> in_page p i \<Longrightarrow> m' i = m i) \<Longrightarrow> free_pages m' e r ps"
proof (induction ps arbitrary: r)
  case (Cons p ps)
  have "mget32 m' p = mget32 m p" by (rule mget32_cong) (use Cons.prems word_in_page in auto)
  with Cons show ?case by auto
qed simp

lemma free_pages_ok: "free_pages m e r ps \<Longrightarrow> p \<in> set ps \<Longrightarrow> page_ok e p"
  by (induction ps arbitrary: r) auto

lemma page_ok_nonnull: "page_ok e p \<Longrightarrow> 0 < e \<Longrightarrow> p \<noteq> 0"
  by (auto simp: page_ok_def)

lemma kalloc_wp:
  assumes "kmem_ok ps s"
  shows "wp kalloc (\<lambda>r t. kram t = kram s \<and> kend t = kend s \<and>
     (if ps = [] then r = 0 \<and> t = s else r = hd ps \<and> r \<noteq> 0 \<and> kmem_ok (tl ps) t)) s"
proof (cases ps)
  case Nil
  with assms show ?thesis by (simp add: kalloc_def wp_simps kmem_ok_def)
next
  case (Cons p qs)
  with assms have "p \<noteq> 0" using page_ok_nonnull by (auto simp: kmem_ok_def)
  with Cons assms show ?thesis by (auto simp: kalloc_def wp_simps kmem_ok_def)
qed

lemma kfree_wp:
  assumes ok: "kmem_ok ps s" and v: "page_ok (kend s) v" "v \<notin> set ps"
  shows "wp (kfree v) (\<lambda>_ t. kmem_ok (v # ps) t \<and> kend t = kend s \<and> (\<forall>i. \<not> in_page v i \<longrightarrow> kram t i = kram s i)) s"
proof -
  let ?m = "mput32 (memset v 1 PGSIZE (kram s)) v (freelist s)"
  have same: "?m i = kram s i" if "\<not> in_page v i" for i
  proof -
    have "\<not> unat (i - v) < 4" using that word_in_page by blast
    then show ?thesis using that by (simp add: mput32_outside memset_eq in_page_def)
  qed
  have "free_pages ?m (kend s) (freelist s) ps"
  proof (rule free_pages_cong)
    fix p i assume p: "p \<in> set ps" "in_page p i"
    then have "page_ok (kend s) p" using ok free_pages_ok by (auto simp: kmem_ok_def)
    then have "\<not> in_page v i" using pages_apart [of p v i] p v by (auto simp: page_ok_def)
    then show "?m i = kram s i" by (rule same)
  qed (use ok in \<open>simp add: kmem_ok_def\<close>)
  with same ok v show ?thesis
    by (simp add: kfree_def wp_simps kmem_ok_def page_ok_def linorder_not_less linorder_not_le)
qed

lemma kfree_panics:
  assumes "\<not> page_ok (kend s) v"
  shows "kfree v s = Inl (Panic ''kfree'')"
proof -
  have "v mod PGSIZE \<noteq> 0 \<or> v < kend s \<or> v2p v \<ge> PHYSTOP" using assms unfolding page_ok_def by (meson not_le)
  then show ?thesis by (simp add: kfree_def kop_defs)
qed


section \<open>The interface of the allocator\<close>

text \<open>
  \<open>ok F s\<close>: the free pages are \<open>F\<close>. A client may change memory outside the free pages as it likes.
\<close>

locale page_allocator =
  fixes ok :: "u32 set \<Rightarrow> 's \<Rightarrow> bool" and ram :: "'s \<Rightarrow> mem" and set_ram :: "mem \<Rightarrow> 's \<Rightarrow> 's"
    and good :: "u32 \<Rightarrow> bool" and alloc :: "('s, u32) kop" and free :: "u32 \<Rightarrow> ('s, unit) kop"
  assumes alloc: "ok F s \<Longrightarrow> wp alloc (\<lambda>r t. ram t = ram s \<and>
      (if F = {} then r = 0 \<and> t = s else r \<in> F \<and> r \<noteq> 0 \<and> ok (F - {r}) t)) s"
    and free: "ok F s \<Longrightarrow> good v \<Longrightarrow> v \<notin> F \<Longrightarrow>
      wp (free v) (\<lambda>_ t. ok (insert v F) t \<and> (\<forall>i. \<not> in_page v i \<longrightarrow> ram t i = ram s i)) s"
    and good: "ok F s \<Longrightarrow> p \<in> F \<Longrightarrow> good p" "good p \<Longrightarrow> p mod PGSIZE = 0"
    and frame: "ok F s \<Longrightarrow> (\<And>p i. p \<in> F \<Longrightarrow> in_page p i \<Longrightarrow> m i = ram s i) \<Longrightarrow> ok F (set_ram m s)"
    and ram: "ram (set_ram m s) = m"
begin

text \<open>A page that was allocated can be filled without disturbing the allocator.\<close>

lemma fill_allocated:
  assumes "ok F s" and "good p" and "p \<notin> F" and "\<And>i. \<not> in_page p i \<Longrightarrow> m i = ram s i"
  shows "ok F (set_ram m s)"
proof (rule frame [OF assms(1)])
  fix q i assume q: "q \<in> F" "in_page q i"
  have "q \<noteq> p" using q assms(3) by blast
  then have "\<not> in_page p i" using q good(2) good(1) [OF assms(1) q(1)] assms(2) pages_apart by blast
  then show "m i = ram s i" by (rule assms(4))
qed

text \<open>Allocating a page and filling it: the rest of memory and the remaining free pages are untouched.\<close>

lemma alloc_filled:
  assumes ok: "ok F s" and ne: "F \<noteq> {}" and fill: "\<And>p m i. \<not> in_page p i \<Longrightarrow> f p m i = m i"
  shows "wp (andthen alloc (\<lambda>p. andthen (upd (\<lambda>s. set_ram (f p (ram s)) s)) (\<lambda>_. ret p)))
     (\<lambda>p t. p \<in> F \<and> p \<noteq> 0 \<and> ok (F - {p}) t \<and> ram t = f p (ram s)) s"
proof -
  have "ok (F - {p}) (set_ram (f p (ram s)) t)" if "ok (F - {p}) t" "p \<in> F" "ram t = ram s" for p t
    using that fill good(1) [OF ok that(2)] by (intro fill_allocated [where p = p]) auto
  then show ?thesis
    unfolding wp_andthen wp_upd wp_ret by (intro wp_conseq [OF alloc [OF ok]]) (use ne in \<open>auto simp: ram\<close>)
qed

end

definition free_set :: "u32 \<Rightarrow> u32 set \<Rightarrow> kmem \<Rightarrow> bool" where
  "free_set e F s \<longleftrightarrow> kend s = e \<and> (\<exists>ps. set ps = F \<and> kmem_ok ps s)"

interpretation pa: page_allocator "free_set e" kram "\<lambda>m s. s\<lparr>kram := m\<rparr>" "page_ok e" kalloc kfree for e
proof (unfold_locales, goal_cases)
  case (1 F s)
  then obtain ps where ps: "set ps = F" "kmem_ok ps s" "kend s = e" by (auto simp: free_set_def)
  show ?case
  proof (rule wp_conseq [OF kalloc_wp [OF ps(2)]])
    fix r t assume t: "kram t = kram s \<and> kend t = kend s \<and>
      (if ps = [] then r = 0 \<and> t = s else r = hd ps \<and> r \<noteq> 0 \<and> kmem_ok (tl ps) t)"
    show "kram t = kram s \<and> (if F = {} then r = 0 \<and> t = s else r \<in> F \<and> r \<noteq> 0 \<and> free_set e (F - {r}) t)"
    proof (cases ps)
      case (Cons p qs)
      then have "F - {p} = set qs" using ps by (auto simp: kmem_ok_def)
      with Cons t ps show ?thesis by (auto simp: free_set_def)
    qed (use t ps in auto)
  qed
next
  case (2 F s v)
  then obtain ps where ps: "set ps = F" "kmem_ok ps s" "kend s = e" by (auto simp: free_set_def)
  with 2 show ?case
    by (intro wp_conseq [OF kfree_wp [OF ps(2)]]) (auto simp: free_set_def intro!: exI [of _ "v # ps"])
next
  case (3 F s p)
  then show ?case using free_pages_ok by (auto simp: free_set_def kmem_ok_def)
next
  case (4 p)
  then show ?case by (simp add: page_ok_def)
next
  case (5 F s m)
  then obtain ps where ps: "set ps = F" "kmem_ok ps s" "kend s = e" by (auto simp: free_set_def)
  have "free_pages m e (freelist s) ps"
    using ps 5(2) free_pages_cong [of "kram s" e "freelist s" ps m] by (auto simp: kmem_ok_def)
  with ps show ?case by (auto simp: free_set_def kmem_ok_def)
qed simp

section \<open>Properties\<close>

text \<open>
  The free list is a stack of distinct pages. Freeing a page that is not free pushes it and \<^verbatim>\<open>kalloc\<close>
  pops the page freed last; neither touches memory outside the freed page, and the pages below stay in order.
\<close>

theorem kfree_then_kalloc:
  assumes "kmem_ok ps s" and "page_ok (kend s) v" and "v \<notin> set ps"
  shows "\<exists>t u. kfree v s = Inr ((), t) \<and> kmem_ok (v # ps) t \<and> (\<forall>i. \<not> in_page v i \<longrightarrow> kram t i = kram s i)
     \<and> kalloc t = Inr (v, u) \<and> kmem_ok ps u \<and> kram u = kram t"
proof -
  obtain t where t: "kfree v s = Inr ((), t)" "kmem_ok (v # ps) t" "\<forall>i. \<not> in_page v i \<longrightarrow> kram t i = kram s i"
    using wpD [OF kfree_wp [OF assms]] by auto
  obtain u where "kalloc t = Inr (v, u)" "kmem_ok ps u" "kram u = kram t"
    using wpD [OF kalloc_wp [OF t(2)]] by auto
  with t show ?thesis by blast
qed

definition empty_kmem :: kmem where
  "empty_kmem = \<lparr>kram = (\<lambda>_. 0), use_lock = False, freelist = 0, kend = 0x80100000\<rparr>"

theorem kfree_then_kalloc_witness:
  "\<exists>t u. kfree 0x80200000 empty_kmem = Inr ((), t) \<and> kmem_ok [0x80200000] t \<and> kalloc t = Inr (0x80200000, u) \<and> kmem_ok [] u"
proof -
  have "kmem_ok [] empty_kmem" by (simp add: kmem_ok_def empty_kmem_def)
  moreover have "page_ok (kend empty_kmem) 0x80200000"
    by (simp add: page_ok_def empty_kmem_def PGSIZE_def v2p_def KERNBASE_def PHYSTOP_def)
  ultimately show ?thesis
    using kfree_then_kalloc [of "[]" empty_kmem "0x80200000"] by auto
qed

end
