(* ===== verification/Pipe.thy ===== *)
theory Pipe
  imports Ring
begin

text \<open>
  The pipes of \<^verbatim>\<open>pipe.c\<close>: a ring of 512 bytes with free-running 32-bit counters. Reader and writer are
  modelled up to the points where they sleep, and any interleaving of them is proved to transport the
  bytes in order, without loss or duplication, across the wrap-around of the counters.
\<close>

section \<open>Operations\<close>

definition PIPESIZE :: u32 where "PIPESIZE = 512"

record pipe =
  p_data :: "u32 \<Rightarrow> u8"
  nread :: u32
  nwrite :: u32
  readopen :: bool
  writeopen :: bool

text \<open>The fields \<^verbatim>\<open>pipealloc\<close> gives to the page it got from \<^verbatim>\<open>kalloc\<close> (the array is left as it is).\<close>

definition pipe_init :: "pipe \<Rightarrow> pipe" where
  "pipe_init p = p\<lparr>readopen := True, writeopen := True, nwrite := 0, nread := 0\<rparr>"

text \<open>\<^verbatim>\<open>pipeclose\<close>: the pipe, the channel woken, and whether the page is freed.\<close>

definition pipeclose :: "nat \<Rightarrow> bool \<Rightarrow> pipe \<Rightarrow> pipe \<times> chan \<times> bool" where
  "pipeclose me writable p =
     (let (p', ch) = (if writable then (p\<lparr>writeopen := False\<rparr>, Ch_pipe_nread me)
                      else (p\<lparr>readopen := False\<rparr>, Ch_pipe_nwrite me))
      in (p', ch, \<not> readopen p' \<and> \<not> writeopen p'))"

text \<open>
  How a call ends or pauses: it returns a value, or it sleeps; a writer that sleeps has stored the first \<open>i\<close>
  bytes and goes on with the test of its inner loop.
\<close>

datatype pipe_result = Returns int | Sleeps nat

fun pipewrite_from :: "bool \<Rightarrow> nat \<Rightarrow> u8 list \<Rightarrow> nat \<Rightarrow> pipe \<Rightarrow> pipe_result \<times> pipe" where
  "pipewrite_from killed n [] i p = (Returns (int n), p)"
| "pipewrite_from killed n (c # cs) i p =
     (if nwrite p = nread p + PIPESIZE then
        if \<not> readopen p \<or> killed then (Returns (-1), p) else (Sleeps i, p)
      else pipewrite_from killed n cs (Suc i)
             (p\<lparr>p_data := (p_data p)(nwrite p mod PIPESIZE := c), nwrite := nwrite p + 1\<rparr>))"

text \<open>A call of \<^verbatim>\<open>pipewrite\<close> with \<^verbatim>\<open>addr[0..n)\<close>, or its continuation from index \<open>i\<close> after it slept.\<close>

definition pipewrite :: "bool \<Rightarrow> u8 list \<Rightarrow> nat \<Rightarrow> pipe \<Rightarrow> pipe_result \<times> pipe" where
  "pipewrite killed addr i p = pipewrite_from killed (length addr) (drop i addr) i p"

fun piperead_copy :: "nat \<Rightarrow> pipe \<Rightarrow> u8 list \<times> pipe" where
  "piperead_copy 0 p = ([], p)"
| "piperead_copy (Suc n) p =
     (if nread p = nwrite p then ([], p)
      else let c = p_data p (nread p mod PIPESIZE);
               (cs, p') = piperead_copy n (p\<lparr>nread := nread p + 1\<rparr>)
           in (c # cs, p'))"

definition piperead :: "bool \<Rightarrow> nat \<Rightarrow> pipe \<Rightarrow> pipe_result \<times> u8 list \<times> pipe" where
  "piperead killed n p =
     (if nread p = nwrite p \<and> writeopen p then
        if killed then (Returns (-1), [], p) else (Sleeps 0, [], p)
      else let (cs, p') = piperead_copy n p in (Returns (int (length cs)), cs, p'))"

section \<open>The contents of a pipe\<close>

definition pipe_len :: "pipe \<Rightarrow> nat" where
  "pipe_len p = unat (nwrite p - nread p)"

definition contents :: "pipe \<Rightarrow> u8 list" where
  "contents p = ring PIPESIZE (p_data p) (nread p) (nwrite p)"

definition pipe_ok :: "pipe \<Rightarrow> bool" where
  "pipe_ok p \<longleftrightarrow> pipe_len p \<le> 512"

lemma length_contents [simp]: "length (contents p) = pipe_len p"
  by (simp add: contents_def pipe_len_def)

lemma pipe_ring: "ring_size PIPESIZE" "unat PIPESIZE = 512"
  by (simp_all add: ring_size_def PIPESIZE_def)

lemma full_iff: "nwrite p = nread p + PIPESIZE \<longleftrightarrow> pipe_len p = 512"
proof -
  have "nwrite p = nread p + PIPESIZE \<longleftrightarrow> nwrite p - nread p = 512" by (auto simp: PIPESIZE_def diff_eq_eq add.commute)
  then show ?thesis by (simp add: pipe_len_def word_unat_eq_iff)
qed

lemma empty_iff: "nread p = nwrite p \<longleftrightarrow> pipe_len p = 0"
  by (auto simp: pipe_len_def unat_eq_0)

text \<open>Storing one byte, and taking one.\<close>

definition put_byte :: "u8 \<Rightarrow> pipe \<Rightarrow> pipe" where
  "put_byte c p = p\<lparr>p_data := (p_data p)(nwrite p mod PIPESIZE := c), nwrite := nwrite p + 1\<rparr>"

lemma put_byte_contents:
  assumes "pipe_len p < 512"
  shows "contents (put_byte c p) = contents p @ [c]" "pipe_len (put_byte c p) = Suc (pipe_len p)"
  using ring_push [OF pipe_ring(1), of "nwrite p" "nread p"] assms
  by (simp_all add: contents_def put_byte_def pipe_len_def pipe_ring)

lemma take_byte_contents:
  assumes "0 < pipe_len p"
  shows "contents p = p_data p (nread p mod PIPESIZE) # contents (p\<lparr>nread := nread p + 1\<rparr>)"
    "pipe_len (p\<lparr>nread := nread p + 1\<rparr>) = pipe_len p - 1"
proof -
  have "nread p \<noteq> nwrite p" using assms by (auto simp: empty_iff)
  then show "contents p = p_data p (nread p mod PIPESIZE) # contents (p\<lparr>nread := nread p + 1\<rparr>)"
    "pipe_len (p\<lparr>nread := nread p + 1\<rparr>) = pipe_len p - 1"
    using ring_pop by (simp_all add: contents_def pipe_len_def)
qed

section \<open>The operations on the contents\<close>

lemma pipewrite_from_contents:
  assumes "pipe_ok p" and "pipewrite_from killed n cs i p = (r, q)"
  shows "pipe_ok q \<and> (\<exists>k \<le> length cs. contents q = contents p @ take k cs
     \<and> (case r of Returns v \<Rightarrow> v = int n \<and> k = length cs \<or> v = -1 \<and> k < length cs \<and> pipe_len q = 512 \<and> (killed \<or> \<not> readopen q)
        | Sleeps j \<Rightarrow> j = i + k \<and> k < length cs \<and> pipe_len q = 512 \<and> readopen q \<and> \<not> killed))
     \<and> nread q = nread p \<and> readopen q = readopen p \<and> writeopen q = writeopen p"
  using assms
proof (induction killed n cs i p rule: pipewrite_from.induct)
  case (1 killed n i p)
  then show ?case by auto
next
  case (2 killed n c cs i p)
  show ?case
  proof (cases "pipe_len p = 512")
    case True
    with 2(2,3) show ?thesis by (auto simp: full_iff split: if_splits intro!: exI [of _ 0])
  next
    case False
    with 2(2) have lt: "pipe_len p < 512" by (simp add: pipe_ok_def)
    have run: "pipewrite_from killed n cs (Suc i) (put_byte c p) = (r, q)"
      using 2(3) False by (simp add: full_iff put_byte_def)
    have "pipe_ok (put_byte c p)" using lt put_byte_contents(2) [OF lt] by (simp add: pipe_ok_def)
    then have IH: "pipe_ok q \<and> (\<exists>k \<le> length cs. contents q = contents (put_byte c p) @ take k cs
     \<and> (case r of Returns v \<Rightarrow> v = int n \<and> k = length cs \<or> v = -1 \<and> k < length cs \<and> pipe_len q = 512 \<and> (killed \<or> \<not> readopen q)
        | Sleeps j \<Rightarrow> j = Suc i + k \<and> k < length cs \<and> pipe_len q = 512 \<and> readopen q \<and> \<not> killed))
     \<and> nread q = nread (put_byte c p) \<and> readopen q = readopen (put_byte c p) \<and> writeopen q = writeopen (put_byte c p)"
      using 2(1) [OF _ _ run [unfolded put_byte_def]] False by (simp add: full_iff put_byte_def)
    then obtain k where k: "k \<le> length cs" "contents q = contents p @ c # take k cs"
      "case r of Returns v \<Rightarrow> v = int n \<and> k = length cs \<or> v = -1 \<and> k < length cs \<and> pipe_len q = 512 \<and> (killed \<or> \<not> readopen q)
        | Sleeps j \<Rightarrow> j = Suc i + k \<and> k < length cs \<and> pipe_len q = 512 \<and> readopen q \<and> \<not> killed"
      by (auto simp: put_byte_contents(1) [OF lt])
    show ?thesis
      using IH k by (intro conjI exI [of _ "Suc k"]) (auto simp: put_byte_def split: pipe_result.splits)
  qed
qed

lemma piperead_copy_contents:
  assumes "piperead_copy n p = (cs, q)"
  shows "contents p = cs @ contents q \<and> length cs = min n (pipe_len p) \<and> pipe_len q = pipe_len p - length cs
     \<and> nwrite q = nwrite p \<and> readopen q = readopen p \<and> writeopen q = writeopen p"
  using assms
proof (induction n arbitrary: p cs)
  case (Suc n)
  show ?case
  proof (cases "pipe_len p = 0")
    case True
    with Suc.prems show ?thesis by (auto simp: empty_iff)
  next
    case False
    then obtain ds where ds: "piperead_copy n (p\<lparr>nread := nread p + 1\<rparr>) = (ds, q)"
      "cs = p_data p (nread p mod PIPESIZE) # ds"
      using Suc.prems by (auto simp: empty_iff Let_def split: prod.splits)
    have "0 < pipe_len p" using False by simp
    with Suc.IH [OF ds(1)] ds(2) take_byte_contents [of p] show ?thesis by auto
  qed
qed auto


section \<open>Interleaved readers and writers\<close>

text \<open>
  A pipe with all bytes its writers have stored so far and all bytes its readers have got. Calls, and continuations of
  calls that slept, happen in any order; either end may be closed.
\<close>

inductive pipe_run :: "pipe \<Rightarrow> u8 list \<Rightarrow> u8 list \<Rightarrow> bool" where
  init: "pipe_run (pipe_init p) [] []"
| writes: "pipe_run p sent got \<Longrightarrow> pipewrite killed addr i p = (res, q) \<Longrightarrow>
    pipe_run q (sent @ take (unat (nwrite q - nwrite p)) (drop i addr)) got"
| reads: "pipe_run p sent got \<Longrightarrow> piperead killed n p = (res, cs, q) \<Longrightarrow> pipe_run q sent (got @ cs)"
| closes: "pipe_run p sent got \<Longrightarrow> pipeclose me w p = (q, ch, freed) \<Longrightarrow> pipe_run q sent got"

lemma stored_count:
  assumes "nread q = nread p" and "pipe_len q = pipe_len p + k" and "k \<le> 512"
  shows "unat (nwrite q - nwrite p) = k"
proof -
  have "nwrite q - nwrite p = (nwrite q - nread q) - (nwrite p - nread p)" using assms(1) by simp
  also have "\<dots> = of_nat (pipe_len q) - of_nat (pipe_len p)" by (simp add: pipe_len_def)
  also have "\<dots> = of_nat k" by (simp add: assms(2))
  finally show ?thesis using assms(3) by (simp add: unat_of_nat)
qed

lemma contents_cong:
  "nread q = nread p \<Longrightarrow> nwrite q = nwrite p \<Longrightarrow> p_data q = p_data p \<Longrightarrow> contents q = contents p \<and> pipe_ok q = pipe_ok p"
  by (simp add: contents_def pipe_ok_def pipe_len_def)

lemma pipe_run_contents: "pipe_run p sent got \<Longrightarrow> pipe_ok p \<and> sent = got @ contents p"
proof (induction rule: pipe_run.induct)
  case (init p)
  then show ?case by (simp add: pipe_ok_def pipe_len_def contents_def pipe_init_def)
next
  case (writes p sent got killed addr i res q)
  then obtain k where k: "k \<le> length (drop i addr)" "contents q = contents p @ take k (drop i addr)"
      "pipe_ok q" "nread q = nread p"
    using pipewrite_from_contents [of p killed "length addr" "drop i addr" i res q] by (auto simp: pipewrite_def)
  from k(2) have "length (contents q) = length (contents p) + k" using k(1) by simp
  then have len: "pipe_len q = pipe_len p + k" by simp
  with k(3) have "unat (nwrite q - nwrite p) = k" by (intro stored_count k(4)) (simp_all add: pipe_ok_def)
  with k writes show ?case by simp
next
  case (reads p sent got killed n res cs q)
  then show ?case
    using piperead_copy_contents [of n p cs q]
    by (auto simp: piperead_def pipe_ok_def split: if_splits prod.splits)
next
  case (closes p sent got me w q ch freed)
  then show ?case using contents_cong [of q p] by (auto simp: pipeclose_def split: if_splits)
qed

section \<open>Properties\<close>

text \<open>
  C37: pipes are FIFO. In any interleaving of writers and readers, including calls that slept and went on, the bytes
  stored so far are the bytes read so far followed by the contents of the ring, of which there are at most 512.
\<close>

theorem pipe_fifo:
  assumes "pipe_run p sent got"
  shows "sent = got @ contents p \<and> length (contents p) \<le> 512"
  using pipe_run_contents [OF assms] by (simp add: pipe_ok_def)

definition example_pipe :: pipe where
  "example_pipe = pipe_init \<lparr>p_data = (\<lambda>_. 0), nread = 5, nwrite = 9, readopen = False, writeopen = False\<rparr>"

theorem pipe_fifo_witness: "\<exists>q. pipe_run q [7, 8] [7] \<and> contents q = [8]"
proof -
  have "pipe_run example_pipe [] []" unfolding example_pipe_def by (rule pipe_run.init)
  moreover obtain q where q: "pipewrite False [7, 8] 0 example_pipe = (Returns 2, q)" "nwrite q = 2"
      "piperead False 1 q = (Returns 1, [7], q\<lparr>nread := 1\<rparr>)"
    by (simp add: pipewrite_def piperead_def example_pipe_def pipe_init_def PIPESIZE_def)
  ultimately have "pipe_run q [7, 8] []"
    using pipe_run.writes [of example_pipe "[]" "[]" False "[7, 8]" 0] by (force simp: example_pipe_def pipe_init_def)
  then have "pipe_run (q\<lparr>nread := 1\<rparr>) [7, 8] [7]" using pipe_run.reads [OF _ q(3)] by force
  moreover from this have "contents (q\<lparr>nread := 1\<rparr>) = [8]" using pipe_fifo by force
  ultimately show ?thesis by blast
qed

text \<open>
  How \<^verbatim>\<open>pipewrite\<close> ends. It returns \<open>n\<close> after storing all its bytes; it returns \<open>-1\<close> only when the ring is
  full and the read end is closed or the process was killed; it sleeps only when the ring is full, with a prefix of
  its bytes stored and the count of them remembered.
\<close>

theorem pipewrite_outcome:
  assumes "pipe_ok p" and "i \<le> length addr" and "pipewrite killed addr i p = (r, q)"
  shows "\<exists>k \<le> length addr - i. contents q = contents p @ take k (drop i addr)
     \<and> (case r of Returns v \<Rightarrow> v = int (length addr) \<and> i + k = length addr
            \<or> v = -1 \<and> i + k < length addr \<and> pipe_len q = 512 \<and> (killed \<or> \<not> readopen q)
        | Sleeps j \<Rightarrow> j = i + k \<and> j < length addr \<and> pipe_len q = 512 \<and> readopen q \<and> \<not> killed)"
proof -
  obtain k where k: "k \<le> length addr - i" "contents q = contents p @ take k (drop i addr)"
    "case r of Returns v \<Rightarrow> v = int (length addr) \<and> k = length addr - i
            \<or> v = -1 \<and> k < length addr - i \<and> pipe_len q = 512 \<and> (killed \<or> \<not> readopen q)
        | Sleeps j \<Rightarrow> j = i + k \<and> k < length addr - i \<and> pipe_len q = 512 \<and> readopen q \<and> \<not> killed"
    using pipewrite_from_contents [OF assms(1) assms(3) [unfolded pipewrite_def]] unfolding length_drop by blast
  with assms(2) show ?thesis by (intro exI [of _ k]) (auto split: pipe_result.splits)
qed

theorem pipewrite_outcome_witness:
  "\<exists>k \<le> 2. contents (snd (pipewrite False [7, 8] 0 example_pipe)) = contents example_pipe @ take k [7, 8]"
proof -
  have "pipe_ok example_pipe" by (simp add: pipe_ok_def pipe_len_def example_pipe_def pipe_init_def)
  then show ?thesis
    using pipewrite_outcome [of example_pipe 0 "[7, 8]" False "fst (pipewrite False [7, 8] 0 example_pipe)"
        "snd (pipewrite False [7, 8] 0 example_pipe)"] by (auto simp: numeral_2_eq_2)
qed

end
