(* ===== verification/File.thy ===== *)
theory File
  imports Content Names Kalloc Pipe
begin

text \<open>
  The file layer: the open-file table of \<^verbatim>\<open>file.c\<close>, \<^verbatim>\<open>pipealloc\<close> of \<^verbatim>\<open>pipe.c\<close>, and the files a process has open.
  A file pointer is the index of its table entry, a pipe is known by the page that holds it.
\<close>

section \<open>State\<close>

definition NFILE :: nat where "NFILE = 100"
definition NOFILE :: nat where "NOFILE = 16"

datatype ftype = FD_NONE | FD_PIPE | FD_INODE

record file_struct =
  f_type :: ftype
  f_ref :: int
  f_readable :: bool
  f_writable :: bool
  f_pipe :: u32
  f_ip :: nat
  f_off :: u32

text \<open>
  The kernel below the system calls: file system, file table, page allocator with the pipes allocated from it,
  and of the current process its open files, its size, its user stack pointer and its user memory.
\<close>

record sys =
  sfs :: fs
  ftable :: "nat \<Rightarrow> file_struct"
  kpages :: kmem
  pipes :: "u32 \<Rightarrow> pipe"
  ofile :: "nat \<Rightarrow> nat option"
  psz :: u32
  pesp :: u32
  umem :: mem

definition sf :: "(fs, 'a) kop \<Rightarrow> (sys, 'a) kop" where
  "sf = zoom sfs (\<lambda>f s. s\<lparr>sfs := f\<rparr>)"

definition sk :: "(kmem, 'a) kop \<Rightarrow> (sys, 'a) kop" where
  "sk = zoom kpages (\<lambda>k s. s\<lparr>kpages := k\<rparr>)"

definition getf :: "nat \<Rightarrow> (sys, file_struct) kop" where
  "getf f = gets (\<lambda>s. ftable s f)"

definition setf :: "nat \<Rightarrow> (file_struct \<Rightarrow> file_struct) \<Rightarrow> (sys, unit) kop" where
  "setf f g = upd (\<lambda>s. s\<lparr>ftable := (ftable s)(f := g (ftable s f))\<rparr>)"

section \<open>The file table\<close>

definition filealloc :: "(sys, nat option) kop" where
  "filealloc =
     andthen (gets (\<lambda>s. find (\<lambda>f. f_ref (ftable s f) = 0) [0..<NFILE])) (\<lambda>r.
     case r of
       Some f \<Rightarrow> andthen (setf f (\<lambda>x. x\<lparr>f_ref := 1\<rparr>)) (\<lambda>_. ret (Some f))
     | None \<Rightarrow> ret None)"

definition filedup :: "nat \<Rightarrow> (sys, nat) kop" where
  "filedup f =
     andthen (getf f) (\<lambda>x.
     andthen (panic_if (f_ref x < 1) ''filedup'') (\<lambda>_.
     andthen (setf f (\<lambda>x. x\<lparr>f_ref := f_ref x + 1\<rparr>)) (\<lambda>_.
     ret f)))"

text \<open>\<^verbatim>\<open>pipeclose\<close> on the pipe in page \<open>p\<close>, whose page is freed with its last end.\<close>

definition close_pipe :: "u32 \<Rightarrow> bool \<Rightarrow> (sys, unit) kop" where
  "close_pipe p writable =
     andthen (gets (\<lambda>s. pipeclose (unat p) writable (pipes s p))) (\<lambda>(q, ch, free).
     andthen (upd (\<lambda>s. s\<lparr>pipes := (pipes s)(p := q)\<rparr>)) (\<lambda>_.
     if free then sk (kfree p) else ret ()))"

definition fileclose :: "nat \<Rightarrow> (sys, unit) kop" where
  "fileclose f =
     andthen (getf f) (\<lambda>ff.
     andthen (panic_if (f_ref ff < 1) ''fileclose'') (\<lambda>_.
     if f_ref ff - 1 > 0 then setf f (\<lambda>x. x\<lparr>f_ref := f_ref x - 1\<rparr>)
     else
       andthen (setf f (\<lambda>x. x\<lparr>f_ref := 0, f_type := FD_NONE\<rparr>)) (\<lambda>_.
       case f_type ff of
         FD_PIPE \<Rightarrow> close_pipe (f_pipe ff) (f_writable ff)
       | FD_INODE \<Rightarrow>
           andthen (sf (fl begin_op)) (\<lambda>_.
           andthen (sf (iput (f_ip ff))) (\<lambda>_.
           sf (fl end_op)))
       | FD_NONE \<Rightarrow> ret ())))"

definition filestat :: "nat \<Rightarrow> (sys, stat option) kop" where
  "filestat f =
     andthen (getf f) (\<lambda>x.
     if f_type x = FD_INODE then
       andthen (sf (ilock (f_ip x))) (\<lambda>_.
       andthen (sf (stati (f_ip x))) (\<lambda>st.
       andthen (sf (iunlock (f_ip x))) (\<lambda>_.
       ret (Some st))))
     else ret None)"

text \<open>The value and the bytes stored at \<open>addr\<close>.\<close>

definition read_pipe :: "u32 \<Rightarrow> int \<Rightarrow> (sys, int \<times> u8 list) kop" where
  "read_pipe p n =
     andthen (gets (\<lambda>s. piperead (fkilled (sfs s)) (nat n) (pipes s p))) (\<lambda>(r, bs, q).
     case r of
       Sleeps _ \<Rightarrow> stop (Sleep (Ch_pipe_nread (unat p)))
     | Returns v \<Rightarrow> andthen (upd (\<lambda>s. s\<lparr>pipes := (pipes s)(p := q)\<rparr>)) (\<lambda>_. ret (v, bs)))"

definition write_pipe :: "u32 \<Rightarrow> bytes \<Rightarrow> int \<Rightarrow> (sys, int) kop" where
  "write_pipe p src n =
     (if n < 0 then ret n
      else
        andthen (gets (\<lambda>s. pipewrite (fkilled (sfs s)) (map src [0..<nat n]) 0 (pipes s p))) (\<lambda>(r, q).
        case r of
          Sleeps _ \<Rightarrow> stop (Sleep (Ch_pipe_nwrite (unat p)))
        | Returns v \<Rightarrow> andthen (upd (\<lambda>s. s\<lparr>pipes := (pipes s)(p := q)\<rparr>)) (\<lambda>_. ret v)))"

definition fileread :: "nat \<Rightarrow> int \<Rightarrow> (sys, int \<times> u8 list) kop" where
  "fileread f n =
     andthen (getf f) (\<lambda>x.
     if \<not> f_readable x then ret (-1, [])
     else case f_type x of
       FD_PIPE \<Rightarrow> read_pipe (f_pipe x) n
     | FD_INODE \<Rightarrow>
         andthen (sf (ilock (f_ip x))) (\<lambda>_.
         andthen (sf (readi (f_ip x) (f_off x) (of_int n))) (\<lambda>(r, bs).
         andthen (if r > 0 then setf f (\<lambda>x. x\<lparr>f_off := f_off x + of_int r\<rparr>) else ret ()) (\<lambda>_.
         andthen (sf (iunlock (f_ip x))) (\<lambda>_.
         ret (r, bs)))))
     | FD_NONE \<Rightarrow> stop (Panic ''fileread''))"

text \<open>The largest write that is done in one transaction.\<close>

definition max_write :: nat where "max_write = ((LOGSIZE - 1 - 1 - 2) div 2) * 512"

text \<open>The loop of \<^verbatim>\<open>filewrite\<close> with \<open>left = n - i\<close> bytes to go; the result says whether it ended with \<open>i == n\<close>.\<close>

function filewrite_loop :: "nat \<Rightarrow> bytes \<Rightarrow> nat \<Rightarrow> (sys, bool) kop" where
  "filewrite_loop f src left =
     (if left = 0 then ret True
      else
        let n1 = min left max_write in
        andthen (sf (fl begin_op)) (\<lambda>_.
        andthen (getf f) (\<lambda>x.
        andthen (sf (ilock (f_ip x))) (\<lambda>_.
        andthen (sf (writei (f_ip x) src (f_off x) (of_nat n1))) (\<lambda>r.
        andthen (if r > 0 then setf f (\<lambda>x. x\<lparr>f_off := f_off x + of_int r\<rparr>) else ret ()) (\<lambda>_.
        andthen (sf (iunlock (f_ip x))) (\<lambda>_.
        andthen (sf (fl end_op)) (\<lambda>_.
        if r < 0 then ret False
        else
          andthen (panic_if (r \<noteq> int n1) ''short filewrite'') (\<lambda>_.
          filewrite_loop f (\<lambda>j. src (n1 + j)) (left - n1))))))))))"
  by pat_completeness auto
termination by (relation "measure (\<lambda>(f, src, left). left)") (auto simp: max_write_def LOGSIZE_def MAXOPBLOCKS_def)

declare filewrite_loop.simps [simp del]

definition filewrite :: "nat \<Rightarrow> bytes \<Rightarrow> int \<Rightarrow> (sys, int) kop" where
  "filewrite f src n =
     andthen (getf f) (\<lambda>x.
     if \<not> f_writable x then ret (-1)
     else case f_type x of
       FD_PIPE \<Rightarrow> write_pipe (f_pipe x) src n
     | FD_INODE \<Rightarrow>
         if n < 0 then ret (-1)
         else andthen (filewrite_loop f src (nat n)) (\<lambda>done. ret (if done then n else -1))
     | FD_NONE \<Rightarrow> stop (Panic ''filewrite''))"

section \<open>Pipes\<close>

text \<open>The two files \<^verbatim>\<open>pipealloc\<close> returns, the reading end first; \<open>None\<close> for the result \<open>-1\<close>.\<close>

definition pipealloc_bad :: "nat option \<Rightarrow> nat option \<Rightarrow> (sys, (nat \<times> nat) option) kop" where
  "pipealloc_bad f0 f1 =
     andthen (case f0 of Some f \<Rightarrow> fileclose f | None \<Rightarrow> ret ()) (\<lambda>_.
     andthen (case f1 of Some f \<Rightarrow> fileclose f | None \<Rightarrow> ret ()) (\<lambda>_.
     ret None))"

definition pipealloc :: "(sys, (nat \<times> nat) option) kop" where
  "pipealloc =
     andthen filealloc (\<lambda>r0.
     case r0 of
       None \<Rightarrow> pipealloc_bad None None
     | Some f0 \<Rightarrow>
         andthen filealloc (\<lambda>r1.
         case r1 of
           None \<Rightarrow> pipealloc_bad (Some f0) None
         | Some f1 \<Rightarrow>
             andthen (sk kalloc) (\<lambda>p.
             if p = 0 then pipealloc_bad (Some f0) (Some f1)
             else
               andthen (upd (\<lambda>s. s\<lparr>pipes := (pipes s)(p := pipe_init (pipes s p))\<rparr>)) (\<lambda>_.
               andthen (setf f0 (\<lambda>x. x\<lparr>f_type := FD_PIPE, f_readable := True, f_writable := False, f_pipe := p\<rparr>)) (\<lambda>_.
               andthen (setf f1 (\<lambda>x. x\<lparr>f_type := FD_PIPE, f_readable := False, f_writable := True, f_pipe := p\<rparr>)) (\<lambda>_.
               ret (Some (f0, f1))))))))"

end
