(* ===== verification/Sysfile.thy ===== *)
theory Sysfile
  imports File
begin

text \<open>
  Fetching system call arguments (\<^verbatim>\<open>syscall.c\<close>) and the file system calls (\<^verbatim>\<open>sysfile.c\<close>). An argument that cannot be
  fetched is \<open>None\<close>; strings are the bytes before their NUL; local arrays a call does not initialise start as zeros.
\<close>

section \<open>Arguments\<close>

definition fetchint :: "u32 \<Rightarrow> sys \<Rightarrow> u32 option" where
  "fetchint addr s = (if addr \<ge> psz s \<or> addr + 4 > psz s then None else Some (mget32 (umem s) addr))"

definition fetchstr :: "u32 \<Rightarrow> sys \<Rightarrow> u8 list option" where
  "fetchstr addr s =
     (if addr \<ge> psz s then None
      else map_option (\<lambda>n. map (\<lambda>i. umem s (addr + of_nat i)) [0..<n])
        (find (\<lambda>i. umem s (addr + of_nat i) = 0) [0..<unat (psz s - addr)]))"

definition argint :: "nat \<Rightarrow> sys \<Rightarrow> u32 option" where
  "argint n s = fetchint (pesp s + 4 + 4 * of_nat n) s"

definition argptr :: "nat \<Rightarrow> int \<Rightarrow> sys \<Rightarrow> u32 option" where
  "argptr n sz s =
     (case argint n s of
        None \<Rightarrow> None
      | Some i \<Rightarrow> if i \<ge> psz s \<or> i + of_int sz > psz s then None else Some i)"

definition argstr :: "nat \<Rightarrow> sys \<Rightarrow> u8 list option" where
  "argstr n s = (case argint n s of None \<Rightarrow> None | Some addr \<Rightarrow> fetchstr addr s)"

definition argfd :: "nat \<Rightarrow> sys \<Rightarrow> (nat \<times> nat) option" where
  "argfd n s =
     (case argint n s of
        None \<Rightarrow> None
      | Some v \<Rightarrow>
          if sint v < 0 \<or> sint v \<ge> int NOFILE then None
          else map_option (\<lambda>f. (nat (sint v), f)) (ofile s (nat (sint v))))"

definition fdalloc :: "nat \<Rightarrow> (sys, int) kop" where
  "fdalloc f =
     andthen (gets (\<lambda>s. find (\<lambda>fd. ofile s fd = None) [0..<NOFILE])) (\<lambda>r.
     case r of
       Some fd \<Rightarrow> andthen (upd (\<lambda>s. s\<lparr>ofile := (ofile s)(fd := Some f)\<rparr>)) (\<lambda>_. ret (int fd))
     | None \<Rightarrow> ret (-1))"

section \<open>Calls on open files\<close>

definition sys_dup :: "(sys, int) kop" where
  "sys_dup =
     andthen (gets (argfd 0)) (\<lambda>a.
     case a of
       None \<Rightarrow> ret (-1)
     | Some (_, f) \<Rightarrow>
         andthen (fdalloc f) (\<lambda>fd.
         if fd < 0 then ret (-1)
         else andthen (filedup f) (\<lambda>_. ret fd)))"

definition copy_out :: "u32 \<Rightarrow> u8 list \<Rightarrow> (sys, unit) kop" where
  "copy_out p bs = upd (\<lambda>s. s\<lparr>umem := (\<lambda>a. if unat (a - p) < length bs then bs ! unat (a - p) else umem s a)\<rparr>)"

definition sys_read :: "(sys, int) kop" where
  "sys_read =
     andthen (gets (\<lambda>s. (argfd 0 s, argint 2 s))) (\<lambda>a.
     case a of
       (Some (_, f), Some n) \<Rightarrow>
         andthen (gets (argptr 1 (sint n))) (\<lambda>q.
         case q of
           None \<Rightarrow> ret (-1)
         | Some p \<Rightarrow>
             andthen (fileread f (sint n)) (\<lambda>(r, bs).
             andthen (copy_out p bs) (\<lambda>_. ret r)))
     | _ \<Rightarrow> ret (-1))"

definition sys_write :: "(sys, int) kop" where
  "sys_write =
     andthen (gets (\<lambda>s. (argfd 0 s, argint 2 s))) (\<lambda>a.
     case a of
       (Some (_, f), Some n) \<Rightarrow>
         andthen (gets (argptr 1 (sint n))) (\<lambda>q.
         case q of
           None \<Rightarrow> ret (-1)
         | Some p \<Rightarrow>
             andthen (gets umem) (\<lambda>m.
             filewrite f (\<lambda>j. m (p + of_nat j)) (sint n)))
     | _ \<Rightarrow> ret (-1))"

definition sys_close :: "(sys, int) kop" where
  "sys_close =
     andthen (gets (argfd 0)) (\<lambda>a.
     case a of
       None \<Rightarrow> ret (-1)
     | Some (fd, f) \<Rightarrow>
         andthen (upd (\<lambda>s. s\<lparr>ofile := (ofile s)(fd := None)\<rparr>)) (\<lambda>_.
         andthen (fileclose f) (\<lambda>_.
         ret 0)))"

definition mput16 :: "mem \<Rightarrow> u32 \<Rightarrow> u16 \<Rightarrow> mem" where
  "mput16 m a v = m(a := ucast v, a + 1 := ucast (drop_bit 8 v))"

definition store_stat :: "u32 \<Rightarrow> stat \<Rightarrow> mem \<Rightarrow> mem" where
  "store_stat p st m =
     mput32 (mput16 (mput32 (mput32 (mput16 m p (st_type st)) (p + 4) (st_dev st)) (p + 8) (st_ino st)) (p + 12) (st_nlink st))
       (p + 16) (st_size st)"

definition sys_fstat :: "(sys, int) kop" where
  "sys_fstat =
     andthen (gets (\<lambda>s. (argfd 0 s, argptr 1 20 s))) (\<lambda>a.
     case a of
       (Some (_, f), Some p) \<Rightarrow>
         andthen (filestat f) (\<lambda>r.
         case r of
           None \<Rightarrow> ret (-1)
         | Some st \<Rightarrow> andthen (upd (\<lambda>s. s\<lparr>umem := store_stat p st (umem s)\<rparr>)) (\<lambda>_. ret 0))
     | _ \<Rightarrow> ret (-1))"

section \<open>Links\<close>

abbreviation fbegin :: "(sys, unit) kop" where "fbegin \<equiv> sf (fl begin_op)"

abbreviation fend :: "int \<Rightarrow> (sys, int) kop" where "fend r \<equiv> andthen (sf (fl end_op)) (\<lambda>_. ret r)"

definition sys_link_bad :: "nat \<Rightarrow> (sys, int) kop" where
  "sys_link_bad ip =
     andthen (sf (ilock ip)) (\<lambda>_.
     andthen (sf (seti ip (\<lambda>i. i\<lparr>i_nlink := i_nlink i - 1\<rparr>))) (\<lambda>_.
     andthen (sf (iupdate ip)) (\<lambda>_.
     andthen (sf (iunlockput ip)) (\<lambda>_.
     fend (-1)))))"

definition link_entry :: "nat \<Rightarrow> nat \<Rightarrow> bytes \<Rightarrow> (sys, int) kop" where
  "link_entry ip dp name =
     andthen (sf (ilock dp)) (\<lambda>_.
     andthen (sf (geti dp)) (\<lambda>d.
     andthen (sf (geti ip)) (\<lambda>i.
     andthen (if i_dev d \<noteq> i_dev i then ret (-1) else sf (dirlink dp name (i_inum i))) (\<lambda>r.
     if r < 0 then andthen (sf (iunlockput dp)) (\<lambda>_. sys_link_bad ip)
     else
       andthen (sf (iunlockput dp)) (\<lambda>_.
       andthen (sf (iput ip)) (\<lambda>_.
       fend 0))))))"

definition sys_link :: "(sys, int) kop" where
  "sys_link =
     andthen (gets (\<lambda>s. (argstr 0 s, argstr 1 s))) (\<lambda>a.
     case a of
       (Some old, Some new) \<Rightarrow>
         andthen fbegin (\<lambda>_.
         andthen (sf (namei old)) (\<lambda>r.
         case r of
           None \<Rightarrow> fend (-1)
         | Some ip \<Rightarrow>
             andthen (sf (ilock ip)) (\<lambda>_.
             andthen (sf (geti ip)) (\<lambda>i.
             if i_type i = T_DIR then andthen (sf (iunlockput ip)) (\<lambda>_. fend (-1))
             else
               andthen (sf (seti ip (\<lambda>i. i\<lparr>i_nlink := i_nlink i + 1\<rparr>))) (\<lambda>_.
               andthen (sf (iupdate ip)) (\<lambda>_.
               andthen (sf (iunlock ip)) (\<lambda>_.
               andthen (sf (nameiparent new (\<lambda>_. 0))) (\<lambda>r.
               case r of
                 None \<Rightarrow> sys_link_bad ip
               | Some (dp, name) \<Rightarrow> link_entry ip dp name))))))))
     | _ \<Rightarrow> ret (-1))"

fun isdirempty_loop :: "nat \<Rightarrow> nat list \<Rightarrow> (fs, bool) kop" where
  "isdirempty_loop dp [] = ret True"
| "isdirempty_loop dp (off # offs) =
     andthen (readi dp (of_nat off) (of_nat de_size)) (\<lambda>(r, de).
     andthen (panic_if (r \<noteq> int de_size) ''isdirempty: readi'') (\<lambda>_.
     if de_inum de \<noteq> 0 then ret False else isdirempty_loop dp offs))"

definition isdirempty :: "nat \<Rightarrow> (fs, bool) kop" where
  "isdirempty dp =
     andthen (geti dp) (\<lambda>d.
     isdirempty_loop dp (filter (\<lambda>off. 2 * de_size \<le> off) (dirent_offs (i_size d))))"

definition unlink_bad :: "nat \<Rightarrow> (sys, int) kop" where
  "unlink_bad dp = andthen (sf (iunlockput dp)) (\<lambda>_. fend (-1))"

definition unlink_entry :: "nat \<Rightarrow> nat \<Rightarrow> nat \<Rightarrow> (sys, int) kop" where
  "unlink_entry dp ip off =
     andthen (sf (ilock ip)) (\<lambda>_.
     andthen (sf (geti ip)) (\<lambda>i.
     andthen (panic_if (sint (i_nlink i) < 1) ''unlink: nlink < 1'') (\<lambda>_.
     andthen (if i_type i = T_DIR then sf (isdirempty ip) else ret True) (\<lambda>empty.
     if i_type i = T_DIR \<and> \<not> empty then
       andthen (sf (iunlockput ip)) (\<lambda>_. unlink_bad dp)
     else
       andthen (sf (writei dp (\<lambda>_. 0) (of_nat off) (of_nat de_size))) (\<lambda>r.
       andthen (panic_if (r \<noteq> int de_size) ''unlink: writei'') (\<lambda>_.
       andthen
         (if i_type i = T_DIR then
            andthen (sf (seti dp (\<lambda>i. i\<lparr>i_nlink := i_nlink i - 1\<rparr>))) (\<lambda>_. sf (iupdate dp))
          else ret ()) (\<lambda>_.
       andthen (sf (iunlockput dp)) (\<lambda>_.
       andthen (sf (seti ip (\<lambda>i. i\<lparr>i_nlink := i_nlink i - 1\<rparr>))) (\<lambda>_.
       andthen (sf (iupdate ip)) (\<lambda>_.
       andthen (sf (iunlockput ip)) (\<lambda>_.
       fend 0)))))))))))"

definition sys_unlink :: "(sys, int) kop" where
  "sys_unlink =
     andthen (gets (argstr 0)) (\<lambda>a.
     case a of
       None \<Rightarrow> ret (-1)
     | Some path \<Rightarrow>
         andthen fbegin (\<lambda>_.
         andthen (sf (nameiparent path (\<lambda>_. 0))) (\<lambda>r.
         case r of
           None \<Rightarrow> fend (-1)
         | Some (dp, name) \<Rightarrow>
             andthen (sf (ilock dp)) (\<lambda>_.
             if namecmp name (as_bytes [0x2e]) = 0 \<or> namecmp name (as_bytes [0x2e, 0x2e]) = 0 then unlink_bad dp
             else
               andthen (sf (dirlookup dp name)) (\<lambda>r.
               case r of
                 None \<Rightarrow> unlink_bad dp
               | Some (ip, off) \<Rightarrow> unlink_entry dp ip off)))))"

section \<open>Creating and opening\<close>

definition create :: "u8 list \<Rightarrow> u16 \<Rightarrow> u16 \<Rightarrow> u16 \<Rightarrow> (fs, nat option) kop" where
  "create path type major minor =
     andthen (nameiparent path (\<lambda>_. 0)) (\<lambda>r.
     case r of
       None \<Rightarrow> ret None
     | Some (dp, name) \<Rightarrow>
         andthen (ilock dp) (\<lambda>_.
         andthen (dirlookup dp name) (\<lambda>r.
         case r of
           Some (ip, _) \<Rightarrow>
             andthen (iunlockput dp) (\<lambda>_.
             andthen (ilock ip) (\<lambda>_.
             andthen (geti ip) (\<lambda>i.
             if type = T_FILE \<and> i_type i = T_FILE then ret (Some ip)
             else andthen (iunlockput ip) (\<lambda>_. ret None))))
         | None \<Rightarrow>
             andthen (geti dp) (\<lambda>d.
             andthen (ialloc (i_dev d) type) (\<lambda>ip.
             andthen (ilock ip) (\<lambda>_.
             andthen (seti ip (\<lambda>i. i\<lparr>i_major := major, i_minor := minor, i_nlink := 1\<rparr>)) (\<lambda>_.
             andthen (iupdate ip) (\<lambda>_.
             andthen (geti ip) (\<lambda>i.
             andthen
               (if type = T_DIR then
                  andthen (seti dp (\<lambda>i. i\<lparr>i_nlink := i_nlink i + 1\<rparr>)) (\<lambda>_.
                  andthen (iupdate dp) (\<lambda>_.
                  andthen (dirlink ip (as_bytes [0x2e]) (i_inum i)) (\<lambda>r1.
                  andthen (panic_if (r1 < 0) ''create dots'') (\<lambda>_.
                  andthen (dirlink ip (as_bytes [0x2e, 0x2e]) (i_inum d)) (\<lambda>r2.
                  panic_if (r2 < 0) ''create dots'')))))
                else ret ()) (\<lambda>_.
             andthen (dirlink dp name (i_inum i)) (\<lambda>r.
             andthen (panic_if (r < 0) ''create: dirlink'') (\<lambda>_.
             andthen (iunlockput dp) (\<lambda>_.
             ret (Some ip))))))))))))))"

definition O_RDONLY :: u32 where "O_RDONLY = 0"
definition O_WRONLY :: u32 where "O_WRONLY = 1"
definition O_RDWR :: u32 where "O_RDWR = 2"
definition O_CREATE :: u32 where "O_CREATE = 0x200"

text \<open>The inode \<^verbatim>\<open>sys_open\<close> opens, locked; \<open>None\<close> when there is none or it is a directory opened for writing.\<close>

definition open_inode :: "u8 list \<Rightarrow> u32 \<Rightarrow> (fs, nat option) kop" where
  "open_inode path omode =
     (if omode AND O_CREATE \<noteq> 0 then create path T_FILE 0 0
      else
        andthen (namei path) (\<lambda>r.
        case r of
          None \<Rightarrow> ret None
        | Some ip \<Rightarrow>
            andthen (ilock ip) (\<lambda>_.
            andthen (geti ip) (\<lambda>i.
            if i_type i = T_DIR \<and> omode \<noteq> O_RDONLY then andthen (iunlockput ip) (\<lambda>_. ret None)
            else ret (Some ip)))))"

definition sys_open :: "(sys, int) kop" where
  "sys_open =
     andthen (gets (\<lambda>s. (argstr 0 s, argint 1 s))) (\<lambda>a.
     case a of
       (Some path, Some omode) \<Rightarrow>
         andthen fbegin (\<lambda>_.
         andthen (sf (open_inode path omode)) (\<lambda>r.
         case r of
           None \<Rightarrow> fend (-1)
         | Some ip \<Rightarrow>
             andthen filealloc (\<lambda>r.
             case r of
               None \<Rightarrow> andthen (sf (iunlockput ip)) (\<lambda>_. fend (-1))
             | Some f \<Rightarrow>
                 andthen (fdalloc f) (\<lambda>fd.
                 if fd < 0 then
                   andthen (fileclose f) (\<lambda>_.
                   andthen (sf (iunlockput ip)) (\<lambda>_. fend (-1)))
                 else
                   andthen (sf (iunlock ip)) (\<lambda>_.
                   andthen (sf (fl end_op)) (\<lambda>_.
                   andthen (setf f (\<lambda>x. x\<lparr>f_type := FD_INODE, f_ip := ip, f_off := 0,
                     f_readable := (omode AND O_WRONLY = 0),
                     f_writable := (omode AND O_WRONLY \<noteq> 0 \<or> omode AND O_RDWR \<noteq> 0)\<rparr>)) (\<lambda>_.
                   ret fd)))))))
     | _ \<Rightarrow> ret (-1))"

text \<open>\<^verbatim>\<open>sys_mkdir\<close> and \<^verbatim>\<open>sys_mknod\<close> fetch their arguments inside the transaction.\<close>

definition create_node :: "(u8 list \<times> u16 \<times> u16 \<times> u16) option \<Rightarrow> (sys, int) kop" where
  "create_node a =
     (case a of
        None \<Rightarrow> fend (-1)
      | Some (path, type, major, minor) \<Rightarrow>
          andthen (sf (create path type major minor)) (\<lambda>r.
          case r of
            None \<Rightarrow> fend (-1)
          | Some ip \<Rightarrow> andthen (sf (iunlockput ip)) (\<lambda>_. fend 0)))"

definition sys_mkdir :: "(sys, int) kop" where
  "sys_mkdir =
     andthen fbegin (\<lambda>_.
     andthen (gets (argstr 0)) (\<lambda>p.
     create_node (map_option (\<lambda>path. (path, T_DIR, 0, 0)) p)))"

definition sys_mknod :: "(sys, int) kop" where
  "sys_mknod =
     andthen fbegin (\<lambda>_.
     andthen (gets (\<lambda>s. (argstr 0 s, argint 1 s, argint 2 s))) (\<lambda>a.
     create_node (case a of
       (Some path, Some major, Some minor) \<Rightarrow> Some (path, T_DEV, ucast major, ucast minor)
     | _ \<Rightarrow> None)))"

definition sys_chdir :: "(sys, int) kop" where
  "sys_chdir =
     andthen fbegin (\<lambda>_.
     andthen (gets (argstr 0)) (\<lambda>p.
     case p of
       None \<Rightarrow> fend (-1)
     | Some path \<Rightarrow>
         andthen (sf (namei path)) (\<lambda>r.
         case r of
           None \<Rightarrow> fend (-1)
         | Some ip \<Rightarrow>
             andthen (sf (ilock ip)) (\<lambda>_.
             andthen (sf (geti ip)) (\<lambda>i.
             if i_type i \<noteq> T_DIR then andthen (sf (iunlockput ip)) (\<lambda>_. fend (-1))
             else
               andthen (sf (iunlock ip)) (\<lambda>_.
               andthen (sf (andthen (gets fcwd) iput)) (\<lambda>_.
               andthen (sf (fl end_op)) (\<lambda>_.
               andthen (sf (upd (\<lambda>s. s\<lparr>fcwd := ip\<rparr>))) (\<lambda>_.
               ret 0)))))))))"

definition sys_pipe :: "(sys, int) kop" where
  "sys_pipe =
     andthen (gets (argptr 0 8)) (\<lambda>a.
     case a of
       None \<Rightarrow> ret (-1)
     | Some p \<Rightarrow>
         andthen pipealloc (\<lambda>r.
         case r of
           None \<Rightarrow> ret (-1)
         | Some (rf, wrf) \<Rightarrow>
             andthen (fdalloc rf) (\<lambda>fd0.
             andthen (if fd0 < 0 then ret (-1) else fdalloc wrf) (\<lambda>fd1.
             if fd0 < 0 \<or> fd1 < 0 then
               andthen (if fd0 \<ge> 0 then upd (\<lambda>s. s\<lparr>ofile := (ofile s)(nat fd0 := None)\<rparr>) else ret ()) (\<lambda>_.
               andthen (fileclose rf) (\<lambda>_.
               andthen (fileclose wrf) (\<lambda>_.
               ret (-1))))
             else
               andthen (upd (\<lambda>s. s\<lparr>umem := mput32 (mput32 (umem s) p (of_int fd0)) (p + 4) (of_int fd1)\<rparr>)) (\<lambda>_.
               ret 0)))))"

section \<open>Properties\<close>

text \<open>A process with one open file, whose first argument is descriptor 0.\<close>

definition demo_sys :: sys where
  "demo_sys = undefined\<lparr>ftable := (\<lambda>_. \<lparr>f_type = FD_NONE, f_ref = 2, f_readable = True, f_writable = True, f_pipe = 0, f_ip = 0, f_off = 0\<rparr>),
     ofile := (\<lambda>_. None)(0 := Some 3), psz := 100, pesp := 16, umem := (\<lambda>_. 0)\<rparr>"

lemma demo_args: "argint 0 demo_sys = Some 0" "argfd 0 demo_sys = Some (0, 3)"
proof -
  show "argint 0 demo_sys = Some 0"
    by (simp add: argint_def fetchint_def demo_sys_def mget32_def of_bytes_def)
  then show "argfd 0 demo_sys = Some (0, 3)" by (simp add: argfd_def demo_sys_def NOFILE_def)
qed

text \<open>
  a string argument lies in the process: all its bytes and the NUL behind them are at addresses below the size of
  the process, and the string contains no NUL.
\<close>

theorem fetchstr_in_process:
  assumes "fetchstr addr s = Some bs"
  shows "unat addr + length bs < unat (psz s) \<and> umem s (addr + of_nat (length bs)) = 0 \<and> 0 \<notin> set bs
     \<and> (\<forall>i < length bs. bs ! i = umem s (addr + of_nat i))"
proof -
  obtain n where n: "find (\<lambda>i. umem s (addr + of_nat i) = 0) [0..<unat (psz s - addr)] = Some n" "\<not> addr \<ge> psz s"
    and bs: "bs = map (\<lambda>i. umem s (addr + of_nat i)) [0..<n]"
    using assms by (auto simp: fetchstr_def split: if_splits)
  have "n < unat (psz s - addr)" "umem s (addr + of_nat n) = 0" "\<forall>j < n. umem s (addr + of_nat j) \<noteq> 0"
    using n(1) by (auto simp: find_Some_iff)
  moreover have "unat (psz s - addr) = unat (psz s) - unat addr" "unat addr < unat (psz s)"
    using n(2) by (simp_all add: unat_sub word_le_nat_alt not_le word_less_nat_alt)
  ultimately show ?thesis by (auto simp: bs)
qed

definition user_string :: sys where
  "user_string = undefined\<lparr>psz := 100, umem := (\<lambda>a. if a = 12 then 0 else 65)\<rparr>"

theorem fetchstr_in_process_witness:
  "fetchstr 10 user_string = Some [65, 65] \<and> unat (10 :: u32) + length [65 :: u8, 65] < unat (psz user_string)"
proof -
  have "[0..<90] = 0 # 1 # 2 # [3..<90 :: nat]" by (simp add: upt_rec)
  then have "fetchstr 10 user_string = Some [65, 65]"
    by (simp add: fetchstr_def user_string_def upt_rec)
  then show ?thesis using fetchstr_in_process [of 10 user_string] by blast
qed

text \<open>
  C11: a pointer argument with a size that is not negative lies in the process, in a process that ends below the kernel: the
  sum in the check cannot wrap around.
\<close>

theorem argptr_in_process:
  assumes "argptr n sz s = Some p" and "0 \<le> sz" and "sz < 2 ^ 31" and "psz s \<le> KERNBASE"
  shows "unat p + nat sz \<le> unat (psz s)"
proof -
  have p: "\<not> p \<ge> psz s" "\<not> p + of_int sz > psz s"
    using assms(1) by (auto simp: argptr_def split: option.splits if_splits)
  have lim: "unat (psz s) \<le> 2 ^ 31" using assms(4) by (simp add: word_le_nat_alt KERNBASE_def)
  have z: "unat (of_int sz :: u32) = nat sz"
    using assms(2,3) unat_of_nat_small [of "nat sz", where ?'a = 32] by simp
  have lt: "unat p < unat (psz s)" using p(1) by (simp add: word_le_nat_alt)
  then have "unat p + unat (of_int sz :: u32) < 2 ^ LENGTH(32)" using lim z assms(3) by simp
  then have "unat (p + of_int sz) = unat p + nat sz" using z by (simp add: unat_add_lem [THEN iffD1])
  then show ?thesis using p(2) by (simp add: word_less_nat_alt)
qed

theorem argptr_in_process_witness: "argptr 0 5 demo_sys = Some 0 \<and> unat (0 :: u32) + nat 5 \<le> unat (psz demo_sys)"
proof -
  have "argptr 0 5 demo_sys = Some 0" "psz demo_sys \<le> KERNBASE"
    using demo_args by (simp_all add: argptr_def demo_sys_def KERNBASE_def)
  then show ?thesis using argptr_in_process [of 0 5 demo_sys 0] by simp
qed

section \<open>References to open files\<close>

text \<open>Every descriptor of the process is counted in the reference count of its file.\<close>

definition fds_of :: "nat \<Rightarrow> sys \<Rightarrow> nat set" where
  "fds_of f s = {fd. fd < NOFILE \<and> ofile s fd = Some f}"

definition refs_ok :: "sys \<Rightarrow> bool" where
  "refs_ok s \<longleftrightarrow> (\<forall>f. int (card (fds_of f s)) \<le> f_ref (ftable s f))"

lemma finite_fds: "finite (fds_of f s)"
  by (simp add: fds_of_def)

lemma sf_frame: "sf g s = Inr (x, t) \<Longrightarrow> ftable t = ftable s \<and> ofile t = ofile s"
  by (auto simp: sf_def zoom_def split: sum.splits prod.splits)

lemma sk_frame: "sk g s = Inr (x, t) \<Longrightarrow> ftable t = ftable s \<and> ofile t = ofile s"
  by (auto simp: sk_def zoom_def split: sum.splits prod.splits)

lemma fileclose_frame:
  assumes "fileclose f s = Inr (x, t)"
  shows "ofile t = ofile s \<and> (\<forall>g. g \<noteq> f \<longrightarrow> ftable t g = ftable s g) \<and> 1 \<le> f_ref (ftable s f)
     \<and> f_ref (ftable t f) = f_ref (ftable s f) - 1"
proof -
  let ?ff = "ftable s f"
  have ref: "1 \<le> f_ref ?ff"
    using assms by (auto simp: fileclose_def getf_def andthen_def gets_def panic_if_def stop_def split: if_splits)
  show ?thesis
  proof (cases "f_ref ?ff - 1 > 0")
    case True
    then show ?thesis
      using assms ref by (auto simp: fileclose_def getf_def setf_def andthen_def gets_def panic_if_def ret_def upd_def)
  next
    case False
    define u where "u = s\<lparr>ftable := (ftable s)(f := ?ff\<lparr>f_ref := 0, f_type := FD_NONE\<rparr>)\<rparr>"
    have u: "(case f_type ?ff of FD_PIPE \<Rightarrow> close_pipe (f_pipe ?ff) (f_writable ?ff)
       | FD_INODE \<Rightarrow> andthen (sf (fl begin_op)) (\<lambda>_. andthen (sf (iput (f_ip ?ff))) (\<lambda>_. sf (fl end_op)))
       | FD_NONE \<Rightarrow> ret ()) u = Inr (x, t)"
      using assms ref False by (simp add: fileclose_def getf_def setf_def andthen_Inr [of _ s] gets_def panic_if_def ret_def upd_def u_def)
    have "ftable t = ftable u \<and> ofile t = ofile u"
    proof (cases "f_type ?ff")
      case FD_PIPE
      then show ?thesis
        using u by (auto simp: close_pipe_def andthen_def gets_def upd_def ret_def split: if_splits prod.splits dest: sk_frame)
    next
      case FD_INODE
      then show ?thesis using u by (auto elim!: andthen_InrE dest!: sf_frame)
    qed (use u in \<open>simp add: ret_def\<close>)
    then show ?thesis using ref False by (simp add: u_def)
  qed
qed

text \<open>
  C10: \<^verbatim>\<open>dup\<close> and the reference counts. If every descriptor is counted, \<^verbatim>\<open>sys_dup\<close> keeps it so; it returns the lowest free descriptor, now for the same
  file, and changes no other descriptor, or fails and changes nothing.
\<close>

theorem sys_dup_refs:
  assumes "refs_ok s" and "sys_dup s = Inr (r, t)"
  shows "refs_ok t \<and> (if r = -1 then t = s
     else \<exists>fd f. argfd 0 s = Some (fd, f) \<and> ofile t (nat r) = Some f \<and> ofile s (nat r) = None
       \<and> (\<forall>d < nat r. ofile s d \<noteq> None) \<and> (\<forall>d. d \<noteq> nat r \<longrightarrow> ofile t d = ofile s d))"
proof (cases "argfd 0 s")
  case None
  then show ?thesis using assms by (simp add: sys_dup_def andthen_def gets_def ret_def)
next
  case (Some a)
  obtain fd f where a: "a = (fd, f)" by (cases a)
  show ?thesis
  proof (cases "find (\<lambda>fd. ofile s fd = None) [0..<NOFILE]")
    case None
    then show ?thesis using assms Some a by (simp add: sys_dup_def fdalloc_def andthen_def gets_def ret_def)
  next
    case (Some d)
    then have d: "d < NOFILE" "ofile s d = None" "\<forall>e < d. ofile s e \<noteq> None" by (auto simp: find_Some_iff)
    define u where "u = s\<lparr>ofile := (ofile s)(d := Some f)\<rparr>"
    have res: "r = int d" "t = u\<lparr>ftable := (ftable s)(f := (ftable s f)\<lparr>f_ref := f_ref (ftable s f) + 1\<rparr>)\<rparr>"
      using assms(2) Some \<open>argfd 0 s = Some a\<close> a
      by (auto simp: sys_dup_def fdalloc_def filedup_def getf_def setf_def andthen_def gets_def ret_def upd_def panic_if_def stop_def u_def split: if_splits)
    have "fds_of g t = (if g = f then insert d (fds_of f s) else fds_of g s)" for g
      using d by (auto simp: res u_def fds_of_def)
    moreover have "d \<notin> fds_of f s" using d by (simp add: fds_of_def)
    ultimately have "refs_ok t"
      using assms(1) by (auto simp: refs_ok_def res u_def card_insert_if finite_fds)
    then show ?thesis using d \<open>argfd 0 s = Some a\<close> a by (auto simp: res u_def)
  qed
qed

text \<open>
  C9: \<^verbatim>\<open>close\<close> and the reference counts. If every descriptor is counted, \<^verbatim>\<open>sys_close\<close> keeps it so: it frees the descriptor, drops one reference of its
  file and leaves all other descriptors and files alone.
\<close>

theorem sys_close_refs:
  assumes "refs_ok s" and "sys_close s = Inr (0, t)"
  shows "refs_ok t \<and> (\<exists>fd f. argfd 0 s = Some (fd, f) \<and> ofile t = (ofile s)(fd := None)
     \<and> f_ref (ftable t f) = f_ref (ftable s f) - 1 \<and> (\<forall>g. g \<noteq> f \<longrightarrow> ftable t g = ftable s g))"
proof -
  obtain fd f where a: "argfd 0 s = Some (fd, f)"
    using assms(2) by (auto simp: sys_close_def andthen_def gets_def ret_def split: option.splits)
  then have fd: "fd < NOFILE" "ofile s fd = Some f" by (auto simp: argfd_def split: option.splits if_splits)
  define u where "u = s\<lparr>ofile := (ofile s)(fd := None)\<rparr>"
  have "fileclose f u = Inr ((), t)"
    using assms(2) a by (auto simp: sys_close_def andthen_def gets_def upd_def ret_def u_def split: sum.splits)
  note c = fileclose_frame [OF this]
  have "fds_of g t = (if g = f then fds_of f s - {fd} else fds_of g s)" for g
    using c fd by (auto simp: u_def fds_of_def)
  moreover have "fd \<in> fds_of f s" using fd by (simp add: fds_of_def)
  then have "int (card (fds_of f s - {fd})) = int (card (fds_of f s)) - 1"
    using card_Suc_Diff1 [OF finite_fds] by fastforce
  ultimately have "int (card (fds_of g t)) \<le> f_ref (ftable t g)" for g
    using assms(1) [unfolded refs_ok_def, rule_format, of g] c by (cases "g = f") (simp_all add: u_def)
  then have "refs_ok t" by (simp add: refs_ok_def)
  then show ?thesis using a c by (auto simp: u_def)
qed

lemma demo_refs: "refs_ok demo_sys"
proof -
  have "card (fds_of f demo_sys) \<le> card {0 :: nat}" for f
    by (rule card_mono) (auto simp: fds_of_def demo_sys_def split: if_splits)
  then have "int (card (fds_of f demo_sys)) \<le> 1" for f by simp
  moreover have "f_ref (ftable demo_sys f) = 2" for f by (simp add: demo_sys_def)
  ultimately show ?thesis unfolding refs_ok_def by (metis one_le_numeral order_trans)
qed

theorem sys_dup_refs_witness: "\<exists>r t. sys_dup demo_sys = Inr (r, t) \<and> r \<noteq> -1 \<and> refs_ok t"
proof -
  have "find (\<lambda>fd. ofile demo_sys fd = None) [0..<NOFILE] = Some 1"
    by (simp add: demo_sys_def NOFILE_def upt_rec)
  then obtain t where "sys_dup demo_sys = Inr (1, t)"
    using demo_args(2)
    by (simp add: sys_dup_def fdalloc_def filedup_def getf_def setf_def andthen_def gets_def ret_def upd_def panic_if_def)
      (simp add: demo_sys_def ret_def andthen_def upd_def)
  then show ?thesis using sys_dup_refs [OF demo_refs, of 1 t] by auto
qed

theorem sys_close_refs_witness: "\<exists>t. sys_close demo_sys = Inr (0, t) \<and> refs_ok t \<and> ofile t 0 = None"
proof -
  obtain t where t: "sys_close demo_sys = Inr (0, t)"
    using demo_args(2)
    by (simp add: sys_close_def fileclose_def getf_def setf_def andthen_def gets_def ret_def upd_def panic_if_def)
      (simp add: demo_sys_def ret_def setf_def andthen_def upd_def)
  then show ?thesis using sys_close_refs [OF demo_refs t] demo_args(2) by auto
qed

end
