(* ===== verification/Vm.thy ===== *)
theory Vm
  imports Kalloc
begin

text \<open>
  Page tables (\<^verbatim>\<open>vm.c\<close>), built in the memory of the page allocator. A pointer to an entry is its kernel address, 0 when null;
  the address \<open>data\<close> the linker provides is an argument. Segment registers and the task state are not modelled.
  A loop over pages is cut off after \<open>2 ^ 20\<close> steps, the number of pages there are, and the cut-off is an \<open>Undef\<close> result.
\<close>

section \<open>Operations\<close>

definition EXTMEM :: u32 where "EXTMEM = 0x100000"
definition DEVSPACE :: u32 where "DEVSPACE = 0xFE000000"
definition KERNLINK :: u32 where "KERNLINK = KERNBASE + EXTMEM"
definition PTE_P :: u32 where "PTE_P = 1"
definition PTE_W :: u32 where "PTE_W = 2"
definition PTE_U :: u32 where "PTE_U = 4"
definition NPDENTRIES :: nat where "NPDENTRIES = 1024"
definition NPTENTRIES :: u32 where "NPTENTRIES = 1024"

definition PDX :: "u32 \<Rightarrow> u32" where "PDX va = drop_bit 22 va AND 0x3FF"
definition PTX :: "u32 \<Rightarrow> u32" where "PTX va = drop_bit 12 va AND 0x3FF"
definition PTE_ADDR :: "u32 \<Rightarrow> u32" where "PTE_ADDR pte = pte AND NOT 0xFFF"
definition PTE_FLAGS :: "u32 \<Rightarrow> u32" where "PTE_FLAGS pte = pte AND 0xFFF"

definition peek :: "u32 \<Rightarrow> (kmem, u32) kop" where
  "peek a = gets (\<lambda>s. mget32 (kram s) a)"

definition poke :: "u32 \<Rightarrow> u32 \<Rightarrow> (kmem, unit) kop" where
  "poke a v = upd (\<lambda>s. s\<lparr>kram := mput32 (kram s) a v\<rparr>)"

definition zero_page :: "u32 \<Rightarrow> (kmem, unit) kop" where
  "zero_page a = upd (\<lambda>s. s\<lparr>kram := memset a 0 PGSIZE (kram s)\<rparr>)"

definition walkpgdir :: "u32 \<Rightarrow> u32 \<Rightarrow> bool \<Rightarrow> (kmem, u32) kop" where
  "walkpgdir pgdir va alloc =
     (let pde = pgdir + 4 * PDX va in
      andthen (peek pde) (\<lambda>e.
      if e AND PTE_P \<noteq> 0 then ret (p2v (PTE_ADDR e) + 4 * PTX va)
      else if \<not> alloc then ret 0
      else
        andthen kalloc (\<lambda>pgtab.
        if pgtab = 0 then ret 0
        else
          andthen (zero_page pgtab) (\<lambda>_.
          andthen (poke pde (v2p pgtab OR PTE_P OR PTE_W OR PTE_U)) (\<lambda>_.
          ret (pgtab + 4 * PTX va))))))"

text \<open>\<open>mappages_loop n\<close> is at \<open>a\<close> with \<open>n\<close> more pages up to \<open>last\<close>.\<close>

fun mappages_loop :: "nat \<Rightarrow> u32 \<Rightarrow> u32 \<Rightarrow> u32 \<Rightarrow> u32 \<Rightarrow> (kmem, int) kop" where
  "mappages_loop n pgdir a pa perm =
     andthen (walkpgdir pgdir a True) (\<lambda>pte.
     if pte = 0 then ret (-1)
     else
       andthen (peek pte) (\<lambda>e.
       andthen (panic_if (e AND PTE_P \<noteq> 0) ''remap'') (\<lambda>_.
       andthen (poke pte (pa OR perm OR PTE_P)) (\<lambda>_.
       case n of
         0 \<Rightarrow> ret 0
       | Suc m \<Rightarrow> mappages_loop m pgdir (a + PGSIZE) (pa + PGSIZE) perm))))"

definition mappages :: "u32 \<Rightarrow> u32 \<Rightarrow> u32 \<Rightarrow> u32 \<Rightarrow> u32 \<Rightarrow> (kmem, int) kop" where
  "mappages pgdir va sz pa perm =
     (let a = PGROUNDDOWN va; last = PGROUNDDOWN (va + sz - 1) in
      mappages_loop (unat ((last - a) div PGSIZE)) pgdir a pa perm)"

type_synonym kmap_entry = "u32 \<times> u32 \<times> u32 \<times> u32"

definition kmap :: "u32 \<Rightarrow> kmap_entry list" where
  "kmap data =
     [(KERNBASE, 0, EXTMEM, PTE_W),
      (KERNLINK, v2p KERNLINK, v2p data, 0),
      (data, v2p data, PHYSTOP, PTE_W),
      (DEVSPACE, DEVSPACE, 0, PTE_W)]"

fun setupkvm_loop :: "u32 \<Rightarrow> kmap_entry list \<Rightarrow> (kmem, u32) kop" where
  "setupkvm_loop pgdir [] = ret pgdir"
| "setupkvm_loop pgdir ((virt, start, end, perm) # ks) =
     andthen (mappages pgdir virt (end - start) start perm) (\<lambda>r.
     if r < 0 then ret 0 else setupkvm_loop pgdir ks)"

definition setupkvm :: "u32 \<Rightarrow> (kmem, u32) kop" where
  "setupkvm data =
     andthen kalloc (\<lambda>pgdir.
     if pgdir = 0 then ret 0
     else
       andthen (zero_page pgdir) (\<lambda>_.
       andthen (panic_if (p2v PHYSTOP > DEVSPACE) ''PHYSTOP too high'') (\<lambda>_.
       setupkvm_loop pgdir (kmap data))))"

definition inituvm :: "u32 \<Rightarrow> u8 list \<Rightarrow> (kmem, unit) kop" where
  "inituvm pgdir init =
     andthen (panic_if (length init \<ge> unat PGSIZE) ''inituvm: more than a page'') (\<lambda>_.
     andthen kalloc (\<lambda>mem.
     andthen (zero_page mem) (\<lambda>_.
     andthen (mappages pgdir 0 PGSIZE (v2p mem) (PTE_W OR PTE_U)) (\<lambda>_.
     upd (\<lambda>s. s\<lparr>kram := (\<lambda>a. if unat (a - mem) < length init then init ! unat (a - mem) else kram s a)\<rparr>)))))"

fun deallocuvm_loop :: "nat \<Rightarrow> u32 \<Rightarrow> u32 \<Rightarrow> u32 \<Rightarrow> (kmem, unit) kop" where
  "deallocuvm_loop 0 pgdir a oldsz = stop (Undef ''deallocuvm'')"
| "deallocuvm_loop (Suc n) pgdir a oldsz =
     (if \<not> a < oldsz then ret ()
      else
        andthen (walkpgdir pgdir a False) (\<lambda>pte.
        if pte = 0 then deallocuvm_loop n pgdir (a + (NPTENTRIES - 1) * PGSIZE + PGSIZE) oldsz
        else
          andthen (peek pte) (\<lambda>e.
          andthen
            (if e AND PTE_P \<noteq> 0 then
               let pa = PTE_ADDR e in
               andthen (panic_if (pa = 0) ''kfree'') (\<lambda>_.
               andthen (kfree (p2v pa)) (\<lambda>_.
               poke pte 0))
             else ret ()) (\<lambda>_.
          deallocuvm_loop n pgdir (a + PGSIZE) oldsz))))"

definition deallocuvm :: "u32 \<Rightarrow> u32 \<Rightarrow> u32 \<Rightarrow> (kmem, u32) kop" where
  "deallocuvm pgdir oldsz newsz =
     (if newsz \<ge> oldsz then ret oldsz
      else andthen (deallocuvm_loop (Suc (2 ^ 20)) pgdir (PGROUNDUP newsz) oldsz) (\<lambda>_. ret newsz))"

text \<open>The message \<^verbatim>\<open>allocuvm\<close> prints when memory runs out is left out.\<close>

fun allocuvm_loop :: "nat \<Rightarrow> u32 \<Rightarrow> u32 \<Rightarrow> u32 \<Rightarrow> u32 \<Rightarrow> (kmem, u32) kop" where
  "allocuvm_loop 0 pgdir a oldsz newsz = stop (Undef ''allocuvm'')"
| "allocuvm_loop (Suc n) pgdir a oldsz newsz =
     (if \<not> a < newsz then ret newsz
      else
        andthen kalloc (\<lambda>mem.
        if mem = 0 then andthen (deallocuvm pgdir newsz oldsz) (\<lambda>_. ret 0)
        else
          andthen (zero_page mem) (\<lambda>_.
          andthen (mappages pgdir a PGSIZE (v2p mem) (PTE_W OR PTE_U)) (\<lambda>_.
          allocuvm_loop n pgdir (a + PGSIZE) oldsz newsz))))"

definition allocuvm :: "u32 \<Rightarrow> u32 \<Rightarrow> u32 \<Rightarrow> (kmem, u32) kop" where
  "allocuvm pgdir oldsz newsz =
     (if newsz \<ge> KERNBASE then ret 0
      else if newsz < oldsz then ret oldsz
      else allocuvm_loop (Suc (2 ^ 20)) pgdir (PGROUNDUP oldsz) oldsz newsz)"

definition freevm :: "u32 \<Rightarrow> (kmem, unit) kop" where
  "freevm pgdir =
     andthen (panic_if (pgdir = 0) ''freevm: no pgdir'') (\<lambda>_.
     andthen (deallocuvm pgdir KERNBASE 0) (\<lambda>_.
     andthen (mfor [0..<NPDENTRIES] (\<lambda>i.
       andthen (peek (pgdir + 4 * of_nat i)) (\<lambda>e.
       if e AND PTE_P \<noteq> 0 then kfree (p2v (PTE_ADDR e)) else ret ()))) (\<lambda>_.
     kfree pgdir)))"

definition clearpteu :: "u32 \<Rightarrow> u32 \<Rightarrow> (kmem, unit) kop" where
  "clearpteu pgdir uva =
     andthen (walkpgdir pgdir uva False) (\<lambda>pte.
     andthen (panic_if (pte = 0) ''clearpteu'') (\<lambda>_.
     andthen (peek pte) (\<lambda>e.
     poke pte (e AND NOT PTE_U))))"

text \<open>The loop of \<^verbatim>\<open>copyuvm\<close>; \<open>False\<close> is the jump to \<^verbatim>\<open>bad\<close>.\<close>

fun copyuvm_loop :: "nat \<Rightarrow> u32 \<Rightarrow> u32 \<Rightarrow> u32 \<Rightarrow> u32 \<Rightarrow> (kmem, bool) kop" where
  "copyuvm_loop 0 pgdir d i sz = stop (Undef ''copyuvm'')"
| "copyuvm_loop (Suc n) pgdir d i sz =
     (if \<not> i < sz then ret True
      else
        andthen (walkpgdir pgdir i False) (\<lambda>pte.
        andthen (panic_if (pte = 0) ''copyuvm: pte should exist'') (\<lambda>_.
        andthen (peek pte) (\<lambda>e.
        andthen (panic_if (e AND PTE_P = 0) ''copyuvm: page not present'') (\<lambda>_.
        andthen kalloc (\<lambda>mem.
        if mem = 0 then ret False
        else
          andthen (upd (\<lambda>s. s\<lparr>kram := memmove mem (p2v (PTE_ADDR e)) PGSIZE (kram s)\<rparr>)) (\<lambda>_.
          andthen (mappages d i PGSIZE (v2p mem) (PTE_FLAGS e)) (\<lambda>r.
          if r < 0 then ret False
          else copyuvm_loop n pgdir d (i + PGSIZE) sz))))))))"

definition copyuvm :: "u32 \<Rightarrow> u32 \<Rightarrow> u32 \<Rightarrow> (kmem, u32) kop" where
  "copyuvm data pgdir sz =
     andthen (setupkvm data) (\<lambda>d.
     if d = 0 then ret 0
     else
       andthen (copyuvm_loop (Suc (2 ^ 20)) pgdir d 0 sz) (\<lambda>ok.
       if ok then ret d
       else andthen (freevm d) (\<lambda>_. ret 0)))"

text \<open>\<^verbatim>\<open>uva2ka\<close> follows the pointer \<open>walkpgdir\<close> returns without a test for null.\<close>

definition uva2ka :: "u32 \<Rightarrow> u32 \<Rightarrow> (kmem, u32) kop" where
  "uva2ka pgdir uva =
     andthen (walkpgdir pgdir uva False) (\<lambda>pte.
     if pte = 0 then stop (Undef ''uva2ka'')
     else
       andthen (peek pte) (\<lambda>e.
       if e AND PTE_P = 0 then ret 0
       else if e AND PTE_U = 0 then ret 0
       else ret (p2v (PTE_ADDR e))))"

definition out_chunk :: "u32 \<Rightarrow> nat \<Rightarrow> nat" where
  "out_chunk va len = min len (unat (PGSIZE - (va - PGROUNDDOWN va)))"

lemma PGROUNDDOWN_offset: "va - PGROUNDDOWN va = take_bit 12 va"
proof -
  have "PGROUNDDOWN va = push_bit 12 (drop_bit 12 va)"
  proof -
    have "(PGSIZE - 1 :: u32) = mask 12" by (simp add: PGSIZE_def mask_eq_exp_minus_1)
    then show ?thesis unfolding PGROUNDDOWN_def by (auto intro!: bit_word_eqI simp: bit_simps)
  qed
  then show ?thesis using bits_ident [of 12 va] by (metis add_diff_cancel_left')
qed

lemma page_offset_less: "unat (va - PGROUNDDOWN va) < unat PGSIZE"
proof -
  have "unat (take_bit 12 va) = take_bit 12 (unat va)" by (simp add: unsigned_take_bit_eq)
  then show ?thesis by (simp add: PGROUNDDOWN_offset take_bit_eq_mod PGSIZE_def)
qed

lemma out_chunk_pos: "len \<noteq> 0 \<Longrightarrow> 0 < out_chunk va len"
proof -
  have "unat (PGSIZE - (va - PGROUNDDOWN va)) = unat PGSIZE - unat (va - PGROUNDDOWN va)"
    using page_offset_less [of va] by (intro unat_sub) (simp add: word_le_nat_alt)
  then show "len \<noteq> 0 \<Longrightarrow> 0 < out_chunk va len" using page_offset_less [of va] by (simp add: out_chunk_def)
qed

function copyout :: "u32 \<Rightarrow> u32 \<Rightarrow> bytes \<Rightarrow> nat \<Rightarrow> (kmem, int) kop" where
  "copyout pgdir va buf len =
     (if len = 0 then ret 0
      else
        let va0 = PGROUNDDOWN va; n = out_chunk va len in
        andthen (uva2ka pgdir va0) (\<lambda>pa0.
        if pa0 = 0 then ret (-1)
        else
          andthen (upd (\<lambda>s. s\<lparr>kram := (\<lambda>a. if unat (a - (pa0 + (va - va0))) < n
             then buf (unat (a - (pa0 + (va - va0)))) else kram s a)\<rparr>)) (\<lambda>_.
          copyout pgdir (va0 + PGSIZE) (\<lambda>j. buf (n + j)) (len - n))))"
  by pat_completeness auto
termination by (relation "measure (\<lambda>(pgdir, va, buf, len). len)") (auto simp: out_chunk_pos)

declare copyout.simps [simp del] mappages_loop.simps [simp del]

section \<open>Entries as words of memory\<close>

lemma word_block:
  fixes a i :: u32
  assumes "unat a mod 4 = 0" and "unat (i - a) < 4"
  shows "unat i div 4 = unat a div 4"
proof -
  have lim: "unat a < 2 ^ 32" using unsigned_less [of a] by simp
  obtain q where q: "unat a = 4 * q" using assms(1) by (metis mult_div_mod_eq add.right_neutral)
  have "unat a + unat (i - a) < 2 ^ LENGTH(32)" using assms(2) lim q by simp
  then have "unat (a + (i - a)) = unat a + unat (i - a)" by (rule unat_add_lem [THEN iffD1])
  then have "unat i = 4 * q + unat (i - a)" using q by simp
  then show ?thesis using assms(2) q by simp
qed

lemma mget32_other:
  assumes "unat a mod 4 = 0" "unat b mod 4 = 0" "a \<noteq> b"
  shows "mget32 (mput32 m a v) b = mget32 m b"
proof (rule mget32_cong, rule mput32_outside, rule notI)
  fix i assume "unat (i - b) < 4" "unat (i - a) < 4"
  then have "unat i div 4 = unat b div 4" "unat i div 4 = unat a div 4"
    using word_block [OF assms(1)] word_block [OF assms(2)] by blast+
  then have "4 * (unat a div 4) = 4 * (unat b div 4)" by simp
  moreover have "4 * (unat a div 4) = unat a" "4 * (unat b div 4) = unat b"
    using mult_div_mod_eq [of 4 "unat a"] mult_div_mod_eq [of 4 "unat b"] assms(1,2) by linarith+
  ultimately have "unat a = unat b" by linarith
  then show False using assms(3) by (simp add: word_unat_eq_iff)
qed

definition entry :: "u32 \<Rightarrow> u32 \<Rightarrow> u32" where
  "entry base idx = base + 4 * idx"

lemma entry_unat:
  assumes "unat base mod 4096 = 0" and "unat idx < 1024"
  shows "unat (entry base idx) = unat base + 4 * unat idx"
proof -
  have lim: "unat base < 2 ^ 32" using unsigned_less [of base] by simp
  have e: "unat (4 * idx) = 4 * unat idx" using assms(2) by (simp add: unat_word_ariths)
  obtain q where q: "unat base = 4096 * q" using assms(1) by (metis mult_div_mod_eq add.right_neutral)
  have "unat base + unat (4 * idx) < 2 ^ LENGTH(32)" using assms(2) lim e q by simp
  then show ?thesis using e by (simp add: entry_def unat_add_lem [THEN iffD1])
qed

lemma entry_inj:
  assumes "unat b mod 4096 = 0" "unat i < 1024" "unat c mod 4096 = 0" "unat j < 1024" "entry b i = entry c j"
  shows "b = c \<and> i = j"
proof -
  have "unat b + 4 * unat i = unat c + 4 * unat j"
    using assms(5) entry_unat [OF assms(1,2)] entry_unat [OF assms(3,4)] by simp
  moreover obtain p q where "unat b = 4096 * p" "unat c = 4096 * q"
    using assms(1,3) by (metis mult_div_mod_eq add.right_neutral)
  ultimately have e: "1024 * p + unat i = 1024 * q + unat j" "unat b = 4096 * p" "unat c = 4096 * q" by simp_all
  then have "(1024 * p + unat i) div 1024 = (1024 * q + unat j) div 1024" by simp
  then have "p = q" using assms(2,4) by simp
  then show ?thesis using e by (simp add: word_unat_eq_iff)
qed

lemma entry_aligned: "unat base mod 4096 = 0 \<Longrightarrow> unat idx < 1024 \<Longrightarrow> unat (entry base idx) mod 4 = 0"
proof -
  assume a: "unat base mod 4096 = 0" "unat idx < 1024"
  obtain q where "unat base = 4096 * q" using a(1) by (metis mult_div_mod_eq add.right_neutral)
  then have "unat (entry base idx) = 4 * (1024 * q + unat idx)" using entry_unat [OF a] by simp
  then show ?thesis by simp
qed

lemma idx_less: "unat (PDX va) < 1024" "unat (PTX va) < 1024"
proof -
  have "x AND 0x3FF = take_bit 10 x" for x :: u32 by (simp add: take_bit_eq_mask mask_eq_exp_minus_1)
  then show "unat (PDX va) < 1024" "unat (PTX va) < 1024"
    by (simp_all add: PDX_def PTX_def take_bit_eq_mod unat_mod)
qed

lemma same_page:
  assumes "PDX va = PDX va'" "PTX va = PTX va'"
  shows "PGROUNDDOWN va = PGROUNDDOWN va'"
proof (rule bit_word_eqI)
  fix n assume n: "n < LENGTH(32)"
  have m: "(0x3FF :: u32) = mask 10" "(PGSIZE - 1 :: u32) = mask 12" by (simp_all add: mask_eq_exp_minus_1 PGSIZE_def)
  show "bit (PGROUNDDOWN va) n = bit (PGROUNDDOWN va') n"
  proof (cases "n < 22")
    case True
    then show ?thesis
      using arg_cong [OF assms(2), of "\<lambda>x. bit x (n - 12)"] n by (auto simp: PTX_def PGROUNDDOWN_def m bit_simps)
  next
    case False
    then show ?thesis
      using arg_cong [OF assms(1), of "\<lambda>x. bit x (n - 22)"] n by (auto simp: PDX_def PGROUNDDOWN_def m bit_simps)
  qed
qed

lemma table_aligned: "unat (p2v (PTE_ADDR e)) mod 4096 = 0"
proof -
  have "take_bit 12 (PTE_ADDR e) = 0"
  proof (rule bit_word_eqI)
    fix n
    have "(0xFFF :: u32) = mask 12" by (simp add: mask_eq_exp_minus_1)
    then show "bit (take_bit 12 (PTE_ADDR e)) n = bit 0 n" by (auto simp: PTE_ADDR_def bit_simps)
  qed
  then have "unat (take_bit 12 (PTE_ADDR e)) = 0" by simp
  then have e: "unat (PTE_ADDR e) mod 4096 = 0" by (simp add: take_bit_eq_mod unat_mod)
  have "unat (p2v (PTE_ADDR e)) mod 4096 = (unat (PTE_ADDR e) + 2147483648) mod 4294967296 mod 4096"
    by (simp add: p2v_def KERNBASE_def unat_word_ariths)
  also have "\<dots> = (unat (PTE_ADDR e) + 2147483648) mod 4096" by (rule mod_mod_cancel) simp
  also have "\<dots> = (unat (PTE_ADDR e) mod 4096 + 2147483648 mod 4096) mod 4096" by (rule mod_add_eq [symmetric])
  also have "\<dots> = 0" unfolding e by simp
  finally show ?thesis .
qed

section \<open>Translation\<close>

definition pde_of :: "mem \<Rightarrow> u32 \<Rightarrow> u32 \<Rightarrow> u32" where
  "pde_of m pgdir va = mget32 m (entry pgdir (PDX va))"

definition pte_at :: "mem \<Rightarrow> u32 \<Rightarrow> u32 \<Rightarrow> u32" where
  "pte_at m pgdir va = entry (p2v (PTE_ADDR (pde_of m pgdir va))) (PTX va)"

text \<open>The entry the hardware finds for a virtual address, if it is present.\<close>

definition translate :: "mem \<Rightarrow> u32 \<Rightarrow> u32 \<Rightarrow> u32 option" where
  "translate m pgdir va =
     (if pde_of m pgdir va AND PTE_P = 0 then None
      else let e = mget32 m (pte_at m pgdir va) in if e AND PTE_P = 0 then None else Some e)"

text \<open>The page tables of a directory are different pages, and none is the directory.\<close>

definition pgdir_ok :: "mem \<Rightarrow> u32 \<Rightarrow> bool" where
  "pgdir_ok m pgdir \<longleftrightarrow> unat pgdir mod 4096 = 0
     \<and> (\<forall>va. pde_of m pgdir va AND PTE_P \<noteq> 0 \<longrightarrow> p2v (PTE_ADDR (pde_of m pgdir va)) \<noteq> pgdir)
     \<and> (\<forall>va va'. pde_of m pgdir va AND PTE_P \<noteq> 0 \<and> pde_of m pgdir va' AND PTE_P \<noteq> 0
          \<and> p2v (PTE_ADDR (pde_of m pgdir va)) = p2v (PTE_ADDR (pde_of m pgdir va')) \<longrightarrow> PDX va = PDX va')"

lemma set_pte:
  fixes e :: u32
  assumes ok: "pgdir_ok m pgdir" and p: "pde_of m pgdir va AND PTE_P \<noteq> 0"
  defines "m' \<equiv> mput32 m (pte_at m pgdir va) e"
  shows "pgdir_ok m' pgdir" and "translate m' pgdir va = (if e AND PTE_P = 0 then None else Some e)"
    and "PGROUNDDOWN va' \<noteq> PGROUNDDOWN va \<Longrightarrow> translate m' pgdir va' = translate m pgdir va'"
    and "pte_at m' pgdir va = pte_at m pgdir va" and "pde_of m' pgdir x = pde_of m pgdir x"
proof -
  have al: "unat pgdir mod 4096 = 0" using ok by (simp add: pgdir_ok_def)
  have apart: "pte_at m pgdir va \<noteq> entry pgdir (PDX x)" for x
    using entry_inj [OF table_aligned idx_less(2) al idx_less(1), of "pde_of m pgdir va" va x] ok p
    by (auto simp: pgdir_ok_def pte_at_def)
  have pde: "pde_of m' pgdir x = pde_of m pgdir x" for x
    unfolding pde_of_def m'_def
    by (rule mget32_other) (use apart entry_aligned al idx_less table_aligned in \<open>auto simp: pte_at_def\<close>)
  then have pte: "pte_at m' pgdir x = pte_at m pgdir x" for x by (simp add: pte_at_def)
  show "pde_of m' pgdir x = pde_of m pgdir x" by (rule pde)
  show "pgdir_ok m' pgdir" using ok by (simp add: pgdir_ok_def pde)
  show "pte_at m' pgdir va = pte_at m pgdir va" by (rule pte)
  show "translate m' pgdir va = (if e AND PTE_P = 0 then None else Some e)" using p by (simp add: translate_def pde pte Let_def) (simp add: m'_def)
  show "translate m' pgdir va' = translate m pgdir va'" if "PGROUNDDOWN va' \<noteq> PGROUNDDOWN va"
  proof (cases "pde_of m pgdir va' AND PTE_P = 0")
    case False
    have "pte_at m pgdir va \<noteq> pte_at m pgdir va'"
    proof
      assume "pte_at m pgdir va = pte_at m pgdir va'"
      then have "p2v (PTE_ADDR (pde_of m pgdir va)) = p2v (PTE_ADDR (pde_of m pgdir va')) \<and> PTX va = PTX va'"
        unfolding pte_at_def by (intro entry_inj table_aligned idx_less)
      moreover from this have "PDX va = PDX va'" using ok p False unfolding pgdir_ok_def by blast
      ultimately show False using same_page [of va va'] that by simp
    qed
    then have "mget32 m' (pte_at m pgdir va') = mget32 m (pte_at m pgdir va')"
      unfolding m'_def by (intro mget32_other) (auto simp: pte_at_def entry_aligned table_aligned idx_less)
    then show ?thesis by (simp add: translate_def pde pte)
  qed (simp add: translate_def pde)
qed

section \<open>Pages of a directory\<close>

lemma aligned_unat: "p mod PGSIZE = 0 \<longleftrightarrow> unat p mod 4096 = 0" for p :: u32
  by (simp add: PGSIZE_def unat_mod [symmetric] word_unat_eq_iff [of "p mod 4096"] unat_mod)

lemma entry_in_page:
  assumes "unat base mod 4096 = 0" and "unat idx < 1024" and "unat (i - entry base idx) < 4"
  shows "in_page base i"
proof -
  have i: "i - base = (i - entry base idx) + 4 * idx" by (simp add: entry_def)
  have e: "unat (4 * idx) = 4 * unat idx" using assms(2) by (simp add: unat_word_ariths)
  have "unat (i - base) = unat (i - entry base idx) + 4 * unat idx"
    unfolding i using unat_add_lem [of "i - entry base idx" "4 * idx"] e assms(2,3) by simp
  then show ?thesis using assms(2,3) by (simp add: in_page_def PGSIZE_def)
qed

text \<open>Memory that differs in the pages of \<open>A\<close> only.\<close>

definition touches :: "u32 set \<Rightarrow> mem \<Rightarrow> mem \<Rightarrow> bool" where
  "touches A m m' \<longleftrightarrow> (\<forall>i. (\<forall>p \<in> A. \<not> in_page p i) \<longrightarrow> m' i = m i)"

lemma touches_refl [simp]: "touches A m m"
  by (simp add: touches_def)

lemma touches_trans: "touches A m m' \<Longrightarrow> touches B m' m'' \<Longrightarrow> A \<subseteq> C \<Longrightarrow> B \<subseteq> C \<Longrightarrow> touches C m m''"
  unfolding touches_def by (metis subsetD)

lemma touches_mono: "touches A m m' \<Longrightarrow> A \<subseteq> C \<Longrightarrow> touches C m m'"
  unfolding touches_def by (metis subsetD)

lemma touches_page: "(\<And>i. \<not> in_page p i \<Longrightarrow> m' i = m i) \<Longrightarrow> p \<in> A \<Longrightarrow> touches A m m'"
  unfolding touches_def by blast

lemma touches_other:
  assumes "touches A m m'" and "\<forall>p \<in> A. p mod PGSIZE = 0" and "q mod PGSIZE = 0" and "q \<notin> A" and "in_page q i"
  shows "m' i = m i"
  using assms pages_apart unfolding touches_def by metis

lemma touches_poke:
  assumes "unat base mod 4096 = 0" "unat idx < 1024" "base \<in> A"
  shows "touches A m (mput32 m (entry base idx) v)"
proof (rule touches_page [OF _ assms(3)])
  fix i assume "\<not> in_page base i"
  then have "\<not> unat (i - entry base idx) < 4" using entry_in_page [OF assms(1,2)] by blast
  then show "mput32 m (entry base idx) v i = m i" by (rule mput32_outside)
qed

lemma touches_zero: "p \<in> A \<Longrightarrow> touches A m (memset p 0 PGSIZE m)"
  by (rule touches_page [of p]) (auto simp: memset_eq in_page_def)

lemma mget32_page:
  assumes "unat base mod 4096 = 0" and "unat idx < 1024" and "\<And>i. in_page base i \<Longrightarrow> m' i = m i"
  shows "mget32 m' (entry base idx) = mget32 m (entry base idx)"
  by (rule mget32_cong, rule assms(3), rule entry_in_page [OF assms(1,2)])

lemma mget32_zeroed:
  assumes "unat p mod 4096 = 0" and "unat idx < 1024"
  shows "mget32 (memset p 0 PGSIZE m) (entry p idx) = 0"
proof -
  have "mget32 (memset p 0 PGSIZE m) (entry p idx) = mget32 (\<lambda>_. 0) (entry p idx)"
    by (rule mget32_page [OF assms]) (simp add: memset_eq in_page_def)
  then show ?thesis by (simp add: mget32_def of_bytes_def)
qed

text \<open>The directory and its page tables.\<close>

definition present :: "mem \<Rightarrow> u32 \<Rightarrow> u32 \<Rightarrow> bool" where
  "present m pgdir va \<longleftrightarrow> pde_of m pgdir va AND PTE_P \<noteq> 0"

definition table_of :: "mem \<Rightarrow> u32 \<Rightarrow> u32 \<Rightarrow> u32" where
  "table_of m pgdir va = p2v (PTE_ADDR (pde_of m pgdir va))"

definition tables :: "mem \<Rightarrow> u32 \<Rightarrow> u32 set" where
  "tables m pgdir = insert pgdir {table_of m pgdir va | va. present m pgdir va}"

lemma table_of_aligned: "unat (table_of m pgdir va) mod 4096 = 0"
  by (simp add: table_of_def table_aligned)

lemma tables_aligned: "pgdir_ok m pgdir \<Longrightarrow> p \<in> tables m pgdir \<Longrightarrow> p mod PGSIZE = 0"
  by (auto simp: tables_def pgdir_ok_def aligned_unat table_of_aligned)

text \<open>Whatever keeps the pages of the directory keeps the translation.\<close>

lemma tables_cong:
  assumes ok: "pgdir_ok m pgdir" and same: "\<And>p i. p \<in> tables m pgdir \<Longrightarrow> in_page p i \<Longrightarrow> m' i = m i"
  shows "pde_of m' pgdir va = pde_of m pgdir va" "translate m' pgdir va = translate m pgdir va" "pgdir_ok m' pgdir" "tables m' pgdir = tables m pgdir"
proof -
  have al: "unat pgdir mod 4096 = 0" using ok by (simp add: pgdir_ok_def)
  have pde: "pde_of m' pgdir x = pde_of m pgdir x" for x
    unfolding pde_of_def by (rule mget32_page [OF al idx_less(1)]) (use same in \<open>auto simp: tables_def\<close>)
  show "pde_of m' pgdir va = pde_of m pgdir va" "pgdir_ok m' pgdir" "tables m' pgdir = tables m pgdir"
    using ok by (simp_all add: pde pgdir_ok_def tables_def table_of_def present_def)
  have "mget32 m' (pte_at m pgdir va) = mget32 m (pte_at m pgdir va)" if "present m pgdir va"
    unfolding pte_at_def by (rule mget32_page [OF table_aligned idx_less(2)]) (use same that in \<open>auto simp: tables_def table_of_def\<close>)
  then show "translate m' pgdir va = translate m pgdir va" by (simp add: translate_def pte_at_def pde present_def Let_def)
qed

text \<open>The pages of the directory are not among the free pages \<open>F\<close>.\<close>

definition vm_ok :: "u32 set \<Rightarrow> mem \<Rightarrow> u32 \<Rightarrow> bool" where
  "vm_ok F m pgdir \<longleftrightarrow> pgdir_ok m pgdir \<and> tables m pgdir \<inter> F = {} \<and> 0 \<notin> tables m pgdir"

lemma pte_not_null: "vm_ok F m pgdir \<Longrightarrow> present m pgdir va \<Longrightarrow> pte_at m pgdir va \<noteq> 0"
proof -
  assume a: "vm_ok F m pgdir" "present m pgdir va"
  have "unat (pte_at m pgdir va) = unat (table_of m pgdir va) + 4 * unat (PTX va)"
    unfolding pte_at_def table_of_def by (rule entry_unat [OF table_aligned idx_less(2)])
  moreover have "table_of m pgdir va \<noteq> 0" using a by (auto simp: vm_ok_def tables_def)
  then have "unat (table_of m pgdir va) \<noteq> 0" by (simp add: unat_eq_0)
  ultimately show ?thesis by auto
qed

text \<open>The entry that \<^verbatim>\<open>walkpgdir\<close> makes for a new page table.\<close>

lemma or_flags:
  assumes "pa mod PGSIZE = 0" and "f < 8"
  shows "PTE_ADDR (pa OR f) = pa" "(pa OR f) AND PTE_U = f AND PTE_U"
proof -
  have pa: "take_bit 12 pa = 0" using assms(1) by (simp add: aligned_unat PGSIZE_def take_bit_eq_mod word_unat_eq_iff unat_mod)
  have low: "\<not> bit pa n" if "n < 12" for n using arg_cong [OF pa, of "\<lambda>x. bit x n"] that by (simp add: bit_simps)
  have "unat f < 2 ^ 3" using assms(2) by (simp add: word_less_nat_alt)
  then have f: "bit f n \<Longrightarrow> n < 3" for n using bit_unat_less by blast
  have m: "(0xFFF :: u32) = mask 12" by (simp add: mask_eq_exp_minus_1)
  have pu: "PTE_U = push_bit 2 1" by (simp add: PTE_U_def)
  have u: "bit PTE_U n \<longleftrightarrow> n = 2" for n unfolding pu bit_push_bit_iff bit_1_iff by auto
  show "PTE_ADDR (pa OR f) = pa"
    unfolding PTE_ADDR_def m by (rule bit_word_eqI) (use low f in \<open>fastforce simp: bit_simps\<close>)
  show "(pa OR f) AND PTE_U = f AND PTE_U" by (rule bit_word_eqI) (use low in \<open>auto simp: bit_and_iff bit_or_iff u\<close>)
qed

lemma present_bit: "(x OR PTE_P) AND PTE_P \<noteq> 0"
proof -
  have "bit ((x OR PTE_P) AND PTE_P) 0" by (simp add: PTE_P_def bit_simps)
  then show ?thesis by (metis bit_0_eq bot_apply bot_bool_def)
qed

lemma v2p_aligned: "v mod PGSIZE = 0 \<Longrightarrow> v2p v mod PGSIZE = 0" "p2v (v2p v) = v"
proof -
  show "p2v (v2p v) = v" by (simp add: p2v_def v2p_def)
  assume "v mod PGSIZE = 0"
  then have v: "unat v mod 4096 = 0" by (simp add: aligned_unat)
  have "v2p v = v + 0x80000000" by (simp add: v2p_def KERNBASE_def)
  then have "unat (v2p v) mod 4096 = (unat v + 2147483648) mod 4294967296 mod 4096" by (simp add: unat_word_ariths)
  also have "\<dots> = (unat v + 2147483648) mod 4096" by (rule mod_mod_cancel) simp
  also have "\<dots> = (unat v mod 4096 + 2147483648 mod 4096) mod 4096" by (rule mod_add_eq [symmetric])
  also have "\<dots> = 0" unfolding v by simp
  finally show "v2p v mod PGSIZE = 0" by (simp add: aligned_unat)
qed

text \<open>A new page table, empty, for an address that has none.\<close>

lemma new_table:
  assumes ok: "vm_ok F m pgdir" and v: "v \<in> F" "v \<noteq> 0" "v mod PGSIZE = 0" and n: "\<not> present m pgdir va"
  defines "E \<equiv> v2p v OR PTE_P OR PTE_W OR PTE_U"
  defines "m' \<equiv> mput32 (memset v 0 PGSIZE m) (entry pgdir (PDX va)) E"
  shows "vm_ok (F - {v}) m' pgdir" "translate m' pgdir x = translate m pgdir x" "present m' pgdir va" "table_of m' pgdir va = v"
    "tables m' pgdir = insert v (tables m pgdir)" "touches {pgdir, v} m m'"
proof -
  have al: "unat pgdir mod 4096 = 0" and pok: "pgdir_ok m pgdir" using ok by (simp_all add: vm_ok_def pgdir_ok_def)
  have alv: "unat v mod 4096 = 0" using v(3) by (simp add: aligned_unat)
  have vT: "v \<notin> tables m pgdir" using ok v(1) by (auto simp: vm_ok_def)
  then have vd: "v \<noteq> pgdir" by (auto simp: tables_def)
  have E: "E AND PTE_P \<noteq> 0" "p2v (PTE_ADDR E) = v"
  proof -
    have "E = v2p v OR 7" by (simp add: E_def PTE_P_def PTE_W_def PTE_U_def or.assoc)
    then show "p2v (PTE_ADDR E) = v" using or_flags(1) [OF v2p_aligned(1) [OF v(3)], of 7] v2p_aligned(2) by simp
    show "E AND PTE_P \<noteq> 0" using present_bit [of "v2p v OR PTE_W OR PTE_U"] by (simp add: E_def ac_simps)
  qed
  have mm: "memset v 0 PGSIZE m i = m i" if "in_page p i" "p \<noteq> v" "p mod PGSIZE = 0" for p i
    using that pages_apart [OF v(3) that(3)] by (auto simp: memset_eq in_page_def)
  have pde: "pde_of m' pgdir y = (if PDX y = PDX va then E else pde_of m pgdir y)" for y
  proof (cases "PDX y = PDX va")
    case False
    have "entry pgdir (PDX y) \<noteq> entry pgdir (PDX va)" using entry_inj [OF al idx_less(1) al idx_less(1)] False by blast
    then have "pde_of m' pgdir y = mget32 (memset v 0 PGSIZE m) (entry pgdir (PDX y))"
      unfolding pde_of_def m'_def by (intro mget32_other) (auto intro: entry_aligned al idx_less)
    also have "\<dots> = pde_of m pgdir y"
      unfolding pde_of_def by (rule mget32_page [OF al idx_less(1)]) (use mm [of pgdir] vd al in \<open>simp add: aligned_unat\<close>)
    finally show ?thesis using False by simp
  qed (simp add: pde_of_def m'_def)
  have na: "pde_of m pgdir y AND PTE_P = 0" if "PDX y = PDX va" for y
    using n that by (simp add: present_def pde_of_def)
  have read: "mget32 m' (entry q k) = mget32 (memset v 0 PGSIZE m) (entry q k)" if "unat q mod 4096 = 0" "unat k < 1024" "q \<noteq> pgdir" for q k
  proof -
    have "entry pgdir (PDX va) \<noteq> entry q k" using entry_inj [OF that(1,2) al idx_less(1), of va] that(3) by metis
    then show ?thesis unfolding m'_def using that by (intro mget32_other) (auto intro: entry_aligned al idx_less)
  qed
  show "present m' pgdir va" "table_of m' pgdir va = v" using E by (simp_all add: present_def table_of_def pde)
  show T: "tables m' pgdir = insert v (tables m pgdir)"
  proof -
    have "{table_of m' pgdir y | y. present m' pgdir y} = insert v {table_of m pgdir y | y. present m pgdir y}"
    proof (intro set_eqI iffI)
      fix q assume "q \<in> insert v {table_of m pgdir y | y. present m pgdir y}"
      then consider "q = v" | y where "q = table_of m pgdir y" "present m pgdir y" by blast
      then show "q \<in> {table_of m' pgdir y | y. present m' pgdir y}"
      proof cases
        case 1
        then show ?thesis using E by (auto simp: table_of_def present_def pde intro!: exI [of _ va])
      next
        case (2 y)
        then have "PDX y \<noteq> PDX va" using na by (auto simp: present_def)
        then show ?thesis using 2 by (auto simp: table_of_def present_def pde intro!: exI [of _ y])
      qed
    qed (use E in \<open>auto simp: table_of_def present_def pde split: if_splits\<close>)
    then show ?thesis by (auto simp: tables_def)
  qed
  have old: "p2v (PTE_ADDR (pde_of m pgdir y)) \<noteq> v" if "pde_of m pgdir y AND PTE_P \<noteq> 0" for y
    using vT that by (auto simp: tables_def table_of_def present_def)
  have "pgdir_ok m' pgdir"
    using pok vd old old [symmetric] unfolding pgdir_ok_def pde by (auto simp: E split: if_splits)
  then show "vm_ok (F - {v}) m' pgdir" using ok v(2) vT unfolding vm_ok_def T by blast
  show "translate m' pgdir x = translate m pgdir x"
  proof (cases "PDX x = PDX va")
    case True
    have "mget32 m' (pte_at m' pgdir x) = 0"
      using read [OF alv idx_less(2)] vd mget32_zeroed [OF alv idx_less(2)] True by (simp add: pte_at_def pde E)
    then show ?thesis using na [OF True] by (simp add: translate_def pde True E Let_def)
  next
    case False
    show ?thesis
    proof (cases "pde_of m pgdir x AND PTE_P = 0")
      case P: False
      let ?q = "p2v (PTE_ADDR (pde_of m pgdir x))"
      have "?q \<noteq> pgdir" using pok P by (simp add: pgdir_ok_def)
      then have "mget32 m' (entry ?q (PTX x)) = mget32 (memset v 0 PGSIZE m) (entry ?q (PTX x))" by (rule read [OF table_aligned idx_less(2)])
      also have "\<dots> = mget32 m (entry ?q (PTX x))"
        by (rule mget32_page [OF table_aligned idx_less(2)]) (use mm [of ?q] old [OF P] table_aligned in \<open>simp add: aligned_unat\<close>)
      finally show ?thesis using False by (simp add: translate_def pte_at_def pde Let_def)
    qed (use False in \<open>simp add: translate_def pde\<close>)
  qed
  have "touches {pgdir, v} (memset v 0 PGSIZE m) m'" unfolding m'_def by (rule touches_poke [OF al idx_less(1)]) simp
  then show "touches {pgdir, v} m m'" using touches_trans [OF touches_zero [of v "{pgdir, v}" m]] by blast
qed

section \<open>Walking and mapping\<close>

text \<open>An operation on the directory that takes pages from the free ones: what it changes lies in its pages and in those.\<close>

definition vm_step :: "u32 \<Rightarrow> u32 \<Rightarrow> u32 set \<Rightarrow> u32 set \<Rightarrow> kmem \<Rightarrow> kmem \<Rightarrow> bool" where
  "vm_step e pgdir F F' s t \<longleftrightarrow> free_set e F' t \<and> F' \<subseteq> F \<and> vm_ok F' (kram t) pgdir
     \<and> tables (kram t) pgdir \<subseteq> tables (kram s) pgdir \<union> F \<and> touches (tables (kram s) pgdir \<union> F) (kram s) (kram t)"

lemma vm_step_refl: "free_set e F s \<Longrightarrow> vm_ok F (kram s) pgdir \<Longrightarrow> vm_step e pgdir F F s s"
  by (auto simp: vm_step_def)

lemma vm_step_trans:
  assumes "vm_step e pgdir F F' s t" and "vm_step e pgdir F' F'' t u"
  shows "vm_step e pgdir F F'' s u"
proof -
  have "tables (kram t) pgdir \<union> F' \<subseteq> tables (kram s) pgdir \<union> F" using assms(1) by (auto simp: vm_step_def)
  then show ?thesis using assms touches_trans [of "tables (kram s) pgdir \<union> F" "kram s" "kram t" "tables (kram t) pgdir \<union> F'" "kram u"]
    unfolding vm_step_def by blast
qed

lemma walkpgdir_present:
  "present (kram s) pgdir va \<Longrightarrow> walkpgdir pgdir va alloc s = Inr (pte_at (kram s) pgdir va, s)"
  by (simp add: Let_def walkpgdir_def present_def pde_of_def pte_at_def entry_def peek_def andthen_def gets_def ret_def)

lemma walkpgdir_absent: "\<not> present (kram s) pgdir va \<Longrightarrow> walkpgdir pgdir va False s = Inr (0, s)"
  by (simp add: Let_def walkpgdir_def present_def pde_of_def entry_def peek_def andthen_def gets_def ret_def)

lemma card_but_one: "card F \<le> Suc (card (F - {v}))"
  by (cases "finite F \<and> v \<in> F") (auto simp: card_Suc_Diff1)

lemma walkpgdir_wp:
  assumes f: "free_set e F s" and ok: "vm_ok F (kram s) pgdir"
  shows "wp (walkpgdir pgdir va True) (\<lambda>pte t. \<exists>F'. vm_step e pgdir F F' s t \<and> (\<forall>x. translate (kram t) pgdir x = translate (kram s) pgdir x)
     \<and> card F \<le> Suc (card F') \<and> (if pte = 0 then F = {} \<and> t = s else present (kram t) pgdir va \<and> pte = pte_at (kram t) pgdir va)) s"
proof (cases "present (kram s) pgdir va")
  case True
  then show ?thesis using vm_step_refl [OF f ok] pte_not_null [OF ok True] by (auto intro!: wpI [OF walkpgdir_present] exI [of _ F])
next
  case False
  let ?E = "\<lambda>v. v2p v OR PTE_P OR PTE_W OR PTE_U"
  let ?m = "\<lambda>v. mput32 (memset v 0 PGSIZE (kram s)) (entry pgdir (PDX va)) (?E v)"
  have al: "unat pgdir mod 4096 = 0" using ok by (simp add: vm_ok_def pgdir_ok_def)
  have "wp kalloc (\<lambda>v t. if v = 0 then F = {} \<and> t = s
      else v \<in> F \<and> vm_step e pgdir F (F - {v}) s (t\<lparr>kram := ?m v\<rparr>) \<and> kram t = kram s \<and> (\<forall>x. translate (?m v) pgdir x = translate (kram s) pgdir x)
        \<and> present (?m v) pgdir va \<and> pte_at (?m v) pgdir va = v + 4 * PTX va \<and> v + 4 * PTX va \<noteq> 0) s"
  proof (rule wp_conseq [OF pa.alloc [OF f]])
    fix v t
    assume a: "kram t = kram s \<and> (if F = {} then v = 0 \<and> t = s else v \<in> F \<and> v \<noteq> 0 \<and> free_set e (F - {v}) t)"
    show "if v = 0 then F = {} \<and> t = s
      else v \<in> F \<and> vm_step e pgdir F (F - {v}) s (t\<lparr>kram := ?m v\<rparr>) \<and> kram t = kram s \<and> (\<forall>x. translate (?m v) pgdir x = translate (kram s) pgdir x)
        \<and> present (?m v) pgdir va \<and> pte_at (?m v) pgdir va = v + 4 * PTX va \<and> v + 4 * PTX va \<noteq> 0"
    proof (cases "v = 0")
      case nz: False
      then have v: "v \<in> F" "free_set e (F - {v}) t" using a by (auto split: if_splits)
      have vp: "v mod PGSIZE = 0" using pa.good(1) [OF f v(1)] pa.good(2) by blast
      note N = new_table [OF ok v(1) nz vp False]
      have m: "?m v i = kram t i" if p: "p \<in> F - {v}" and i: "in_page p i" for p i
      proof -
        have "p mod PGSIZE = 0" using pa.good(1) [OF f] pa.good(2) p by blast
        moreover have "p \<notin> {pgdir, v}" using p ok by (auto simp: vm_ok_def tables_def)
        moreover have "\<forall>q \<in> {pgdir, v}. q mod PGSIZE = 0" using al vp by (simp add: aligned_unat)
        ultimately show ?thesis using touches_other [OF N(6), of p i] i a by simp
      qed
      have "free_set e (F - {v}) (t\<lparr>kram := ?m v\<rparr>)" by (rule pa.frame [OF v(2)]) (use m in simp)
      moreover have "touches (tables (kram s) pgdir \<union> F) (kram s) (?m v)" by (rule touches_mono [OF N(6)]) (use v(1) in \<open>auto simp: tables_def\<close>)
      ultimately have "vm_step e pgdir F (F - {v}) s (t\<lparr>kram := ?m v\<rparr>)" using N(1,5) v(1) by (auto simp: vm_step_def)
      moreover have pte: "pte_at (?m v) pgdir va = v + 4 * PTX va" using N(4) by (simp add: pte_at_def table_of_def entry_def)
      moreover have "v + 4 * PTX va \<noteq> 0" using pte_not_null [OF N(1,3)] pte by simp
      ultimately show ?thesis using nz v(1) N(2,3) a by simp
    qed (use a in \<open>auto split: if_splits\<close>)
  qed
  moreover have "mget32 (kram s) (pgdir + 4 * PDX va) AND PTE_P = 0" using False by (simp add: present_def pde_of_def entry_def)
  ultimately show ?thesis
    unfolding walkpgdir_def Let_def wp_simps peek_def
    using vm_step_refl [OF f ok] card_but_one [of F]
    by (auto elim!: wp_conseq simp: wp_simps zero_page_def poke_def entry_def split: if_splits)
qed

lemma page_steps:
  assumes "Suc k < 2 ^ 20"
  shows "a + (PGSIZE + of_nat k * PGSIZE) \<noteq> (a :: u32)"
proof -
  have e: "PGSIZE + of_nat k * PGSIZE = of_nat (Suc k * 4096)" by (simp add: PGSIZE_def)
  have "unat (of_nat (Suc k * 4096) :: u32) = Suc k * 4096" unfolding unat_of_nat by (rule mod_less) (use assms in simp)
  then show ?thesis unfolding e by (metis add_cancel_right_right mult_eq_0_iff nat.distinct(1) unat_0 zero_neq_numeral)
qed

text \<open>What has become of the pages from \<open>a\<close> on when \<open>j\<close> of them are mapped to those from \<open>pa\<close> on.\<close>

definition mapped_to :: "nat \<Rightarrow> u32 \<Rightarrow> u32 \<Rightarrow> u32 \<Rightarrow> u32 \<Rightarrow> mem \<Rightarrow> mem \<Rightarrow> bool" where
  "mapped_to j pgdir a pa perm m m' \<longleftrightarrow>
     (\<forall>k < j. translate m' pgdir (a + of_nat k * PGSIZE) = Some ((pa + of_nat k * PGSIZE) OR perm OR PTE_P))
     \<and> (\<forall>x. (\<forall>k < j. PGROUNDDOWN x \<noteq> a + of_nat k * PGSIZE) \<longrightarrow> translate m' pgdir x = translate m pgdir x)"

lemma mapped_to_0: "mapped_to 0 pgdir a pa perm m m"
  by (simp add: mapped_to_def)

lemma mapped_to_Suc:
  assumes one: "mapped_to 1 pgdir a pa perm m m1" and more: "mapped_to j pgdir (a + PGSIZE) (pa + PGSIZE) perm m1 m2"
    and a: "PGROUNDDOWN a = a" and j: "j < 2 ^ 20"
  shows "mapped_to (Suc j) pgdir a pa perm m m2"
proof -
  have "translate m2 pgdir a = translate m1 pgdir a"
  proof -
    have "\<forall>k < j. a + PGSIZE + of_nat k * PGSIZE \<noteq> a" using page_steps [of _ a] j by (simp add: add.assoc)
    then show ?thesis using more a unfolding mapped_to_def by metis
  qed
  then have z: "translate m2 pgdir (a + of_nat 0 * PGSIZE) = Some ((pa + of_nat 0 * PGSIZE) OR perm OR PTE_P)"
    using one by (simp add: mapped_to_def)
  have s: "translate m2 pgdir (a + of_nat (Suc k) * PGSIZE) = Some ((pa + of_nat (Suc k) * PGSIZE) OR perm OR PTE_P)" if "k < j" for k
    using more that by (simp add: mapped_to_def algebra_simps)
  have "translate m2 pgdir x = translate m pgdir x" if "\<forall>k < Suc j. PGROUNDDOWN x \<noteq> a + of_nat k * PGSIZE" for x
  proof -
    have "PGROUNDDOWN x \<noteq> a + PGSIZE + of_nat k * PGSIZE" if "k < j" for k
      using \<open>\<forall>k < Suc j. _\<close> [rule_format, of "Suc k"] that by (simp add: algebra_simps)
    moreover have "PGROUNDDOWN x \<noteq> a" using that [rule_format, of 0] by simp
    ultimately show ?thesis using one more by (simp add: mapped_to_def)
  qed
  moreover have "translate m2 pgdir (a + of_nat k * PGSIZE) = Some ((pa + of_nat k * PGSIZE) OR perm OR PTE_P)" if "k < Suc j" for k
    using z s that by (cases k) auto
  ultimately show ?thesis by (simp add: mapped_to_def)
qed

text \<open>Writing the entry of a page that has a table.\<close>

lemma map_one:
  fixes pa perm :: u32
  assumes st: "vm_step e pgdir F F' s t" and p: "present (kram t) pgdir a" and a: "PGROUNDDOWN a = a"
    and tr: "\<forall>x. translate (kram t) pgdir x = translate (kram s) pgdir x"
  defines "u \<equiv> t\<lparr>kram := mput32 (kram t) (pte_at (kram t) pgdir a) (pa OR perm OR PTE_P)\<rparr>"
  shows "vm_step e pgdir F F' s u" "mapped_to 1 pgdir a pa perm (kram s) (kram u)"
proof -
  have f: "free_set e F' t" and ok: "vm_ok F' (kram t) pgdir" using st by (auto simp: vm_step_def)
  then have pok: "pgdir_ok (kram t) pgdir" by (simp add: vm_ok_def)
  have P: "(pa OR perm OR PTE_P) AND PTE_P \<noteq> 0" using present_bit [of "pa OR perm"] by (simp add: ac_simps)
  note S = set_pte [OF pok p [unfolded present_def]]
  have "tables (kram u) pgdir = tables (kram t) pgdir"
    by (simp add: u_def tables_def present_def table_of_def S(5))
  moreover have T: "touches (tables (kram t) pgdir) (kram t) (kram u)"
    using touches_poke [OF table_of_aligned [of "kram t" pgdir a] idx_less(2), of "tables (kram t) pgdir"] p
    by (auto simp: u_def pte_at_def table_of_def tables_def)
  moreover have "free_set e F' u"
    unfolding u_def
  proof (rule pa.frame [OF f])
    fix q i assume q: "q \<in> F'" "in_page q i"
    have "q \<notin> tables (kram t) pgdir" using q(1) ok by (auto simp: vm_ok_def)
    then show "mput32 (kram t) (pte_at (kram t) pgdir a) (pa OR perm OR PTE_P) i = kram t i"
      using touches_other [OF T _ _ _ q(2)] tables_aligned [OF pok] pa.good [of e] f q(1) by (auto simp: u_def)
  qed
  ultimately have "vm_step e pgdir F' F' t u" using ok S(1) by (auto simp: vm_step_def vm_ok_def u_def intro: touches_mono)
  then show "vm_step e pgdir F F' s u" by (rule vm_step_trans [OF st])
  show "mapped_to 1 pgdir a pa perm (kram s) (kram u)"
    using S(2,3) P tr a by (simp add: mapped_to_def u_def)
qed

lemma mappages_loop_step:
  assumes f: "free_set e F s" and ok: "vm_ok F (kram s) pgdir" and a: "PGROUNDDOWN a = a" and none: "translate (kram s) pgdir a = None"
    and fail: "F = {} \<Longrightarrow> Q (-1) s"
    and go: "\<And>F' t. vm_step e pgdir F F' s t \<Longrightarrow> card F \<le> Suc (card F') \<Longrightarrow> mapped_to 1 pgdir a pa perm (kram s) (kram t)
      \<Longrightarrow> wp (case n of 0 \<Rightarrow> ret 0 | Suc m \<Rightarrow> mappages_loop m pgdir (a + PGSIZE) (pa + PGSIZE) perm) Q t"
  shows "wp (mappages_loop n pgdir a pa perm) Q s"
  unfolding mappages_loop.simps [of n] wp_andthen [of "walkpgdir pgdir a True"]
proof (rule wp_conseq [OF walkpgdir_wp [OF f ok]], elim exE conjE)
  fix pte t F'
  assume st: "vm_step e pgdir F F' s t" and n: "card F \<le> Suc (card F')" and tr: "\<forall>x. translate (kram t) pgdir x = translate (kram s) pgdir x"
    and c: "if pte = 0 then F = {} \<and> t = s else present (kram t) pgdir a \<and> pte = pte_at (kram t) pgdir a"
  show "wp (if pte = 0 then ret (-1) else
      andthen (peek pte) (\<lambda>e. andthen (panic_if (e AND PTE_P \<noteq> 0) ''remap'') (\<lambda>_. andthen (poke pte (pa OR perm OR PTE_P))
        (\<lambda>_. case n of 0 \<Rightarrow> ret 0 | Suc m \<Rightarrow> mappages_loop m pgdir (a + PGSIZE) (pa + PGSIZE) perm)))) Q t"
  proof (cases "pte = 0")
    case True
    then show ?thesis using c fail by (simp add: wp_simps)
  next
    case False
    then have p: "present (kram t) pgdir a" "pte = pte_at (kram t) pgdir a" using c by auto
    have "mget32 (kram t) pte AND PTE_P = 0"
      using tr [rule_format, of a] none p by (auto simp: translate_def present_def Let_def split: if_splits)
    then show ?thesis using False go [OF map_one(1) [OF st p(1) a tr] n map_one(2) [OF st p(1) a tr]] p(2)
      by (simp add: wp_simps peek_def poke_def)
  qed
qed

lemma rounddown_step: "PGROUNDDOWN a = a \<Longrightarrow> PGROUNDDOWN (a + PGSIZE) = a + PGSIZE"
proof -
  have t: "PGROUNDDOWN x = x \<longleftrightarrow> take_bit 12 x = 0" for x
    using PGROUNDDOWN_offset [of x] by (metis eq_iff_diff_eq_0)
  have r: "PGROUNDDOWN x = x \<longleftrightarrow> unat x mod 4096 = 0" for x
    using aligned_unat [of x] by (simp add: t take_bit_eq_mod PGSIZE_def)
  have "unat (a + PGSIZE) mod 4096 = unat a mod 4096" by (simp add: PGSIZE_def unat_word_ariths mod_mod_cancel)
  then show "PGROUNDDOWN a = a \<Longrightarrow> PGROUNDDOWN (a + PGSIZE) = a + PGSIZE" unfolding r by simp
qed

text \<open>What a run of the loop over \<open>n\<close> more pages leaves: \<open>j\<close> pages are mapped, all of them or those before the memory was used up.\<close>

definition mapped_pages :: "u32 \<Rightarrow> u32 set \<Rightarrow> nat \<Rightarrow> u32 \<Rightarrow> u32 \<Rightarrow> u32 \<Rightarrow> u32 \<Rightarrow> kmem \<Rightarrow> int \<Rightarrow> kmem \<Rightarrow> u32 set \<Rightarrow> nat \<Rightarrow> bool" where
  "mapped_pages e F n pgdir a pa perm s r t F' j \<longleftrightarrow> vm_step e pgdir F F' s t \<and> mapped_to j pgdir a pa perm (kram s) (kram t)
     \<and> card F \<le> card F' + j \<and> (if r = 0 then j = Suc n else r = -1 \<and> j \<le> n \<and> F' = {})"

lemma mapped_none:
  "free_set e F s \<Longrightarrow> vm_ok F (kram s) pgdir \<Longrightarrow> F = {} \<Longrightarrow> mapped_pages e F n pgdir a pa perm s (-1) s F 0"
  by (simp add: mapped_pages_def vm_step_refl mapped_to_0)

lemma rounddown_steps: "PGROUNDDOWN a = a \<Longrightarrow> PGROUNDDOWN (a + of_nat k * PGSIZE) = a + of_nat k * PGSIZE"
proof (induction k)
  case (Suc k)
  then show ?case using rounddown_step [of "a + of_nat k * PGSIZE"] by (simp add: algebra_simps)
qed simp

lemma mappages_loop_wp:
  assumes "free_set e F s" and "vm_ok F (kram s) pgdir" and "PGROUNDDOWN a = a" and "Suc n \<le> 2 ^ 20"
    and "\<forall>k \<le> n. translate (kram s) pgdir (a + of_nat k * PGSIZE) = None"
  shows "wp (mappages_loop n pgdir a pa perm) (\<lambda>r t. \<exists>F' j. mapped_pages e F n pgdir a pa perm s r t F' j) s"
  using assms
proof (induction n arbitrary: s F a pa)
  case (0 s F a pa)
  then have "translate (kram s) pgdir a = None" by simp
  then show ?case
  proof (rule mappages_loop_step [OF 0(1-3)], goal_cases)
    case 1
    then show ?case by (intro exI [of _ F] exI [of _ 0]) (use mapped_none [OF 0(1,2)] in simp)
  next
    case (2 F1 t)
    then have "mapped_pages e F 0 pgdir a pa perm s 0 t F1 1" by (simp add: mapped_pages_def)
    then show ?case by (auto simp: wp_simps)
  qed
next
  case (Suc n s F a pa)
  have none: "translate (kram s) pgdir a = None" using Suc.prems(5) [rule_format, of 0] by simp
  show ?case
  proof (rule mappages_loop_step [OF Suc.prems(1-3) none], goal_cases)
    case 1
    then show ?case by (intro exI [of _ F] exI [of _ 0]) (use mapped_none [OF Suc.prems(1,2)] in simp)
  next
    case (2 F1 t)
    have f: "free_set e F1 t" and ok: "vm_ok F1 (kram t) pgdir" using 2(1) by (simp_all add: vm_step_def)
    have "translate (kram t) pgdir (a + PGSIZE + of_nat k * PGSIZE) = None" if "k \<le> n" for k
    proof -
      have p: "a + PGSIZE + of_nat k * PGSIZE = a + of_nat (Suc k) * PGSIZE" by (simp add: algebra_simps)
      have "PGROUNDDOWN (a + of_nat (Suc k) * PGSIZE) \<noteq> a"
        unfolding rounddown_steps [OF Suc.prems(3)] using page_steps [of k a] that Suc.prems(4) by (simp add: algebra_simps)
      then show ?thesis unfolding p using 2(3) Suc.prems(5) [rule_format, of "Suc k"] that by (simp add: mapped_to_def)
    qed
    then have "wp (mappages_loop n pgdir (a + PGSIZE) (pa + PGSIZE) perm)
        (\<lambda>r u. \<exists>F' j. mapped_pages e F1 n pgdir (a + PGSIZE) (pa + PGSIZE) perm t r u F' j) t"
      using Suc.IH [OF f ok rounddown_step [OF Suc.prems(3)]] Suc.prems(4) by simp
    then show ?case
    proof (simp, elim wp_conseq exE)
      fix r u F' j assume m: "mapped_pages e F1 n pgdir (a + PGSIZE) (pa + PGSIZE) perm t r u F' j"
      then have "j < 2 ^ 20" using Suc.prems(4) by (auto simp: mapped_pages_def split: if_splits)
      then have "mapped_to (Suc j) pgdir a pa perm (kram s) (kram u)"
        using mapped_to_Suc [OF 2(3) _ Suc.prems(3)] m by (simp add: mapped_pages_def)
      then have "mapped_pages e F (Suc n) pgdir a pa perm s r u F' (Suc j)"
        using m 2(2) vm_step_trans [OF 2(1), of F' u] by (auto simp: mapped_pages_def split: if_splits)
      then show "\<exists>F' j. mapped_pages e F (Suc n) pgdir a pa perm s r u F' j" by blast
    qed
  qed
qed

lemma user_flags:
  "(pa OR (PTE_W OR PTE_U) OR PTE_P) AND PTE_P \<noteq> 0" "(pa OR (PTE_W OR PTE_U) OR PTE_P) AND PTE_U \<noteq> 0"
  "PGROUNDDOWN pa = pa \<Longrightarrow> PTE_ADDR (pa OR (PTE_W OR PTE_U) OR PTE_P) = pa"
proof -
  have "bit ((pa OR (PTE_W OR PTE_U) OR PTE_P) AND PTE_P) 0" "bit ((pa OR (PTE_W OR PTE_U) OR PTE_P) AND PTE_U) 2"
    by (simp_all add: PTE_W_def PTE_U_def PTE_P_def bit_simps)
  then show "(pa OR (PTE_W OR PTE_U) OR PTE_P) AND PTE_P \<noteq> 0" "(pa OR (PTE_W OR PTE_U) OR PTE_P) AND PTE_U \<noteq> 0"
    by (metis bit_0_eq bot_apply bot_bool_def)+
  assume pa: "PGROUNDDOWN pa = pa"
  have "(pa OR 7) AND NOT 0xFFF = pa AND NOT 0xFFF"
  proof -
    have m: "(7 :: u32) = mask 3" "(0xFFF :: u32) = mask 12" by (simp_all add: mask_eq_exp_minus_1)
    show ?thesis by (rule bit_word_eqI) (auto simp: m bit_simps)
  qed
  then show "PTE_ADDR (pa OR (PTE_W OR PTE_U) OR PTE_P) = pa"
    using pa by (simp add: PTE_ADDR_def PTE_W_def PTE_U_def PTE_P_def PGROUNDDOWN_def PGSIZE_def ac_simps)
qed

lemma uva2ka_translate:
  assumes "vm_ok F (kram t) pgdir" and "translate (kram t) pgdir va = Some e" and "e AND PTE_U \<noteq> 0"
  shows "uva2ka pgdir va t = Inr (p2v (PTE_ADDR e), t)"
proof -
  have p: "present (kram t) pgdir va" and e: "mget32 (kram t) (pte_at (kram t) pgdir va) = e" "e AND PTE_P \<noteq> 0"
    using assms(2) by (auto simp: translate_def present_def Let_def split: if_splits)
  show ?thesis using walkpgdir_present [OF p] pte_not_null [OF assms(1) p] e assms(3)
    by (simp add: uva2ka_def andthen_def peek_def gets_def ret_def)
qed

text \<open>
  C12: mapping a range. \<open>n\<close> is the number of pages of the range \<open>va\<close> to \<open>va + sz - 1\<close> after its first one, none of them mapped before.
  \<^verbatim>\<open>mappages\<close> returns, and the first \<open>j\<close> pages of the range are mapped to the pages from \<open>pa\<close> on with the flags \<open>perm\<close>, tables being
  allocated where the directory has none: all of them when it returns 0, and when it returns -1 those it could map before the memory was used up,
  which takes a free page for each at most. Every other page translates as before, memory outside the directory's pages and the free
  ones is unchanged, and \<^verbatim>\<open>uva2ka\<close> finds each mapped user page.
\<close>

theorem mappages_maps:
  fixes va sz pa perm :: u32
  defines "a \<equiv> PGROUNDDOWN va"
  defines "n \<equiv> unat ((PGROUNDDOWN (va + sz - 1) - a) div PGSIZE)"
  assumes "free_set e F s" and "vm_ok F (kram s) pgdir"
    and "\<forall>k \<le> n. translate (kram s) pgdir (a + of_nat k * PGSIZE) = None"
  shows "\<exists>r t F' j. mappages pgdir va sz pa perm s = Inr (r, t) \<and> free_set e F' t \<and> F' \<subseteq> F \<and> vm_ok F' (kram t) pgdir
     \<and> (if r = 0 then j = Suc n else r = -1 \<and> j \<le> n \<and> F' = {} \<and> card F \<le> j)
     \<and> (\<forall>k < j. translate (kram t) pgdir (a + of_nat k * PGSIZE) = Some ((pa + of_nat k * PGSIZE) OR perm OR PTE_P))
     \<and> (\<forall>x. (\<forall>k < j. PGROUNDDOWN x \<noteq> a + of_nat k * PGSIZE) \<longrightarrow> translate (kram t) pgdir x = translate (kram s) pgdir x)
     \<and> (\<forall>i. (\<forall>p \<in> tables (kram s) pgdir \<union> F. \<not> in_page p i) \<longrightarrow> kram t i = kram s i)
     \<and> (PGROUNDDOWN pa = pa \<and> perm = PTE_W OR PTE_U \<longrightarrow>
          (\<forall>k < j. uva2ka pgdir (a + of_nat k * PGSIZE) t = Inr (p2v (pa + of_nat k * PGSIZE), t)))"
proof -
  have a: "PGROUNDDOWN a = a" unfolding a_def PGROUNDDOWN_def by (simp add: and.assoc)
  have "unat (PGROUNDDOWN (va + sz - 1) - a) < 2 ^ 32" by (rule order_less_le_trans [OF unsigned_less]) simp
  then have "n < 2 ^ 20" by (simp add: n_def PGSIZE_def unat_div)
  then obtain r t F' j where run: "mappages pgdir va sz pa perm s = Inr (r, t)" and m: "mapped_pages e F n pgdir a pa perm s r t F' j"
    using mappages_loop_wp [OF assms(3,4) a _ assms(5), of pa perm] by (auto simp: mappages_def a_def n_def Let_def wp_iff)
  have ok: "vm_ok F' (kram t) pgdir" and tr: "\<forall>k < j. translate (kram t) pgdir (a + of_nat k * PGSIZE) = Some ((pa + of_nat k * PGSIZE) OR perm OR PTE_P)"
    using m by (simp_all add: mapped_pages_def vm_step_def mapped_to_def)
  have "uva2ka pgdir (a + of_nat k * PGSIZE) t = Inr (p2v (pa + of_nat k * PGSIZE), t)"
    if "PGROUNDDOWN pa = pa" "perm = PTE_W OR PTE_U" "k < j" for k
    using uva2ka_translate [OF ok tr [rule_format, OF that(3)]] user_flags [of "pa + of_nat k * PGSIZE"] rounddown_steps [OF that(1)] that(2)
    by simp
  then show ?thesis using run m by (auto simp: mapped_pages_def vm_step_def mapped_to_def touches_def intro!: exI [of _ j])
qed

text \<open>An empty directory and two free pages.\<close>

definition two_free :: kmem where
  "two_free = \<lparr>kram = mput32 (\<lambda>_. 0) 0x80501000 0x80500000, use_lock = False, freelist = 0x80501000, kend = 0x80110000\<rparr>"

lemma two_free_ok: "free_set 0x80110000 {0x80500000, 0x80501000} two_free"
proof -
  have "mget32 (kram two_free) 0x80500000 = 0" by (simp add: two_free_def mget32_def mput32_def of_bytes_def)
  then have "kmem_ok [0x80501000, 0x80500000] two_free"
    by (simp add: kmem_ok_def two_free_def page_ok_def PGSIZE_def v2p_def KERNBASE_def PHYSTOP_def)
  then show ?thesis by (auto simp: free_set_def two_free_def intro!: exI [of _ "[0x80501000, 0x80500000]"])
qed

lemma two_free_pde: "pde_of (kram two_free) 0x80400000 va = 0"
proof -
  have "mget32 (kram two_free) (entry 0x80400000 (PDX va)) = mget32 (\<lambda>_. 0) (entry 0x80400000 (PDX va))"
  proof (rule mget32_page)
    fix i :: u32 assume i: "in_page 0x80400000 i"
    have "\<not> in_page 0x80501000 i" using pages_apart [of "0x80400000" "0x80501000" i] i by (auto simp: PGSIZE_def)
    then have "\<not> unat (i - entry 0x80501000 0) < 4" using entry_in_page [of "0x80501000" 0 i] by auto
    then show "kram two_free i = 0" unfolding two_free_def using mput32_outside [of i "0x80501000"] by (simp add: entry_def)
  qed (simp_all add: idx_less)
  then show ?thesis by (simp add: pde_of_def mget32_def of_bytes_def)
qed

theorem mappages_maps_witness:
  "\<exists>t. mappages 0x80400000 0x3FF800 PGSIZE 0x300000 (PTE_W OR PTE_U) two_free = Inr (0, t)
     \<and> uva2ka 0x80400000 0x3FF000 t = Inr (p2v 0x300000, t) \<and> uva2ka 0x80400000 0x400000 t = Inr (p2v 0x301000, t)"
proof -
  have p: "\<not> present (kram two_free) 0x80400000 va" and z: "translate (kram two_free) 0x80400000 va = None" for va
    by (simp_all add: present_def translate_def two_free_pde)
  then have "tables (kram two_free) 0x80400000 = {0x80400000}" by (simp add: tables_def)
  then have ok: "vm_ok {0x80500000, 0x80501000} (kram two_free) 0x80400000" by (simp add: vm_ok_def pgdir_ok_def two_free_pde)
  have c: "PGROUNDDOWN 0x3FF800 = 0x3FF000" "unat ((PGROUNDDOWN (0x3FF800 + PGSIZE - 1) - 0x3FF000) div PGSIZE) = 1"
      "PGROUNDDOWN 0x300000 = 0x300000"
    by (simp_all add: PGROUNDDOWN_def PGSIZE_def)
  have n: "\<forall>k \<le> 1. translate (kram two_free) 0x80400000 (0x3FF000 + of_nat k * PGSIZE) = None" using z by blast
  obtain r t j and F' :: "u32 set" where m: "mappages 0x80400000 0x3FF800 PGSIZE 0x300000 (PTE_W OR PTE_U) two_free = Inr (r, t)"
      "if r = 0 then j = Suc 1 else r = -1 \<and> j \<le> 1 \<and> F' = {} \<and> card {0x80500000, 0x80501000 :: u32} \<le> j"
      "\<forall>k < j. uva2ka 0x80400000 (0x3FF000 + of_nat k * PGSIZE) t = Inr (p2v (0x300000 + of_nat k * PGSIZE), t)"
    using mappages_maps [OF two_free_ok ok, of "0x3FF800" PGSIZE "0x300000" "PTE_W OR PTE_U", unfolded c, OF n]
    by (elim exE conjE) (rule that, assumption+, simp)
  then have "r = 0" "j = 2" by (auto split: if_splits)
  then show ?thesis using m(1) m(3) [rule_format, of 0] m(3) [rule_format, of 1] by (simp add: PGSIZE_def)
qed

end
