(* ===== verification/Proc.thy ===== *)
theory Proc
  imports Sysfile Vm
begin

text \<open>
  Processes (\<^verbatim>\<open>proc.c\<close>): the process table with creation, exit and reaping of processes, sleeping and waking, and the choice of
  the scheduler. A process pointer is its index in the table; trap frames and contexts lie in memory on the kernel stacks.
  A switch to another kernel stack is the end of the operation: what the code does before it is modelled, and what it does
  when it is switched to again is a separate operation. Addresses the linker provides are fields of the state.
\<close>

section \<open>State\<close>

definition NPROC :: nat where "NPROC = 64"
definition KSTACKSIZE :: u32 where "KSTACKSIZE = 4096"

datatype procstate = UNUSED | EMBRYO | SLEEPING | RUNNABLE | RUNNING | ZOMBIE

record proc =
  p_sz :: u32
  p_pgdir :: u32
  p_kstack :: u32
  p_state :: procstate
  p_pid :: u32
  p_parent :: "nat option"
  p_tf :: u32
  p_context :: u32
  p_chan :: "chan option"
  p_killed :: bool
  p_ofile :: "nat \<Rightarrow> nat option"
  p_cwd :: "nat option"
  p_name :: "u8 list"

text \<open>
  \<open>psys\<close> holds the shared parts of the kernel. Its fields for the running process are the view through which the system calls of
  \<^verbatim>\<open>sysfile.c\<close> see it; the table has the fields of every process.
\<close>

record kern =
  psys :: sys
  procs :: "nat \<Rightarrow> proc"
  nextpid :: u32
  initproc :: nat
  cur :: nat
  k_data :: u32
  k_trapret :: u32
  k_forkret :: u32

definition ks :: "(sys, 'a) kop \<Rightarrow> (kern, 'a) kop" where
  "ks = zoom psys (\<lambda>x s. s\<lparr>psys := x\<rparr>)"

definition kk :: "(kmem, 'a) kop \<Rightarrow> (kern, 'a) kop" where
  "kk f = ks (sk f)"

definition kf :: "(fs, 'a) kop \<Rightarrow> (kern, 'a) kop" where
  "kf f = ks (sf f)"

definition getp :: "nat \<Rightarrow> (kern, proc) kop" where
  "getp p = gets (\<lambda>s. procs s p)"

definition setp :: "nat \<Rightarrow> (proc \<Rightarrow> proc) \<Rightarrow> (kern, unit) kop" where
  "setp p f = upd (\<lambda>s. s\<lparr>procs := (procs s)(p := f (procs s p))\<rparr>)"

definition getcur :: "(kern, proc) kop" where
  "getcur = gets (\<lambda>s. procs s (cur s))"

section \<open>Creating processes\<close>

text \<open>Sizes of \<^verbatim>\<open>struct trapframe\<close> and \<^verbatim>\<open>struct context\<close>, and the offsets of the fields that are used.\<close>

definition tf_size :: u32 where "tf_size = 76"
definition ctx_size :: u32 where "ctx_size = 20"
definition tf_eax :: u32 where "tf_eax = 28"
definition tf_es :: u32 where "tf_es = 40"
definition tf_ds :: u32 where "tf_ds = 44"
definition tf_eip :: u32 where "tf_eip = 56"
definition tf_cs :: u32 where "tf_cs = 60"
definition tf_eflags :: u32 where "tf_eflags = 64"
definition tf_esp :: u32 where "tf_esp = 68"
definition tf_ss :: u32 where "tf_ss = 72"
definition ctx_eip :: u32 where "ctx_eip = 16"

definition set_ram :: "(mem \<Rightarrow> mem) \<Rightarrow> (kern, unit) kop" where
  "set_ram f = kk (upd (\<lambda>k. k\<lparr>kram := f (kram k)\<rparr>))"

definition find_unused :: "(nat \<Rightarrow> proc) \<Rightarrow> nat option" where
  "find_unused ps = find (\<lambda>p. p_state (ps p) = UNUSED) [0..<NPROC]"

definition allocproc :: "(kern, nat option) kop" where
  "allocproc =
     andthen (gets (\<lambda>s. find_unused (procs s))) (\<lambda>r.
     case r of
       None \<Rightarrow> ret None
     | Some p \<Rightarrow>
         andthen (gets nextpid) (\<lambda>pid.
         andthen (setp p (\<lambda>x. x\<lparr>p_state := EMBRYO, p_pid := pid\<rparr>)) (\<lambda>_.
         andthen (upd (\<lambda>s. s\<lparr>nextpid := pid + 1\<rparr>)) (\<lambda>_.
         andthen (kk kalloc) (\<lambda>kstack.
         andthen (setp p (\<lambda>x. x\<lparr>p_kstack := kstack\<rparr>)) (\<lambda>_.
         if kstack = 0 then andthen (setp p (\<lambda>x. x\<lparr>p_state := UNUSED\<rparr>)) (\<lambda>_. ret None)
         else
           let tf = kstack + KSTACKSIZE - tf_size; sp = tf - 4; ctx = sp - ctx_size in
           andthen (setp p (\<lambda>x. x\<lparr>p_tf := tf\<rparr>)) (\<lambda>_.
           andthen (gets k_trapret) (\<lambda>trapret.
           andthen (set_ram (\<lambda>m. mput32 m sp trapret)) (\<lambda>_.
           andthen (setp p (\<lambda>x. x\<lparr>p_context := ctx\<rparr>)) (\<lambda>_.
           andthen (set_ram (memset ctx 0 ctx_size)) (\<lambda>_.
           andthen (gets k_forkret) (\<lambda>forkret.
           andthen (set_ram (\<lambda>m. mput32 m (ctx + ctx_eip) forkret)) (\<lambda>_.
           ret (Some p))))))))))))))"

text \<open>The selectors and flags of \<^verbatim>\<open>mmu.h\<close> that \<^verbatim>\<open>userinit\<close> uses.\<close>

definition SEG_UCODE :: u16 where "SEG_UCODE = 4"
definition SEG_UDATA :: u16 where "SEG_UDATA = 5"
definition DPL_USER :: u16 where "DPL_USER = 3"
definition FL_IF :: u32 where "FL_IF = 0x200"

definition user_tf :: "u32 \<Rightarrow> mem \<Rightarrow> mem" where
  "user_tf tf m =
     (let cs = push_bit 3 SEG_UCODE OR DPL_USER; ds = push_bit 3 SEG_UDATA OR DPL_USER;
          m = memset tf 0 tf_size m;
          m = mput16 m (tf + tf_cs) cs;
          m = mput16 (mput16 (mput16 m (tf + tf_ds) ds) (tf + tf_es) ds) (tf + tf_ss) ds;
          m = mput32 m (tf + tf_eflags) FL_IF;
          m = mput32 m (tf + tf_esp) PGSIZE
      in mput32 m (tf + tf_eip) 0)"

definition userinit :: "u8 list \<Rightarrow> (kern, unit) kop" where
  "userinit initcode =
     andthen allocproc (\<lambda>r.
     case r of
       None \<Rightarrow> stop (Undef ''userinit'')
     | Some p \<Rightarrow>
         andthen (upd (\<lambda>s. s\<lparr>initproc := p\<rparr>)) (\<lambda>_.
         andthen (gets k_data) (\<lambda>data.
         andthen (kk (setupkvm data)) (\<lambda>pgdir.
         andthen (setp p (\<lambda>x. x\<lparr>p_pgdir := pgdir\<rparr>)) (\<lambda>_.
         andthen (panic_if (pgdir = 0) ''userinit: out of memory?'') (\<lambda>_.
         andthen (kk (inituvm pgdir initcode)) (\<lambda>_.
         andthen (setp p (\<lambda>x. x\<lparr>p_sz := PGSIZE\<rparr>)) (\<lambda>_.
         andthen (getp p) (\<lambda>x.
         andthen (set_ram (user_tf (p_tf x))) (\<lambda>_.
         andthen (kf (namei [slash])) (\<lambda>cwd.
         setp p (\<lambda>x. x\<lparr>p_name := [0x69, 0x6e, 0x69, 0x74, 0x63, 0x6f, 0x64, 0x65], p_cwd := cwd, p_state := RUNNABLE\<rparr>))))))))))))"

definition growproc :: "int \<Rightarrow> (kern, int) kop" where
  "growproc n =
     andthen getcur (\<lambda>x.
     andthen
       (if n > 0 then andthen (kk (allocuvm (p_pgdir x) (p_sz x) (p_sz x + of_int n))) (\<lambda>sz. ret (if sz = 0 then None else Some sz))
        else if n < 0 then andthen (kk (deallocuvm (p_pgdir x) (p_sz x) (p_sz x + of_int n))) (\<lambda>sz. ret (if sz = 0 then None else Some sz))
        else ret (Some (p_sz x))) (\<lambda>r.
     case r of
       None \<Rightarrow> ret (-1)
     | Some sz \<Rightarrow>
         andthen (gets cur) (\<lambda>c.
         andthen (setp c (\<lambda>x. x\<lparr>p_sz := sz\<rparr>)) (\<lambda>_.
         andthen (panic_if (p_pgdir x = 0) ''switchuvm: no pgdir'') (\<lambda>_.
         ret 0)))))"

fun dup_files :: "nat \<Rightarrow> (nat \<Rightarrow> nat option) \<Rightarrow> nat list \<Rightarrow> (kern, unit) kop" where
  "dup_files np ofiles [] = ret ()"
| "dup_files np ofiles (i # is) =
     andthen (case ofiles i of
         None \<Rightarrow> ret ()
       | Some f \<Rightarrow>
           andthen (ks (filedup f)) (\<lambda>g.
           setp np (\<lambda>x. x\<lparr>p_ofile := (p_ofile x)(i := Some g)\<rparr>))) (\<lambda>_.
     dup_files np ofiles is)"

text \<open>\<^verbatim>\<open>fork\<close> after it has copied the memory of the parent \<open>x\<close> to \<open>pgdir\<close>.\<close>

definition fork_fill :: "nat \<Rightarrow> proc \<Rightarrow> u32 \<Rightarrow> (kern, int) kop" where
  "fork_fill np x pgdir =
     andthen (setp np (\<lambda>y. y\<lparr>p_pgdir := pgdir\<rparr>)) (\<lambda>_.
     if pgdir = 0 then
       andthen (getp np) (\<lambda>y.
       andthen (kk (kfree (p_kstack y))) (\<lambda>_.
       andthen (setp np (\<lambda>y. y\<lparr>p_kstack := 0, p_state := UNUSED\<rparr>)) (\<lambda>_.
       ret (-1))))
     else
       andthen (gets cur) (\<lambda>c.
       andthen (setp np (\<lambda>y. y\<lparr>p_sz := p_sz x, p_parent := Some c\<rparr>)) (\<lambda>_.
       andthen (getp np) (\<lambda>y.
       andthen (set_ram (\<lambda>m. mput32 (memmove (p_tf y) (p_tf x) tf_size m) (p_tf y + tf_eax) 0)) (\<lambda>_.
       andthen (dup_files np (p_ofile x) [0..<NOFILE]) (\<lambda>_.
       case p_cwd x of
         None \<Rightarrow> stop (Undef ''idup'')
       | Some d \<Rightarrow>
           andthen (kf (idup d)) (\<lambda>cwd.
           andthen (setp np (\<lambda>y. y\<lparr>p_cwd := Some cwd, p_name := p_name x\<rparr>)) (\<lambda>_.
           andthen (setp np (\<lambda>y. y\<lparr>p_state := RUNNABLE\<rparr>)) (\<lambda>_.
           ret (sint (p_pid y)))))))))))"

definition fork :: "(kern, int) kop" where
  "fork =
     andthen allocproc (\<lambda>r.
     case r of
       None \<Rightarrow> ret (-1)
     | Some np \<Rightarrow>
         andthen getcur (\<lambda>x.
         andthen (gets k_data) (\<lambda>data.
         andthen (kk (copyuvm data (p_pgdir x) (p_sz x))) (\<lambda>pgdir.
         fork_fill np x pgdir))))"

section \<open>Sleeping and waking\<close>

definition wakeup1 :: "chan \<Rightarrow> (nat \<Rightarrow> proc) \<Rightarrow> nat \<Rightarrow> proc" where
  "wakeup1 ch ps = (\<lambda>p. if p < NPROC \<and> p_state (ps p) = SLEEPING \<and> p_chan (ps p) = Some ch
     then (ps p)\<lparr>p_state := RUNNABLE\<rparr> else ps p)"

definition wakeup :: "chan \<Rightarrow> (kern, unit) kop" where
  "wakeup ch = upd (\<lambda>s. s\<lparr>procs := wakeup1 ch (procs s)\<rparr>)"

text \<open>\<^verbatim>\<open>sleep\<close> up to the switch to the scheduler, and after it.\<close>

definition sleep_enter :: "chan \<Rightarrow> (kern, unit) kop" where
  "sleep_enter ch =
     andthen (gets cur) (\<lambda>c.
     setp c (\<lambda>x. x\<lparr>p_chan := Some ch, p_state := SLEEPING\<rparr>))"

definition sleep_leave :: "(kern, unit) kop" where
  "sleep_leave =
     andthen (gets cur) (\<lambda>c.
     setp c (\<lambda>x. x\<lparr>p_chan := None\<rparr>))"

definition yield_enter :: "(kern, unit) kop" where
  "yield_enter =
     andthen (gets cur) (\<lambda>c.
     setp c (\<lambda>x. x\<lparr>p_state := RUNNABLE\<rparr>))"

text \<open>The body of the loop of \<^verbatim>\<open>scheduler\<close> up to its switch to process \<open>p\<close>, \<^verbatim>\<open>switchuvm\<close> with its panic included.\<close>

definition scheduler_switch :: "nat \<Rightarrow> (kern, unit) kop" where
  "scheduler_switch p =
     andthen (upd (\<lambda>s. s\<lparr>cur := p\<rparr>)) (\<lambda>_.
     andthen (getp p) (\<lambda>x.
     andthen (panic_if (p_pgdir x = 0) ''switchuvm: no pgdir'') (\<lambda>_.
     setp p (\<lambda>x. x\<lparr>p_state := RUNNING\<rparr>))))"

definition kill :: "u32 \<Rightarrow> (kern, int) kop" where
  "kill pid =
     andthen (gets (\<lambda>s. find (\<lambda>p. p_pid (procs s p) = pid) [0..<NPROC])) (\<lambda>r.
     case r of
       None \<Rightarrow> ret (-1)
     | Some p \<Rightarrow>
         andthen (setp p (\<lambda>x. x\<lparr>p_killed := True,
           p_state := (if p_state x = SLEEPING then RUNNABLE else p_state x)\<rparr>)) (\<lambda>_.
         ret 0))"

section \<open>Exit and wait\<close>

fun close_files :: "nat list \<Rightarrow> (kern, unit) kop" where
  "close_files [] = ret ()"
| "close_files (fd # fds) =
     andthen getcur (\<lambda>x.
     andthen (case p_ofile x fd of
         None \<Rightarrow> ret ()
       | Some f \<Rightarrow>
           andthen (ks (fileclose f)) (\<lambda>_.
           andthen (gets cur) (\<lambda>c.
           setp c (\<lambda>x. x\<lparr>p_ofile := (p_ofile x)(fd := None)\<rparr>)))) (\<lambda>_.
     close_files fds))"

text \<open>The loop of \<^verbatim>\<open>exit\<close> that passes the children of \<open>c\<close> to \<open>init\<close>, waking it for each that is a zombie.\<close>

fun reparent :: "nat \<Rightarrow> nat \<Rightarrow> nat list \<Rightarrow> (nat \<Rightarrow> proc) \<Rightarrow> nat \<Rightarrow> proc" where
  "reparent c ini [] ps = ps"
| "reparent c ini (p # qs) ps =
     reparent c ini qs
       (if p_parent (ps p) = Some c then
          let ps = ps(p := (ps p)\<lparr>p_parent := Some ini\<rparr>) in
          if p_state (ps p) = ZOMBIE then wakeup1 (Ch_proc ini) ps else ps
        else ps)"

text \<open>
  \<^verbatim>\<open>exit\<close> up to its last switch to the scheduler: first it closes the files, then it gives up the directory, tells the parent, passes on
  its children and becomes a zombie.
\<close>

definition exit_rest :: "nat \<Rightarrow> nat \<Rightarrow> (kern, unit) kop" where
  "exit_rest c ini =
     andthen (kf (fl begin_op)) (\<lambda>_.
     andthen (getcur) (\<lambda>x.
     andthen (case p_cwd x of None \<Rightarrow> stop (Undef ''iput'') | Some d \<Rightarrow> kf (iput d)) (\<lambda>_.
     andthen (kf (fl end_op)) (\<lambda>_.
     andthen (setp c (\<lambda>x. x\<lparr>p_cwd := None\<rparr>)) (\<lambda>_.
     andthen (case p_parent x of None \<Rightarrow> ret () | Some q \<Rightarrow> wakeup (Ch_proc q)) (\<lambda>_.
     andthen (upd (\<lambda>s. s\<lparr>procs := reparent c ini [0..<NPROC] (procs s)\<rparr>)) (\<lambda>_.
     setp c (\<lambda>x. x\<lparr>p_state := ZOMBIE\<rparr>))))))))"

definition exit_proc :: "(kern, unit) kop" where
  "exit_proc =
     andthen (gets cur) (\<lambda>c.
     andthen (gets initproc) (\<lambda>ini.
     andthen (panic_if (c = ini) ''init exiting'') (\<lambda>_.
     andthen (close_files [0..<NOFILE]) (\<lambda>_.
     exit_rest c ini))))"

definition is_child :: "nat \<Rightarrow> proc \<Rightarrow> bool" where
  "is_child c x \<longleftrightarrow> p_parent x = Some c"

text \<open>One round of \<^verbatim>\<open>wait\<close>; it sleeps when there are children and none has exited.\<close>

definition wait_proc :: "(kern, int) kop" where
  "wait_proc =
     andthen (gets cur) (\<lambda>c.
     andthen (gets procs) (\<lambda>ps.
     case find (\<lambda>p. is_child c (ps p) \<and> p_state (ps p) = ZOMBIE) [0..<NPROC] of
       Some p \<Rightarrow>
         andthen (kk (kfree (p_kstack (ps p)))) (\<lambda>_.
         andthen (setp p (\<lambda>x. x\<lparr>p_kstack := 0\<rparr>)) (\<lambda>_.
         andthen (kk (freevm (p_pgdir (ps p)))) (\<lambda>_.
         andthen (setp p (\<lambda>x. x\<lparr>p_state := UNUSED, p_pid := 0, p_parent := None, p_name := [], p_killed := False\<rparr>)) (\<lambda>_.
         ret (sint (p_pid (ps p)))))))
     | None \<Rightarrow>
         if \<not> list_ex (\<lambda>p. is_child c (ps p)) [0..<NPROC] \<or> p_killed (ps c) then ret (-1)
         else stop (Sleep (Ch_proc c))))"

section \<open>Scheduling\<close>

text \<open>What the running process does in the kernel, and the wakeups of interrupt handlers while it runs.\<close>

inductive kstep :: "kern \<Rightarrow> kern \<Rightarrow> bool" where
  fork: "fork s = Inr (r, t) \<Longrightarrow> kstep s t"
| grow: "growproc n s = Inr (r, t) \<Longrightarrow> kstep s t"
| kill: "kill pid s = Inr (r, t) \<Longrightarrow> kstep s t"
| wait: "wait_proc s = Inr (r, t) \<Longrightarrow> kstep s t"
| exit: "exit_proc s = Inr (r, t) \<Longrightarrow> kstep s t"
| wakeup: "wakeup ch s = Inr (r, t) \<Longrightarrow> kstep s t"
| sleep: "sleep_enter ch s = Inr (r, t) \<Longrightarrow> kstep s t"
| awake: "sleep_leave s = Inr (r, t) \<Longrightarrow> kstep s t"
| yield: "yield_enter s = Inr (r, t) \<Longrightarrow> kstep s t"
| other: "ks (g :: (sys, unit) kop) s = Inr (r, t) \<Longrightarrow> kstep s t"

text \<open>
  Several processors, each of which runs \<^verbatim>\<open>scheduler\<close>: it is at a position of its loop over the process table, or it runs the process to which it has switched. A step is one of any processor; it has the processor and the process as
  an event if \<^verbatim>\<open>scheduler\<close> switches to a process. A process runs in the kernel as long as its state is \<^verbatim>\<open>RUNNING\<close>; when it has changed its state it is back in the loop of its processor. The lock of the table only
  takes interleavings away.
\<close>

datatype cpu_at = Scan nat | Runs nat

type_synonym mpstate = "kern \<times> (nat \<Rightarrow> cpu_at)"

inductive mp_step :: "mpstate \<Rightarrow> (nat \<times> nat) option \<Rightarrow> mpstate \<Rightarrow> bool" where
  mp_next: "\<lbrakk>at c = Scan q; q < NPROC; p_state (procs s q) \<noteq> RUNNABLE\<rbrakk> \<Longrightarrow> mp_step (s, at) None (s, at(c := Scan (Suc q)))"
| mp_choose: "\<lbrakk>at c = Scan q; q < NPROC; p_state (procs s q) = RUNNABLE; scheduler_switch q s = Inr ((), t)\<rbrakk>
    \<Longrightarrow> mp_step (s, at) (Some (c, q)) (t, at(c := Runs q))"
| mp_again: "at c = Scan NPROC \<Longrightarrow> mp_step (s, at) None (s, at(c := Scan 0))"
| mp_kernel: "\<lbrakk>at c = Runs q; p_state (procs s q) = RUNNING; kstep (s\<lparr>cur := q\<rparr>) t\<rbrakk> \<Longrightarrow> mp_step (s, at) None (t, at)"
| mp_back: "\<lbrakk>at c = Runs q; p_state (procs s q) \<noteq> RUNNING\<rbrakk> \<Longrightarrow> mp_step (s, at) None (s, at(c := Scan (Suc q)))"
| mp_interrupt: "wakeup ch s = Inr (r, t) \<Longrightarrow> mp_step (s, at) None (t, at)"

text \<open>A run, with the events of its steps in their order.\<close>

inductive mp_runs :: "mpstate \<Rightarrow> (nat \<times> nat) list \<Rightarrow> mpstate \<Rightarrow> bool" where
  mp_none: "mp_runs w [] w"
| mp_more: "\<lbrakk>mp_runs w es v; mp_step v e u\<rbrakk> \<Longrightarrow> mp_runs w (es @ (case e of None \<Rightarrow> [] | Some x \<Rightarrow> [x])) u"

section \<open>What an operation leaves alone\<close>

lemma ks_frame: "ks g s = Inr (x, t) \<Longrightarrow> procs t = procs s \<and> cur t = cur s \<and> initproc t = initproc s \<and> nextpid t = nextpid s"
  by (auto simp: ks_def zoom_def split: sum.splits prod.splits)

lemmas k_frame = ks_frame [of "sk g" for g, folded kk_def] ks_frame [of "sf g" for g, folded kf_def]

lemma setp_run: "setp p f s = Inr (x, t) \<longleftrightarrow> t = s\<lparr>procs := (procs s)(p := f (procs s p))\<rparr>"
  by (auto simp: setp_def upd_def)

declare gets_run [simp] ret_run [simp] upd_run [simp] panic_if_run [simp] stop_run [simp]

lemmas run_simps = setp_run getp_def getcur_def wakeup_def

lemma close_files_run:
  assumes "close_files fds s = Inr (x, t)"
  shows "cur t = cur s \<and> initproc t = initproc s \<and> (\<forall>q. q \<noteq> cur s \<longrightarrow> procs t q = procs s q)
     \<and> (\<forall>fd. p_ofile (procs t (cur s)) fd = (if fd \<in> set fds then None else p_ofile (procs s (cur s)) fd))"
  using assms
proof (induction fds arbitrary: s)
  case (Cons fd fds)
  obtain u where u: "cur u = cur s" "initproc u = initproc s" "close_files fds u = Inr (x, t)"
    "p_ofile (procs u (cur s)) = (p_ofile (procs s (cur s)))(fd := None)" "\<forall>q. q \<noteq> cur s \<longrightarrow> procs u q = procs s q"
  proof (cases "p_ofile (procs s (cur s)) fd")
    case None
    then have "(p_ofile (procs s (cur s)))(fd := None) = p_ofile (procs s (cur s))" by (simp add: fun_eq_iff)
    then show ?thesis using Cons.prems None that [of s] by (auto elim!: andthen_InrE simp: run_simps)
  next
    case (Some f)
    then obtain v where v: "ks (fileclose f) s = Inr ((), v)"
      "close_files fds (v\<lparr>procs := (procs v)(cur v := (procs v (cur v))\<lparr>p_ofile := (p_ofile (procs v (cur v)))(fd := None)\<rparr>)\<rparr>) = Inr (x, t)"
      using Cons.prems by (auto elim!: andthen_InrE simp: run_simps)
    show ?thesis by (rule that [OF _ _ v(2)]) (use ks_frame [OF v(1)] in simp_all)
  qed
  then show ?case using Cons.IH [OF u(3)] by auto
qed simp

lemma wakeup1_fields [simp]: "p_parent (wakeup1 ch ps p) = p_parent (ps p)" "p_ofile (wakeup1 ch ps p) = p_ofile (ps p)"
  by (simp_all add: wakeup1_def)

lemma reparent_fields:
  assumes "ini \<noteq> c"
  shows "p_parent (reparent c ini qs ps p) = (if p \<in> set qs \<and> p_parent (ps p) = Some c then Some ini else p_parent (ps p))"
    and "p_ofile (reparent c ini qs ps p) = p_ofile (ps p)"
  using assms by (induction qs arbitrary: ps) (auto simp: Let_def)

text \<open>An operation that touches no slot but \<open>p\<close>.\<close>

definition only :: "nat \<Rightarrow> kern \<Rightarrow> kern \<Rightarrow> bool" where
  "only p s t \<longleftrightarrow> cur t = cur s \<and> (\<forall>q. q \<noteq> p \<longrightarrow> procs t q = procs s q)"

lemma only_refl [simp]: "only p s s"
  by (simp add: only_def)

lemma only_trans: "only p s t \<Longrightarrow> only p t u \<Longrightarrow> only p s u"
  by (simp add: only_def)

lemma only_setp: "setp p f s = Inr (x, t) \<Longrightarrow> only p s t"
  by (auto simp: only_def setp_run)

lemma only_ks: "ks g s = Inr (x, t) \<Longrightarrow> only p s t"
  by (auto simp: only_def dest: ks_frame)

lemmas only_rules = only_setp only_ks [of "sk g" for g, folded kk_def] only_ks [of "sf g" for g, folded kf_def] only_ks

lemma find_unused_Some: "find_unused ps = Some p \<Longrightarrow> p < NPROC \<and> p_state (ps p) = UNUSED"
  by (auto simp: find_unused_def find_Some_iff)

lemma allocproc_None:
  assumes "allocproc s = Inr (None, t)"
  shows "cur t = cur s \<and> (p_state (procs s q) \<noteq> UNUSED \<longrightarrow> procs t q = procs s q)"
  using assms
  by (auto simp: allocproc_def Let_def run_simps set_ram_def elim!: andthen_InrE split: if_splits option.splits
      dest!: k_frame find_unused_Some)

lemma allocproc_Some:
  assumes "allocproc s = Inr (Some p, t)"
  shows "p < NPROC \<and> p_state (procs s p) = UNUSED \<and> only p s t
     \<and> p_pid (procs t p) = nextpid s
     \<and> p_sz (procs t p) = p_sz (procs s p) \<and> p_name (procs t p) = p_name (procs s p) \<and> p_ofile (procs t p) = p_ofile (procs s p)"
  using assms
  by (auto simp: allocproc_def Let_def run_simps set_ram_def only_def elim!: andthen_InrE split: if_splits option.splits
      dest!: k_frame find_unused_Some)

lemma filedup_same: "ks (filedup f) s = Inr (g, t) \<Longrightarrow> g = f"
  by (auto simp: ks_def zoom_def filedup_def elim!: andthen_InrE split: sum.splits prod.splits)

lemma dup_files_run:
  assumes "dup_files np ofiles fds s = Inr (x, t)"
  shows "only np s t \<and> (\<exists>fl. procs t np = (procs s np)\<lparr>p_ofile := fl\<rparr> \<and>
    (\<forall>fd. fl fd = (if fd \<in> set fds \<and> ofiles fd \<noteq> None then ofiles fd else p_ofile (procs s np) fd)))"
  using assms
proof (induction fds arbitrary: s)
  case Nil
  then show ?case by (auto intro!: exI [of _ "p_ofile (procs s np)"])
next
  case (Cons fd fds)
  obtain u where u: "only np s u" "dup_files np ofiles fds u = Inr (x, t)"
    "procs u np = (procs s np)\<lparr>p_ofile := (p_ofile (procs s np))(fd := if ofiles fd = None then p_ofile (procs s np) fd else ofiles fd)\<rparr>"
  proof (cases "ofiles fd")
    case None
    then show ?thesis using Cons.prems that [of s] by (auto elim!: andthen_InrE)
  next
    case (Some f)
    then obtain g v where v: "ks (filedup f) s = Inr (g, v)"
      "dup_files np ofiles fds (v\<lparr>procs := (procs v)(np := (procs v np)\<lparr>p_ofile := (p_ofile (procs v np))(fd := Some g)\<rparr>)\<rparr>) = Inr (x, t)"
      using Cons.prems by (auto elim!: andthen_InrE simp: run_simps)
    show ?thesis
      by (rule that [OF _ v(2)]) (use ks_frame [OF v(1)] filedup_same [OF v(1)] Some in \<open>simp_all add: only_def\<close>)
  qed
  from Cons.IH [OF u(2)] obtain fl where fl: "only np u t" "procs t np = (procs u np)\<lparr>p_ofile := fl\<rparr>"
    "\<forall>fd. fl fd = (if fd \<in> set fds \<and> ofiles fd \<noteq> None then ofiles fd else p_ofile (procs u np) fd)" by blast
  then show ?case using u only_trans [OF u(1) fl(1)] by (auto intro!: exI [of _ fl])
qed

text \<open>What \<^verbatim>\<open>fork\<close> leaves when it succeeds: a runnable child in a slot that was free, and the rest of the table as it was.\<close>

definition forked :: "kern \<Rightarrow> kern \<Rightarrow> int \<Rightarrow> nat \<Rightarrow> bool" where
  "forked s t r np \<longleftrightarrow>
     np < NPROC \<and> p_state (procs s np) = UNUSED \<and> only np s t \<and> p_state (procs t np) = RUNNABLE
     \<and> p_pid (procs t np) = nextpid s \<and> r = sint (nextpid s) \<and> p_parent (procs t np) = Some (cur s)
     \<and> p_sz (procs t np) = p_sz (procs s (cur s)) \<and> p_name (procs t np) = p_name (procs s (cur s))
     \<and> (\<forall>fd < NOFILE. \<forall>f. p_ofile (procs s (cur s)) fd = Some f \<longrightarrow> p_ofile (procs t np) fd = Some f)"

lemma fork_fill_run:
  assumes "fork_fill np x pgdir s = Inr (r, t)" and "pgdir \<noteq> 0"
  shows "only np s t \<and> p_state (procs t np) = RUNNABLE \<and> p_pid (procs t np) = p_pid (procs s np) \<and> r = sint (p_pid (procs s np))
     \<and> p_parent (procs t np) = Some (cur s) \<and> p_sz (procs t np) = p_sz x \<and> p_name (procs t np) = p_name x
     \<and> (\<forall>fd < NOFILE. \<forall>f. p_ofile x fd = Some f \<longrightarrow> p_ofile (procs t np) fd = Some f)"
proof -
  obtain y u v d cwd w where u: "only np s u" "y = procs u np" "p_pid y = p_pid (procs s np)" "p_sz y = p_sz x" "p_parent y = Some (cur s)"
    and v: "dup_files np (p_ofile x) [0..<NOFILE] u = Inr ((), v)" and w: "kf (idup d) v = Inr (cwd, w)"
    and t: "r = sint (p_pid y)"
      "t = w\<lparr>procs := (procs w)(np := (procs w np)\<lparr>p_cwd := Some cwd, p_name := p_name x, p_state := RUNNABLE\<rparr>)\<rparr>"
    using assms unfolding fork_fill_def set_ram_def
    apply (auto simp: run_simps only_def elim!: andthen_InrE split: option.splits dest!: k_frame(1))
    subgoal premises pr for u v d cwd w
      by (rule pr(5) [of u "procs u np" v d cwd w]) (use pr in auto)
    done
  from dup_files_run [OF v] obtain fl where fl: "only np u v" "procs v np = (procs u np)\<lparr>p_ofile := fl\<rparr>"
    "\<forall>fd. fl fd = (if fd \<in> set [0..<NOFILE] \<and> p_ofile x fd \<noteq> None then p_ofile x fd else p_ofile (procs u np) fd)" by blast
  have "only np s v" using u(1) fl(1) by (rule only_trans)
  then show ?thesis using u fl t k_frame(2) [OF w] by (simp add: only_def)
qed

lemma fork_run:
  assumes "fork s = Inr (r, t)"
  shows "(r = -1 \<and> cur t = cur s \<and> (\<forall>q. p_state (procs s q) \<noteq> UNUSED \<longrightarrow> procs t q = procs s q))
    \<or> (\<exists>np. forked s t r np)"
proof -
  obtain r0 s1 where a: "allocproc s = Inr (r0, s1)" using assms by (auto simp: fork_def elim!: andthen_InrE)
  show ?thesis
  proof (cases r0)
    case None
    then have "r = -1" "t = s1" using assms a by (auto simp: fork_def elim!: andthen_InrE)
    then show ?thesis using allocproc_None a None by blast
  next
    case (Some np)
    note A = allocproc_Some [OF a [unfolded Some]]
    obtain x where x: "x = procs s1 (cur s)" "p_sz x = p_sz (procs s (cur s))" "p_name x = p_name (procs s (cur s))"
      "p_ofile x = p_ofile (procs s (cur s))"
      using A by (cases "np = cur s") (auto simp: only_def)
    have c: "cur s1 = cur s" using A by (simp add: only_def)
    obtain pgdir s2 where p: "kk (copyuvm (k_data s1) (p_pgdir x) (p_sz x)) s1 = Inr (pgdir, s2)"
      and f: "fork_fill np x pgdir s2 = Inr (r, t)"
      using assms a Some x c by (auto simp: fork_def run_simps elim!: andthen_InrE)
    note f2 = k_frame(1) [OF p]
    show ?thesis
    proof (cases "pgdir = 0")
      case True
      have "r = -1 \<and> only np s1 t"
        using f f2 True by (auto simp: fork_fill_def run_simps only_def elim!: andthen_InrE dest!: k_frame)
      then show ?thesis using A by (auto simp: only_def)
    next
      case False
      have "forked s t r np"
        using fork_fill_run [OF f False] f2 x A c by (auto simp: forked_def only_def)
      then show ?thesis by blast
    qed
  qed
qed

lemma wait_proc_run:
  assumes "wait_proc s = Inr (r, t)"
  shows "cur t = cur s \<and> (p_state (procs s q) \<noteq> ZOMBIE \<longrightarrow> procs t q = procs s q)"
  using assms
  by (auto simp: wait_proc_def run_simps elim!: andthen_InrE split: option.splits if_splits dest!: k_frame find_Some_iff [THEN iffD1])

lemma wakeup1_runnable: "p_state (ps q) = RUNNABLE \<Longrightarrow> p_state (wakeup1 ch ps q) = RUNNABLE"
  by (simp add: wakeup1_def)

lemma reparent_runnable: "p_state (ps q) = RUNNABLE \<Longrightarrow> p_state (reparent c ini qs ps q) = RUNNABLE"
proof (induction qs arbitrary: ps)
  case (Cons a qs)
  then show ?case by (auto simp: Let_def intro!: Cons.IH wakeup1_runnable)
qed simp

lemma exit_proc_run:
  assumes "exit_proc s = Inr (x, t)" and "q \<noteq> cur s" and "p_state (procs s q) = RUNNABLE"
  shows "cur t = cur s \<and> p_state (procs t q) = RUNNABLE"
proof -
  obtain s1 where "close_files [0..<NOFILE] s = Inr ((), s1)" and rest: "exit_rest (cur s) (initproc s) s1 = Inr (x, t)"
    using assms(1) unfolding exit_proc_def by (auto elim!: andthen_InrE)
  then have "cur s1 = cur s" "procs s1 q = procs s q" using close_files_run assms(2) by blast+
  then show ?thesis
    using rest assms(2,3) unfolding exit_rest_def
    by (auto elim!: andthen_InrE simp: run_simps wakeup1_runnable reparent_runnable split: option.splits dest!: k_frame)
qed

lemma kstep_runnable:
  assumes "kstep s t" and "p \<noteq> cur s" and "p_state (procs s p) = RUNNABLE"
  shows "cur t = cur s \<and> p_state (procs t p) = RUNNABLE"
  using assms
proof (cases rule: kstep.cases)
  case (fork r)
  then show ?thesis using fork_run [OF fork] assms(2,3) by (cases "p_state (procs s p) = UNUSED") (auto simp: forked_def only_def, metis)
next
  case (grow n r)
  then have "only (cur s) s t"
    by (auto simp: growproc_def run_simps only_def elim!: andthen_InrE split: if_splits option.splits dest!: k_frame)
  then show ?thesis using assms(2,3) by (simp add: only_def)
next
  case (kill pid r)
  then show ?thesis using assms(2,3)
    by (auto simp: kill_def run_simps elim!: andthen_InrE split: option.splits)
next
  case (wait r)
  then show ?thesis using wait_proc_run [OF wait] assms(3) by auto
next
  case (exit r)
  then show ?thesis using exit_proc_run [OF exit assms(2,3)] by simp
next
  case (wakeup ch r)
  then show ?thesis using assms(2,3) by (auto simp: run_simps wakeup1_def)
next
  case (sleep ch r)
  then show ?thesis using assms(2,3) by (auto simp: run_simps sleep_enter_def elim!: andthen_InrE)
next
  case (awake r)
  then show ?thesis using assms(2,3) by (auto simp: run_simps sleep_leave_def elim!: andthen_InrE)
next
  case (yield r)
  then show ?thesis using assms(2,3) by (auto simp: run_simps yield_enter_def elim!: andthen_InrE)
next
  case (other g r)
  then show ?thesis using assms(2,3) by (auto dest!: ks_frame)
qed

text \<open>How many processes a processor can choose before its loop gets to the process \<open>p\<close>.\<close>

definition ahead :: "nat \<Rightarrow> nat \<Rightarrow> nat" where
  "ahead p q = (if q \<le> p then p - q else NPROC - q + p)"

fun before :: "nat \<Rightarrow> cpu_at \<Rightarrow> nat" where
  "before p (Scan q) = ahead p q"
| "before p (Runs q) = ahead p (Suc q)"

definition cpus_ok :: "(nat \<Rightarrow> cpu_at) \<Rightarrow> bool" where
  "cpus_ok at \<longleftrightarrow> (\<forall>c. case at c of Scan q \<Rightarrow> q \<le> NPROC | Runs q \<Rightarrow> q < NPROC)"

lemma before_less: "cpus_ok at \<Longrightarrow> p < NPROC \<Longrightarrow> before p (at c) < NPROC"
  unfolding cpus_ok_def by (cases "at c") (auto simp: ahead_def dest: spec [of _ c])

lemma cpus_ok_upd: "cpus_ok at \<Longrightarrow> (case x of Scan q \<Rightarrow> q \<le> NPROC | Runs q \<Rightarrow> q < NPROC) \<Longrightarrow> cpus_ok (at(c := x))"
  by (simp add: cpus_ok_def)

lemma mp_step_before:
  assumes "mp_step (s, at) e (t, at')" and "cpus_ok at" and "p < NPROC" and "p_state (procs s p) = RUNNABLE" and "\<And>c. e \<noteq> Some (c, p)"
  shows "p_state (procs t p) = RUNNABLE" "cpus_ok at'"
    "(case e of Some (c', q) \<Rightarrow> if c' = c then 1 else 0 | None \<Rightarrow> 0) + before p (at' c) \<le> before p (at c)"
proof -
  have pos: "(case at c of Scan q \<Rightarrow> q \<le> NPROC | Runs q \<Rightarrow> q < NPROC)" for c using assms(2) by (simp add: cpus_ok_def)
  have "p_state (procs t p) = RUNNABLE \<and> cpus_ok at' \<and>
    (case e of Some (c', q) \<Rightarrow> if c' = c then 1 else 0 | None \<Rightarrow> 0) + before p (at' c) \<le> before p (at c)"
    using assms(1)
  proof (cases rule: mp_step.cases)
    case (mp_next c' q)
    then have "q \<noteq> p" using assms(4) by auto
    then show ?thesis using mp_next assms(2-4) cpus_ok_upd [OF assms(2)] by (auto simp: ahead_def)
  next
    case (mp_choose c' q)
    then have q: "q \<noteq> p" using assms(5) by auto
    moreover have "procs t p = procs s p" using mp_choose q by (auto simp: scheduler_switch_def run_simps elim!: andthen_InrE)
    ultimately show ?thesis using mp_choose assms(2-4) cpus_ok_upd [OF assms(2)] by (auto simp: ahead_def)
  next
    case (mp_again c')
    then show ?thesis using assms(2-4) cpus_ok_upd [OF assms(2)] by (auto simp: ahead_def)
  next
    case (mp_kernel c' q)
    then have "p \<noteq> q" using assms(4) by auto
    then show ?thesis using kstep_runnable [of "s\<lparr>cur := q\<rparr>" t p] mp_kernel assms(2,4) by auto
  next
    case (mp_back c' q)
    then show ?thesis using assms(2-4) pos [of c'] cpus_ok_upd [OF assms(2)] by auto
  next
    case (mp_interrupt ch r)
    then show ?thesis using assms(2,4) by (auto simp: run_simps wakeup_def wakeup1_def)
  qed
  then show "p_state (procs t p) = RUNNABLE" "cpus_ok at'"
    "(case e of Some (c', q) \<Rightarrow> if c' = c then 1 else 0 | None \<Rightarrow> 0) + before p (at' c) \<le> before p (at c)" by auto
qed

lemma mp_runs_before:
  assumes "mp_runs w es v" and "cpus_ok (snd w)" and "p < NPROC" and "p_state (procs (fst w) p) = RUNNABLE" and "p \<notin> snd ` set es"
  shows "p_state (procs (fst v) p) = RUNNABLE \<and> cpus_ok (snd v) \<and> length (filter (\<lambda>e. fst e = c) es) + before p (snd v c) \<le> before p (snd w c)"
  using assms
proof (induction rule: mp_runs.induct)
  case (mp_more w es v e u)
  have v: "p_state (procs (fst v) p) = RUNNABLE" "cpus_ok (snd v)" "length (filter (\<lambda>e. fst e = c) es) + before p (snd v c) \<le> before p (snd w c)"
    using mp_more by auto
  have "e \<noteq> Some (c', p)" for c' using mp_more.prems(4) by force
  note S = mp_step_before [OF _ v(2) mp_more.prems(2) v(1) this, where t = "fst u" and at' = "snd u"]
  have "mp_step (fst v, snd v) e (fst u, snd u)" using mp_more.hyps(2) by simp
  note S = S [OF this]
  show ?case using S(1,2) S(3) [of c] v(3) by (auto split: option.splits prod.splits if_splits)
qed simp

text \<open>A processor in its loop gets to a process that it can choose, on its own.\<close>

lemma mp_runs_trans: "mp_runs v es u \<Longrightarrow> mp_runs w fs v \<Longrightarrow> mp_runs w (fs @ es) u"
proof (induction rule: mp_runs.induct)
  case (mp_more v es x e u)
  then show ?case using mp_runs.mp_more [of w "fs @ es" x e u] by simp
qed simp

lemma mp_quiet: "mp_step w None v \<Longrightarrow> mp_runs v es u \<Longrightarrow> mp_runs w es u"
  using mp_runs_trans [of v es u w "[]"] mp_runs.mp_more [OF mp_none, of w None v] by simp

lemma scan_up:
  assumes "at c = Scan q" and "q \<le> r" and "r \<le> NPROC" and "\<forall>i. q \<le> i \<and> i < r \<longrightarrow> p_state (procs s i) \<noteq> RUNNABLE"
  shows "mp_runs (s, at) [] (s, at(c := Scan r))"
  using assms
proof (induction "r - q" arbitrary: q at)
  case 0
  then have "at(c := Scan r) = at" by auto
  then show ?case using mp_none [of "(s, at)"] by simp
next
  case (Suc n)
  have "mp_step (s, at) None (s, at(c := Scan (Suc q)))" by (rule mp_next [of at c q s]) (use Suc.prems Suc.hyps(2) in auto)
  moreover have "mp_runs (s, at(c := Scan (Suc q))) [] (s, (at(c := Scan (Suc q)))(c := Scan r))" by (rule Suc.hyps(1) [of "Suc q" "at(c := Scan (Suc q))"]) (use Suc.prems Suc.hyps(2) in auto)
  ultimately show ?case using mp_quiet by simp
qed

lemma first_runnable:
  fixes q :: nat
  assumes "P i" and "q \<le> i"
  obtains r where "q \<le> r" "r \<le> i" "P r" "\<forall>j. q \<le> j \<and> j < r \<longrightarrow> \<not> P j"
proof -
  let ?r = "LEAST r. q \<le> r \<and> P r"
  have "q \<le> ?r \<and> P ?r" by (rule LeastI [of _ i]) (use assms in simp)
  moreover have "?r \<le> i" by (rule Least_le) (use assms in simp)
  moreover have "\<forall>j. q \<le> j \<and> j < ?r \<longrightarrow> \<not> P j" using not_less_Least by blast
  ultimately show ?thesis using that by blast
qed

lemma scan_chooses:
  assumes "at c = Scan q" and "q \<le> NPROC" and "p < NPROC" and "p_state (procs s p) = RUNNABLE"
    and dir: "\<forall>i < NPROC. p_state (procs s i) = RUNNABLE \<longrightarrow> p_pgdir (procs s i) \<noteq> 0"
  shows "\<exists>r t at'. mp_runs (s, at) [(c, r)] (t, at')"
proof -
  have up: "\<exists>r t at'. mp_runs (s, at) [(c, r)] (t, at')" if at: "at c = Scan q" and i: "q \<le> i" "i < NPROC" "p_state (procs s i) = RUNNABLE" for at q i
  proof -
    obtain r where r: "q \<le> r" "r \<le> i" "p_state (procs s r) = RUNNABLE" "\<forall>j. q \<le> j \<and> j < r \<longrightarrow> p_state (procs s j) \<noteq> RUNNABLE"
      by (rule first_runnable [of "\<lambda>i. p_state (procs s i) = RUNNABLE", OF i(3,1)])
    have "mp_runs (s, at) [] (s, at(c := Scan r))" by (rule scan_up [of at c q r s]) (use at r i in auto)
    moreover have "p_pgdir (procs s r) \<noteq> 0" using dir r i by auto
    then have "\<exists>t. scheduler_switch r s = Inr ((), t)" by (simp add: scheduler_switch_def andthen_def upd_def getp_def gets_def panic_if_def ret_def setp_def)
    then obtain t where "mp_step (s, at(c := Scan r)) (Some (c, r)) (t, (at(c := Scan r))(c := Runs r))" using mp_choose [of "at(c := Scan r)" c r s] r i by auto
    ultimately show ?thesis using mp_runs.mp_more by fastforce
  qed
  show ?thesis
  proof (cases "\<exists>i. q \<le> i \<and> i < NPROC \<and> p_state (procs s i) = RUNNABLE")
    case True
    then show ?thesis using up assms(1) by blast
  next
    case False
    then have "mp_runs (s, at) [] (s, at(c := Scan NPROC))" by (intro scan_up) (use assms in auto)
    moreover have "mp_step (s, at(c := Scan NPROC)) None (s, (at(c := Scan NPROC))(c := Scan 0))" by (rule mp_again) simp
    ultimately have "mp_runs (s, at) [] (s, at(c := Scan 0))" using mp_runs.mp_more by fastforce
    moreover obtain r t at' where "mp_runs (s, at(c := Scan 0)) [(c, r)] (t, at')" using up [of "at(c := Scan 0)" 0 p] assms(3,4) by auto
    ultimately show ?thesis using mp_runs_trans by fastforce
  qed
qed

lemma keep_state: "p_state x = st \<Longrightarrow> x\<lparr>p_killed := b, p_state := st\<rparr> = x\<lparr>p_killed := b\<rparr>"
  by (cases x) simp

section \<open>Properties\<close>

text \<open>
  C20: after \<^verbatim>\<open>exit\<close> the process is a zombie without open files, and no process of the table has it as parent any more: its
  children belong to \<^verbatim>\<open>init\<close>.
\<close>

theorem exit_orphans:
  assumes "exit_proc s = Inr (x, t)" and "p < NPROC"
  shows "p_state (procs t (cur s)) = ZOMBIE \<and> (\<forall>fd < NOFILE. p_ofile (procs t (cur s)) fd = None)
     \<and> p_parent (procs t p) \<noteq> Some (cur s)"
proof -
  let ?c = "cur s" and ?ini = "initproc s"
  obtain s1 where ne: "?c \<noteq> ?ini" and c1: "close_files [0..<NOFILE] s = Inr ((), s1)"
    and rest: "exit_rest ?c ?ini s1 = Inr (x, t)"
    using assms(1) unfolding exit_proc_def by (auto elim!: andthen_InrE)
  note c1 = close_files_run [OF c1]
  from rest obtain ps where t: "procs t = (reparent ?c ?ini [0..<NPROC] ps)(?c := (reparent ?c ?ini [0..<NPROC] ps ?c)\<lparr>p_state := ZOMBIE\<rparr>)"
    and ps: "p_ofile (ps ?c) = p_ofile (procs s1 ?c)"
    unfolding exit_rest_def by (auto elim!: andthen_InrE simp: run_simps split: option.splits dest!: k_frame)
  show ?thesis
    using ps c1 ne assms(2) by (auto simp: t reparent_fields)
qed

text \<open>
  C21: \<^verbatim>\<open>wait\<close> returns the process id of a child that has exited, whose slot is free afterwards, or \<open>-1\<close> if there is no child or the caller was killed.
  No other slot changes.
\<close>

theorem wait_reaps:
  assumes "wait_proc s = Inr (r, t)"
  shows "if \<exists>p < NPROC. p_parent (procs s p) = Some (cur s) \<and> p_state (procs s p) = ZOMBIE
     then \<exists>p < NPROC. p_parent (procs s p) = Some (cur s) \<and> p_state (procs s p) = ZOMBIE \<and> r = sint (p_pid (procs s p))
       \<and> p_state (procs t p) = UNUSED \<and> p_parent (procs t p) = None \<and> (\<forall>q. q \<noteq> p \<longrightarrow> procs t q = procs s q)
     else r = -1 \<and> t = s"
proof (cases "find (\<lambda>p. is_child (cur s) (procs s p) \<and> p_state (procs s p) = ZOMBIE) [0..<NPROC]")
  case None
  then have "\<not> (\<exists>p < NPROC. p_parent (procs s p) = Some (cur s) \<and> p_state (procs s p) = ZOMBIE)"
    by (auto simp: find_None_iff is_child_def)
  moreover have "r = -1 \<and> t = s"
    using assms None by (auto simp: wait_proc_def elim!: andthen_InrE split: if_splits)
  ultimately show ?thesis by (simp only: if_False simp_thms)
next
  case (Some p)
  then have p: "p < NPROC" "p_parent (procs s p) = Some (cur s)" "p_state (procs s p) = ZOMBIE"
    by (auto simp: find_Some_iff is_child_def)
  have "r = sint (p_pid (procs s p)) \<and> p_state (procs t p) = UNUSED \<and> p_parent (procs t p) = None
      \<and> (\<forall>q. q \<noteq> p \<longrightarrow> procs t q = procs s q)"
    using assms Some by (auto simp: wait_proc_def run_simps elim!: andthen_InrE dest!: k_frame)
  then show ?thesis using p by auto
qed

text \<open>
  C22: a process can be born killed. \<^verbatim>\<open>kill(0)\<close> finds an unused slot, whose process id is 0, and marks it; \<^verbatim>\<open>allocproc\<close> does not clear the
  mark when it later takes the slot.
\<close>

theorem kill_zero_marks_next:
  assumes "find_unused (procs s) = Some p" and "p_pid (procs s p) = 0" and "\<forall>q < p. p_pid (procs s q) \<noteq> 0"
  shows "\<exists>t. kill 0 s = Inr (0, t) \<and> (\<forall>q u. allocproc t = Inr (Some q, u) \<longrightarrow> q = p \<and> p_killed (procs u p))"
proof -
  have p: "p < NPROC" "p_state (procs s p) = UNUSED" using assms(1) by (auto simp: find_unused_def find_Some_iff)
  define t where "t = s\<lparr>procs := (procs s)(p := (procs s p)\<lparr>p_killed := True\<rparr>)\<rparr>"
  have "find (\<lambda>p. p_pid (procs s p) = 0) [0..<NPROC] = Some p"
    using p assms(2,3) by (auto simp: find_Some_iff intro!: exI [of _ p])
  then have "kill 0 s = Inr (0, t)"
    using p by (simp add: kill_def setp_def andthen_def gets_def upd_def ret_def t_def fun_upd_def keep_state cong: if_cong)
  moreover have "find_unused (procs t) = Some p"
    using assms(1) p by (auto simp: find_unused_def find_Some_iff t_def)
  then have "q = p \<and> p_killed (procs u p)" if "allocproc t = Inr (Some q, u)" for q u
    using that by (auto simp: allocproc_def Let_def run_simps set_ram_def elim!: andthen_InrE split: if_splits dest!: k_frame) (simp_all add: t_def)
  ultimately show ?thesis by blast
qed

text \<open>
  C18: The scheduler starves no process, on any number of processors. A process that is runnable stays so until a processor chooses it, whatever the others do meanwhile; and as long as none does, each processor chooses other processes
  fewer than \<^verbatim>\<open>NPROC\<close> times, since its loop over the table cannot pass the waiting process. A processor that is in its loop while a process waits does choose one, with steps of its own only.
\<close>

theorem scheduler_no_starvation:
  assumes "cpus_ok at" and "p < NPROC" and "p_state (procs s p) = RUNNABLE"
  shows "(mp_runs (s, at) es (t, at') \<and> p \<notin> snd ` set es \<longrightarrow> p_state (procs t p) = RUNNABLE \<and> length (filter (\<lambda>e. fst e = c) es) < NPROC)
     \<and> (at c = Scan q \<and> (\<forall>i < NPROC. p_state (procs s i) = RUNNABLE \<longrightarrow> p_pgdir (procs s i) \<noteq> 0) \<longrightarrow> (\<exists>r u at''. mp_runs (s, at) [(c, r)] (u, at'')))"
proof (intro conjI impI)
  assume "mp_runs (s, at) es (t, at') \<and> p \<notin> snd ` set es"
  then have m: "mp_runs (s, at) es (t, at')" "p \<notin> snd ` set es" by auto
  show "p_state (procs t p) = RUNNABLE" "length (filter (\<lambda>e. fst e = c) es) < NPROC"
    using mp_runs_before [OF m(1) _ assms(2) _ m(2), of c] assms before_less [OF assms(1,2), of c] by auto
next
  assume a: "at c = Scan q \<and> (\<forall>i < NPROC. p_state (procs s i) = RUNNABLE \<longrightarrow> p_pgdir (procs s i) \<noteq> 0)"
  then have "q \<le> NPROC" using assms(1) by (force simp: cpus_ok_def dest: spec [of _ c])
  then show "\<exists>r u at''. mp_runs (s, at) [(c, r)] (u, at'')" using scan_chooses a assms(2,3) by blast
qed


text \<open>A table with \<open>init\<close> in slot 0 and a process that runs in slot 1; the other slots are given.\<close>

definition demo_proc :: "procstate \<Rightarrow> proc" where
  "demo_proc st = \<lparr>p_sz = 4096, p_pgdir = 0x1000, p_kstack = 0, p_state = st, p_pid = 0, p_parent = Some 0, p_tf = 0, p_context = 0,
     p_chan = None, p_killed = False, p_ofile = (\<lambda>_. None), p_cwd = Some 0, p_name = []\<rparr>"

definition demo_kern :: "procstate \<Rightarrow> kern" where
  "demo_kern st = \<lparr>psys = demo_sys\<lparr>sfs := \<lparr>flog = fresh_log (\<lambda>_ _. 0) 2 30, inodes = (\<lambda>_. undefined\<lparr>i_ref := 5\<rparr>), fcons = undefined,
       fcwd = 0, fkilled = False\<rparr>\<rparr>,
     procs = (\<lambda>_. demo_proc st)(1 := demo_proc RUNNING), nextpid = 3, initproc = 0, cur = 1, k_data = 0, k_trapret = 0, k_forkret = 0\<rparr>"

lemma demo_kern_simps [simp]:
  "cur (demo_kern st) = 1" "initproc (demo_kern st) = 0" "procs (demo_kern st) = (\<lambda>_. demo_proc st)(1 := demo_proc RUNNING)"
  "p_state (demo_proc st) = st" "p_parent (demo_proc st) = Some 0" "p_pid (demo_proc st) = 0" "p_pgdir (demo_proc st) = 0x1000"
  by (simp_all add: demo_kern_def demo_proc_def)

theorem exit_orphans_witness:
  "\<exists>t. exit_proc (demo_kern UNUSED) = Inr ((), t) \<and> p_state (procs t 1) = ZOMBIE"
proof -
  have "close_files fds (demo_kern UNUSED) = Inr ((), demo_kern UNUSED)" for fds
    by (induction fds) (simp_all add: andthen_def getcur_def gets_def ret_def demo_kern_def demo_proc_def)
  moreover have "\<exists>t. exit_rest 1 0 (demo_kern UNUSED) = Inr ((), t)"
    by (simp add: exit_rest_def andthen_def kf_def ks_def sf_def fl_def zoom_def begin_op_def end_op_def end_op_enter_def end_op_finish_def
        commit_def iput_def geti_def seti_def gets_def upd_def ret_def panic_if_def getcur_def setp_def wakeup_def
        demo_kern_def demo_proc_def fresh_log_def MAXOPBLOCKS_def LOGSIZE_def)
  ultimately obtain t where "exit_proc (demo_kern UNUSED) = Inr ((), t)"
    by (auto simp: exit_proc_def andthen_def gets_def panic_if_def ret_def)
  then show ?thesis
    using exit_orphans [of "demo_kern UNUSED" "()" t 0] by (simp add: NPROC_def)
qed

theorem wait_reaps_witness: "wait_proc (demo_kern ZOMBIE) = Inr (-1, demo_kern ZOMBIE)"
proof -
  have n: "find (\<lambda>p. is_child 1 (procs (demo_kern ZOMBIE) p) \<and> p_state (procs (demo_kern ZOMBIE) p) = ZOMBIE) [0..<NPROC] = None"
    "\<not> list_ex (\<lambda>p. is_child 1 (procs (demo_kern ZOMBIE) p)) [0..<NPROC]"
    by (auto simp: find_None_iff is_child_def list_ex_iff)
  obtain r t where w: "wait_proc (demo_kern ZOMBIE) = Inr (r, t)"
    using n by (simp add: wait_proc_def andthen_def gets_def ret_def)
  then show ?thesis using wait_reaps [OF w] by auto
qed


theorem kill_zero_marks_next_witness:
  "\<exists>t. kill 0 (demo_kern UNUSED) = Inr (0, t) \<and> (\<forall>q u. allocproc t = Inr (Some q, u) \<longrightarrow> p_killed (procs u 0))"
proof -
  have "find_unused (procs (demo_kern UNUSED)) = Some 0"
    by (simp add: find_unused_def NPROC_def upt_rec)
  then show ?thesis
    using kill_zero_marks_next [of "demo_kern UNUSED" 0] by auto
qed

definition two_runnable :: kern where
  "two_runnable = (demo_kern UNUSED)\<lparr>procs := (\<lambda>_. demo_proc UNUSED)(0 := demo_proc RUNNABLE, 1 := demo_proc RUNNABLE)\<rparr>"

text \<open>Two processors: the first chooses the process at 0 while that at 1 waits.\<close>

theorem scheduler_no_starvation_witness:
  "\<exists>t at'. mp_runs (two_runnable, \<lambda>_. Scan 0) [(0, 0)] (t, at') \<and> p_state (procs t 1) = RUNNABLE \<and> length (filter (\<lambda>e. fst e = 0) [(0 :: nat, 0 :: nat)]) < NPROC"
proof -
  have ok: "cpus_ok (\<lambda>_. Scan 0)" "(1 :: nat) < NPROC" "p_state (procs two_runnable 1) = RUNNABLE"
    by (simp_all add: cpus_ok_def NPROC_def two_runnable_def)
  have "\<exists>t. scheduler_switch 0 two_runnable = Inr ((), t)"
    by (simp add: scheduler_switch_def two_runnable_def andthen_def upd_def getp_def gets_def panic_if_def ret_def setp_def)
  then obtain t where "mp_step (two_runnable, \<lambda>_. Scan 0) (Some (0, 0)) (t, (\<lambda>_. Scan 0)(0 := Runs 0))"
    using mp_choose [of "\<lambda>_. Scan 0" 0 0 two_runnable] by (auto simp: NPROC_def two_runnable_def)
  then have r: "mp_runs (two_runnable, \<lambda>_. Scan 0) [(0, 0)] (t, (\<lambda>_. Scan 0)(0 := Runs 0))" using mp_runs.mp_more [OF mp_none] by fastforce
  then show ?thesis using scheduler_no_starvation [OF ok, of "[(0, 0)]" t _ 0] by force
qed

end
