(* ===== verification/Space.thy ===== *)
theory Space
  imports Vm
begin

text \<open>
  Address spaces: which memory the operations on a page directory can change. \<open>image_in G\<close> says that the directory, its page tables and the user
  pages it maps are pages of \<open>G\<close>; \<open>space\<close> adds what the operations that allocate rely on. The statements are about runs that return: a run that ends in a panic has
  no outcome here.
\<close>

section \<open>Addresses of a page\<close>

lemma idx_page: "PDX (PGROUNDDOWN x) = PDX x" "PTX (PGROUNDDOWN x) = PTX x"
proof -
  have m: "(PGSIZE - 1 :: u32) = mask 12" "(0x3FF :: u32) = mask 10" by (simp_all add: mask_eq_exp_minus_1 PGSIZE_def)
  show "PDX (PGROUNDDOWN x) = PDX x" "PTX (PGROUNDDOWN x) = PTX x"
    unfolding PDX_def PTX_def PGROUNDDOWN_def m by (rule bit_word_eqI, auto simp: bit_simps)+
qed

lemma translate_page: "PGROUNDDOWN x = PGROUNDDOWN y \<Longrightarrow> translate m pgdir x = translate m pgdir y"
  using idx_page [of x] idx_page [of y] by (simp add: translate_def pde_of_def pte_at_def)

lemma below_kern: "x < KERNBASE \<longleftrightarrow> unat (PDX x) < 512"
proof -
  have m: "(0x3FF :: u32) = mask 10" by (simp add: mask_eq_exp_minus_1)
  have "unat x < 2 ^ 32" by (rule order_less_le_trans [OF unsigned_less]) simp
  moreover have "unat (PDX x) = unat x div 2 ^ 22 mod 2 ^ 10"
    unfolding PDX_def m by (simp add: take_bit_eq_mask [symmetric] take_bit_eq_mod drop_bit_eq_div unat_mod unat_div)
  ultimately have "unat (PDX x) = unat x div 4194304" by simp
  then show ?thesis using less_mult_imp_div_less [of "unat x" 512 4194304] div_less_iff_less_mult [of 4194304 "unat x" 512]
    by (simp add: KERNBASE_def word_less_nat_alt)
qed

lemma same_half: "PGROUNDDOWN x = PGROUNDDOWN y \<Longrightarrow> x < KERNBASE \<longleftrightarrow> y < KERNBASE"
  unfolding below_kern using idx_page(1) [of x] idx_page(1) [of y] by simp

section \<open>Images\<close>

definition image_in :: "u32 set \<Rightarrow> mem \<Rightarrow> u32 \<Rightarrow> bool" where
  "image_in G m pgdir \<longleftrightarrow> pgdir_ok m pgdir \<and> tables m pgdir \<subseteq> G
     \<and> (\<forall>x e. x < KERNBASE \<and> translate m pgdir x = Some e \<longrightarrow> p2v (PTE_ADDR e) \<in> G - tables m pgdir)"

lemma image_mono: "image_in A m pgdir \<Longrightarrow> A \<subseteq> B \<Longrightarrow> image_in B m pgdir"
  unfolding image_in_def by blast

lemma user_page_aligned: "p2v (PTE_ADDR e) mod PGSIZE = 0"
  by (simp add: aligned_unat table_aligned)

lemma touches_apart:
  assumes "touches A m m'" and "\<forall>p \<in> A. p mod PGSIZE = 0" and "pgdir_ok m pgdir" and "A \<inter> tables m pgdir = {}"
    and "p \<in> tables m pgdir" and "in_page p i"
  shows "m' i = m i"
  using touches_other [OF assms(1,2) tables_aligned [OF assms(3,5)] _ assms(6)] assms(4,5) by blast

lemma touches_tables:
  assumes "touches A m m'" and "\<forall>p \<in> A. p mod PGSIZE = 0" and "pgdir_ok m pgdir" and "A \<inter> tables m pgdir = {}"
  shows "pde_of m' pgdir va = pde_of m pgdir va" "translate m' pgdir va = translate m pgdir va" "pgdir_ok m' pgdir" "tables m' pgdir = tables m pgdir"
  using tables_cong [OF assms(3), of m'] touches_apart [OF assms] by blast+

lemma image_touch:
  assumes "image_in G m pgdir" and "touches A m m'" and "\<forall>p \<in> A. p mod PGSIZE = 0" and "A \<inter> tables m pgdir = {}"
  shows "image_in G m' pgdir"
  using assms(1) touches_tables [OF assms(2,3) _ assms(4)] by (simp add: image_in_def)

lemma set_pte_tables:
  assumes "pgdir_ok m pgdir" and "present m pgdir va"
  shows "tables (mput32 m (pte_at m pgdir va) e) pgdir = tables m pgdir"
    and "touches (tables m pgdir) m (mput32 m (pte_at m pgdir va) e)"
proof -
  show "tables (mput32 m (pte_at m pgdir va) e) pgdir = tables m pgdir"
    using set_pte(5) [OF assms(1) assms(2) [unfolded present_def]] by (simp add: tables_def present_def table_of_def)
  show "touches (tables m pgdir) m (mput32 m (pte_at m pgdir va) e)"
    using touches_poke [OF table_of_aligned [of m pgdir va] idx_less(2), of "tables m pgdir"] assms(2)
    by (auto simp: pte_at_def table_of_def tables_def)
qed

lemma image_set_pte:
  assumes im: "image_in G m pgdir" and p: "present m pgdir va"
    and e: "e AND PTE_P \<noteq> 0 \<Longrightarrow> va < KERNBASE \<Longrightarrow> p2v (PTE_ADDR e) \<in> G - tables m pgdir"
  shows "image_in G (mput32 m (pte_at m pgdir va) e) pgdir"
proof -
  let ?m = "mput32 m (pte_at m pgdir va) e"
  have ok: "pgdir_ok m pgdir" using im by (simp add: image_in_def)
  note S = set_pte [OF ok p [unfolded present_def], where e = e] and T = set_pte_tables [OF ok p, of e]
  have "p2v (PTE_ADDR f) \<in> G - tables m pgdir" if x: "x < KERNBASE" "translate ?m pgdir x = Some f" for x f
  proof (cases "PGROUNDDOWN x = PGROUNDDOWN va")
    case True
    then show ?thesis using x translate_page [OF True, of ?m pgdir] S(2) same_half [OF True] e by (auto split: if_splits)
  next
    case False
    then show ?thesis using x S(3) [OF False] im by (auto simp: image_in_def)
  qed
  then show ?thesis using S(1) T(1) im by (auto simp: image_in_def)
qed

section \<open>Freeing\<close>

lemma kfree_touches:
  assumes "kfree v s = Inr (x, t)"
  shows "v mod PGSIZE = 0" "touches {v} (kram s) (kram t)"
proof -
  have "v mod PGSIZE = 0" and t: "kram t = mput32 (memset v 1 PGSIZE (kram s)) v (freelist s)"
    using assms by (auto simp: kfree_def gets_run upd_run panic_if_run elim!: andthen_InrE)
  then show al: "v mod PGSIZE = 0" by simp
  have "\<not> unat (i - v) < 4" if "\<not> in_page v i" for i using that by (simp add: in_page_def PGSIZE_def)
  then show "touches {v} (kram s) (kram t)"
    unfolding t by (intro touches_page [of v]) (auto simp: mput32_outside memset_eq in_page_def)
qed

lemma deallocuvm_loop_image:
  assumes "deallocuvm_loop n pgdir a oldsz s = Inr (x, t)" and "image_in G (kram s) pgdir" and "oldsz \<le> KERNBASE"
  shows "image_in G (kram t) pgdir \<and> touches G (kram s) (kram t)"
  using assms(1,2)
proof (induction n arbitrary: a s)
  case (Suc n)
  note runs = gets_run upd_run panic_if_run ret_run peek_def poke_def
  have ok: "pgdir_ok (kram s) pgdir" using Suc.prems(2) by (simp add: image_in_def)
  show ?case
  proof (cases "a < oldsz \<and> present (kram s) pgdir a \<and> pte_at (kram s) pgdir a \<noteq> 0")
    case True
    then have p: "present (kram s) pgdir a" and a: "a < KERNBASE" using assms(3) by auto
    let ?e = "mget32 (kram s) (pte_at (kram s) pgdir a)" let ?v = "p2v (PTE_ADDR ?e)"
    show ?thesis
    proof (cases "?e AND PTE_P = 0")
      case z: True
      then have "deallocuvm_loop n pgdir (a + PGSIZE) oldsz s = Inr (x, t)"
        using Suc.prems(1) True walkpgdir_present [OF p] by (auto simp: runs elim!: andthen_InrE)
      then show ?thesis using Suc.IH Suc.prems(2) by blast
    next
      case False
      then obtain u where u: "kfree ?v s = Inr ((), u)"
        and t: "deallocuvm_loop n pgdir (a + PGSIZE) oldsz (u\<lparr>kram := mput32 (kram u) (pte_at (kram s) pgdir a) 0\<rparr>) = Inr (x, t)"
        using Suc.prems(1) True walkpgdir_present [OF p] by (auto simp: runs Let_def elim!: andthen_InrE)
      have "translate (kram s) pgdir a = Some ?e" using p False by (simp add: translate_def present_def Let_def)
      then have v: "?v \<in> G - tables (kram s) pgdir" using Suc.prems(2) a unfolding image_in_def by blast
      note K = kfree_touches [OF u]
      have A: "\<forall>p \<in> {?v}. p mod PGSIZE = 0" "{?v} \<inter> tables (kram s) pgdir = {}" using K(1) v by auto
      note same = touches_tables [OF K(2) A(1) ok A(2)]
      have im: "image_in G (kram u) pgdir" by (rule image_touch [OF Suc.prems(2) K(2) A])
      have pu: "present (kram u) pgdir a" "pte_at (kram s) pgdir a = pte_at (kram u) pgdir a"
        using p same(1) by (simp_all add: present_def pte_at_def)
      have z: "image_in G (mput32 (kram u) (pte_at (kram u) pgdir a) 0) pgdir" by (rule image_set_pte [OF im pu(1)]) simp
      have "touches G (kram u) (mput32 (kram u) (pte_at (kram u) pgdir a) 0)"
        by (rule touches_mono [OF set_pte_tables(2) [OF _ pu(1)]]) (use im in \<open>auto simp: image_in_def\<close>)
      then have "touches G (kram s) (mput32 (kram u) (pte_at (kram u) pgdir a) 0)"
        using touches_trans [OF K(2), of G _ G] v by simp
      moreover have "image_in G (kram t) pgdir \<and> touches G (mput32 (kram u) (pte_at (kram u) pgdir a) 0) (kram t)"
        using Suc.IH [OF t] z pu(2) by simp
      ultimately show ?thesis using touches_trans [of G _ _ G _ G] by blast
    qed
  next
    case False
    show ?thesis
    proof (cases "a < oldsz")
      case True
      then have "walkpgdir pgdir a False s = Inr (0, s)"
        using False walkpgdir_present [of s pgdir a False] walkpgdir_absent [of s pgdir a] by (cases "present (kram s) pgdir a") auto
      then have "deallocuvm_loop n pgdir (a + (NPTENTRIES - 1) * PGSIZE + PGSIZE) oldsz s = Inr (x, t)"
        using Suc.prems(1) True by (auto elim!: andthen_InrE)
      then show ?thesis using Suc.IH Suc.prems(2) by blast
    qed (use Suc.prems in \<open>auto simp: runs\<close>)
  qed
qed (simp add: stop_run)

lemma mfor_inv:
  assumes "mfor xs f s = Inr (y, t)" and "I s" and "\<And>x s t y. x \<in> set xs \<Longrightarrow> f x s = Inr (y, t) \<Longrightarrow> I s \<Longrightarrow> I t"
  shows "I t"
  using assms
proof (induction xs arbitrary: s)
  case (Cons x xs)
  then show ?case by (auto elim!: andthen_InrE) (metis (no_types))
qed (simp add: ret_run)

lemma deallocuvm_image:
  assumes "deallocuvm pgdir oldsz newsz s = Inr (x, t)" and "image_in G (kram s) pgdir" and "oldsz \<le> KERNBASE"
  shows "image_in G (kram t) pgdir" "touches G (kram s) (kram t)"
  using assms deallocuvm_loop_image [of "Suc (2 ^ 20)" pgdir "PGROUNDUP newsz" oldsz s _ t G]
  by (auto simp: deallocuvm_def ret_run elim!: andthen_InrE split: if_splits simp del: deallocuvm_loop.simps)

lemma dir_entry:
  assumes "i < 1024"
  shows "PDX (push_bit 22 (of_nat i)) = of_nat i"
proof -
  have m: "(0x3FF :: u32) = mask 10" by (simp add: mask_eq_exp_minus_1)
  define w :: u32 where "w = of_nat i"
  have "unat w < 2 ^ 10" using assms by (simp add: w_def unat_of_nat)
  then have "bit w n \<Longrightarrow> n < 10" for n using bit_unat_less by blast
  then show ?thesis unfolding PDX_def m w_def [symmetric] by (intro bit_word_eqI) (auto simp: bit_simps)
qed

lemma freevm_touches:
  assumes "freevm pgdir s = Inr (x, t)" and "image_in G (kram s) pgdir"
  shows "touches G (kram s) (kram t)"
proof -
  obtain y u v where u: "deallocuvm pgdir KERNBASE 0 s = Inr (y, u)"
    and v: "mfor [0..<NPDENTRIES] (\<lambda>i. andthen (peek (pgdir + 4 * of_nat i)) (\<lambda>e. if e AND PTE_P \<noteq> 0 then kfree (p2v (PTE_ADDR e)) else ret ())) u = Inr ((), v)"
    and t: "kfree pgdir v = Inr (x, t)"
    using assms(1) by (auto simp: freevm_def panic_if_run elim!: andthen_InrE simp del: mfor.simps)
  note D = deallocuvm_image [OF u assms(2) order_refl]
  have ok: "pgdir_ok (kram u) pgdir" and T: "tables (kram u) pgdir \<subseteq> G" using D(1) by (simp_all add: image_in_def)
  have al: "unat pgdir mod 4096 = 0" using ok by (simp add: pgdir_ok_def)
  let ?I = "\<lambda>w. touches G (kram u) (kram w) \<and> (\<forall>i. in_page pgdir i \<longrightarrow> kram w i = kram u i)"
  have "?I v"
  proof (rule mfor_inv [OF v])
    fix i w w' y
    assume i: "i \<in> set [0..<NPDENTRIES]" and I: "?I w"
      and run: "andthen (peek (pgdir + 4 * of_nat i)) (\<lambda>e. if e AND PTE_P \<noteq> 0 then kfree (p2v (PTE_ADDR e)) else ret ()) w = Inr (y, w')"
    have x: "PDX (push_bit 22 (of_nat i)) = of_nat i" using dir_entry i by (simp add: NPDENTRIES_def)
    have e: "mget32 (kram w) (pgdir + 4 * of_nat i) = pde_of (kram u) pgdir (push_bit 22 (of_nat i))"
      using mget32_page [OF al idx_less(1), of "kram w" "kram u" "push_bit 22 (of_nat i)"] I unfolding x by (simp add: pde_of_def x entry_def)
    show "?I w'"
    proof (cases "present (kram u) pgdir (push_bit 22 (of_nat i))")
      case True
      let ?p = "table_of (kram u) pgdir (push_bit 22 (of_nat i))"
      have k: "kfree ?p w = Inr (y, w')"
        using run True by (auto simp: peek_def gets_run e present_def table_of_def elim!: andthen_InrE)
      note K = kfree_touches [OF k]
      have p: "?p \<in> G" "?p \<noteq> pgdir" using T True ok by (auto simp: tables_def table_of_def pgdir_ok_def present_def)
      have "kram w' j = kram w j" if "in_page pgdir j" for j
        using touches_other [OF K(2) _ _ _ that] K(1) p(2) al by (simp add: aligned_unat)
      moreover have "touches G (kram u) (kram w')" using touches_trans [of G "kram u" "kram w" "{?p}" "kram w'" G] I K(2) p(1) by simp
      ultimately show ?thesis using I by simp
    next
      case False
      then have "w' = w" using run by (auto simp: peek_def gets_run ret_run e present_def elim!: andthen_InrE)
      then show ?thesis using I by simp
    qed
  qed simp
  moreover have "pgdir \<in> G" using T by (auto simp: tables_def)
  ultimately have "touches G (kram u) (kram t)" using touches_trans [OF _ kfree_touches(2) [OF t], of G "kram u" G] by simp
  then show ?thesis using touches_trans [OF D(2), of G "kram t" G] by simp
qed

section \<open>Allocating\<close>

text \<open>
  A directory that is being built from the pages of \<open>G\<close>, of which those of \<open>F\<close> are still free: its pages and those it maps are none of \<open>F\<close>, and no
  entry for a kernel address is open to the user.
\<close>

definition space :: "u32 \<Rightarrow> u32 set \<Rightarrow> u32 set \<Rightarrow> u32 \<Rightarrow> kmem \<Rightarrow> bool" where
  "space e G F pgdir s \<longleftrightarrow> free_set e F s \<and> vm_ok F (kram s) pgdir \<and> F \<subseteq> G \<and> image_in (G - F) (kram s) pgdir
     \<and> (\<forall>x p. KERNBASE \<le> x \<and> translate (kram s) pgdir x = Some p \<longrightarrow> p AND PTE_U = 0)"

text \<open>What such an operation does: it takes pages from \<open>F\<close>, and it writes to pages of \<open>G\<close> only.\<close>

definition taking :: "u32 set \<Rightarrow> u32 set \<Rightarrow> u32 set \<Rightarrow> u32 \<Rightarrow> kmem \<Rightarrow> kmem \<Rightarrow> bool" where
  "taking G F F' pgdir s t \<longleftrightarrow> F' \<subseteq> F \<and> tables (kram t) pgdir \<subseteq> tables (kram s) pgdir \<union> F \<and> touches G (kram s) (kram t)"

lemma taking_refl [simp]: "taking G F F pgdir s s"
  by (auto simp: taking_def)

lemma taking_trans: "taking G F F' pgdir s t \<Longrightarrow> taking G F' F'' pgdir t u \<Longrightarrow> taking G F F'' pgdir s u"
  unfolding taking_def using touches_trans [of G "kram s" "kram t" G "kram u" G] by blast

lemma space_image: "space e G F pgdir s \<Longrightarrow> image_in G (kram s) pgdir"
  unfolding space_def using image_mono [of "G - F"] by blast

lemma free_aligned: "free_set e F s \<Longrightarrow> p \<in> F \<Longrightarrow> p mod PGSIZE = 0"
  using pa.good by blast

lemma space_fill:
  assumes sp: "space e G F pgdir s" and t: "touches {q} (kram s) m" and q: "q mod PGSIZE = 0" "q \<in> G - F" "q \<notin> tables (kram s) pgdir"
  shows "space e G F pgdir (s\<lparr>kram := m\<rparr>)" "taking G F F pgdir s (s\<lparr>kram := m\<rparr>)"
proof -
  have f: "free_set e F s" and ok: "pgdir_ok (kram s) pgdir" using sp by (simp_all add: space_def vm_ok_def)
  have A: "\<forall>p \<in> {q}. p mod PGSIZE = 0" "{q} \<inter> tables (kram s) pgdir = {}" using q by auto
  note same = touches_tables [OF t A(1) ok A(2)]
  have "free_set e F (s\<lparr>kram := m\<rparr>)"
  proof (rule pa.frame [OF f])
    fix p i assume p: "p \<in> F" "in_page p i"
    show "m i = kram s i" by (rule touches_other [OF t A(1) _ _ p(2)]) (use p(1) q(2) free_aligned [OF f] in auto)
  qed
  moreover have "image_in (G - F) m pgdir" by (rule image_touch [OF _ t A]) (use sp in \<open>simp add: space_def\<close>)
  ultimately show "space e G F pgdir (s\<lparr>kram := m\<rparr>)" using sp same by (auto simp: space_def vm_ok_def)
  show "taking G F F pgdir s (s\<lparr>kram := m\<rparr>)" using same t q(2) by (auto simp: taking_def intro: touches_mono)
qed

lemma space_kalloc:
  assumes sp: "space e G F pgdir s" and run: "kalloc s = Inr (v, t)"
  shows "kram t = kram s" and "v = 0 \<and> t = s \<and> F = {} \<or> v \<in> F \<and> v mod PGSIZE = 0 \<and> v \<notin> tables (kram s) pgdir \<and> space e G (F - {v}) pgdir t"
proof -
  have f: "free_set e F s" using sp by (simp add: space_def)
  have a: "kram t = kram s \<and> (if F = {} then v = 0 \<and> t = s else v \<in> F \<and> v \<noteq> 0 \<and> free_set e (F - {v}) t)"
    by (rule wp_run [OF pa.alloc [OF f] run])
  then show "kram t = kram s" by simp
  show "v = 0 \<and> t = s \<and> F = {} \<or> v \<in> F \<and> v mod PGSIZE = 0 \<and> v \<notin> tables (kram s) pgdir \<and> space e G (F - {v}) pgdir t"
  proof (cases "F = {}")
    case False
    then have v: "v \<in> F" "free_set e (F - {v}) t" using a by auto
    moreover have "v mod PGSIZE = 0" using pa.good(1) [OF f v(1)] pa.good(2) by blast
    moreover have "image_in (G - (F - {v})) (kram s) pgdir" by (rule image_mono [of "G - F"]) (use sp in \<open>auto simp: space_def\<close>)
    ultimately show ?thesis using sp a by (auto simp: space_def vm_ok_def)
  qed (use a in simp)
qed

text \<open>An entry that may be stored for the address \<open>x\<close>.\<close>

definition fits :: "u32 set \<Rightarrow> u32 \<Rightarrow> u32 \<Rightarrow> bool" where
  "fits A x e \<longleftrightarrow> (if x < KERNBASE then p2v (PTE_ADDR e) \<in> A else e AND PTE_U = 0)"

lemma space_set_pte:
  assumes sp: "space e G F pgdir s" and p: "present (kram s) pgdir va"
    and f: "v AND PTE_P \<noteq> 0 \<Longrightarrow> fits (G - F - tables (kram s) pgdir) va v"
  defines "t \<equiv> s\<lparr>kram := mput32 (kram s) (pte_at (kram s) pgdir va) v\<rparr>"
  shows "space e G F pgdir t" "taking G F F pgdir s t"
proof -
  have fr: "free_set e F s" and ok: "pgdir_ok (kram s) pgdir" and d: "tables (kram s) pgdir \<inter> F = {}" using sp by (simp_all add: space_def vm_ok_def)
  note S = set_pte [OF ok p [unfolded present_def], where e = v] and T = set_pte_tables [OF ok p, of v]
  have im: "image_in (G - F) (mput32 (kram s) (pte_at (kram s) pgdir va) v) pgdir"
    by (rule image_set_pte [OF _ p]) (use sp f in \<open>auto simp: space_def fits_def\<close>)
  have "free_set e F t"
    unfolding t_def
  proof (rule pa.frame [OF fr])
    fix q i assume q: "q \<in> F" "in_page q i"
    show "mput32 (kram s) (pte_at (kram s) pgdir va) v i = kram s i"
      by (rule touches_other [OF T(2) _ _ _ q(2)]) (use tables_aligned [OF ok] q(1) d free_aligned [OF fr] in auto)
  qed
  moreover have "w AND PTE_U = 0" if x: "KERNBASE \<le> x" "translate (kram t) pgdir x = Some w" for x w
  proof (cases "PGROUNDDOWN x = PGROUNDDOWN va")
    case True
    then show ?thesis using x translate_page [OF True, of "kram t" pgdir] S(2) same_half [OF True] f
      by (auto simp: t_def fits_def split: if_splits)
  next
    case False
    then show ?thesis using x S(3) [OF False] sp by (auto simp: t_def space_def)
  qed
  ultimately show "space e G F pgdir t" using sp im S(1) T(1) by (auto simp: space_def vm_ok_def t_def)
  show "taking G F F pgdir s t" using T sp by (auto simp: taking_def t_def space_def image_in_def intro: touches_mono)
qed

lemma space_walk:
  assumes sp: "space e G F pgdir s" and run: "walkpgdir pgdir va True s = Inr (pte, t)"
  shows "\<exists>F'. space e G F' pgdir t \<and> taking G F F' pgdir s t \<and> (pte \<noteq> 0 \<longrightarrow> present (kram t) pgdir va \<and> pte = pte_at (kram t) pgdir va)"
proof -
  have f: "free_set e F s" "vm_ok F (kram s) pgdir" using sp by (simp_all add: space_def)
  from wp_run [OF walkpgdir_wp [OF f, of va] run] obtain F' where st: "vm_step e pgdir F F' s t"
    and tr: "\<forall>x. translate (kram t) pgdir x = translate (kram s) pgdir x"
    and p: "pte \<noteq> 0 \<longrightarrow> present (kram t) pgdir va \<and> pte = pte_at (kram t) pgdir va" by (auto split: if_splits)
  have G: "tables (kram s) pgdir \<union> F \<subseteq> G" using sp by (auto simp: space_def image_in_def)
  have "p2v (PTE_ADDR w) \<in> G - F' - tables (kram t) pgdir" if "x < KERNBASE" "translate (kram s) pgdir x = Some w" for x w
  proof -
    have "p2v (PTE_ADDR w) \<in> G - F - tables (kram s) pgdir" using sp that unfolding space_def image_in_def by blast
    then show ?thesis using st by (auto simp: vm_step_def)
  qed
  then have "image_in (G - F') (kram t) pgdir" using st G tr unfolding vm_step_def vm_ok_def image_in_def by auto
  then have "space e G F' pgdir t" using st sp tr by (auto simp: space_def vm_step_def)
  moreover have "taking G F F' pgdir s t" using st G touches_mono by (auto simp: taking_def vm_step_def)
  ultimately show ?thesis using p by blast
qed

lemma fits_mono: "fits A x e \<Longrightarrow> A \<subseteq> B \<Longrightarrow> fits B x e"
  by (auto simp: fits_def split: if_splits)

lemma taking_room: "taking G F F' pgdir s t \<Longrightarrow> G - F - tables (kram s) pgdir \<subseteq> G - F' - tables (kram t) pgdir"
  by (auto simp: taking_def)

lemma space_map_step:
  assumes run: "mappages_loop n pgdir a pa perm s = Inr (r, t)" and sp: "space e G F pgdir s"
    and f: "fits (G - F - tables (kram s) pgdir) a (pa OR perm OR PTE_P)"
  obtains F' u where "space e G F' pgdir u" "taking G F F' pgdir s u"
    "t = u \<or> (case n of 0 \<Rightarrow> ret 0 | Suc m \<Rightarrow> mappages_loop m pgdir (a + PGSIZE) (pa + PGSIZE) perm) u = Inr (r, t)"
proof -
  obtain pte u where w: "walkpgdir pgdir a True s = Inr (pte, u)"
    and c: "pte = 0 \<and> t = u \<or> pte \<noteq> 0 \<and> (case n of 0 \<Rightarrow> ret 0 | Suc m \<Rightarrow> mappages_loop m pgdir (a + PGSIZE) (pa + PGSIZE) perm)
       (u\<lparr>kram := mput32 (kram u) pte (pa OR perm OR PTE_P)\<rparr>) = Inr (r, t)"
    using run unfolding mappages_loop.simps [of n]
    by (auto simp: peek_def poke_def gets_run upd_run ret_run panic_if_run elim!: andthen_InrE split: if_splits)
  obtain F' where F': "space e G F' pgdir u" "taking G F F' pgdir s u"
    and p: "pte \<noteq> 0 \<longrightarrow> present (kram u) pgdir a \<and> pte = pte_at (kram u) pgdir a"
    using space_walk [OF sp w] by blast
  show thesis
  proof (cases "pte = 0")
    case True
    then show thesis using that [OF F'] c by blast
  next
    case False
    then have pr: "present (kram u) pgdir a" and q: "pte = pte_at (kram u) pgdir a" using p by auto
    note S = space_set_pte [OF F'(1) pr fits_mono [OF f taking_room [OF F'(2)]]]
    show thesis using that [OF S(1) taking_trans [OF F'(2) S(2)]] c False q by blast
  qed
qed

lemma space_mappages_loop:
  assumes "mappages_loop n pgdir a pa perm s = Inr (r, t)" and "space e G F pgdir s"
    and "\<forall>k \<le> n. fits (G - F - tables (kram s) pgdir) (a + of_nat k * PGSIZE) ((pa + of_nat k * PGSIZE) OR perm OR PTE_P)"
  shows "\<exists>F'. space e G F' pgdir t \<and> taking G F F' pgdir s t"
  using assms
proof (induction n arbitrary: a pa s F)
  case (0 a pa s F)
  have "fits (G - F - tables (kram s) pgdir) a (pa OR perm OR PTE_P)" using 0(3) by simp
  then show ?case by (rule space_map_step [OF 0(1,2)]) (auto simp: ret_run)
next
  case (Suc n a pa s F)
  have f: "fits (G - F - tables (kram s) pgdir) a (pa OR perm OR PTE_P)" using Suc.prems(3) [rule_format, of 0] by simp
  obtain F' u where u: "space e G F' pgdir u" "taking G F F' pgdir s u"
    "t = u \<or> mappages_loop n pgdir (a + PGSIZE) (pa + PGSIZE) perm u = Inr (r, t)"
    by (rule space_map_step [OF Suc.prems(1,2) f]) auto
  show ?case
  proof (cases "t = u")
    case True
    then show ?thesis using u by blast
  next
    case False
    have "fits (G - F' - tables (kram u) pgdir) (a + PGSIZE + of_nat k * PGSIZE) ((pa + PGSIZE + of_nat k * PGSIZE) OR perm OR PTE_P)" if "k \<le> n" for k
      using fits_mono [OF Suc.prems(3) [rule_format, of "Suc k"] taking_room [OF u(2)]] that by (simp add: algebra_simps)
    then obtain F'' where "space e G F'' pgdir t" "taking G F' F'' pgdir u t" using Suc.IH [OF _ u(1)] u(3) False by blast
    then show ?thesis using taking_trans [OF u(2)] by blast
  qed
qed

section \<open>A new directory\<close>

lemma fresh_space:
  assumes f: "free_set e G s" and run: "kalloc s = Inr (v, u)" and v: "v \<noteq> 0"
  defines "t \<equiv> u\<lparr>kram := memset v 0 PGSIZE (kram u)\<rparr>"
  shows "space e G (G - {v}) v t" "touches G (kram s) (kram t)" "v \<in> G"
proof -
  have a: "kram u = kram s" "v \<in> G" "free_set e (G - {v}) u"
    using wp_run [OF pa.alloc [OF f] run] v by (auto split: if_splits)
  have al: "v mod PGSIZE = 0" using pa.good(1) [OF f a(2)] pa.good(2) by blast
  then have av: "unat v mod 4096 = 0" by (simp add: aligned_unat)
  have T: "touches {v} (kram s) (kram t)" unfolding t_def a(1) [symmetric] by (simp add: touches_zero)
  have z: "pde_of (kram t) v va = 0" for va unfolding pde_of_def t_def by (simp add: mget32_zeroed [OF av idx_less(1)])
  have none: "translate (kram t) v x = None" "\<not> present (kram t) v x" for x by (simp_all add: translate_def present_def z)
  have tb: "tables (kram t) v = {v}" using none(2) by (simp add: tables_def)
  have ok: "pgdir_ok (kram t) v" using av by (simp add: pgdir_ok_def z)
  have "free_set e (G - {v}) t"
    unfolding t_def
  proof (rule pa.frame [OF a(3)])
    fix p i assume p: "p \<in> G - {v}" "in_page p i"
    have "p mod PGSIZE = 0" using pa.good(1) [OF f] pa.good(2) p(1) by blast
    then show "memset v 0 PGSIZE (kram u) i = kram u i" using touches_other [OF T _ _ _ p(2)] al p(1) a(1) by (simp add: t_def)
  qed
  then show "space e G (G - {v}) v t" using ok tb none(1) a(2) v by (simp add: space_def vm_ok_def image_in_def)
  show "touches G (kram s) (kram t)" by (rule touches_mono [OF T]) (use a(2) in simp)
  show "v \<in> G" by (rule a(2))
qed

lemma unat_rounddown: "unat (PGROUNDDOWN x) = unat x - unat x mod 4096"
proof -
  have t: "unat (take_bit 12 x) = unat x mod 4096" by (simp add: take_bit_eq_mod unat_mod)
  have "PGROUNDDOWN x = x - take_bit 12 x" using PGROUNDDOWN_offset [of x] by (simp add: algebra_simps)
  then show ?thesis using unat_sub [of "take_bit 12 x" x] t by (simp add: word_le_nat_alt)
qed

lemma aligned_iff: "x mod PGSIZE = 0 \<longleftrightarrow> PGROUNDDOWN x = x" for x :: u32
proof -
  have "unat x mod 4096 = 0 \<longleftrightarrow> unat x - unat x mod 4096 = unat x" using mod_less_eq_dividend [of "unat x" 4096] by linarith
  then show ?thesis by (simp only: aligned_unat word_unat_eq_iff [of "PGROUNDDOWN x"] unat_rounddown)
qed

lemma rounddown_mono: "x \<le> y \<Longrightarrow> PGROUNDDOWN x \<le> PGROUNDDOWN y"
proof -
  assume "x \<le> y"
  then have "unat x div 4096 \<le> unat y div 4096" by (simp add: word_le_nat_alt div_le_mono)
  then show ?thesis by (simp add: word_le_nat_alt unat_rounddown minus_mod_eq_mult_div)
qed

lemma range_steps:
  fixes a l :: u32
  assumes "a \<le> l" and "k \<le> unat ((l - a) div PGSIZE)"
  shows "a \<le> a + of_nat k * PGSIZE"
proof -
  have l: "unat l < 2 ^ 32" by (rule order_less_le_trans [OF unsigned_less]) simp
  have "unat (l - a) = unat l - unat a" by (rule unat_sub [OF assms(1)])
  then have k: "k * 4096 \<le> unat l - unat a" using assms(2) by (simp add: PGSIZE_def unat_div)
  have u: "unat (of_nat k * PGSIZE :: u32) = k * 4096" using k l by (simp add: PGSIZE_def unat_word_ariths unat_of_nat)
  have "unat a + k * 4096 < 2 ^ 32" using k l assms(1) by (simp add: word_le_nat_alt)
  then have "unat (a + of_nat k * PGSIZE) = unat a + k * 4096" using u by (simp add: unat_word_ariths)
  then show ?thesis by (simp add: word_le_nat_alt)
qed

text \<open>The kernel's own data begins on a page behind its text and within the memory.\<close>

definition data_ok :: "u32 \<Rightarrow> bool" where
  "data_ok data \<longleftrightarrow> KERNLINK < data \<and> data < p2v PHYSTOP \<and> data mod PGSIZE = 0"

lemma kmap_entry:
  assumes "data_ok data" and "(virt, start, end, perm) \<in> set (kmap data)"
  shows "virt mod PGSIZE = 0" "KERNBASE \<le> virt" "virt \<le> virt + (end - start) - 1" "start mod PGSIZE = 0" "perm OR PTE_P < 8" "(perm OR PTE_P) AND PTE_U = 0"
proof -
  have d: "KERNLINK < data" "data < p2v PHYSTOP" "data mod PGSIZE = 0" using assms(1) by (simp_all add: data_ok_def)
  have c: "virt = KERNBASE \<and> start = 0 \<and> end = EXTMEM \<and> perm = PTE_W \<or> virt = KERNLINK \<and> start = v2p KERNLINK \<and> end = v2p data \<and> perm = 0
     \<or> virt = data \<and> start = v2p data \<and> end = PHYSTOP \<and> perm = PTE_W \<or> virt = DEVSPACE \<and> start = DEVSPACE \<and> end = 0 \<and> perm = PTE_W"
    using assms(2) by (auto simp: kmap_def)
  note defs = KERNBASE_def EXTMEM_def KERNLINK_def DEVSPACE_def PGSIZE_def PTE_W_def PTE_P_def PTE_U_def v2p_def p2v_def PHYSTOP_def
  have l: "KERNLINK \<le> data - 1" "data \<le> p2v PHYSTOP - 1" "KERNBASE \<le> data" using d(1,2) unfolding defs by unat_arith+
  have z: "KERNBASE mod PGSIZE = 0" "KERNLINK mod PGSIZE = 0" "DEVSPACE mod PGSIZE = 0" "(0 :: u32) mod PGSIZE = 0" "v2p KERNLINK mod PGSIZE = 0" by (simp_all add: defs)
  show "virt mod PGSIZE = 0" using c d(3) z by metis
  show "KERNBASE \<le> virt" using c l(3) by (auto simp: defs)
  show "start mod PGSIZE = 0" using c v2p_aligned(1) [OF d(3)] z by metis
  show "perm OR PTE_P < 8" "(perm OR PTE_P) AND PTE_U = 0" using c by (auto simp: defs)
  show "virt \<le> virt + (end - start) - 1" using c l by (auto simp: defs)
qed

lemma space_mappages_kernel:
  assumes run: "mappages pgdir virt (end - start) start perm s = Inr (r, t)" and sp: "space e G F pgdir s"
    and k: "data_ok data" "(virt, start, end, perm) \<in> set (kmap data)"
  shows "\<exists>F'. space e G F' pgdir t \<and> taking G F F' pgdir s t"
proof -
  note E = kmap_entry [OF k]
  have v: "PGROUNDDOWN virt = virt" using E(1) by (simp only: aligned_iff)
  have last: "virt \<le> PGROUNDDOWN (virt + (end - start) - 1)" using rounddown_mono [OF E(3)] v by simp
  have "fits (G - F - tables (kram s) pgdir) (virt + of_nat j * PGSIZE) ((start + of_nat j * PGSIZE) OR perm OR PTE_P)"
    if "j \<le> unat ((PGROUNDDOWN (virt + (end - start) - 1) - virt) div PGSIZE)" for j
  proof -
    have "KERNBASE \<le> virt + of_nat j * PGSIZE" using range_steps [OF last that] E(2) by (rule order_trans [rotated])
    moreover have "(start + of_nat j * PGSIZE) mod PGSIZE = 0"
      using E(4) rounddown_steps [of start j] by (simp only: aligned_iff)
    ultimately show ?thesis using or_flags(2) [OF _ E(5)] E(6) by (auto simp: fits_def)
  qed
  then show ?thesis using space_mappages_loop [OF _ sp] run v by (simp add: mappages_def)
qed

lemma space_setupkvm_loop:
  assumes "setupkvm_loop pgdir ks s = Inr (r, t)" and "space e G F pgdir s" and "data_ok data" and "set ks \<subseteq> set (kmap data)"
  shows "\<exists>F'. space e G F' pgdir t \<and> taking G F F' pgdir s t" and "r = 0 \<or> r = pgdir"
proof -
  have "(\<exists>F'. space e G F' pgdir t \<and> taking G F F' pgdir s t) \<and> (r = 0 \<or> r = pgdir)"
    using assms(1,2,4)
  proof (induction ks arbitrary: s F)
    case Nil
    then show ?case using taking_refl by (auto simp: ret_run)
  next
    case (Cons k ks)
    obtain virt start fin perm where k: "k = (virt, start, fin, perm)" by (cases k)
    obtain q u where q: "mappages pgdir virt (fin - start) start perm s = Inr (q, u)"
      and c: "q < 0 \<and> r = 0 \<and> t = u \<or> setupkvm_loop pgdir ks u = Inr (r, t)"
      using Cons.prems(1) k by (auto simp: ret_run elim!: andthen_InrE split: if_splits)
    obtain F' where F': "space e G F' pgdir u" "taking G F F' pgdir s u"
      using space_mappages_kernel [OF q Cons.prems(2) assms(3)] Cons.prems(3) k by auto
    show ?case using c
    proof
      assume "setupkvm_loop pgdir ks u = Inr (r, t)"
      then show ?thesis using Cons.IH [OF _ F'(1)] Cons.prems(3) taking_trans [OF F'(2)] by fastforce
    qed (use F' in blast)
  qed
  then show "\<exists>F'. space e G F' pgdir t \<and> taking G F F' pgdir s t" "r = 0 \<or> r = pgdir" by auto
qed

lemma setupkvm_space:
  assumes "setupkvm data s = Inr (pgdir, t)" and "free_set e G s" and "data_ok data"
  shows "touches G (kram s) (kram t)" and "pgdir \<noteq> 0 \<Longrightarrow> \<exists>F. space e G F pgdir t"
proof -
  have "touches G (kram s) (kram t) \<and> (pgdir \<noteq> 0 \<longrightarrow> (\<exists>F. space e G F pgdir t))"
  proof -
    obtain v u where v: "kalloc s = Inr (v, u)"
      and c: "v = 0 \<and> pgdir = 0 \<and> t = u \<or> v \<noteq> 0 \<and> setupkvm_loop v (kmap data) (u\<lparr>kram := memset v 0 PGSIZE (kram u)\<rparr>) = Inr (pgdir, t)"
      using assms(1) by (auto simp: setupkvm_def zero_page_def upd_run panic_if_run ret_run elim!: andthen_InrE split: if_splits simp del: setupkvm_loop.simps)
    show ?thesis using c
    proof (elim disjE conjE)
      assume z: "v = 0" "pgdir = 0" "t = u"
      have "kram u = kram s" using wp_run [OF pa.alloc [OF assms(2)] v] by simp
      then show ?thesis using z by simp
    next
      assume n: "v \<noteq> 0" and run: "setupkvm_loop v (kmap data) (u\<lparr>kram := memset v 0 PGSIZE (kram u)\<rparr>) = Inr (pgdir, t)"
      note N = fresh_space [OF assms(2) v n]
      from space_setupkvm_loop [OF run N(1) assms(3) order_refl] obtain F where F: "space e G F v t" "pgdir = 0 \<or> pgdir = v"
        "taking G (G - {v}) F v (u\<lparr>kram := memset v 0 PGSIZE (kram u)\<rparr>) t" by blast
      have "touches G (kram s) (kram t)" using touches_trans [OF N(2), of G "kram t" G] F(3) by (simp add: taking_def)
      then show ?thesis using F(1,2) by auto
    qed
  qed
  then show "touches G (kram s) (kram t)" "pgdir \<noteq> 0 \<Longrightarrow> \<exists>F. space e G F pgdir t" by auto
qed

section \<open>User pages\<close>

lemma last_page: "PGROUNDDOWN va = va \<Longrightarrow> PGROUNDDOWN (va + PGSIZE - 1) = va"
proof -
  assume va: "PGROUNDDOWN va = va"
  have m: "(PGSIZE - 1 :: u32) = mask 12" by (simp add: mask_eq_exp_minus_1 PGSIZE_def)
  have low: "\<not> bit va n" if "n < 12" for n
    using arg_cong [OF va, of "\<lambda>x. bit x n"] that by (auto simp: PGROUNDDOWN_def m bit_simps)
  have "va + PGSIZE - 1 = va + mask 12" using m by (simp add: algebra_simps)
  also have "\<dots> = va OR mask 12" by (rule disjunctive_add) (use low in \<open>auto simp: bit_simps\<close>)
  finally have "PGROUNDDOWN (va + PGSIZE - 1) = (va OR mask 12) AND NOT (mask 12)" by (simp add: PGROUNDDOWN_def m)
  also have "\<dots> = va AND NOT (mask 12)" by (rule bit_word_eqI) (auto simp: bit_simps)
  finally show ?thesis using va by (simp add: PGROUNDDOWN_def m)
qed

lemma roundup_aligned: "PGROUNDDOWN (PGROUNDUP x) = PGROUNDUP x"
  unfolding PGROUNDUP_def PGROUNDDOWN_def by (simp add: and.assoc)

lemma user_entry: "v mod PGSIZE = 0 \<Longrightarrow> p2v (PTE_ADDR (v2p v OR (PTE_W OR PTE_U) OR PTE_P)) = v"
  using or_flags(1) [of "v2p v" "(PTE_W OR PTE_U) OR PTE_P"] v2p_aligned [of v] by (simp add: PTE_W_def PTE_U_def PTE_P_def)

lemma space_mappages_user:
  assumes run: "mappages pgdir a PGSIZE (v2p v) (PTE_W OR PTE_U) s = Inr (r, t)" and sp: "space e G F pgdir s"
    and a: "PGROUNDDOWN a = a" and v: "v mod PGSIZE = 0" "v \<in> G - F - tables (kram s) pgdir" and k: "a < KERNBASE"
  shows "\<exists>F'. space e G F' pgdir t \<and> taking G F F' pgdir s t"
proof (rule space_mappages_loop [OF _ sp])
  show "mappages_loop 0 pgdir a (v2p v) (PTE_W OR PTE_U) s = Inr (r, t)" using run a last_page [OF a] by (simp add: mappages_def)
  show "\<forall>k \<le> 0. fits (G - F - tables (kram s) pgdir) (a + of_nat k * PGSIZE) ((v2p v + of_nat k * PGSIZE) OR (PTE_W OR PTE_U) OR PTE_P)"
    using v k user_entry [OF v(1)] by (simp add: fits_def)
qed

lemma space_allocuvm_loop:
  assumes "allocuvm_loop n pgdir a oldsz newsz s = Inr (r, t)" and "space e G F pgdir s" and "PGROUNDDOWN a = a" and "newsz < KERNBASE"
  shows "touches G (kram s) (kram t) \<and> ((\<exists>F'. space e G F' pgdir t) \<or> r = 0 \<and> image_in G (kram t) pgdir)"
  using assms(1-3)
proof (induction n arbitrary: a s F)
  case (Suc n a s F)
  show ?case
  proof (cases "a < newsz")
    case False
    then show ?thesis using Suc.prems by (auto simp: ret_run)
  next
    case True
    obtain v u where v: "kalloc s = Inr (v, u)"
      and c: "v = 0 \<and> r = 0 \<and> (\<exists>y. deallocuvm pgdir newsz oldsz u = Inr (y, t)) \<or> v \<noteq> 0 \<and> (\<exists>q w. mappages pgdir a PGSIZE (v2p v) (PTE_W OR PTE_U) (u\<lparr>kram := memset v 0 PGSIZE (kram u)\<rparr>) = Inr (q, w)
        \<and> allocuvm_loop n pgdir (a + PGSIZE) oldsz newsz w = Inr (r, t))"
      using Suc.prems(1) True by (auto simp: zero_page_def upd_run ret_run elim!: andthen_InrE split: if_splits)
    note K = space_kalloc [OF Suc.prems(2) v]
    show ?thesis using c
    proof (elim disjE conjE exE)
      fix y assume z: "v = 0" "r = 0" "deallocuvm pgdir newsz oldsz u = Inr (y, t)"
      have "image_in G (kram u) pgdir" using space_image [OF Suc.prems(2)] K(1) by simp
      then show ?thesis using deallocuvm_image [OF z(3), of G] assms(4) z(2) K(1) by simp
    next
      fix q w
      assume n: "v \<noteq> 0" and m: "mappages pgdir a PGSIZE (v2p v) (PTE_W OR PTE_U) (u\<lparr>kram := memset v 0 PGSIZE (kram u)\<rparr>) = Inr (q, w)"
        and t: "allocuvm_loop n pgdir (a + PGSIZE) oldsz newsz w = Inr (r, t)"
      have A: "v \<in> F" "v mod PGSIZE = 0" "v \<notin> tables (kram u) pgdir" "space e G (F - {v}) pgdir u" using K n by auto
      have vG: "v \<in> G - (F - {v})" using A(1) Suc.prems(2) by (auto simp: space_def)
      have z: "touches {v} (kram u) (memset v 0 PGSIZE (kram u))" by (simp add: touches_zero)
      note Z = space_fill [OF A(4) z A(2) vG A(3)]
      have vt: "v \<in> G - (F - {v}) - tables (kram (u\<lparr>kram := memset v 0 PGSIZE (kram u)\<rparr>)) pgdir" using vG A(1,3) Z(2) by (auto simp: taking_def)
      have k: "a < KERNBASE" using True assms(4) by simp
      obtain F' where F': "space e G F' pgdir w" "taking G (F - {v}) F' pgdir (u\<lparr>kram := memset v 0 PGSIZE (kram u)\<rparr>) w"
        using space_mappages_user [OF m Z(1) Suc.prems(3) A(2) vt k] by blast
      have "touches G (kram u) (kram w)" using taking_trans [OF Z(2) F'(2)] by (simp add: taking_def)
      then show ?thesis using Suc.IH [OF t F'(1) rounddown_step [OF Suc.prems(3)]] touches_trans [of G "kram u" "kram w" G "kram t" G] K(1) by auto
    qed
  qed
qed (simp add: stop_run)

lemma allocuvm_space:
  assumes "allocuvm pgdir oldsz newsz s = Inr (r, t)" and "space e G F pgdir s"
  shows "touches G (kram s) (kram t)" and "(\<exists>F'. space e G F' pgdir t) \<or> r = 0 \<and> image_in G (kram t) pgdir"
proof -
  have "touches G (kram s) (kram t) \<and> ((\<exists>F'. space e G F' pgdir t) \<or> r = 0 \<and> image_in G (kram t) pgdir)"
  proof (cases "KERNBASE \<le> newsz \<or> newsz < oldsz")
    case True
    then have "t = s" using assms(1) by (auto simp: allocuvm_def ret_run split: if_splits)
    then show ?thesis using assms(2) by auto
  next
    case False
    then have "newsz < KERNBASE" and "allocuvm_loop (Suc (2 ^ 20)) pgdir (PGROUNDUP oldsz) oldsz newsz s = Inr (r, t)"
      using assms(1) by (auto simp: allocuvm_def simp del: allocuvm_loop.simps)
    then show ?thesis using space_allocuvm_loop [OF _ assms(2) roundup_aligned] by blast
  qed
  then show "touches G (kram s) (kram t)" "(\<exists>F'. space e G F' pgdir t) \<or> r = 0 \<and> image_in G (kram t) pgdir" by auto
qed

lemma clear_user: "PTE_ADDR (e AND NOT PTE_U) = PTE_ADDR e" "(e AND NOT PTE_U) AND PTE_U = 0" "(e AND NOT PTE_U) AND PTE_P = e AND PTE_P"
proof -
  have u: "PTE_U = push_bit 2 1" and p: "PTE_P = push_bit 0 1" by (simp_all add: PTE_U_def PTE_P_def)
  have b: "bit PTE_U n \<longleftrightarrow> n = 2" "bit PTE_P n \<longleftrightarrow> n = 0" for n unfolding u p bit_push_bit_iff bit_1_iff by auto
  have m: "(0xFFF :: u32) = mask 12" by (simp add: mask_eq_exp_minus_1)
  show "PTE_ADDR (e AND NOT PTE_U) = PTE_ADDR e"
    unfolding PTE_ADDR_def m by (rule bit_word_eqI) (auto simp: bit_and_iff bit_not_iff b bit_mask_iff)
  show "(e AND NOT PTE_U) AND PTE_U = 0" by (rule bit_word_eqI) (auto simp: bit_and_iff bit_not_iff b)
  show "(e AND NOT PTE_U) AND PTE_P = e AND PTE_P" by (rule bit_word_eqI) (auto simp: bit_and_iff bit_not_iff b)
qed

lemma clearpteu_space:
  assumes run: "clearpteu pgdir va s = Inr (x, t)" and sp: "space e G F pgdir s"
  shows "space e G F pgdir t" "taking G F F pgdir s t"
proof -
  let ?e = "mget32 (kram s) (pte_at (kram s) pgdir va)"
  have p: "present (kram s) pgdir va" and t: "t = s\<lparr>kram := mput32 (kram s) (pte_at (kram s) pgdir va) (?e AND NOT PTE_U)\<rparr>"
    using run walkpgdir_present [of s pgdir va False] walkpgdir_absent [of s pgdir va]
    by (cases "present (kram s) pgdir va"; auto simp: clearpteu_def panic_if_run peek_def poke_def gets_run upd_run elim!: andthen_InrE)+
  have "fits (G - F - tables (kram s) pgdir) va (?e AND NOT PTE_U)" if "(?e AND NOT PTE_U) AND PTE_P \<noteq> 0"
  proof -
    have "translate (kram s) pgdir va = Some ?e" using that p by (simp add: clear_user(3) translate_def present_def Let_def)
    then show ?thesis using sp clear_user(1,2) by (auto simp: fits_def space_def image_in_def)
  qed
  then show "space e G F pgdir t" "taking G F F pgdir s t" using space_set_pte [OF sp p, of "?e AND NOT PTE_U"] by (simp_all add: t)
qed

text \<open>Writing to a user page.\<close>

lemma user_page:
  assumes "space e G F pgdir s" and "translate (kram s) pgdir x = Some w" and "w AND PTE_U \<noteq> 0"
  shows "p2v (PTE_ADDR w) \<in> G - F" "p2v (PTE_ADDR w) \<notin> tables (kram s) pgdir"
proof -
  have "x < KERNBASE" using assms unfolding space_def by (metis not_less)
  then show "p2v (PTE_ADDR w) \<in> G - F" "p2v (PTE_ADDR w) \<notin> tables (kram s) pgdir"
    using assms(1,2) unfolding space_def image_in_def by blast+
qed

lemma write_in_page: "unat (i - (p + d)) < n \<Longrightarrow> unat d + n \<le> 4096 \<Longrightarrow> in_page p i" for i p d :: u32
proof -
  assume a: "unat (i - (p + d)) < n" "unat d + n \<le> 4096"
  have "i - p = (i - (p + d)) + d" by simp
  then have "unat (i - p) \<le> unat (i - (p + d)) + unat d" by (simp only: unat_word_ariths) simp
  then show ?thesis using a by (simp add: in_page_def PGSIZE_def)
qed

lemma uva2ka_run:
  assumes "uva2ka pgdir va s = Inr (r, t)"
  shows "t = s" "r \<noteq> 0 \<Longrightarrow> \<exists>w. translate (kram s) pgdir va = Some w \<and> w AND PTE_U \<noteq> 0 \<and> r = p2v (PTE_ADDR w)"
proof -
  have "t = s \<and> (r \<noteq> 0 \<longrightarrow> (\<exists>w. translate (kram s) pgdir va = Some w \<and> w AND PTE_U \<noteq> 0 \<and> r = p2v (PTE_ADDR w)))"
  proof (cases "present (kram s) pgdir va")
    case True
    then show ?thesis using assms walkpgdir_present [OF True, of False]
      by (auto simp: uva2ka_def peek_def gets_run ret_run stop_run translate_def present_def Let_def elim!: andthen_InrE split: if_splits)
  next
    case False
    then show ?thesis using assms walkpgdir_absent [OF False] by (auto simp: uva2ka_def stop_run elim!: andthen_InrE)
  qed
  then show "t = s" "r \<noteq> 0 \<Longrightarrow> \<exists>w. translate (kram s) pgdir va = Some w \<and> w AND PTE_U \<noteq> 0 \<and> r = p2v (PTE_ADDR w)" by auto
qed

lemma copyout_space:
  assumes "copyout pgdir va buf len s = Inr (r, t)" and "space e G F pgdir s"
  shows "space e G F pgdir t \<and> taking G F F pgdir s t"
  using assms
proof (induction len arbitrary: va buf s rule: less_induct)
  case (less len)
  show ?case
  proof (cases "len = 0")
    case True
    then show ?thesis using less.prems by (simp add: copyout.simps [of _ _ _ 0] ret_run)
  next
    case False
    let ?va = "PGROUNDDOWN va" let ?n = "out_chunk va len"
    let ?w = "\<lambda>pa s. s\<lparr>kram := (\<lambda>a. if unat (a - (pa + (va - ?va))) < ?n then buf (unat (a - (pa + (va - ?va)))) else kram s a)\<rparr>"
    obtain pa u where pa: "uva2ka pgdir ?va s = Inr (pa, u)"
      and c: "pa = 0 \<and> t = u \<or> pa \<noteq> 0 \<and> copyout pgdir (?va + PGSIZE) (\<lambda>j. buf (?n + j)) (len - ?n) (?w pa u) = Inr (r, t)"
      using less.prems(1) False by (subst (asm) copyout.simps) (auto simp: Let_def ret_run upd_run elim!: andthen_InrE split: if_splits)
    have us: "u = s" by (rule uva2ka_run(1) [OF pa])
    show ?thesis
    proof (cases "pa = 0")
      case True
      then show ?thesis using c us less.prems(2) by simp
    next
      case nz: False
      obtain w where w: "translate (kram s) pgdir ?va = Some w" "w AND PTE_U \<noteq> 0" "pa = p2v (PTE_ADDR w)"
        using uva2ka_run(2) [OF pa nz] by blast
      note U = user_page [OF less.prems(2) w(1,2), folded w(3)]
      have "unat (PGSIZE - (va - ?va)) = unat PGSIZE - unat (va - ?va)"
        using page_offset_less [of va] by (intro unat_sub) (simp add: word_le_nat_alt)
      then have "unat (va - ?va) + ?n \<le> 4096" using page_offset_less [of va] by (simp add: out_chunk_def PGSIZE_def)
      then have T: "touches {pa} (kram s) (kram (?w pa s))"
        by (intro touches_page [of pa]) (use write_in_page in auto)
      have al: "pa mod PGSIZE = 0" unfolding w(3) by (rule user_page_aligned)
      note S = space_fill [OF less.prems(2) T al U]
      have "len - ?n < len" using out_chunk_pos [OF False, of va] False by simp
      moreover have "copyout pgdir (?va + PGSIZE) (\<lambda>j. buf (?n + j)) (len - ?n) (?w pa s) = Inr (r, t)" using c nz unfolding us by simp
      ultimately have "space e G F pgdir t \<and> taking G F F pgdir (?w pa s) t" using less.IH S(1) by simp
      then show ?thesis using taking_trans [OF S(2)] by simp
    qed
  qed
qed


end
