(* ===== verification/Exec.thy ===== *)
theory Exec
  imports Proc Space
begin

text \<open>
  Program loading: \<^verbatim>\<open>exec.c\<close>, \<^verbatim>\<open>loaduvm\<close> of \<^verbatim>\<open>vm.c\<close> and \<^verbatim>\<open>sys_exec\<close> of \<^verbatim>\<open>sysfile.c\<close>. The new image is built in a page directory of its
  own and replaces the old one only when it is complete. A \<^verbatim>\<open>goto bad\<close> is the value \<open>None\<close> of the part that fails.
\<close>

section \<open>The file format\<close>

definition ELF_MAGIC :: u32 where "ELF_MAGIC = 0x464C457F"
definition ELF_PROG_LOAD :: u32 where "ELF_PROG_LOAD = 1"
definition MAXARG :: nat where "MAXARG = 32"

record elfhdr =
  e_magic :: u32
  e_entry :: u32
  e_phoff :: u32
  e_phnum :: u16

definition elfhdr_size :: u32 where "elfhdr_size = 52"

definition elfhdr_of :: "u8 list \<Rightarrow> elfhdr" where
  "elfhdr_of bs = \<lparr>e_magic = get32 (nth bs) 0, e_entry = get32 (nth bs) 24, e_phoff = get32 (nth bs) 28, e_phnum = get16 (nth bs) 44\<rparr>"

record proghdr =
  ph_type :: u32
  ph_off :: u32
  ph_vaddr :: u32
  ph_filesz :: u32
  ph_memsz :: u32

definition proghdr_size :: u32 where "proghdr_size = 32"

definition proghdr_of :: "u8 list \<Rightarrow> proghdr" where
  "proghdr_of bs = \<lparr>ph_type = get32 (nth bs) 0, ph_off = get32 (nth bs) 4, ph_vaddr = get32 (nth bs) 8,
     ph_filesz = get32 (nth bs) 16, ph_memsz = get32 (nth bs) 20\<rparr>"

section \<open>Loading segments\<close>

definition put_list :: "u32 \<Rightarrow> u8 list \<Rightarrow> mem \<Rightarrow> mem" where
  "put_list a bs m = (\<lambda>x. if unat (x - a) < length bs then bs ! unat (x - a) else m x)"

text \<open>
  The loop counter is a 32-bit number; the fuel is the number of pages there are, after which the counter has wrapped around. The code does not look at the
  flags of the entry: where it is not that of a user page, the bytes of the file go to memory that does not belong to the image, which is an undefined access.
\<close>

fun loaduvm_loop :: "nat \<Rightarrow> u32 \<Rightarrow> u32 \<Rightarrow> nat \<Rightarrow> u32 \<Rightarrow> u32 \<Rightarrow> u32 \<Rightarrow> (kern, int) kop" where
  "loaduvm_loop 0 pgdir addr ip off sz i = stop (Undef ''loaduvm'')"
| "loaduvm_loop (Suc k) pgdir addr ip off sz i =
     (if i \<ge> sz then ret 0
      else
        andthen (kk (walkpgdir pgdir (addr + i) False)) (\<lambda>pte.
        andthen (panic_if (pte = 0) ''loaduvm: address should exist'') (\<lambda>_.
        andthen (kk (peek pte)) (\<lambda>e.
        if e AND PTE_P = 0 \<or> e AND PTE_U = 0 then stop (Undef ''loaduvm'')
        else
        let n = (if sz - i < PGSIZE then sz - i else PGSIZE) in
        andthen (kf (readi ip (off + i) n)) (\<lambda>(r, bs).
        andthen (set_ram (put_list (p2v (PTE_ADDR e)) bs)) (\<lambda>_.
        if of_int r \<noteq> n then ret (-1)
        else loaduvm_loop k pgdir addr ip off sz (i + PGSIZE)))))))"

definition loaduvm :: "u32 \<Rightarrow> u32 \<Rightarrow> nat \<Rightarrow> u32 \<Rightarrow> u32 \<Rightarrow> (kern, int) kop" where
  "loaduvm pgdir addr ip off sz =
     andthen (panic_if (unat addr mod unat PGSIZE \<noteq> 0) ''loaduvm: addr must be page aligned'') (\<lambda>_.
     loaduvm_loop (Suc (2 ^ 20)) pgdir addr ip off sz 0)"

text \<open>The loop over the program headers, with the number of headers left and the size so far.\<close>

fun load_segments :: "nat \<Rightarrow> u32 \<Rightarrow> nat \<Rightarrow> u32 \<Rightarrow> u32 \<Rightarrow> (kern, u32 option) kop" where
  "load_segments 0 pgdir ip off sz = ret (Some sz)"
| "load_segments (Suc n) pgdir ip off sz =
     andthen (kf (readi ip off proghdr_size)) (\<lambda>(r, bs).
     if of_int r \<noteq> proghdr_size then ret None
     else
       let ph = proghdr_of bs in
       if ph_type ph \<noteq> ELF_PROG_LOAD then load_segments n pgdir ip (off + proghdr_size) sz
       else if ph_memsz ph < ph_filesz ph then ret None
       else
         andthen (kk (allocuvm pgdir sz (ph_vaddr ph + ph_memsz ph))) (\<lambda>sz.
         if sz = 0 then ret None
         else
           andthen (loaduvm pgdir (ph_vaddr ph) ip (ph_off ph) (ph_filesz ph)) (\<lambda>r.
           if r < 0 then ret None
           else load_segments n pgdir ip (off + proghdr_size) sz)))"

section \<open>The stack\<close>

fun push_args :: "u32 \<Rightarrow> u32 \<Rightarrow> u32 list \<Rightarrow> u8 list list \<Rightarrow> (kern, (u32 \<times> u32 list) option) kop" where
  "push_args pgdir sp ptrs [] = ret (Some (sp, ptrs))"
| "push_args pgdir sp ptrs (a # argv) =
     (if length ptrs \<ge> MAXARG then ret None
      else
        let sp = (sp - of_nat (length a + 1)) AND NOT 3 in
        andthen (kk (copyout pgdir sp (nth (a @ [0])) (length a + 1))) (\<lambda>r.
        if r < 0 then ret None else push_args pgdir sp (ptrs @ [sp]) argv))"

text \<open>The words of \<^verbatim>\<open>ustack\<close>: return address, \<^verbatim>\<open>argc\<close>, \<^verbatim>\<open>argv\<close>, and the array \<^verbatim>\<open>argv\<close> points to.\<close>

definition ustack :: "u32 \<Rightarrow> u32 list \<Rightarrow> u32 list" where
  "ustack sp ptrs = [0xFFFFFFFF, of_nat (length ptrs), sp - (of_nat (length ptrs) + 1) * 4] @ ptrs @ [0]"

definition words_bytes :: "u32 list \<Rightarrow> bytes" where
  "words_bytes ws j = byte_of (ws ! (j div 4)) (j mod 4)"

definition exec_stack :: "u32 \<Rightarrow> u32 \<Rightarrow> u8 list list \<Rightarrow> (kern, u32 option) kop" where
  "exec_stack pgdir sp argv =
     andthen (push_args pgdir sp [] argv) (\<lambda>a.
     case a of
       None \<Rightarrow> ret None
     | Some (sp, ptrs) \<Rightarrow>
         let us = ustack sp ptrs; sp = sp - of_nat (length us) * 4 in
         andthen (kk (copyout pgdir sp (words_bytes us) (length us * 4))) (\<lambda>r.
         ret (if r < 0 then None else Some sp)))"

text \<open>The loop that finds the last element of the path.\<close>

fun last_elem :: "u8 list \<Rightarrow> u8 list \<Rightarrow> u8 list" where
  "last_elem l [] = l"
| "last_elem l (c # cs) = last_elem (if c = slash then cs else l) cs"

section \<open>exec\<close>

definition exec_bad :: "u32 \<Rightarrow> nat option \<Rightarrow> (kern, int) kop" where
  "exec_bad pgdir ip =
     andthen (if pgdir \<noteq> 0 then kk (freevm pgdir) else ret ()) (\<lambda>_.
     andthen (case ip of
         None \<Rightarrow> ret ()
       | Some ip \<Rightarrow> andthen (kf (iunlockput ip)) (\<lambda>_. kf (fl end_op))) (\<lambda>_.
     ret (-1)))"

definition exec_commit :: "u8 list \<Rightarrow> u32 \<Rightarrow> u32 \<Rightarrow> u32 \<Rightarrow> u32 \<Rightarrow> (kern, int) kop" where
  "exec_commit path pgdir sz eip sp =
     andthen (gets cur) (\<lambda>c.
     andthen (setp c (\<lambda>x. x\<lparr>p_name := take 15 (last_elem path path)\<rparr>)) (\<lambda>_.
     andthen getcur (\<lambda>x.
     andthen (setp c (\<lambda>x. x\<lparr>p_pgdir := pgdir, p_sz := sz\<rparr>)) (\<lambda>_.
     andthen (set_ram (\<lambda>m. mput32 (mput32 m (p_tf x + tf_eip) eip) (p_tf x + tf_esp) sp)) (\<lambda>_.
     andthen (panic_if (pgdir = 0) ''switchuvm: no pgdir'') (\<lambda>_.
     andthen (kk (freevm (p_pgdir x))) (\<lambda>_.
     ret 0)))))))"

text \<open>After the file is closed: the guard page, the stack with the arguments, and the new image.\<close>

definition exec_image :: "u8 list \<Rightarrow> u8 list list \<Rightarrow> u32 \<Rightarrow> u32 \<Rightarrow> u32 \<Rightarrow> (kern, int) kop" where
  "exec_image path argv eip pgdir sz =
     (let sz = PGROUNDUP sz in
      andthen (kk (allocuvm pgdir sz (sz + 2 * PGSIZE))) (\<lambda>sz.
      if sz = 0 then exec_bad pgdir None
      else
        andthen (kk (clearpteu pgdir (sz - 2 * PGSIZE))) (\<lambda>_.
        andthen (exec_stack pgdir sz argv) (\<lambda>r.
        case r of
          None \<Rightarrow> exec_bad pgdir None
        | Some sp \<Rightarrow> exec_commit path pgdir sz eip sp))))"

text \<open>From the header of the file on: the new directory, the segments, and the end of the transaction that read them.\<close>

definition exec_load :: "u8 list \<Rightarrow> u8 list list \<Rightarrow> nat \<Rightarrow> elfhdr \<Rightarrow> (kern, int) kop" where
  "exec_load path argv ip elf =
     andthen (gets k_data) (\<lambda>data.
     andthen (kk (setupkvm data)) (\<lambda>pgdir.
     if pgdir = 0 then exec_bad 0 (Some ip)
     else
       andthen (load_segments (unat (e_phnum elf)) pgdir ip (e_phoff elf) 0) (\<lambda>r.
       case r of
         None \<Rightarrow> exec_bad pgdir (Some ip)
       | Some sz \<Rightarrow>
           andthen (kf (iunlockput ip)) (\<lambda>_.
           andthen (kf (fl end_op)) (\<lambda>_.
           exec_image path argv (e_entry elf) pgdir sz)))))"

text \<open>
  The result of the first \<^verbatim>\<open>readi\<close> is compared as an unsigned number, so that an error passes the test; the header is then
  not initialised.
\<close>

definition exec :: "u8 list \<Rightarrow> u8 list list \<Rightarrow> (kern, int) kop" where
  "exec path argv =
     andthen (kf (fl begin_op)) (\<lambda>_.
     andthen (kf (namei path)) (\<lambda>r.
     case r of
       None \<Rightarrow> andthen (kf (fl end_op)) (\<lambda>_. ret (-1))
     | Some ip \<Rightarrow>
         andthen (kf (ilock ip)) (\<lambda>_.
         andthen (kf (readi ip 0 elfhdr_size)) (\<lambda>(n, bs).
         if of_int n < elfhdr_size then exec_bad 0 (Some ip)
         else if n < 0 then stop (Undef ''elf'')
         else if e_magic (elfhdr_of bs) \<noteq> ELF_MAGIC then exec_bad 0 (Some ip)
         else exec_load path argv ip (elfhdr_of bs)))))"

section \<open>The system call\<close>

fun fetch_argv :: "nat \<Rightarrow> u32 \<Rightarrow> nat \<Rightarrow> sys \<Rightarrow> u8 list list option" where
  "fetch_argv 0 uargv i s = None"
| "fetch_argv (Suc k) uargv i s =
     (case fetchint (uargv + 4 * of_nat i) s of
        None \<Rightarrow> None
      | Some uarg \<Rightarrow>
          if uarg = 0 then Some []
          else
            case fetchstr uarg s of
              None \<Rightarrow> None
            | Some a \<Rightarrow> map_option (\<lambda>as. a # as) (fetch_argv k uargv (Suc i) s))"

definition sys_exec :: "(kern, int) kop" where
  "sys_exec =
     andthen (gets psys) (\<lambda>s.
     case (argstr 0 s, argint 1 s) of
       (Some path, Some uargv) \<Rightarrow>
         (case fetch_argv MAXARG uargv 0 s of
            None \<Rightarrow> ret (-1)
          | Some argv \<Rightarrow> exec path argv)
     | _ \<Rightarrow> ret (-1))"

section \<open>What is replaced, and what stays\<close>

lemma loaduvm_loop_frame: "loaduvm_loop k pgdir addr ip off sz i s = Inr (r, t) \<Longrightarrow> procs t = procs s \<and> cur t = cur s"
proof (induction k arbitrary: i s)
  case (Suc k)
  then show ?case
    by (auto simp: Let_def set_ram_def elim!: andthen_InrE split: if_splits dest!: k_frame)
qed simp

lemma load_segments_frame: "load_segments n pgdir ip off sz s = Inr (r, t) \<Longrightarrow> procs t = procs s \<and> cur t = cur s"
proof (induction n arbitrary: off sz s)
  case (Suc n)
  then show ?case
    by (auto simp: Let_def loaduvm_def elim!: andthen_InrE split: if_splits dest!: k_frame loaduvm_loop_frame)
qed simp

lemma push_args_frame: "push_args pgdir sp ptrs argv s = Inr (r, t) \<Longrightarrow> procs t = procs s \<and> cur t = cur s"
proof (induction argv arbitrary: sp ptrs s)
  case (Cons a argv)
  then show ?case
    by (auto simp: Let_def elim!: andthen_InrE split: if_splits dest!: k_frame)
qed simp

lemma exec_stack_frame: "exec_stack pgdir sp argv s = Inr (r, t) \<Longrightarrow> procs t = procs s \<and> cur t = cur s"
  by (auto simp: exec_stack_def Let_def elim!: andthen_InrE split: if_splits option.splits dest!: k_frame push_args_frame)

lemma exec_bad_frame: "exec_bad pgdir ip s = Inr (r, t) \<Longrightarrow> r = -1 \<and> procs t = procs s \<and> cur t = cur s"
  by (auto simp: exec_bad_def elim!: andthen_InrE split: if_splits option.splits dest!: k_frame)

text \<open>What a successful \<^verbatim>\<open>exec\<close> changes in the process.\<close>

definition execed :: "u8 list \<Rightarrow> proc \<Rightarrow> proc \<Rightarrow> bool" where
  "execed path x y \<longleftrightarrow> p_pgdir y \<noteq> 0 \<and> y = x\<lparr>p_name := take 15 (last_elem path path), p_pgdir := p_pgdir y, p_sz := p_sz y\<rparr>"

lemma exec_commit_run:
  "exec_commit path pgdir sz eip sp s = Inr (r, t) \<Longrightarrow>
     r = 0 \<and> cur t = cur s \<and> only (cur s) s t \<and> execed path (procs s (cur s)) (procs t (cur s))"
  by (auto simp: exec_commit_def run_simps set_ram_def only_def execed_def elim!: andthen_InrE dest!: k_frame)

lemma exec_image_run:
  assumes "exec_image path argv eip pgdir sz s = Inr (r, t)"
  shows "cur t = cur s \<and> (r = -1 \<and> procs t = procs s \<or> r = 0 \<and> only (cur s) s t \<and> execed path (procs s (cur s)) (procs t (cur s)))"
  using assms
  by (auto simp: exec_image_def Let_def only_def elim!: andthen_InrE split: if_splits option.splits
      dest!: k_frame exec_stack_frame exec_bad_frame exec_commit_run)

section \<open>Memory\<close>

text \<open>The memory of the machine, and what the operations on components leave of it.\<close>

abbreviation ram_of :: "kern \<Rightarrow> mem" where
  "ram_of s \<equiv> kram (kpages (psys s))"

lemma kk_run: "kk f s = Inr (r, t) \<Longrightarrow> f (kpages (psys s)) = Inr (r, kpages (psys t))"
  by (auto simp: kk_def ks_def sk_def zoom_def split: sum.splits prod.splits)

lemma kf_run:
  assumes "kf f s = Inr (r, t)"
  shows "kpages (psys t) = kpages (psys s)" "k_data t = k_data s" "\<exists>x. f (sfs (psys s)) = Inr (r, x)"
  using assms by (auto simp: kf_def ks_def sf_def zoom_def split: sum.splits prod.splits)

lemma set_ram_kpages: "set_ram f s = Inr (x, t) \<Longrightarrow> kpages (psys t) = (kpages (psys s))\<lparr>kram := f (ram_of s)\<rparr>"
  by (auto simp: set_ram_def upd_run dest!: kk_run)

lemma readi_loop_length: "readi_loop ip off left s = Inr (bs, t) \<Longrightarrow> length bs = left"
proof (induction left arbitrary: off s bs t rule: less_induct)
  case (less left)
  show ?case
  proof (cases "left = 0")
    case False
    then obtain xs rest u v where r: "readi_loop ip (off + chunk off left) (left - chunk off left) u = Inr (rest, v)"
      and bs: "bs = xs @ rest" "length xs = chunk off left"
      using less.prems [unfolded readi_loop.simps [of ip off left]] by (auto elim!: andthen_InrE)
    have "left - chunk off left < left" using chunk_bounds(1) [OF False, of off] False by simp
    then show ?thesis using less.IH [OF _ r] bs chunk_bounds(2) [of off left] by simp
  qed (use less.prems in \<open>simp add: readi_loop.simps [of _ _ 0]\<close>)
qed

lemma consoleread_loop_length: "consoleread_loop killed got n s = Inr (Some bs, t) \<Longrightarrow> length bs \<le> n"
proof (induction n arbitrary: got s bs t)
  case (Suc n)
  then show ?case by (auto simp: map_option_case elim!: andthen_InrE split: if_splits option.splits dest!: Suc.IH)
qed simp

lemma dev_read_length:
  assumes "dev_read ip n s = Inr ((r, bs), t)"
  shows "length bs \<le> unat n"
proof -
  obtain killed and v w :: fs where "zoom fcons (\<lambda>c s. s\<lparr>fcons := c\<rparr>) (consoleread killed (sint n)) v = Inr ((r, bs), w)"
    using assms by (auto simp: dev_read_def elim!: andthen_InrE)
  then obtain c where "consoleread killed (sint n) (fcons v) = Inr ((r, bs), c)" by (auto simp: zoom_def split: sum.splits prod.splits)
  then have "length bs \<le> nat (sint n)"
    by (auto simp: consoleread_def elim!: andthen_InrE split: option.splits dest!: consoleread_loop_length)
  moreover have "sint n \<le> uint n" unfolding sint_uint signed_take_bit_int_less_eq_self_iff by (rule order_trans [OF _ uint_ge_0]) simp
  then have "nat (sint n) \<le> unat n" using nat_mono [of "sint n" "uint n"] by simp
  ultimately show ?thesis by simp
qed

lemma readi_length:
  assumes "readi ip off n s = Inr ((r, bs), t)"
  shows "length bs \<le> unat n"
proof -
  have "unat (z - off) \<le> unat n" if z: "off \<le> z" "z < off + n" for z
  proof -
    have "unat (off + n) \<le> unat off + unat n" by (simp only: unat_word_ariths) simp
    then show ?thesis using z unat_sub [OF z(1)] by (simp add: word_less_nat_alt)
  qed
  then show ?thesis
    using assms by (auto simp: readi_def geti_def Let_def not_less elim!: andthen_InrE split: if_splits dest!: readi_loop_length intro: dev_read_length)
qed

section \<open>The new image\<close>

lemma put_list_touches: "length bs \<le> 4096 \<Longrightarrow> touches {p} m (put_list p bs m)"
  by (rule touches_page [of p]) (auto simp: put_list_def in_page_def PGSIZE_def)

lemma kk_walk:
  assumes "kk (walkpgdir pgdir va False) s = Inr (pte, t)"
  shows "kpages (psys t) = kpages (psys s)" "pte \<noteq> 0 \<Longrightarrow> present (ram_of s) pgdir va \<and> pte = pte_at (ram_of s) pgdir va"
proof -
  have "kpages (psys t) = kpages (psys s) \<and> (pte \<noteq> 0 \<longrightarrow> present (ram_of s) pgdir va \<and> pte = pte_at (ram_of s) pgdir va)"
    using kk_run [OF assms] walkpgdir_present [of "kpages (psys s)" pgdir va False] walkpgdir_absent [of "kpages (psys s)" pgdir va]
    by (cases "present (ram_of s) pgdir va") auto
  then show "kpages (psys t) = kpages (psys s)" "pte \<noteq> 0 \<Longrightarrow> present (ram_of s) pgdir va \<and> pte = pte_at (ram_of s) pgdir va" by auto
qed

lemma kk_peek: "kk (peek a) s = Inr (w, t) \<Longrightarrow> kpages (psys t) = kpages (psys s) \<and> w = mget32 (ram_of s) a"
  by (auto simp: peek_def dest!: kk_run)

lemma loaduvm_loop_space:
  assumes "loaduvm_loop k pgdir addr ip off sz i s = Inr (r, t)" and "space e G F pgdir (kpages (psys s))"
  shows "space e G F pgdir (kpages (psys t)) \<and> touches G (ram_of s) (ram_of t)"
  using assms
proof (induction k arbitrary: i s)
  case (Suc k)
  show ?case
  proof (cases "i \<ge> sz")
    case True
    then show ?thesis using Suc.prems by simp
  next
    case False
    let ?n = "if sz - i < PGSIZE then sz - i else PGSIZE"
    obtain pte w q bs u u1 v z where wk: "kk (walkpgdir pgdir (addr + i) False) s = Inr (pte, u)" and nz: "pte \<noteq> 0"
      and pk: "kk (peek pte) u = Inr (w, u1)" and fl: "w AND PTE_P \<noteq> 0" "w AND PTE_U \<noteq> 0"
      and rd: "kf (readi ip (off + i) ?n) u1 = Inr ((q, bs), v)"
      and wr: "set_ram (put_list (p2v (PTE_ADDR w)) bs) v = Inr ((), z)"
      and c: "t = z \<or> loaduvm_loop k pgdir addr ip off sz (i + PGSIZE) z = Inr (r, t)"
      using Suc.prems(1) False unfolding loaduvm_loop.simps Let_def
      by (auto elim!: andthen_InrE split: if_splits)
    have p: "present (ram_of s) pgdir (addr + i)" "w = mget32 (ram_of s) (pte_at (ram_of s) pgdir (addr + i))"
      using kk_walk [OF wk] nz kk_peek [OF pk] by auto
    have k: "kpages (psys v) = kpages (psys s)" using kk_walk(1) [OF wk] kk_peek [OF pk] kf_run(1) [OF rd] by simp
    have "translate (ram_of s) pgdir (addr + i) = Some w" using p fl(1) by (simp add: translate_def present_def Let_def)
    note U = user_page [OF Suc.prems(2) this fl(2)]
    have "length bs \<le> 4096" using kf_run(3) [OF rd] readi_length [of ip "off + i" ?n _ q bs] by (fastforce simp: PGSIZE_def word_less_nat_alt split: if_splits)
    then have T: "touches {p2v (PTE_ADDR w)} (ram_of s) (put_list (p2v (PTE_ADDR w)) bs (ram_of s))" by (rule put_list_touches)
    note S = space_fill [OF Suc.prems(2) T user_page_aligned U]
    have z: "kpages (psys z) = (kpages (psys s))\<lparr>kram := put_list (p2v (PTE_ADDR w)) bs (ram_of s)\<rparr>" using set_ram_kpages [OF wr] k by simp
    have a: "space e G F pgdir (kpages (psys z))" "touches G (ram_of s) (ram_of z)" using S by (simp_all add: z taking_def)
    show ?thesis using c
    proof
      assume "loaduvm_loop k pgdir addr ip off sz (i + PGSIZE) z = Inr (r, t)"
      then show ?thesis using Suc.IH [OF _ a(1)] touches_trans [OF a(2), of G "ram_of t" G] by blast
    qed (use a in simp)
  qed
qed simp

text \<open>What a part of \<^verbatim>\<open>exec\<close> leaves: the new directory can still grow, or the part has failed and the directory is ready to be freed.\<close>

definition building :: "u32 \<Rightarrow> u32 set \<Rightarrow> u32 \<Rightarrow> bool \<Rightarrow> kern \<Rightarrow> kern \<Rightarrow> bool" where
  "building e G pgdir failed s t \<longleftrightarrow> touches G (ram_of s) (ram_of t)
     \<and> ((\<exists>F. space e G F pgdir (kpages (psys t))) \<or> failed \<and> image_in G (ram_of t) pgdir)"

lemma building_image: "building e G pgdir failed s t \<Longrightarrow> touches G (ram_of s) (ram_of t) \<and> image_in G (ram_of t) pgdir"
  unfolding building_def using space_image by blast

lemma building_trans: "touches G (ram_of s) (ram_of t) \<Longrightarrow> building e G pgdir failed t u \<Longrightarrow> building e G pgdir failed s u"
  unfolding building_def using touches_trans [of G "ram_of s" "ram_of t" G "ram_of u" G] by blast

lemma building_kf: "kf f s = Inr (r, t) \<Longrightarrow> space e G F pgdir (kpages (psys s)) \<Longrightarrow> building e G pgdir failed s t"
  unfolding building_def using kf_run(1) by fastforce

lemma allocuvm_building:
  assumes "kk (allocuvm pgdir oldsz newsz) s = Inr (r, t)" and "space e G F pgdir (kpages (psys s))"
  shows "building e G pgdir (r = 0) s t"
  using allocuvm_space [OF kk_run [OF assms(1)] assms(2)] by (auto simp: building_def)

lemma load_segments_space:
  assumes "load_segments n pgdir ip off sz s = Inr (r, t)" and "space e G F pgdir (kpages (psys s))"
  shows "building e G pgdir (r = None) s t"
  using assms
proof (induction n arbitrary: off sz s F)
  case 0
  then show ?case by (auto simp: building_def)
next
  case (Suc n)
  obtain q bs u where rd: "kf (readi ip off proghdr_size) s = Inr ((q, bs), u)"
    and c: "r = None \<and> t = u \<or> load_segments n pgdir ip (off + proghdr_size) sz u = Inr (r, t)
      \<or> (\<exists>nsz fsz vaddr foff z v. kk (allocuvm pgdir sz nsz) u = Inr (z, v) \<and> (z = 0 \<and> r = None \<and> t = v
          \<or> z \<noteq> 0 \<and> (\<exists>q w. loaduvm pgdir vaddr ip foff fsz v = Inr (q, w) \<and> (r = None \<and> t = w \<or> load_segments n pgdir ip (off + proghdr_size) z w = Inr (r, t)))))"
    using Suc.prems(1) by (fastforce simp: Let_def elim!: andthen_InrE split: if_splits)
  have k: "kpages (psys u) = kpages (psys s)" by (rule kf_run(1) [OF rd])
  have su: "space e G F pgdir (kpages (psys u))" using Suc.prems(2) k by simp
  have tu: "touches G (ram_of s) (ram_of u)" by (simp add: k)
  from c consider "r = None" "t = u" | "load_segments n pgdir ip (off + proghdr_size) sz u = Inr (r, t)"
    | nsz z v where "kk (allocuvm pgdir sz nsz) u = Inr (z, v)" "z = 0" "r = None" "t = v"
    | nsz fsz vaddr foff z v q w where "kk (allocuvm pgdir sz nsz) u = Inr (z, v)" "z \<noteq> 0" "loaduvm pgdir vaddr ip foff fsz v = Inr (q, w)"
      "r = None \<and> t = w \<or> load_segments n pgdir ip (off + proghdr_size) z w = Inr (r, t)" by blast
  then show ?case
  proof cases
    case 1
    then show ?thesis using su k by (auto simp: building_def)
  next
    case 2
    then show ?thesis by (rule building_trans [OF tu Suc.IH [OF _ su]])
  next
    case 3
    then show ?thesis using building_trans [OF tu allocuvm_building [OF 3(1) su]] by simp
  next
    case 4
    note B = allocuvm_building [OF 4(1) su]
    obtain F' where F': "space e G F' pgdir (kpages (psys v))" using B 4(2) by (auto simp: building_def)
    have L: "space e G F' pgdir (kpages (psys w)) \<and> touches G (ram_of v) (ram_of w)"
      using 4(3) loaduvm_loop_space [OF _ F'] unfolding loaduvm_def by (auto elim!: andthen_InrE simp del: loaduvm_loop.simps)
    have tw: "touches G (ram_of s) (ram_of w)"
      using touches_trans [of G "ram_of s" "ram_of v" G "ram_of w" G] L building_image [OF building_trans [OF tu B]] by simp
    from 4(4) show ?thesis
    proof
      assume "load_segments n pgdir ip (off + proghdr_size) z w = Inr (r, t)"
      then show ?thesis by (rule building_trans [OF tw Suc.IH [OF _ conjunct1 [OF L]]])
    qed (use L tw in \<open>auto simp: building_def\<close>)
  qed
qed

lemma copyout_building:
  assumes "kk (copyout pgdir va buf len) s = Inr (r, t)" and "space e G F pgdir (kpages (psys s))"
  shows "space e G F pgdir (kpages (psys t))" "touches G (ram_of s) (ram_of t)"
  using copyout_space [OF kk_run [OF assms(1)] assms(2)] by (auto simp: taking_def)

lemma push_args_space:
  assumes "push_args pgdir sp ptrs argv s = Inr (r, t)" and "space e G F pgdir (kpages (psys s))"
  shows "space e G F pgdir (kpages (psys t)) \<and> touches G (ram_of s) (ram_of t)"
  using assms
proof (induction argv arbitrary: sp ptrs s)
  case (Cons a argv)
  show ?case
  proof (cases "length ptrs \<ge> MAXARG")
    case False
    obtain q u va buf len where c: "kk (copyout pgdir va buf len) s = Inr (q, u)"
      and t: "t = u \<or> (\<exists>sp ptrs. push_args pgdir sp ptrs argv u = Inr (r, t))"
      using Cons.prems(1) False by (fastforce simp: Let_def elim!: andthen_InrE split: if_splits)
    note C = copyout_building [OF c Cons.prems(2)]
    show ?thesis using t C Cons.IH [OF _ C(1)] touches_trans [OF C(2), of G "ram_of t" G] by blast
  qed (use Cons.prems in simp)
qed simp

lemma exec_stack_space:
  assumes "exec_stack pgdir sp argv s = Inr (r, t)" and "space e G F pgdir (kpages (psys s))"
  shows "space e G F pgdir (kpages (psys t))" "touches G (ram_of s) (ram_of t)"
proof -
  obtain a u where a: "push_args pgdir sp [] argv s = Inr (a, u)" and c: "t = u \<or> (\<exists>va buf len q. kk (copyout pgdir va buf len) u = Inr (q, t))"
    using assms(1) by (fastforce simp: exec_stack_def Let_def elim!: andthen_InrE split: option.splits prod.splits)
  note P = push_args_space [OF a assms(2)]
  have "space e G F pgdir (kpages (psys t)) \<and> touches G (ram_of s) (ram_of t)"
    using c P copyout_building [OF _ conjunct1 [OF P]] touches_trans [of G "ram_of s" "ram_of u" G "ram_of t" G] by blast
  then show "space e G F pgdir (kpages (psys t))" "touches G (ram_of s) (ram_of t)" by auto
qed

section \<open>The old image and the new one\<close>

text \<open>
  The image of the current process lies in the pages of \<open>A\<close>, and its trap frame on its kernel stack, which is another page.
\<close>

definition old_image :: "u32 set \<Rightarrow> kern \<Rightarrow> bool" where
  "old_image A s \<longleftrightarrow> (let x = procs s (cur s) in image_in A (ram_of s) (p_pgdir x) \<and> (\<forall>p \<in> A. p mod PGSIZE = 0)
     \<and> p_kstack x mod PGSIZE = 0 \<and> p_kstack x \<notin> A
     \<and> (\<forall>i. unat (i - (p_tf x + tf_eip)) < 4 \<or> unat (i - (p_tf x + tf_esp)) < 4 \<longrightarrow> in_page (p_kstack x) i))"

text \<open>
  The pages that were free are apart from the image and the stack.
\<close>

definition apart :: "u32 set \<Rightarrow> u32 set \<Rightarrow> kern \<Rightarrow> bool" where
  "apart G A s \<longleftrightarrow> G \<inter> insert (p_kstack (procs s (cur s))) A = {} \<and> (\<forall>p \<in> G. p mod PGSIZE = 0)"

text \<open>
  The process runs in a new image: its directory, page tables and user pages are pages of \<open>G\<close>, the trap frame has the entry point, nothing
  else of memory has changed but the pages of the old image, and of the process its name, directory and size.
\<close>

definition replaced :: "u8 list \<Rightarrow> u32 \<Rightarrow> u32 set \<Rightarrow> u32 set \<Rightarrow> kern \<Rightarrow> kern \<Rightarrow> bool" where
  "replaced path eip G A s t \<longleftrightarrow> (let x = procs s (cur s); y = procs t (cur s) in
     only (cur s) s t \<and> execed path x y \<and> image_in G (ram_of t) (p_pgdir y) \<and> mget32 (ram_of t) (p_tf x + tf_eip) = eip
     \<and> touches (G \<union> A \<union> {p_kstack x}) (ram_of s) (ram_of t))"

lemma old_image_touch:
  assumes "old_image A s" and "apart G A s" and "procs t = procs s" "cur t = cur s" and "touches G (ram_of s) (ram_of t)"
  shows "old_image A t" "apart G A t"
proof -
  let ?d = "p_pgdir (procs s (cur s))"
  have im: "image_in A (ram_of s) ?d" using assms(1) by (simp add: old_image_def Let_def)
  have "G \<inter> tables (ram_of s) ?d = {}" using im assms(2) by (auto simp: image_in_def apart_def)
  then have "image_in A (ram_of t) ?d" using image_touch [OF im assms(5)] assms(2) by (simp add: apart_def)
  then show "old_image A t" using assms(1,3,4) by (simp add: old_image_def Let_def)
  show "apart G A t" using assms(2,3,4) by (simp add: apart_def)
qed

lemma replaced_trans:
  assumes "procs t = procs s" "cur t = cur s" and "touches G (ram_of s) (ram_of t)" and "replaced path eip G A t u"
  shows "replaced path eip G A s u"
  using assms touches_trans [OF assms(3), of _ "ram_of u" "G \<union> A \<union> {p_kstack (procs s (cur s))}"]
  by (auto simp: replaced_def only_def Let_def)

lemma two_words: "mget32 (mput32 (mput32 m (a + tf_eip) v) (a + tf_esp) w) (a + tf_eip) = v"
proof -
  have "\<not> unat (i - (a + tf_esp)) < 4" if i: "unat (i - (a + tf_eip)) < 4" for i
  proof
    assume "unat (i - (a + tf_esp)) < 4"
    moreover have "i - (a + tf_eip) = (i - (a + tf_esp)) + 12" by (simp add: tf_eip_def tf_esp_def)
    then have "unat (i - (a + tf_eip)) = (unat (i - (a + tf_esp)) + 12) mod 2 ^ 32" by (simp only: unat_word_ariths) simp
    ultimately show False using i by simp
  qed
  then have "mget32 (mput32 (mput32 m (a + tf_eip) v) (a + tf_esp) w) (a + tf_eip) = mget32 (mput32 m (a + tf_eip) v) (a + tf_eip)"
    by (intro mget32_cong mput32_outside)
  then show ?thesis by simp
qed

lemma exec_commit_space:
  assumes run: "exec_commit path pgdir sz eip sp s = Inr (r, t)" and im: "image_in G (ram_of s) pgdir" and old: "old_image A s" and ap: "apart G A s"
  shows "replaced path eip G A s t"
proof -
  define x where "x = procs s (cur s)"
  define m1 where "m1 = mput32 (mput32 (ram_of s) (p_tf x + tf_eip) eip) (p_tf x + tf_esp) sp"
  obtain k where f: "freevm (p_pgdir x) ((kpages (psys s))\<lparr>kram := m1\<rparr>) = Inr ((), k)" and k: "kpages (psys t) = k" and py: "p_pgdir (procs t (cur s)) = pgdir"
    using run by (auto simp: exec_commit_def run_simps set_ram_def kk_def ks_def sk_def zoom_def upd_def x_def m1_def elim!: andthen_InrE split: sum.splits prod.splits)
  have o: "image_in A (ram_of s) (p_pgdir x)" "\<forall>p \<in> A. p mod PGSIZE = 0" "p_kstack x mod PGSIZE = 0" "p_kstack x \<notin> A"
    "\<And>i. unat (i - (p_tf x + tf_eip)) < 4 \<or> unat (i - (p_tf x + tf_esp)) < 4 \<Longrightarrow> in_page (p_kstack x) i"
    using old by (auto simp: old_image_def Let_def x_def)
  have d: "G \<inter> insert (p_kstack x) A = {}" using ap by (simp add: apart_def x_def)
  have T1: "touches {p_kstack x} (ram_of s) m1"
    unfolding m1_def by (rule touches_page [of "p_kstack x"]) (use o(5) mput32_outside in \<open>metis, simp\<close>)
  have i1: "image_in A m1 (p_pgdir x)" by (rule image_touch [OF o(1) T1]) (use o(1,3,4) in \<open>auto simp: image_in_def\<close>)
  have j1: "image_in G m1 pgdir" by (rule image_touch [OF im T1]) (use im o(3) d in \<open>auto simp: image_in_def\<close>)
  have T2: "touches A m1 (kram k)" using freevm_touches [OF f] i1 by simp
  have j2: "image_in G (kram k) pgdir" by (rule image_touch [OF j1 T2 o(2)]) (use j1 d in \<open>auto simp: image_in_def\<close>)
  have "mget32 (kram k) (p_tf x + tf_eip) = mget32 m1 (p_tf x + tf_eip)"
    by (rule mget32_cong, rule touches_other [OF T2 o(2,3,4)]) (use o(5) in blast)
  then have e: "mget32 (kram k) (p_tf x + tf_eip) = eip" by (simp add: m1_def two_words)
  have "touches (G \<union> A \<union> {p_kstack x}) (ram_of s) (kram k)" by (rule touches_trans [OF T1 T2]) auto
  then show ?thesis using exec_commit_run [OF run] j2 e py k by (simp add: replaced_def Let_def x_def)
qed

lemma exec_bad_space:
  assumes run: "exec_bad pgdir ip s = Inr (r, t)" and im: "pgdir \<noteq> 0 \<Longrightarrow> image_in G (ram_of s) pgdir"
  shows "touches G (ram_of s) (ram_of t)"
proof -
  obtain u where u: "(if pgdir \<noteq> 0 then kk (freevm pgdir) else ret ()) s = Inr ((), u)" and t: "kpages (psys t) = kpages (psys u)"
    using run unfolding exec_bad_def by (fastforce elim!: andthen_InrE split: option.splits dest!: kf_run(1))
  show ?thesis
  proof (cases "pgdir = 0")
    case False
    then have "kk (freevm pgdir) s = Inr ((), u)" using u by simp
    from kk_run [OF this] have "touches G (ram_of s) (ram_of u)" by (rule freevm_touches) (rule im [OF False])
    then show ?thesis using t by simp
  qed (use u t in simp)
qed

lemma exec_image_space:
  assumes run: "exec_image path argv eip pgdir sz s = Inr (r, t)" and sp: "space e G F pgdir (kpages (psys s))" and old: "old_image A s" "apart G A s"
  shows "r = -1 \<and> touches G (ram_of s) (ram_of t) \<or> r = 0 \<and> replaced path eip G A s t"
proof -
  let ?sz = "PGROUNDUP sz"
  obtain z u where a: "kk (allocuvm pgdir ?sz (?sz + 2 * PGSIZE)) s = Inr (z, u)"
    and c: "z = 0 \<and> exec_bad pgdir None u = Inr (r, t) \<or> (\<exists>v w q. z \<noteq> 0 \<and> kk (clearpteu pgdir (z - 2 * PGSIZE)) u = Inr ((), v)
      \<and> exec_stack pgdir z argv v = Inr (q, w)
      \<and> (q = None \<and> exec_bad pgdir None w = Inr (r, t) \<or> (\<exists>sp. q = Some sp \<and> exec_commit path pgdir z eip sp w = Inr (r, t))))"
    using run by (fastforce simp: exec_image_def Let_def elim!: andthen_InrE split: if_splits option.splits)
  note B = allocuvm_building [OF a sp]
  have pu: "procs u = procs s" "cur u = cur s" using k_frame(1) [OF a] by auto
  have tu: "touches G (ram_of s) (ram_of u)" using B by (simp add: building_def)
  show ?thesis using c
  proof (elim disjE conjE exE)
    assume b: "exec_bad pgdir None u = Inr (r, t)"
    then have "touches G (ram_of u) (ram_of t)" by (rule exec_bad_space) (use building_image [OF B] in simp)
    then show ?thesis using exec_bad_frame [OF b] touches_trans [OF tu, of G "ram_of t" G] by simp
  next
    fix v w q
    assume z: "z \<noteq> 0" and cl: "kk (clearpteu pgdir (z - 2 * PGSIZE)) u = Inr ((), v)" and st: "exec_stack pgdir z argv v = Inr (q, w)"
    obtain F' where F': "space e G F' pgdir (kpages (psys u))" using B z by (auto simp: building_def)
    note C = clearpteu_space [OF kk_run [OF cl] F']
    note S = exec_stack_space [OF st C(1)]
    have pw: "procs w = procs s" "cur w = cur s" using k_frame(1) [OF cl] exec_stack_frame [OF st] pu by auto
    have tw: "touches G (ram_of s) (ram_of w)"
      using touches_trans [OF touches_trans [OF tu, of G "ram_of v" G] S(2), of G] C(2) by (simp add: taking_def)
    note im = space_image [OF S(1)]
    {
      assume b: "exec_bad pgdir None w = Inr (r, t)"
      then have "touches G (ram_of w) (ram_of t)" by (rule exec_bad_space) (use im in simp)
      then show ?thesis using exec_bad_frame [OF b] touches_trans [OF tw, of G "ram_of t" G] by simp
    next
      fix sp assume cm: "exec_commit path pgdir z eip sp w = Inr (r, t)"
      have "replaced path eip G A w t" by (rule exec_commit_space [OF cm im old_image_touch [OF old pw tw]])
      then show ?thesis using exec_commit_run [OF cm] replaced_trans [OF pw tw] by blast
    }
  qed
qed

lemma kf_frame:
  "kf f s = Inr (r, t) \<Longrightarrow> kpages (psys t) = kpages (psys s) \<and> procs t = procs s \<and> cur t = cur s \<and> k_data t = k_data s"
  using kf_run(1,2) [of f s r t] k_frame(2) [of f s r t] by simp

text \<open>The part of \<^verbatim>\<open>exec\<close> from the set-up of the new directory on.\<close>

lemma exec_build:
  assumes run: "exec_load path argv ip elf s = Inr (r, t)"
    and free: "free_set e G (kpages (psys s))" and data: "data_ok (k_data s)" and old: "old_image A s" "apart G A s"
  shows "r = -1 \<and> procs t = procs s \<and> cur t = cur s \<and> touches G (ram_of s) (ram_of t) \<or> r = 0 \<and> replaced path (e_entry elf) G A s t"
proof -
  obtain pgdir u where k: "kk (setupkvm (k_data s)) s = Inr (pgdir, u)"
    and c: "pgdir = 0 \<and> exec_bad 0 (Some ip) u = Inr (r, t) \<or> (\<exists>q v. pgdir \<noteq> 0 \<and> load_segments (unat (e_phnum elf)) pgdir ip (e_phoff elf) 0 u = Inr (q, v)
      \<and> (q = None \<and> exec_bad pgdir (Some ip) v = Inr (r, t) \<or> (\<exists>sz w x. q = Some sz \<and> kf (iunlockput ip) v = Inr ((), w) \<and> kf (fl end_op) w = Inr ((), x)
          \<and> exec_image path argv (e_entry elf) pgdir sz x = Inr (r, t))))"
    using run unfolding exec_load_def by (fastforce elim!: andthen_InrE split: if_splits option.splits)
  note K = setupkvm_space [OF kk_run [OF k] free data]
  have pu: "procs u = procs s" "cur u = cur s" using k_frame(1) [OF k] by auto
  show ?thesis using c
  proof (elim disjE conjE exE)
    assume b: "exec_bad 0 (Some ip) u = Inr (r, t)"
    then have "touches G (ram_of u) (ram_of t)" by (rule exec_bad_space) simp
    then show ?thesis using exec_bad_frame [OF b] pu touches_trans [OF K(1), of G "ram_of t" G] by simp
  next
    fix q v assume nz: "pgdir \<noteq> 0" and l: "load_segments (unat (e_phnum elf)) pgdir ip (e_phoff elf) 0 u = Inr (q, v)"
    obtain F where F: "space e G F pgdir (kpages (psys u))" using K(2) [OF nz] by blast
    note L = load_segments_space [OF l F]
    have pv: "procs v = procs s" "cur v = cur s" using load_segments_frame [OF l] pu by auto
    have tv: "touches G (ram_of s) (ram_of v)" using touches_trans [OF K(1), of G "ram_of v" G] L by (simp add: building_def)
    {
      assume b: "exec_bad pgdir (Some ip) v = Inr (r, t)"
      then have "touches G (ram_of v) (ram_of t)" by (rule exec_bad_space) (use building_image [OF L] in simp)
      then show ?thesis using exec_bad_frame [OF b] pv touches_trans [OF tv, of G "ram_of t" G] by simp
    next
      fix sz w x
      assume q: "q = Some sz" and io: "kf (iunlockput ip) v = Inr ((), w)" "kf (fl end_op) w = Inr ((), x)"
        and i: "exec_image path argv (e_entry elf) pgdir sz x = Inr (r, t)"
      have x: "kpages (psys x) = kpages (psys v)" and px: "procs x = procs s" "cur x = cur s"
        using kf_frame [OF io(1)] kf_frame [OF io(2)] pv by auto
      obtain F' where F': "space e G F' pgdir (kpages (psys x))" using L q x by (auto simp: building_def)
      have tx: "touches G (ram_of s) (ram_of x)" using tv x by simp
      from exec_image_space [OF i F' old_image_touch [OF old px tx]] show ?thesis
        using exec_image_run [OF i] px replaced_trans [OF px tx] touches_trans [OF tx, of G "ram_of t" G] by auto
    }
  qed
qed


text \<open>A header that is typed at the console, which is the current directory; one page is free.\<close>

definition typed_byte :: "u32 \<Rightarrow> u8" where
  "typed_byte i = (if i = 0 then 0x7F else if i = 1 then 0x45 else if i = 2 then 0x4C else if i = 3 then 0x46 else 0)"

definition typed_kmem :: kmem where
  "typed_kmem = \<lparr>kram = (\<lambda>_. 0), use_lock = False, freelist = 0x80500000, kend = 0x80110000\<rparr>"

definition typed_header :: kern where
  "typed_header = (demo_kern UNUSED)\<lparr>psys := demo_sys\<lparr>kpages := typed_kmem, sfs := \<lparr>flog = fresh_log (\<lambda>_ _. 0) 2 30,
     inodes = (\<lambda>_. \<lparr>i_dev = 1, i_inum = 1, i_ref = 5, i_flags = {I_VALID}, i_type = T_DEV, i_major = 1, i_minor = 0, i_nlink = 1, i_size = 0, i_addrs = (\<lambda>_. 0)\<rparr>),
     fcons = \<lparr>crt = (\<lambda>_. 0), cursor = 0, serial = [], in_buf = typed_byte, in_r = 0, in_w = 52, in_e = 52\<rparr>, fcwd = 0, fkilled = False\<rparr>\<rparr>,
     procs := (\<lambda>_. demo_proc UNUSED)(1 := (demo_proc RUNNING)\<lparr>p_pgdir := 0x80400000, p_kstack := 0x80600000, p_tf := 0x80600FB4\<rparr>), k_data := 0x80108000\<rparr>"

lemma consoleread_loop_all:
  assumes "\<forall>j < n. in_r s + of_nat j \<noteq> in_w s \<and> in_buf s ((in_r s + of_nat j) mod INPUT_BUF) \<notin> {4, 10}"
  shows "consoleread_loop killed got n s = Inr (Some (map (\<lambda>j. in_buf s ((in_r s + of_nat j) mod INPUT_BUF)) [0..<n]), s\<lparr>in_r := in_r s + of_nat n\<rparr>)"
  using assms
proof (induction n arbitrary: got s)
  case (Suc n)
  let ?s = "s\<lparr>in_r := in_r s + 1\<rparr>"
  have "\<forall>j < n. in_r ?s + of_nat j \<noteq> in_w ?s \<and> in_buf ?s ((in_r ?s + of_nat j) mod INPUT_BUF) \<notin> {4, 10}"
    using Suc.prems by (auto simp: add.assoc dest: spec [of _ "Suc _"])
  note IH = Suc.IH [OF this, of "Suc got"]
  have "in_r s \<noteq> in_w s" "in_buf s (in_r s mod INPUT_BUF) \<notin> {4, 10}" using Suc.prems [rule_format, of 0] by simp_all
  then show ?case using IH by (simp add: andthen_def gets_def upd_def ret_def upt_conv_Cons map_Suc_upt [symmetric] add.assoc comp_def del: upt_Suc)
qed (simp add: ret_def)

lemma typed_ok: "free_set 0x80110000 {0x80500000} typed_kmem" "old_image {0x80400000} typed_header"
proof -
  have "mget32 (\<lambda>_. 0) 0x80500000 = 0" by (simp add: mget32_def of_bytes_def)
  then have "kmem_ok [0x80500000] typed_kmem"
    by (simp add: kmem_ok_def typed_kmem_def page_ok_def PGSIZE_def v2p_def KERNBASE_def PHYSTOP_def)
  then show "free_set 0x80110000 {0x80500000} typed_kmem" by (auto simp: free_set_def typed_kmem_def intro!: exI [of _ "[0x80500000]"])
  have z: "pde_of (\<lambda>_. 0) 0x80400000 va = 0" for va by (simp add: pde_of_def mget32_def of_bytes_def)
  then have "\<not> present (\<lambda>_. 0) 0x80400000 va" "translate (\<lambda>_. 0) 0x80400000 va = None" for va by (simp_all add: present_def translate_def)
  then have "image_in {0x80400000} (\<lambda>_. 0) 0x80400000" by (simp add: image_in_def tables_def pgdir_ok_def z)
  moreover have "in_page 0x80600000 i" if "unat (i - (0x80600FB4 + tf_eip)) < 4 \<or> unat (i - (0x80600FB4 + tf_esp)) < 4" for i
    using that write_in_page [of i "0x80600000" "0xFB4 + tf_eip" 4] write_in_page [of i "0x80600000" "0xFB4 + tf_esp" 4] by (auto simp: tf_eip_def tf_esp_def)
  ultimately show "old_image {0x80400000} typed_header"
    by (auto simp: old_image_def typed_header_def typed_kmem_def Let_def PGSIZE_def)
qed

lemma typed_setup: "\<exists>k. setupkvm data typed_kmem = Inr (0, k)"
proof -
  have m: "memset 0x80500000 0 PGSIZE (\<lambda>_. 0) = (\<lambda>_. 0)" by (simp add: memset_eq fun_eq_iff)
  have z: "mget32 (\<lambda>_. 0) a = 0" for a by (simp add: mget32_def of_bytes_def)
  have w: "walkpgdir 0x80500000 va True (typed_kmem\<lparr>freelist := 0\<rparr>) = Inr (0, typed_kmem\<lparr>freelist := 0\<rparr>)" for va
    by (simp add: walkpgdir_def Let_def peek_def kalloc_def andthen_def gets_def ret_def typed_kmem_def z)
  have l: "mappages_loop n 0x80500000 a pa perm (typed_kmem\<lparr>freelist := 0\<rparr>) = Inr (-1, typed_kmem\<lparr>freelist := 0\<rparr>)" for n a pa perm
    unfolding mappages_loop.simps [of n] by (simp add: andthen_def w ret_def)
  have k: "kalloc typed_kmem = Inr (0x80500000, typed_kmem\<lparr>freelist := 0\<rparr>)"
    by (simp add: kalloc_def andthen_def gets_def upd_def ret_def typed_kmem_def z)
  have "zero_page 0x80500000 (typed_kmem\<lparr>freelist := 0\<rparr>) = Inr ((), typed_kmem\<lparr>freelist := 0\<rparr>)"
    by (simp add: zero_page_def upd_def typed_kmem_def m)
  then show ?thesis by (simp add: setupkvm_def andthen_def k panic_if_def ret_def kmap_def mappages_def Let_def l p2v_def KERNBASE_def PHYSTOP_def DEVSPACE_def)
qed


end
