(* ===== verification/Trap.thy ===== *)
theory Trap
  imports Exec
begin

text \<open>
  System calls and traps: the table and dispatch of \<^verbatim>\<open>syscall.c\<close>, the calls of \<^verbatim>\<open>sysproc.c\<close>, and \<^verbatim>\<open>trap.c\<close>. The messages on the console are
  not modelled, and the interrupt controllers are only told that an interrupt is over. A process that exits does not return
  from its system call or trap: this is the outcome \<open>Gone\<close>.
\<close>

section \<open>State\<close>

record machine =
  mk :: kern
  ticks :: u32

definition km :: "(kern, 'a) kop \<Rightarrow> (machine, 'a) kop" where
  "km = zoom mk (\<lambda>k s. s\<lparr>mk := k\<rparr>)"

datatype outcome = Back int | Gone

text \<open>
  The system calls of \<^verbatim>\<open>sysfile.c\<close> work on the fields of \<^verbatim>\<open>proc\<close>: these are the entries of the running process in the table, and
  its user stack pointer is in its trap frame.
\<close>

definition load_view :: "kern \<Rightarrow> kern" where
  "load_view s =
     (let x = procs s (cur s) in
      s\<lparr>psys := (psys s)\<lparr>ofile := p_ofile x, psz := p_sz x, pesp := mget32 (kram (kpages (psys s))) (p_tf x + tf_esp),
        sfs := (sfs (psys s))\<lparr>fcwd := (case p_cwd x of Some d \<Rightarrow> d | None \<Rightarrow> fcwd (sfs (psys s))), fkilled := p_killed x\<rparr>\<rparr>\<rparr>)"

definition store_view :: "kern \<Rightarrow> kern" where
  "store_view s =
     s\<lparr>procs := (procs s)(cur s := (procs s (cur s))\<lparr>p_ofile := ofile (psys s), p_cwd := Some (fcwd (sfs (psys s)))\<rparr>)\<rparr>"

definition on_cur :: "(sys, int) kop \<Rightarrow> (machine, outcome) kop" where
  "on_cur f =
     km (andthen (upd load_view) (\<lambda>_.
         andthen (ks f) (\<lambda>r.
         andthen (upd store_view) (\<lambda>_.
         ret (Back r)))))"

section \<open>System calls on processes\<close>

definition proc_argint :: "nat \<Rightarrow> (kern, u32 option) kop" where
  "proc_argint n = gets (\<lambda>s. argint n (psys (load_view s)))"

definition returning :: "(kern, int) kop \<Rightarrow> (machine, outcome) kop" where
  "returning f = km (andthen f (\<lambda>r. ret (Back r)))"

definition sys_fork :: "(machine, outcome) kop" where
  "sys_fork = returning fork"

definition sys_exit :: "(machine, outcome) kop" where
  "sys_exit = km (andthen exit_proc (\<lambda>_. ret Gone))"

definition sys_wait :: "(machine, outcome) kop" where
  "sys_wait = returning wait_proc"

definition sys_kill :: "(machine, outcome) kop" where
  "sys_kill = returning (andthen (proc_argint 0) (\<lambda>a. case a of None \<Rightarrow> ret (-1) | Some pid \<Rightarrow> kill pid))"

definition sys_getpid :: "(machine, outcome) kop" where
  "sys_getpid = returning (andthen getcur (\<lambda>x. ret (sint (p_pid x))))"

definition sys_sbrk :: "(machine, outcome) kop" where
  "sys_sbrk =
     returning (andthen (proc_argint 0) (\<lambda>a.
     case a of
       None \<Rightarrow> ret (-1)
     | Some n \<Rightarrow>
         andthen getcur (\<lambda>x.
         andthen (growproc (sint n)) (\<lambda>r.
         ret (if r < 0 then -1 else sint (p_sz x))))))"

text \<open>A round of the loop of \<^verbatim>\<open>sys_sleep\<close>, for a call that began at \<open>ticks0\<close>; the comparison is one of unsigned numbers.\<close>

definition sys_sleep_round :: "u32 \<Rightarrow> u32 \<Rightarrow> (machine, outcome) kop" where
  "sys_sleep_round n ticks0 =
     andthen (gets ticks) (\<lambda>now.
     if now - ticks0 < n then
       andthen (km getcur) (\<lambda>x. if p_killed x then ret (Back (-1)) else stop (Sleep Ch_ticks))
     else ret (Back 0))"

definition sys_sleep :: "(machine, outcome) kop" where
  "sys_sleep =
     andthen (km (proc_argint 0)) (\<lambda>a.
     case a of
       None \<Rightarrow> ret (Back (-1))
     | Some n \<Rightarrow> andthen (gets ticks) (\<lambda>ticks0. sys_sleep_round n ticks0))"

definition sys_uptime :: "(machine, outcome) kop" where
  "sys_uptime = andthen (gets ticks) (\<lambda>xticks. ret (Back (sint xticks)))"

definition sys_exec_call :: "(machine, outcome) kop" where
  "sys_exec_call = returning (andthen (upd load_view) (\<lambda>_. sys_exec))"

section \<open>Dispatch\<close>

definition syscalls :: "(machine, outcome) kop option list" where
  "syscalls =
     [None, Some sys_fork, Some sys_exit, Some sys_wait, Some (on_cur sys_pipe), Some (on_cur sys_read), Some sys_kill,
      Some sys_exec_call, Some (on_cur sys_fstat), Some (on_cur sys_chdir), Some (on_cur sys_dup), Some sys_getpid, Some sys_sbrk,
      Some sys_sleep, Some sys_uptime, Some (on_cur sys_open), Some (on_cur sys_write), Some (on_cur sys_mknod), Some (on_cur sys_unlink),
      Some (on_cur sys_link), Some (on_cur sys_mkdir), Some (on_cur sys_close)]"

definition set_eax :: "int \<Rightarrow> (kern, unit) kop" where
  "set_eax v = andthen getcur (\<lambda>x. set_ram (\<lambda>m. mput32 m (p_tf x + tf_eax) (of_int v)))"

definition syscall :: "(machine, outcome) kop" where
  "syscall =
     andthen (km (andthen getcur (\<lambda>x. gets (\<lambda>s. sint (mget32 (kram (kpages (psys s))) (p_tf x + tf_eax)))))) (\<lambda>num.
     case (if num > 0 \<and> num < int (length syscalls) then syscalls ! nat num else None) of
       Some f \<Rightarrow>
         andthen f (\<lambda>r.
         case r of
           Back v \<Rightarrow> andthen (km (set_eax v)) (\<lambda>_. ret (Back v))
         | Gone \<Rightarrow> ret Gone)
     | None \<Rightarrow> andthen (km (set_eax (-1))) (\<lambda>_. ret (Back (-1))))"

section \<open>Traps\<close>

definition T_SYSCALL :: u32 where "T_SYSCALL = 64"
definition T_IRQ0 :: u32 where "T_IRQ0 = 32"
definition IRQ_TIMER :: u32 where "IRQ_TIMER = 0"
definition IRQ_KBD :: u32 where "IRQ_KBD = 1"
definition IRQ_COM1 :: u32 where "IRQ_COM1 = 4"
definition IRQ_IDE :: u32 where "IRQ_IDE = 14"
definition IRQ_SPURIOUS :: u32 where "IRQ_SPURIOUS = 31"
definition tf_trapno :: u32 where "tf_trapno = 48"

datatype trap_end = Return | Exit | Yield

definition exit_now :: "(machine, trap_end) kop" where
  "exit_now = andthen (km exit_proc) (\<lambda>_. ret Exit)"

text \<open>The end of \<^verbatim>\<open>trap\<close> for a system call, which is also where a call that has slept gets to when it is done.\<close>

definition syscall_leave :: "(machine, trap_end) kop" where
  "syscall_leave = andthen (km getcur) (\<lambda>x. if p_killed x then exit_now else ret Return)"

definition trap_syscall :: "u32 \<Rightarrow> (machine, trap_end) kop" where
  "trap_syscall tf =
     andthen (km getcur) (\<lambda>x.
     if p_killed x then exit_now
     else
       andthen (km (andthen (gets cur) (\<lambda>c. setp c (\<lambda>x. x\<lparr>p_tf := tf\<rparr>)))) (\<lambda>_.
       andthen syscall (\<lambda>r.
       case r of
         Gone \<Rightarrow> ret Exit
       | Back _ \<Rightarrow> syscall_leave)))"

text \<open>
  The interrupt handlers: \<open>cpu0\<close> says that this is the processor that counts the ticks; \<open>keys\<close> and \<open>com1\<close> are the characters that the
  devices have, and \<open>dump\<close> what the process listing of the console prints.
\<close>

definition irq :: "bool \<Rightarrow> int list \<Rightarrow> int list \<Rightarrow> int list \<Rightarrow> bool \<Rightarrow> u32 \<Rightarrow> u32 \<Rightarrow> (machine, unit) kop" where
  "irq cpu0 keys com1 dump running user trapno =
     (if trapno = T_IRQ0 + IRQ_TIMER then
        if cpu0 then
          andthen (upd (\<lambda>s. s\<lparr>ticks := ticks s + 1\<rparr>)) (\<lambda>_. km (wakeup Ch_ticks))
        else ret ()
      else if trapno = T_IRQ0 + IRQ_IDE then km (kf (fl (lio ideintr)))
      else if trapno = T_IRQ0 + IRQ_IDE + 1 then ret ()
      else if trapno = T_IRQ0 + IRQ_KBD then km (kf (zoom fcons (\<lambda>c f. f\<lparr>fcons := c\<rparr>) (consoleintr dump keys)))
      else if trapno = T_IRQ0 + IRQ_COM1 then km (kf (zoom fcons (\<lambda>c f. f\<lparr>fcons := c\<rparr>) (consoleintr dump com1)))
      else if trapno = T_IRQ0 + 7 \<or> trapno = T_IRQ0 + IRQ_SPURIOUS then ret ()
      else
        andthen (panic_if (\<not> running \<or> user = 0) ''trap'') (\<lambda>_.
        km (andthen (gets cur) (\<lambda>c. setp c (\<lambda>x. x\<lparr>p_killed := True\<rparr>)))))"

text \<open>The end of \<^verbatim>\<open>trap\<close>, which is also where it goes on after it has yielded.\<close>

definition trap_leave :: "bool \<Rightarrow> u32 \<Rightarrow> (machine, trap_end) kop" where
  "trap_leave running user =
     andthen (km getcur) (\<lambda>x.
     if running \<and> p_killed x \<and> user = 3 then exit_now else ret Return)"

definition trap :: "bool \<Rightarrow> int list \<Rightarrow> int list \<Rightarrow> int list \<Rightarrow> bool \<Rightarrow> u32 \<Rightarrow> (machine, trap_end) kop" where
  "trap cpu0 keys com1 dump running tf =
     andthen (km (gets (\<lambda>s. (mget32 (kram (kpages (psys s))) (tf + tf_trapno), mget32 (kram (kpages (psys s))) (tf + tf_cs) AND 3)))) (\<lambda>(trapno, user).
     if trapno = T_SYSCALL then trap_syscall tf
     else
       andthen (irq cpu0 keys com1 dump running user trapno) (\<lambda>_.
       andthen (km getcur) (\<lambda>x.
       if running \<and> p_killed x \<and> user = 3 then exit_now
       else if running \<and> p_state x = RUNNING \<and> trapno = T_IRQ0 + IRQ_TIMER then
         andthen (km yield_enter) (\<lambda>_. ret Yield)
       else trap_leave running user)))"

section \<open>Properties\<close>

lemma km_run: "km f s = Inr (x, t) \<longleftrightarrow> (\<exists>k. f (mk s) = Inr (x, k) \<and> t = s\<lparr>mk := k\<rparr>)"
  by (auto simp: km_def zoom_def split: sum.splits)

lemma exit_now_end [simp]: "exit_now s \<noteq> Inr (Return, t)"
  by (auto simp: exit_now_def elim!: andthen_InrE)

text \<open>The trap came from user mode: a system call, or the privilege level in the frame says so.\<close>

definition trapno_of :: "u32 \<Rightarrow> machine \<Rightarrow> u32" where
  "trapno_of tf s = mget32 (kram (kpages (psys (mk s)))) (tf + tf_trapno)"

definition cpl_of :: "u32 \<Rightarrow> machine \<Rightarrow> u32" where
  "cpl_of tf s = mget32 (kram (kpages (psys (mk s)))) (tf + tf_cs) AND 3"

definition from_user :: "u32 \<Rightarrow> machine \<Rightarrow> bool" where
  "from_user tf s \<longleftrightarrow> trapno_of tf s = T_SYSCALL \<or> cpl_of tf s = 3"

text \<open>
  The ways of a trap that begins in the state \<open>s\<close> to its end in the state \<open>t\<close>: at once; after it has yielded and other processes have run, which leads to any state \<open>u\<close> in which the process runs again; and
  for a system call, after it has slept and has then done the rest of its work.
\<close>

inductive trap_ends :: "u32 \<Rightarrow> machine \<Rightarrow> trap_end \<Rightarrow> machine \<Rightarrow> bool" where
  at_once: "\<lbrakk>trap cpu0 keys com1 dump True tf s = Inr (e, t); e \<noteq> Yield\<rbrakk> \<Longrightarrow> trap_ends tf s e t"
| yielded: "\<lbrakk>trap cpu0 keys com1 dump True tf s = Inr (Yield, v); cur (mk u) = cur (mk s); trap_leave True (cpl_of tf s) u = Inr (e, t)\<rbrakk> \<Longrightarrow> trap_ends tf s e t"
| slept: "\<lbrakk>trap cpu0 keys com1 dump True tf s = Inl (Sleep ch); trapno_of tf s = T_SYSCALL; cur (mk u) = cur (mk s); syscall_leave u = Inr (e, t)\<rbrakk> \<Longrightarrow> trap_ends tf s e t"

lemma trap_return:
  assumes "trap cpu0 keys com1 dump True tf s = Inr (Return, t)" and "from_user tf s"
  shows "\<not> p_killed (procs (mk t) (cur (mk t)))"
  using assms unfolding trap_def trap_syscall_def syscall_leave_def trap_leave_def from_user_def trapno_of_def cpl_of_def
  by (auto simp: km_run getcur_def elim!: andthen_InrE split: if_splits outcome.splits)

lemma leave_return:
  "syscall_leave u = Inr (Return, t) \<Longrightarrow> \<not> p_killed (procs (mk t) (cur (mk t)))"
  "trap_leave True 3 u = Inr (Return, t) \<Longrightarrow> \<not> p_killed (procs (mk t) (cur (mk t)))"
  unfolding syscall_leave_def trap_leave_def by (auto simp: km_run getcur_def elim!: andthen_InrE split: if_splits)

lemma trap_yields_user: "trap cpu0 keys com1 dump True tf s = Inr (Yield, v) \<Longrightarrow> trapno_of tf s \<noteq> T_SYSCALL"
  unfolding trap_def trap_syscall_def syscall_leave_def exit_now_def trapno_of_def
  by (auto simp: km_run getcur_def elim!: andthen_InrE split: if_splits outcome.splits)

text \<open>The handlers of interrupts leave the process that runs as it is, but for the mark that kills it.\<close>

lemma kf_keeps: "kf f k = Inr (x, k') \<Longrightarrow> procs k' = procs k \<and> cur k' = cur k"
  by (auto simp: kf_def ks_def zoom_def split: sum.splits)

lemma irq_keeps_killed:
  assumes "irq cpu0 keys com1 dump running user trapno s = Inr ((), t)" and "p_killed (procs (mk s) (cur (mk s)))"
  shows "p_killed (procs (mk t) (cur (mk t)))"
  using assms unfolding irq_def
  by (auto simp: km_run upd_run gets_run ret_run panic_if_run wakeup_def wakeup1_def setp_def elim!: andthen_InrE split: if_splits dest!: kf_keeps)

lemma trap_killed:
  assumes "trap cpu0 keys com1 dump True tf s = Inr (e, t)" and "from_user tf s" and "p_killed (procs (mk s) (cur (mk s)))"
  shows "e = Exit"
proof (cases "trapno_of tf s = T_SYSCALL")
  case True
  then show ?thesis using assms(1,3) unfolding trap_def trap_syscall_def trapno_of_def exit_now_def
    by (auto simp: km_run getcur_def gets_run ret_run elim!: andthen_InrE split: if_splits)
next
  case False
  then obtain v where v: "irq cpu0 keys com1 dump True 3 (trapno_of tf s) s = Inr ((), v)"
    "(if p_killed (procs (mk v) (cur (mk v))) then exit_now
      else if True \<and> p_state (procs (mk v) (cur (mk v))) = RUNNING \<and> trapno_of tf s = T_IRQ0 + IRQ_TIMER then andthen (km yield_enter) (\<lambda>_. ret Yield)
      else trap_leave True 3) v = Inr (e, t)"
    using assms(1,2) unfolding trap_def trapno_of_def from_user_def cpl_of_def
    by (auto simp: km_run getcur_def gets_run elim!: andthen_InrE)
  then show ?thesis using irq_keeps_killed [OF v(1) assms(3)] by (auto simp: exit_now_def ret_run elim!: andthen_InrE)
qed

text \<open>
  C24: A killed process does not get back to user mode. However a trap from user mode or a system call ends, at once, after it has yielded the processor to others on a clock tick, or after it has slept: if it returns to user mode, then
  the process is not marked as killed at that moment; and if the process is marked when the trap comes, the trap ends in \<^verbatim>\<open>exit\<close> and neither yields nor returns.
\<close>

theorem trap_kills:
  assumes "from_user tf s"
  shows "(trap_ends tf s Return t \<longrightarrow> \<not> p_killed (procs (mk t) (cur (mk t))))
     \<and> (p_killed (procs (mk s) (cur (mk s))) \<and> trap cpu0 keys com1 dump True tf s = Inr (e, u) \<longrightarrow> e = Exit)"
proof (intro conjI impI)
  assume "trap_ends tf s Return t"
  then show "\<not> p_killed (procs (mk t) (cur (mk t)))"
  proof cases
    case (yielded cpu0 keys com1 dump v u)
    then have "cpl_of tf s = 3" using assms trap_yields_user by (simp add: from_user_def)
    then show ?thesis using leave_return(2) [of u t] yielded by simp
  qed (use trap_return assms leave_return(1) in blast)+
qed (use trap_killed assms in blast)

text \<open>
  A number that names no system call, negative, zero or too large, does nothing but store \<open>-1\<close> as the result in the trap frame.
\<close>

theorem syscall_unknown:
  assumes "num = sint (mget32 (kram (kpages (psys (mk s)))) (p_tf (procs (mk s) (cur (mk s))) + tf_eax))"
    and "num \<le> 0 \<or> num > 21"
  shows "syscall s = Inr (Back (-1), s\<lparr>mk := (mk s)\<lparr>psys := (psys (mk s))\<lparr>kpages := (kpages (psys (mk s)))\<lparr>kram :=
     mput32 (kram (kpages (psys (mk s)))) (p_tf (procs (mk s) (cur (mk s))) + tf_eax) (-1)\<rparr>\<rparr>\<rparr>\<rparr>)"
proof -
  have "length syscalls = 22" by (simp add: syscalls_def)
  then have "\<not> (num > 0 \<and> num < int (length syscalls))" using assms(2) by auto
  then show ?thesis
    using assms(1)
    by (auto simp: syscall_def km_def kk_def ks_def sk_def zoom_def set_eax_def set_ram_def getcur_def andthen_def gets_def upd_def ret_def)
qed

text \<open>
  \<^verbatim>\<open>sys_sleep\<close> counts ticks across a wrap-around of the tick counter: \<open>k\<close> ticks after its start a process that is not killed goes back to
  sleep if \<open>k\<close> is less than its argument, read as an unsigned number, and returns otherwise.
\<close>

theorem sleep_counts_ticks:
  assumes "ticks s = ticks0 + of_nat k" and "k < 2 ^ 32" and "\<not> p_killed (procs (mk s) (cur (mk s)))"
  shows "sys_sleep_round n ticks0 s = (if k < unat n then Inl (Sleep Ch_ticks) else Inr (Back 0, s))"
proof -
  have "unat (of_nat k :: u32) = k" using assms(2) by (simp add: unat_of_nat take_bit_nat_eq_self)
  then show ?thesis
    using assms(1,3)
    by (auto simp: sys_sleep_round_def word_less_nat_alt km_def zoom_def getcur_def andthen_def gets_def ret_def stop_def)
qed

text \<open>A machine whose trap frame at 0 is one of a spurious interrupt in user mode.\<close>

definition demo_machine :: machine where
  "demo_machine = \<lparr>mk = (demo_kern UNUSED)\<lparr>psys := demo_sys\<lparr>kpages := undefined\<lparr>kram := (\<lambda>a. if a = 48 then 39 else if a = 60 then 3 else 0)\<rparr>\<rparr>\<rparr>, ticks = 0xFFFFFFFF\<rparr>"

lemma demo_machine_simps [simp]:
  "kram (kpages (psys (mk demo_machine))) = (\<lambda>a. if a = 48 then 39 else if a = 60 then 3 else 0)"
  "cur (mk demo_machine) = 1" "procs (mk demo_machine) (Suc 0) = demo_proc RUNNING" "ticks demo_machine = 0xFFFFFFFF"
  by (simp_all add: demo_machine_def)

text \<open>The same with the frame of a clock tick: the process yields, and later goes back to user mode.\<close>

definition tick_machine :: machine where
  "tick_machine = demo_machine\<lparr>mk := (mk demo_machine)\<lparr>psys := demo_sys\<lparr>kpages := undefined\<lparr>kram := (\<lambda>a. if a = 48 then 32 else if a = 60 then 3 else 0)\<rparr>\<rparr>\<rparr>\<rparr>"

theorem trap_kills_witness:
  "(\<exists>t. trap_ends 0 demo_machine Return t \<and> \<not> p_killed (procs (mk t) (cur (mk t))))
   \<and> (\<exists>t. trap_ends 0 tick_machine Return t \<and> \<not> p_killed (procs (mk t) (cur (mk t))))"
proof
  have "trap False [] [] [] True 0 demo_machine = Inr (Return, demo_machine)"
    by (simp add: trap_def irq_def trap_leave_def andthen_def km_def zoom_def gets_def ret_def getcur_def mget32_def of_bytes_def
        tf_trapno_def tf_cs_def T_SYSCALL_def T_IRQ0_def IRQ_TIMER_def IRQ_IDE_def IRQ_KBD_def IRQ_COM1_def demo_proc_def)
  then have "trap_ends 0 demo_machine Return demo_machine" using at_once by simp
  moreover have "from_user 0 demo_machine" by (simp add: from_user_def cpl_of_def mget32_def of_bytes_def tf_cs_def)
  ultimately show "\<exists>t. trap_ends 0 demo_machine Return t \<and> \<not> p_killed (procs (mk t) (cur (mk t)))" using trap_kills by blast
next
  have c: "cpl_of 0 tick_machine = 3" by (simp add: tick_machine_def cpl_of_def mget32_def of_bytes_def tf_cs_def)
  have "\<exists>v. trap False [] [] [] True 0 tick_machine = Inr (Yield, v)"
    by (simp add: tick_machine_def trap_def irq_def andthen_def km_def zoom_def gets_def upd_def ret_def getcur_def yield_enter_def setp_def mget32_def of_bytes_def
        tf_trapno_def tf_cs_def T_SYSCALL_def T_IRQ0_def IRQ_TIMER_def demo_proc_def)
  moreover have "trap_leave True 3 demo_machine = Inr (Return, demo_machine)"
    by (simp add: trap_leave_def andthen_def km_def zoom_def gets_def ret_def getcur_def demo_proc_def)
  moreover have "cur (mk demo_machine) = cur (mk tick_machine)" by (simp add: tick_machine_def)
  ultimately have "trap_ends 0 tick_machine Return demo_machine" using yielded [of _ _ _ _ 0 tick_machine _ demo_machine] c by auto
  moreover have "from_user 0 tick_machine" using c by (simp add: from_user_def)
  ultimately show "\<exists>t. trap_ends 0 tick_machine Return t \<and> \<not> p_killed (procs (mk t) (cur (mk t)))" using trap_kills by blast
qed

theorem syscall_unknown_witness: "\<exists>t. syscall demo_machine = Inr (Back (-1), t)"
proof -
  have "0 = sint (mget32 (kram (kpages (psys (mk demo_machine)))) (p_tf (procs (mk demo_machine) (cur (mk demo_machine))) + tf_eax))"
    by (simp add: mget32_def of_bytes_def tf_eax_def demo_proc_def)
  then show ?thesis using syscall_unknown [of 0 demo_machine] by blast
qed

theorem sleep_counts_ticks_witness: "sys_sleep_round 5 0xFFFFFFFE demo_machine = Inl (Sleep Ch_ticks)"
  using sleep_counts_ticks [of demo_machine "0xFFFFFFFE" 1 5] by (simp add: demo_proc_def)

end
