(* ===== verification/Spinlock.thy ===== *)
theory Spinlock
  imports Kalloc
begin

text \<open>
  Spin locks (\<^verbatim>\<open>spinlock.c\<close>). The routines are given as the sequence of their accesses to shared memory: several processors execute
  \<^verbatim>\<open>acquire\<close> and \<^verbatim>\<open>release\<close> on one lock, and their steps interleave in any order. The exchange instruction is one step; the memory is sequentially consistent.
\<close>

section \<open>Interrupts of one processor\<close>

record cpu =
  c_if :: bool
  ncli :: int
  intena :: bool

definition pushcli :: "(cpu, unit) kop" where
  "pushcli =
     andthen (gets c_if) (\<lambda>eflags.
     andthen (upd (\<lambda>c. c\<lparr>c_if := False\<rparr>)) (\<lambda>_.
     andthen (gets ncli) (\<lambda>n.
     andthen (upd (\<lambda>c. c\<lparr>ncli := n + 1\<rparr>)) (\<lambda>_.
     if n = 0 then upd (\<lambda>c. c\<lparr>intena := eflags\<rparr>) else ret ()))))"

definition popcli :: "(cpu, unit) kop" where
  "popcli =
     andthen (gets c_if) (\<lambda>eflags.
     andthen (panic_if eflags ''popcli - interruptible'') (\<lambda>_.
     andthen (upd (\<lambda>c. c\<lparr>ncli := ncli c - 1\<rparr>)) (\<lambda>_.
     andthen (gets (\<lambda>c. c)) (\<lambda>c.
     andthen (panic_if (ncli c < 0) ''popcli'') (\<lambda>_.
     if ncli c = 0 \<and> intena c then upd (\<lambda>c. c\<lparr>c_if := True\<rparr>) else ret ())))))"

text \<open>The saved program counters along the chain of frames from \<^verbatim>\<open>ebp\<close>, at most ten, padded with zeros.\<close>

fun getcallerpcs_loop :: "nat \<Rightarrow> mem \<Rightarrow> u32 \<Rightarrow> u32 list" where
  "getcallerpcs_loop 0 m ebp = []"
| "getcallerpcs_loop (Suc n) m ebp =
     (if ebp = 0 \<or> ebp < KERNBASE \<or> ebp = 0xFFFFFFFF then []
      else mget32 m (ebp + 4) # getcallerpcs_loop n m (mget32 m ebp))"

definition getcallerpcs :: "mem \<Rightarrow> u32 \<Rightarrow> u32 list" where
  "getcallerpcs m v = (let pcs = getcallerpcs_loop 10 m (v - 8) in pcs @ replicate (10 - length pcs) 0)"

section \<open>The lock\<close>

record spinlock =
  locked :: bool
  lk_cpu :: "nat option"
  pcs :: "u32 list"

definition initlock :: "u32 list \<Rightarrow> spinlock" where
  "initlock junk = \<lparr>locked = False, lk_cpu = None, pcs = junk\<rparr>"

definition holding :: "nat \<Rightarrow> spinlock \<Rightarrow> bool" where
  "holding c lk \<longleftrightarrow> locked lk \<and> lk_cpu lk = Some c"

text \<open>
  Where a processor is: outside, at the statements of \<^verbatim>\<open>acquire\<close>, in the critical section, at the statements of \<^verbatim>\<open>release\<close>, or stopped
  in a panic.
\<close>

datatype pc =
    Outside
  | Acq_holding | Acq_xchg | Acq_cpu
  | Critical
  | Rel_holding | Rel_cpu | Rel_xchg | Rel_popcli
  | Panicked

text \<open>All processors and the lock; \<open>stack\<close> is what \<^verbatim>\<open>getcallerpcs\<close> finds on the stack of a processor.\<close>

record world =
  lk :: spinlock
  cpus :: "nat \<Rightarrow> cpu"
  at :: "nat \<Rightarrow> pc"
  stack :: "nat \<Rightarrow> u32 list"

definition goto :: "nat \<Rightarrow> pc \<Rightarrow> world \<Rightarrow> world" where
  "goto c p w = w\<lparr>at := (at w)(c := p)\<rparr>"

definition run_cpu :: "nat \<Rightarrow> (cpu, unit) kop \<Rightarrow> pc \<Rightarrow> world \<Rightarrow> world" where
  "run_cpu c f p w = (case f (cpus w c) of
       Inl _ \<Rightarrow> goto c Panicked w
     | Inr (_, k) \<Rightarrow> goto c p (w\<lparr>cpus := (cpus w)(c := k)\<rparr>))"

text \<open>The next statement of \<^verbatim>\<open>acquire\<close> on processor \<open>c\<close>.\<close>

definition acquire_step :: "nat \<Rightarrow> world \<Rightarrow> world" where
  "acquire_step c w = (case at w c of
       Outside \<Rightarrow> run_cpu c pushcli Acq_holding w
     | Acq_holding \<Rightarrow> goto c (if holding c (lk w) then Panicked else Acq_xchg) w
     | Acq_xchg \<Rightarrow>
         if locked (lk w) then w
         else goto c Acq_cpu (w\<lparr>lk := (lk w)\<lparr>locked := True\<rparr>\<rparr>)
     | Acq_cpu \<Rightarrow> goto c Critical (w\<lparr>lk := (lk w)\<lparr>lk_cpu := Some c, pcs := stack w c\<rparr>\<rparr>)
     | _ \<Rightarrow> w)"

text \<open>The next statement of \<^verbatim>\<open>release\<close> on processor \<open>c\<close>, which it calls from the critical section.\<close>

definition release_step :: "nat \<Rightarrow> world \<Rightarrow> world" where
  "release_step c w = (case at w c of
       Critical \<Rightarrow> goto c Rel_holding w
     | Rel_holding \<Rightarrow> goto c (if \<not> holding c (lk w) then Panicked else Rel_cpu) w
     | Rel_cpu \<Rightarrow> goto c Rel_xchg (w\<lparr>lk := (lk w)\<lparr>pcs := (pcs (lk w))[0 := 0], lk_cpu := None\<rparr>\<rparr>)
     | Rel_xchg \<Rightarrow> goto c Rel_popcli (w\<lparr>lk := (lk w)\<lparr>locked := False\<rparr>\<rparr>)
     | Rel_popcli \<Rightarrow> run_cpu c popcli Outside w
     | _ \<Rightarrow> w)"

text \<open>A step of one processor: the two routines alternate.\<close>

definition cpu_step :: "nat \<Rightarrow> world \<Rightarrow> world" where
  "cpu_step c w = (if at w c \<in> {Outside, Acq_holding, Acq_xchg, Acq_cpu} then acquire_step c w else release_step c w)"

fun run :: "nat list \<Rightarrow> world \<Rightarrow> world" where
  "run [] w = w"
| "run (c # cs) w = run cs (cpu_step c w)"

text \<open>The start: the lock is free and every processor is outside, holding no other lock, with interrupts on or off.\<close>

definition start :: "world \<Rightarrow> bool" where
  "start w \<longleftrightarrow> \<not> locked (lk w) \<and> lk_cpu (lk w) = None \<and> (\<forall>c. at w c = Outside \<and> ncli (cpus w c) = 0)"

section \<open>Invariant\<close>

definition owning :: "pc set" where
  "owning = {Acq_cpu, Critical, Rel_holding, Rel_cpu, Rel_xchg}"

definition named :: "pc set" where
  "named = {Critical, Rel_holding, Rel_cpu}"

text \<open>The owner of the lock, as the positions of the processors, the lock word and the name in the lock agree on it.\<close>

definition owned_by :: "nat option \<Rightarrow> world \<Rightarrow> bool" where
  "owned_by own w \<longleftrightarrow>
     locked (lk w) = (own \<noteq> None) \<and>
     (\<forall>c. (at w c \<in> owning) = (own = Some c)) \<and>
     (\<forall>c. (at w c \<in> named) = (lk_cpu (lk w) = Some c))"

text \<open>A processor with the interrupt flag \<open>f\<close> outside has interrupts off everywhere else, and has not panicked.\<close>

definition cpu_ok :: "bool \<Rightarrow> pc \<Rightarrow> cpu \<Rightarrow> bool" where
  "cpu_ok f p k \<longleftrightarrow> p \<noteq> Panicked \<and>
     (if p = Outside then ncli k = 0 \<and> c_if k = f else ncli k = 1 \<and> \<not> c_if k \<and> intena k = f)"

definition lock_inv :: "(nat \<Rightarrow> bool) \<Rightarrow> world \<Rightarrow> bool" where
  "lock_inv F w \<longleftrightarrow> (\<exists>own. owned_by own w) \<and> (\<forall>c. cpu_ok (F c) (at w c) (cpus w c))"

lemma lock_inv_start: "start w \<Longrightarrow> lock_inv (\<lambda>c. c_if (cpus w c)) w"
  by (auto simp: start_def lock_inv_def owned_by_def cpu_ok_def owning_def named_def intro!: exI [of _ None])

lemma pushcli_run: "ncli k = 0 \<Longrightarrow> pushcli k = Inr ((), k\<lparr>c_if := False, ncli := 1, intena := c_if k\<rparr>)"
  by (simp add: pushcli_def andthen_def gets_def upd_def ret_def)

lemma popcli_run: "ncli k = 1 \<Longrightarrow> \<not> c_if k \<Longrightarrow> popcli k = Inr ((), k\<lparr>ncli := 0, c_if := intena k\<rparr>)"
  by (cases "intena k") (simp_all add: popcli_def andthen_def gets_def upd_def ret_def panic_if_def)

lemma holding_named: "owned_by own w \<Longrightarrow> holding c (lk w) \<longleftrightarrow> at w c \<in> named"
  unfolding owned_by_def holding_def owning_def named_def by auto

definition next_owner :: "nat \<Rightarrow> nat option \<Rightarrow> world \<Rightarrow> nat option" where
  "next_owner c own w = (if at w c = Acq_xchg \<and> own = None then Some c else if at w c = Rel_xchg then None else own)"

lemma owned_by_step:
  assumes o: "owned_by own w" and k: "cpu_ok f (at w c) (cpus w c)"
  shows "owned_by (next_owner c own w) (cpu_step c w)"
proof -
  note defs = cpu_step_def acquire_step_def release_step_def run_cpu_def goto_def next_owner_def
  have l: "locked (lk w) = (own \<noteq> None)" and own: "\<And>d. (at w d \<in> owning) = (own = Some d)"
    and nm: "\<And>d. (at w d \<in> named) = (lk_cpu (lk w) = Some d)"
    using o by (auto simp: owned_by_def)
  have h: "holding c (lk w) \<longleftrightarrow> at w c \<in> named" using o by (rule holding_named)
  show ?thesis
    unfolding owned_by_def
  proof (intro conjI allI)
    show "locked (lk (cpu_step c w)) = (next_owner c own w \<noteq> None)"
      using l own [of c] k by (cases "at w c") (auto simp: defs owning_def cpu_ok_def pushcli_run popcli_run h named_def)
    show "(at (cpu_step c w) d \<in> owning) = (next_owner c own w = Some d)" for d
      using l own [of c] own [of d] k
      by (cases "at w c"; cases "d = c") (auto simp: defs owning_def cpu_ok_def pushcli_run popcli_run h named_def)
    show "(at (cpu_step c w) d \<in> named) = (lk_cpu (lk (cpu_step c w)) = Some d)" for d
      using l nm [of c] nm [of d] k own [of c] own [of d]
      by (cases "at w c"; cases "d = c") (auto simp: defs owning_def cpu_ok_def pushcli_run popcli_run h named_def)
  qed
qed

lemma cpu_ok_step:
  assumes o: "owned_by own w" and k: "cpu_ok f (at w d) (cpus w d)"
  shows "cpu_ok f (at (cpu_step c w) d) (cpus (cpu_step c w) d)"
proof -
  have h: "holding c (lk w) \<longleftrightarrow> at w c \<in> named" using o by (rule holding_named)
  show ?thesis
    using k h
    by (cases "at w c"; cases "d = c")
      (auto simp: cpu_step_def acquire_step_def release_step_def run_cpu_def goto_def cpu_ok_def pushcli_run popcli_run named_def
        split: sum.splits)
qed

lemma lock_inv_step: "lock_inv F w \<Longrightarrow> lock_inv F (cpu_step c w)"
  unfolding lock_inv_def using owned_by_step cpu_ok_step by blast

lemma lock_inv_run: "lock_inv F w \<Longrightarrow> lock_inv F (run cs w)"
  by (induction cs arbitrary: w) (auto simp: lock_inv_step)

section \<open>Progress\<close>

lemma run_append: "run (cs @ ds) w = run ds (run cs w)"
  by (induction cs arbitrary: w) simp_all

text \<open>The position after a step, for a processor that is not kept waiting; and the steps from there to the critical section.\<close>

fun next_pc :: "pc \<Rightarrow> pc" where
  "next_pc Outside = Acq_holding"
| "next_pc Acq_holding = Acq_xchg"
| "next_pc Acq_xchg = Acq_cpu"
| "next_pc Acq_cpu = Critical"
| "next_pc Critical = Rel_holding"
| "next_pc Rel_holding = Rel_cpu"
| "next_pc Rel_cpu = Rel_xchg"
| "next_pc Rel_xchg = Rel_popcli"
| "next_pc Rel_popcli = Outside"
| "next_pc Panicked = Panicked"

fun steps_to_critical :: "pc \<Rightarrow> nat" where
  "steps_to_critical Critical = 0"
| "steps_to_critical Acq_cpu = 1"
| "steps_to_critical Acq_xchg = 2"
| "steps_to_critical Acq_holding = 3"
| "steps_to_critical Outside = 4"
| "steps_to_critical Rel_popcli = 5"
| "steps_to_critical Rel_xchg = 6"
| "steps_to_critical Rel_cpu = 7"
| "steps_to_critical Rel_holding = 8"
| "steps_to_critical Panicked = 9"

fun steps_to_free :: "pc \<Rightarrow> nat" where
  "steps_to_free Rel_xchg = 1"
| "steps_to_free Rel_cpu = 2"
| "steps_to_free Rel_holding = 3"
| "steps_to_free Critical = 4"
| "steps_to_free Acq_cpu = 5"
| "steps_to_free _ = 0"

lemma at_step:
  assumes "owned_by own w" and "cpu_ok f (at w c) (cpus w c)" and "at w c = Acq_xchg \<Longrightarrow> own = None"
  shows "at (cpu_step c w) c = next_pc (at w c)"
proof -
  have h: "holding c (lk w) \<longleftrightarrow> at w c \<in> named" using assms(1) by (rule holding_named)
  have l: "locked (lk w) = (own \<noteq> None)" using assms(1) by (simp add: owned_by_def)
  show ?thesis
    using assms(2,3) h l
    by (cases "at w c")
      (auto simp: cpu_step_def acquire_step_def release_step_def run_cpu_def goto_def cpu_ok_def pushcli_run popcli_run named_def)
qed

lemma reach_critical:
  assumes "owned_by own w" and "cpu_ok f (at w c) (cpus w c)" and "own = None \<or> own = Some c"
  shows "\<exists>more. at (run more w) c = Critical"
  using assms
proof (induction "steps_to_critical (at w c)" arbitrary: w own rule: less_induct)
  case less
  show ?case
  proof (cases "at w c = Critical")
    case True
    then show ?thesis by (intro exI [of _ "[]"]) simp
  next
    case False
    have x: "own = None" if "at w c = Acq_xchg"
      using less.prems(1,3) that by (auto simp: owned_by_def owning_def dest: spec [of _ c])
    note n = at_step [OF less.prems(1,2) x]
    have "steps_to_critical (at (cpu_step c w) c) < steps_to_critical (at w c)"
      using n False less.prems(2) by (cases "at w c") (auto simp: cpu_ok_def)
    moreover have "owned_by (next_owner c own w) (cpu_step c w)" using less.prems(1,2) by (rule owned_by_step)
    moreover have "cpu_ok f (at (cpu_step c w) c) (cpus (cpu_step c w) c)" using less.prems(1,2) by (rule cpu_ok_step)
    moreover have "next_owner c own w = None \<or> next_owner c own w = Some c" using less.prems(3) by (auto simp: next_owner_def)
    ultimately obtain more where "at (run more (cpu_step c w)) c = Critical" using less.hyps by blast
    then show ?thesis by (intro exI [of _ "c # more"]) simp
  qed
qed

lemma reach_free:
  assumes "owned_by (Some d) w" and "\<forall>c. cpu_ok (F c) (at w c) (cpus w c)"
  shows "\<exists>more. owned_by None (run more w) \<and> (\<forall>c. cpu_ok (F c) (at (run more w) c) (cpus (run more w) c))"
  using assms
proof (induction "steps_to_free (at w d)" arbitrary: w rule: less_induct)
  case less
  have o: "at w d \<in> owning" using less.prems(1) by (auto simp: owned_by_def)
  let ?v = "cpu_step d w"
  have v: "owned_by (next_owner d (Some d) w) ?v" "\<forall>c. cpu_ok (F c) (at ?v c) (cpus ?v c)"
    using less.prems owned_by_step cpu_ok_step by blast+
  show ?case
  proof (cases "at w d = Rel_xchg")
    case True
    then show ?thesis using v by (intro exI [of _ "[d]"]) (simp add: next_owner_def)
  next
    case False
    then have "steps_to_free (at ?v d) < steps_to_free (at w d)"
      using at_step [OF less.prems(1) spec [OF less.prems(2)], of d] o by (cases "at w d") (auto simp: owning_def)
    moreover have "next_owner d (Some d) w = Some d" using False by (simp add: next_owner_def)
    ultimately obtain more where "owned_by None (run more ?v) \<and> (\<forall>c. cpu_ok (F c) (at (run more ?v) c) (cpus (run more ?v) c))"
      using less.hyps [of ?v] v by metis
    then show ?thesis by (intro exI [of _ "d # more"]) simp
  qed
qed

lemma inv_progress:
  assumes "lock_inv F w"
  shows "\<exists>more. at (run more w) c = Critical"
proof -
  obtain own where o: "owned_by own w" and k: "\<forall>c. cpu_ok (F c) (at w c) (cpus w c)" using assms by (auto simp: lock_inv_def)
  obtain ds where d: "owned_by None (run ds w)" "cpu_ok (F c) (at (run ds w) c) (cpus (run ds w) c)"
  proof (cases own)
    case None
    then show ?thesis using that [of "[]"] o k by simp
  next
    case (Some d)
    then show ?thesis using reach_free [of d w F] o k that by blast
  qed
  obtain more where "at (run more (run ds w)) c = Critical" using reach_critical [OF d] by blast
  then show ?thesis by (intro exI [of _ "ds @ more"]) (simp add: run_append)
qed

section \<open>Properties\<close>

text \<open>
  C15: Mutual exclusion: in every interleaving of the steps of the processors, two different processors are never both in the critical section, and the one that is there
  is the one that \<^verbatim>\<open>holding\<close> reports.
\<close>

theorem lock_mutual_exclusion:
  assumes "start w" and "at (run cs w) c = Critical"
  shows "(at (run cs w) d = Critical \<longleftrightarrow> d = c) \<and> (holding d (lk (run cs w)) \<longleftrightarrow> d = c)"
proof -
  obtain own where o: "owned_by own (run cs w)"
    using lock_inv_run [OF lock_inv_start [OF assms(1)]] by (auto simp: lock_inv_def)
  then have own: "\<And>e. (at (run cs w) e \<in> owning) = (own = Some e)" and nm: "\<And>e. (at (run cs w) e \<in> named) = (lk_cpu (lk (run cs w)) = Some e)"
    by (auto simp: owned_by_def)
  show ?thesis
    using own [of c] own [of d] nm [of c] nm [of d] assms(2) holding_named [OF o, of d] by (auto simp: owning_def named_def)
qed

text \<open>
  C17: None of the panics of \<^verbatim>\<open>acquire\<close>, \<^verbatim>\<open>release\<close> and \<^verbatim>\<open>popcli\<close> is reached; interrupts are off from \<^verbatim>\<open>pushcli\<close> to
  \<^verbatim>\<open>popcli\<close>, and outside they are as they were at the start.
\<close>

theorem lock_no_panic:
  assumes "start w"
  shows "at (run cs w) c \<noteq> Panicked \<and>
    (if at (run cs w) c = Outside then c_if (cpus (run cs w) c) = c_if (cpus w c) else \<not> c_if (cpus (run cs w) c))"
proof -
  have "cpu_ok (c_if (cpus w c)) (at (run cs w) c) (cpus (run cs w) c)"
    using lock_inv_run [OF lock_inv_start [OF assms]] by (auto simp: lock_inv_def)
  then show ?thesis by (auto simp: cpu_ok_def split: if_splits)
qed

text \<open>
  C16: The lock cannot be blocked: whatever the processors have done so far, there are further steps that bring any given processor
  into the critical section.
\<close>

theorem lock_available:
  assumes "start w"
  shows "\<exists>more. at (run (cs @ more) w) c = Critical"
  using inv_progress [OF lock_inv_run [OF lock_inv_start [OF assms]]] by (simp add: run_append)

definition two_cpus :: world where
  "two_cpus = \<lparr>lk = initlock (replicate 10 0), cpus = (\<lambda>_. \<lparr>c_if = True, ncli = 0, intena = False\<rparr>), at = (\<lambda>_. Outside), stack = (\<lambda>_. replicate 10 0)\<rparr>"

lemma two_cpus_start: "start two_cpus"
  by (simp add: start_def two_cpus_def initlock_def)

theorem lock_mutual_exclusion_witness:
  "at (run [0, 1, 0, 1, 0, 1, 0, 1] two_cpus) 1 \<noteq> Critical"
proof -
  have "at (run [0, 1, 0, 1, 0, 1, 0, 1] two_cpus) 0 = Critical"
    by (simp add: cpu_step_def acquire_step_def run_cpu_def goto_def pushcli_run holding_def two_cpus_def initlock_def)
  then show ?thesis using lock_mutual_exclusion [OF two_cpus_start, of "[0, 1, 0, 1, 0, 1, 0, 1]" 0 1] by simp
qed

theorem lock_no_panic_witness: "at (run [0, 1, 0, 1] two_cpus) 0 \<noteq> Panicked"
  using lock_no_panic [OF two_cpus_start, of "[0, 1, 0, 1]" 0] by simp

theorem lock_available_witness: "\<exists>more. at (run ([0, 1, 0, 1] @ more) two_cpus) 1 = Critical"
  by (rule lock_available [OF two_cpus_start])

end
