(* ===== verification/Sh.thy ===== *)
theory Sh
  imports Prelude "HOL-Library.Sublist"
begin

text \<open>
  The shell's parser (\<^verbatim>\<open>sh.c\<close>). The command line is the list of its characters before the NUL; a pointer into it is the
  suffix it points to, so that the end \<^verbatim>\<open>es\<close> is the empty list. \<^verbatim>\<open>panic\<close> is an error result. The parser functions that call each other
  take fuel, and running out of it is an error of its own, shown not to occur. \<^verbatim>\<open>malloc\<close> is taken to succeed, as the code does.
\<close>

section \<open>Tokens\<close>

definition whitespace :: string where
  "whitespace = [CHR 0x20, CHR 0x09, CHR 0x0D, CHR 0x0A, CHR 0x0B]"

definition symbols :: string where
  "symbols = ''<|>&;()''"

definition MAXARGS :: nat where "MAXARGS = 10"

abbreviation is_white :: "char \<Rightarrow> bool" where "is_white c \<equiv> c \<in> set whitespace"

definition is_word :: "char \<Rightarrow> bool" where
  "is_word c \<longleftrightarrow> c \<notin> set whitespace \<and> c \<notin> set symbols"

definition skip_white :: "string \<Rightarrow> string" where
  "skip_white s = dropWhile is_white s"

definition NUL :: char where "NUL = CHR 0x00"

text \<open>The switch of \<^verbatim>\<open>gettoken\<close> at the start of a token: what it returns, and the end of the token.\<close>

fun token_at :: "string \<Rightarrow> char \<times> string" where
  "token_at [] = (NUL, [])"
| "token_at (c # cs) =
     (if c \<in> set ''|();&<'' then (c, cs)
      else if c = CHR ''>'' then (if cs \<noteq> [] \<and> hd cs = CHR ''>'' then (CHR ''+'', tl cs) else (c, cs))
      else (CHR ''a'', dropWhile is_word (c # cs)))"

definition gettoken :: "string \<Rightarrow> char \<times> string \<times> string \<times> string" where
  "gettoken s = (let q = skip_white s; (tok, eq) = token_at q in (tok, q, eq, skip_white eq))"

definition peek :: "string \<Rightarrow> string \<Rightarrow> bool \<times> string" where
  "peek s toks = (let s = skip_white s in (s \<noteq> [] \<and> hd s \<in> set toks, s))"

section \<open>Commands\<close>

text \<open>A string within the command line is a pair of pointers, to its start and behind its end.\<close>

type_synonym slice = "string \<times> string"

definition slice_text :: "slice \<Rightarrow> string" where
  "slice_text = (\<lambda>(q, eq). take (length q - length eq) q)"

datatype mode = RDONLY | WRONLY_CREATE

datatype cmd =
    EXEC "slice list"
  | REDIR cmd slice mode nat
  | PIPE cmd cmd
  | LIST cmd cmd
  | BACK cmd

text \<open>The constructors.\<close>

definition execcmd :: cmd where [simp]: "execcmd = EXEC []"
definition redircmd :: "cmd \<Rightarrow> slice \<Rightarrow> mode \<Rightarrow> nat \<Rightarrow> cmd" where [simp]: "redircmd c f m fd = REDIR c f m fd"
definition pipecmd :: "cmd \<Rightarrow> cmd \<Rightarrow> cmd" where [simp]: "pipecmd l r = PIPE l r"
definition listcmd :: "cmd \<Rightarrow> cmd \<Rightarrow> cmd" where [simp]: "listcmd l r = LIST l r"
definition backcmd :: "cmd \<Rightarrow> cmd" where [simp]: "backcmd c = BACK c"

datatype perr = Panic_sh string | Out_of_fuel

section \<open>Parsing\<close>

lemma skip_white_idem [simp]: "skip_white (skip_white s) = skip_white s"
  by (simp add: skip_white_def)

lemma skip_white_le: "length (skip_white s) \<le> length s"
  by (simp add: skip_white_def length_dropWhile_le)

lemma token_at_less: "s \<noteq> [] \<Longrightarrow> hd s \<notin> set whitespace \<Longrightarrow> length (snd (token_at s)) < length s"
  by (cases s) (auto simp: is_word_def symbols_def length_dropWhile_le less_Suc_eq_le)

lemma skip_white_hd: "skip_white s \<noteq> [] \<Longrightarrow> hd (skip_white s) \<notin> set whitespace"
  unfolding skip_white_def by (rule hd_dropWhile)

lemma gettoken_less: "gettoken s = (tok, q, eq, r) \<Longrightarrow> skip_white s \<noteq> [] \<Longrightarrow> length r < length s"
  using token_at_less [of "skip_white s"] skip_white_hd [of s] skip_white_le [of s] skip_white_le [of eq]
  by (cases "token_at (skip_white s)") (auto simp: gettoken_def Let_def)

lemma gettoken_less': "gettoken s = (tok, q, eq, r) \<Longrightarrow> tok \<noteq> NUL \<Longrightarrow> length r < length s"
  using gettoken_less [of s tok q eq r] by (cases "skip_white s = []") (auto simp: gettoken_def)

text \<open>A word of the line: its start is a pointer into the line, and its end is the first character that does not belong to it.\<close>

definition word_at :: "string \<Rightarrow> slice \<Rightarrow> bool" where
  "word_at s = (\<lambda>(q, eq). suffix q s \<and> q \<noteq> [] \<and> is_word (hd q) \<and> eq = dropWhile is_word q)"

lemma word_at_mono: "word_at s f \<Longrightarrow> suffix s t \<Longrightarrow> word_at t f"
  by (auto simp: word_at_def intro: suffix_order.trans)

lemma skip_white_suffix: "suffix (skip_white s) s"
  by (simp add: skip_white_def suffix_dropWhile)

lemma peek_suffix: "peek s toks = (p, r) \<Longrightarrow> suffix r s"
  by (auto simp: peek_def Let_def skip_white_suffix)

lemma peek_True: "peek s toks = (True, r) \<Longrightarrow> skip_white r \<noteq> []"
  by (auto simp: peek_def Let_def)

lemma token_at_suffix: "suffix (snd (token_at s)) s"
  by (cases s) (auto simp: suffix_dropWhile suffix_ConsI suffix_tl intro: suffix_order.trans)

lemma gettoken_suffix: "gettoken s = (tok, q, eq, r) \<Longrightarrow> suffix r s"
  using token_at_suffix [of "skip_white s"] skip_white_suffix [of s] skip_white_suffix [of eq]
  by (cases "token_at (skip_white s)") (auto simp: gettoken_def Let_def intro: suffix_order.trans)

lemma gettoken_le: "gettoken s = (tok, q, eq, r) \<Longrightarrow> length r \<le> length s"
  by (rule suffix_length_le [OF gettoken_suffix])

lemma peek_gettoken_less: "(True, s1) = peek s toks \<Longrightarrow> (tok, q, eq, r) = gettoken s1 \<Longrightarrow> length r < length s"
  using gettoken_less [of s1 tok q eq r] skip_white_le [of s] by (auto simp: peek_def Let_def)

lemma peek_gettoken_less': "(p, s1) = peek s toks \<Longrightarrow> (tok, q, eq, r) = gettoken s1 \<Longrightarrow> tok \<noteq> NUL \<Longrightarrow> length r < length s"
  using gettoken_less' [of s1 tok q eq r] skip_white_le [of s] by (auto simp: peek_def Let_def)

lemma peek_gettoken2_less:
  "(True, s1) = peek s toks \<Longrightarrow> (tok, q, eq, s2) = gettoken s1 \<Longrightarrow> (tok', q', eq', r) = gettoken s2 \<Longrightarrow> length r < length s"
  using peek_gettoken_less [of s1 s toks tok q eq s2] gettoken_le [of s2 tok' q' eq' r] by simp

lemma token_at_word: "token_at s = (CHR ''a'', eq) \<Longrightarrow> s \<noteq> [] \<Longrightarrow> hd s \<notin> set whitespace \<Longrightarrow> is_word (hd s) \<and> eq = dropWhile is_word s"
  by (cases s) (auto simp: is_word_def symbols_def split: if_splits)

lemma gettoken_word:
  assumes "gettoken s = (CHR ''a'', q, eq, r)"
  shows "word_at s (q, eq)"
proof -
  have q: "q = skip_white s" and t: "token_at q = (CHR ''a'', eq)"
    using assms by (auto simp: gettoken_def Let_def split: prod.splits)
  have "q \<noteq> []" using t by (auto simp: NUL_def)
  then show ?thesis
    using token_at_word [OF t] skip_white_hd [of s] skip_white_suffix [of s] q by (simp add: word_at_def)
qed

text \<open>The redirections in the order in which \<^verbatim>\<open>parseredirs\<close> wraps them around its command.\<close>

type_synonym redir = "slice \<times> mode \<times> nat"

definition redir_of :: "char \<Rightarrow> slice \<Rightarrow> redir" where
  "redir_of tok f = (if tok = CHR ''<'' then (f, RDONLY, 0) else (f, WRONLY_CREATE, 1))"

text \<open>Redirections are of the standard input or the standard output.\<close>

definition std_redir :: "mode \<Rightarrow> nat \<Rightarrow> bool" where
  "std_redir m fd \<longleftrightarrow> fd = 0 \<and> m = RDONLY \<or> fd = 1 \<and> m = WRONLY_CREATE"

definition redir_ok :: "string \<Rightarrow> redir \<Rightarrow> bool" where
  "redir_ok s = (\<lambda>(f, m, fd). word_at s f \<and> std_redir m fd)"

lemma redir_ok_of: "word_at s f \<Longrightarrow> redir_ok s (redir_of tok f)"
  by (simp add: redir_of_def redir_ok_def std_redir_def)

lemma redir_ok_mono: "redir_ok s x \<Longrightarrow> suffix s t \<Longrightarrow> redir_ok t x"
  by (auto simp: redir_ok_def intro: word_at_mono)

function parseredirs :: "redir list \<Rightarrow> string \<Rightarrow> perr + redir list \<times> string" where
  "parseredirs rs s =
     (case peek s ''<>'' of (p, s) \<Rightarrow>
      if \<not> p then Inr (rs, s)
      else
        case gettoken s of (tok, _, _, s) \<Rightarrow>
        case gettoken s of (tok', q, eq, s) \<Rightarrow>
        if tok' \<noteq> CHR ''a'' then Inl (Panic_sh ''missing file for redirection'')
        else parseredirs (rs @ [redir_of tok (q, eq)]) s)"
  by pat_completeness auto
termination
  by (relation "measure (\<lambda>(rs, s). length s)") (auto dest: peek_gettoken2_less)

declare parseredirs.simps [simp del]

definition wrap :: "cmd \<Rightarrow> redir list \<Rightarrow> cmd" where
  "wrap c rs = foldl (\<lambda>c (f, m, fd). redircmd c f m fd) c rs"

lemma parseredirs_ok:
  "parseredirs rs s = Inr (rs', r) \<Longrightarrow> suffix r s \<and> (\<forall>x \<in> set rs'. x \<in> set rs \<or> redir_ok s x)"
proof (induction rs s rule: parseredirs.induct)
  case (1 rs s)
  obtain p s1 where p: "peek s ''<>'' = (p, s1)" by fastforce
  show ?case
  proof (cases p)
    case False
    then show ?thesis using 1 p peek_suffix [OF p] by (simp add: parseredirs.simps [of rs s])
  next
    case True
    obtain tok q0 e0 s2 where g: "gettoken s1 = (tok, q0, e0, s2)" by (cases "gettoken s1") auto
    obtain tok' q eq s3 where g': "gettoken s2 = (tok', q, eq, s3)" by (cases "gettoken s2") auto
    have s: "suffix s1 s" "suffix s2 s1" "suffix s3 s2" using peek_suffix [OF p] gettoken_suffix [OF g] gettoken_suffix [OF g'] .
    have t: "tok' = CHR ''a''" and r: "parseredirs (rs @ [redir_of tok (q, eq)]) s3 = Inr (rs', r)"
      using 1(2) True by (auto simp: parseredirs.simps [of rs s] p g g' split: if_splits)
    have IH: "suffix r s3 \<and> (\<forall>x \<in> set rs'. x \<in> set (rs @ [redir_of tok (q, eq)]) \<or> redir_ok s3 x)"
      using 1(1) [OF p [symmetric] _ g [symmetric] refl refl g' [symmetric] refl refl _ r] True t by simp
    have w: "redir_ok s2 (redir_of tok (q, eq))" using gettoken_word g' t redir_ok_of by blast
    have s2: "suffix s2 s" using s by (blast intro: suffix_order.trans)
    have s3: "suffix s3 s" using s(3) s2 by (rule suffix_order.trans)
    show ?thesis
    proof (intro conjI ballI)
      show "suffix r s" using IH s3 by (blast intro: suffix_order.trans)
    next
      fix x assume "x \<in> set rs'"
      then have "x = redir_of tok (q, eq) \<or> x \<in> set rs \<or> redir_ok s3 x" using IH by auto
      then show "x \<in> set rs \<or> redir_ok s x"
        using redir_ok_mono [OF w s2] redir_ok_mono [OF _ s3] by blast
    qed
  qed
qed

text \<open>
  The loop of \<^verbatim>\<open>parseexec\<close>: the arguments so far, and the redirections around the command, which \<^verbatim>\<open>parseredirs\<close> goes on to wrap
  while the arguments are stored in the command inside.
\<close>

function parseargs :: "slice list \<Rightarrow> redir list \<Rightarrow> string \<Rightarrow> perr + cmd \<times> string" where
  "parseargs args rs s =
     (case peek s ''|)&;'' of (p, s) \<Rightarrow>
      if p then Inr (wrap (EXEC args) rs, s)
      else
        case gettoken s of (tok, q, eq, s') \<Rightarrow>
        if tok = NUL then Inr (wrap (EXEC args) rs, s')
        else if tok \<noteq> CHR ''a'' then Inl (Panic_sh ''syntax'')
        else if Suc (length args) \<ge> MAXARGS then Inl (Panic_sh ''too many args'')
        else
          case parseredirs rs s' of
            Inl e \<Rightarrow> Inl e
          | Inr (rs, s'') \<Rightarrow> parseargs (args @ [(q, eq)]) rs s'')"
  by pat_completeness auto
termination
  by (relation "measure (\<lambda>(args, rs, s). length s)")
    (auto dest!: parseredirs_ok suffix_length_le dest: peek_gettoken_less' simp del: length_greater_0_conv)

declare parseargs.simps [simp del]

function parsebacks :: "cmd \<Rightarrow> string \<Rightarrow> cmd \<times> string" where
  "parsebacks c s =
     (case peek s ''&'' of (p, s) \<Rightarrow>
      if \<not> p then (c, s)
      else case gettoken s of (_, _, _, s) \<Rightarrow> parsebacks (backcmd c) s)"
  by pat_completeness auto
termination
  by (relation "measure (\<lambda>(c, s). length s)") (auto dest: peek_gettoken_less)

declare parsebacks.simps [simp del]

fun parseline :: "nat \<Rightarrow> string \<Rightarrow> perr + cmd \<times> string"
  and parsepipe :: "nat \<Rightarrow> string \<Rightarrow> perr + cmd \<times> string"
  and parseexec :: "nat \<Rightarrow> string \<Rightarrow> perr + cmd \<times> string"
  and parseblock :: "nat \<Rightarrow> string \<Rightarrow> perr + cmd \<times> string" where
  "parseline 0 s = Inl Out_of_fuel"
| "parseline (Suc n) s =
     (case parsepipe n s of
        Inl e \<Rightarrow> Inl e
      | Inr (c, s) \<Rightarrow>
          case parsebacks c s of (c, s) \<Rightarrow>
          case peek s '';'' of (p, s) \<Rightarrow>
          if \<not> p then Inr (c, s)
          else
            case gettoken s of (_, _, _, s) \<Rightarrow>
            case parseline n s of
              Inl e \<Rightarrow> Inl e
            | Inr (d, s) \<Rightarrow> Inr (listcmd c d, s))"
| "parsepipe 0 s = Inl Out_of_fuel"
| "parsepipe (Suc n) s =
     (case parseexec n s of
        Inl e \<Rightarrow> Inl e
      | Inr (c, s) \<Rightarrow>
          case peek s ''|'' of (p, s) \<Rightarrow>
          if \<not> p then Inr (c, s)
          else
            case gettoken s of (_, _, _, s) \<Rightarrow>
            case parsepipe n s of
              Inl e \<Rightarrow> Inl e
            | Inr (d, s) \<Rightarrow> Inr (pipecmd c d, s))"
| "parseexec 0 s = Inl Out_of_fuel"
| "parseexec (Suc n) s =
     (case peek s ''('' of (p, s) \<Rightarrow>
      if p then parseblock n s
      else
        case parseredirs [] s of
          Inl e \<Rightarrow> Inl e
        | Inr (rs, s) \<Rightarrow> parseargs [] rs s)"
| "parseblock 0 s = Inl Out_of_fuel"
| "parseblock (Suc n) s =
     (case peek s ''('' of (p, s) \<Rightarrow>
      if \<not> p then Inl (Panic_sh ''parseblock'')
      else
        case gettoken s of (_, _, _, s) \<Rightarrow>
        case parseline n s of
          Inl e \<Rightarrow> Inl e
        | Inr (c, s) \<Rightarrow>
            case peek s '')'' of (p, s) \<Rightarrow>
            if \<not> p then Inl (Panic_sh ''syntax - missing )'')
            else
              case gettoken s of (_, _, _, s) \<Rightarrow>
              case parseredirs [] s of
                Inl e \<Rightarrow> Inl e
              | Inr (rs, s) \<Rightarrow> Inr (wrap c rs, s))"

text \<open>
  \<^verbatim>\<open>nulterminate\<close> on the buffer that holds the line and its NUL; a pointer is at the distance from the start that its
  suffix leaves of the line's length \<open>n\<close>.
\<close>

definition put_nul :: "nat \<Rightarrow> string \<Rightarrow> slice \<Rightarrow> string" where
  "put_nul n buf f = buf[n - length (snd f) := NUL]"

fun nulterminate :: "nat \<Rightarrow> cmd \<Rightarrow> string \<Rightarrow> string" where
  "nulterminate n (EXEC args) buf = foldl (put_nul n) buf args"
| "nulterminate n (REDIR c f m fd) buf = put_nul n (nulterminate n c buf) f"
| "nulterminate n (PIPE l r) buf = nulterminate n r (nulterminate n l buf)"
| "nulterminate n (LIST l r) buf = nulterminate n r (nulterminate n l buf)"
| "nulterminate n (BACK c) buf = nulterminate n c buf"

text \<open>The command and the buffer after \<^verbatim>\<open>parsecmd\<close>.\<close>

definition parsecmd :: "string \<Rightarrow> perr + cmd \<times> string" where
  "parsecmd s =
     (case parseline (4 * length s + 4) s of
        Inl e \<Rightarrow> Inl e
      | Inr (c, r) \<Rightarrow>
          case peek r [] of (_, r) \<Rightarrow>
          if r \<noteq> [] then Inl (Panic_sh ''syntax'')
          else Inr (c, nulterminate (length s) c (s @ [NUL])))"

section \<open>What the parser returns\<close>

text \<open>The strings of a command, in the order in which \<^verbatim>\<open>nulterminate\<close> ends them.\<close>

primrec slices :: "cmd \<Rightarrow> slice list" where
  "slices (EXEC args) = args"
| "slices (REDIR c f m fd) = slices c @ [f]"
| "slices (PIPE l r) = slices l @ slices r"
| "slices (LIST l r) = slices l @ slices r"
| "slices (BACK c) = slices c"

text \<open>Every \<^verbatim>\<open>argv\<close> array has room for its arguments and the null pointer behind them.\<close>

primrec argv_fits :: "cmd \<Rightarrow> bool" where
  "argv_fits (EXEC args) = (length args < MAXARGS)"
| "argv_fits (REDIR c f m fd) = argv_fits c"
| "argv_fits (PIPE l r) = (argv_fits l \<and> argv_fits r)"
| "argv_fits (LIST l r) = (argv_fits l \<and> argv_fits r)"
| "argv_fits (BACK c) = argv_fits c"

primrec redirs_std :: "cmd \<Rightarrow> bool" where
  "redirs_std (EXEC args) = True"
| "redirs_std (REDIR c f m fd) = (std_redir m fd \<and> redirs_std c)"
| "redirs_std (PIPE l r) = (redirs_std l \<and> redirs_std r)"
| "redirs_std (LIST l r) = (redirs_std l \<and> redirs_std r)"
| "redirs_std (BACK c) = redirs_std c"

definition cmd_ok :: "string \<Rightarrow> cmd \<Rightarrow> bool" where
  "cmd_ok s c \<longleftrightarrow> argv_fits c \<and> redirs_std c \<and> (\<forall>f \<in> set (slices c). word_at s f)"

lemma cmd_ok_simps [simp]:
  "cmd_ok s (EXEC args) \<longleftrightarrow> length args < MAXARGS \<and> (\<forall>f \<in> set args. word_at s f)"
  "cmd_ok s (REDIR c f m fd) \<longleftrightarrow> cmd_ok s c \<and> redir_ok s (f, m, fd)"
  "cmd_ok s (PIPE l r) \<longleftrightarrow> cmd_ok s l \<and> cmd_ok s r"
  "cmd_ok s (LIST l r) \<longleftrightarrow> cmd_ok s l \<and> cmd_ok s r"
  "cmd_ok s (BACK c) \<longleftrightarrow> cmd_ok s c"
  by (auto simp: cmd_ok_def redir_ok_def)

lemma cmd_ok_mono: "cmd_ok s c \<Longrightarrow> suffix s t \<Longrightarrow> cmd_ok t c"
  by (auto simp: cmd_ok_def intro: word_at_mono)

lemma cmd_ok_wrap [simp]: "cmd_ok s (wrap c rs) \<longleftrightarrow> cmd_ok s c \<and> (\<forall>x \<in> set rs. redir_ok s x)"
  unfolding wrap_def by (induction rs arbitrary: c) auto

text \<open>A parsing function consumes a prefix of its line, and returns a command over the line.\<close>

definition parses :: "string \<Rightarrow> perr + cmd \<times> string \<Rightarrow> bool" where
  "parses s res \<longleftrightarrow> (\<forall>c r. res = Inr (c, r) \<longrightarrow> suffix r s \<and> cmd_ok s c)"

lemma parsesI: "(\<And>c r. res = Inr (c, r) \<Longrightarrow> suffix r s \<and> cmd_ok s c) \<Longrightarrow> parses s res"
  by (simp add: parses_def)

lemma parsesD: "parses s res \<Longrightarrow> res = Inr (c, r) \<Longrightarrow> suffix r s \<and> cmd_ok s c"
  by (simp add: parses_def)

lemma parses_mono: "parses s res \<Longrightarrow> suffix s t \<Longrightarrow> parses t res"
  by (auto simp: parses_def intro: cmd_ok_mono suffix_order.trans)

lemma parses_Inl [simp]: "parses s (Inl e)"
  by (simp add: parses_def)

lemma parses_Inr [simp]: "parses s (Inr (c, r)) \<longleftrightarrow> suffix r s \<and> cmd_ok s c"
  by (simp add: parses_def)

lemma parseargs_parses:
  "\<lbrakk>length args < MAXARGS; \<forall>f \<in> set args. word_at t f; \<forall>x \<in> set rs. redir_ok t x; suffix s t\<rbrakk>
    \<Longrightarrow> parses t (parseargs args rs s)"
proof (induction args rs s rule: parseargs.induct)
  case (1 args rs s)
  obtain p s1 where p: "peek s ''|)&;'' = (p, s1)" by fastforce
  obtain tok q eq s2 where g: "gettoken s1 = (tok, q, eq, s2)" by (cases "gettoken s1") auto
  have s: "suffix s1 t" "suffix s2 t"
    using peek_suffix [OF p] gettoken_suffix [OF g] 1(5) suffix_order.trans by blast+
  show ?case
  proof (cases "\<not> p \<and> tok = CHR ''a'' \<and> Suc (length args) < MAXARGS")
    case False
    then show ?thesis using 1(2-4) s by (auto simp: parseargs.simps [of args rs s] p g)
  next
    case True
    then have w: "word_at t (q, eq)" using gettoken_word g s word_at_mono by blast
    show ?thesis
    proof (cases "parseredirs rs s2")
      case (Inl e)
      then show ?thesis using True by (simp add: parseargs.simps [of args rs s] p g NUL_def)
    next
      case (Inr x)
      obtain rs' s3 where x: "x = (rs', s3)" by fastforce
      have r: "suffix s3 s2 \<and> (\<forall>x \<in> set rs'. x \<in> set rs \<or> redir_ok s2 x)"
        using parseredirs_ok Inr x by blast
      have "parses t (parseargs (args @ [(q, eq)]) rs' s3)"
      proof (rule 1(1) [OF p [symmetric] _ g [symmetric] refl refl])
        show "\<forall>x \<in> set rs'. redir_ok t x" using r 1(4) s redir_ok_mono by blast
        show "suffix s3 t" using r s suffix_order.trans by blast
      qed (use True w 1(3) Inr x in \<open>auto simp: NUL_def\<close>)
      then show ?thesis using True Inr x by (simp add: parseargs.simps [of args rs s] p g NUL_def)
    qed
  qed
qed

lemma parsebacks_ok:
  "parsebacks c s = (c', r) \<Longrightarrow> suffix r s \<and> (cmd_ok t c \<longrightarrow> cmd_ok t c')"
proof (induction c s rule: parsebacks.induct)
  case (1 c s)
  obtain p s1 where p: "peek s ''&'' = (p, s1)" by fastforce
  obtain tok q eq s2 where g: "gettoken s1 = (tok, q, eq, s2)" by (cases "gettoken s1") auto
  show ?case
  proof (cases p)
    case True
    then have "suffix r s2 \<and> (cmd_ok t (BACK c) \<longrightarrow> cmd_ok t c')"
      using 1(1) [OF p [symmetric] _ g [symmetric] refl refl] 1(2) by (simp add: parsebacks.simps [of c s] p g)
    then show ?thesis using peek_suffix [OF p] gettoken_suffix [OF g] by (auto intro: suffix_order.trans)
  next
    case False
    then show ?thesis using 1(2) peek_suffix [OF p] by (simp add: parsebacks.simps [of c s] p)
  qed
qed

lemma parseline_step:
  assumes P: "\<And>s. parses s (parsepipe n s)" and L: "\<And>s. parses s (parseline n s)"
  shows "parses s (parseline (Suc n) s)"
proof (cases "parsepipe n s")
  case (Inr x)
  obtain c s1 where x: "x = (c, s1)" by fastforce
  obtain c' s2 where b: "parsebacks c s1 = (c', s2)" by fastforce
  obtain p s3 where p: "peek s2 '';'' = (p, s3)" by fastforce
  obtain tok q eq s4 where g: "gettoken s3 = (tok, q, eq, s4)" by (cases "gettoken s3") auto
  have "suffix s1 s" "cmd_ok s c" using parsesD [OF P] Inr x by blast+
  then have s: "suffix s3 s" "suffix s4 s" and c: "cmd_ok s c'"
    using parsebacks_ok [OF b, of s] peek_suffix [OF p] gettoken_suffix [OF g] by (auto intro: suffix_order.trans)
  show ?thesis
    using parses_mono [OF L [of s4] s(2)] s c
    by (auto simp: Inr x b p g split: sum.split)
qed simp

lemma parsepipe_step:
  assumes E: "\<And>s. parses s (parseexec n s)" and P: "\<And>s. parses s (parsepipe n s)"
  shows "parses s (parsepipe (Suc n) s)"
proof (cases "parseexec n s")
  case (Inr x)
  obtain c s1 where x: "x = (c, s1)" by fastforce
  obtain p s3 where p: "peek s1 ''|'' = (p, s3)" by fastforce
  obtain tok q eq s4 where g: "gettoken s3 = (tok, q, eq, s4)" by (cases "gettoken s3") auto
  have c: "suffix s1 s" "cmd_ok s c" using parsesD [OF E] Inr x by blast+
  then have s: "suffix s3 s" "suffix s4 s"
    using peek_suffix [OF p] gettoken_suffix [OF g] by (auto intro: suffix_order.trans)
  show ?thesis
    using parses_mono [OF P [of s4] s(2)] s c
    by (auto simp: Inr x p g split: sum.split)
qed simp

lemma parseexec_step:
  assumes B: "\<And>s. parses s (parseblock n s)"
  shows "parses s (parseexec (Suc n) s)"
proof -
  obtain p s1 where p: "peek s ''('' = (p, s1)" by fastforce
  note s1 = peek_suffix [OF p]
  show ?thesis
  proof (cases "parseredirs [] s1")
    case (Inr x)
    obtain rs s2 where x: "x = (rs, s2)" by fastforce
    have r: "suffix s2 s" "\<forall>x \<in> set rs. redir_ok s x"
      using parseredirs_ok [of "[]" s1 rs s2] Inr x s1 by (auto intro: suffix_order.trans redir_ok_mono)
    show ?thesis
      using parses_mono [OF B [of s1] s1] parseargs_parses [of "[]" s rs s2] r by (simp add: p Inr x MAXARGS_def)
  qed (use parses_mono [OF B [of s1] s1] p in simp)
qed

lemma parseblock_step:
  assumes L: "\<And>s. parses s (parseline n s)"
  shows "parses s (parseblock (Suc n) s)"
proof -
  obtain p s1 where p: "peek s ''('' = (p, s1)" by fastforce
  obtain tok q eq s2 where g: "gettoken s1 = (tok, q, eq, s2)" by (cases "gettoken s1") auto
  have s2: "suffix s2 s" using peek_suffix [OF p] gettoken_suffix [OF g] by (auto intro: suffix_order.trans)
  show ?thesis
  proof (cases "parseline n s2")
    case (Inr x)
    obtain c s3 where x: "x = (c, s3)" by fastforce
    obtain p' s4 where p': "peek s3 '')'' = (p', s4)" by fastforce
    obtain tok' q' eq' s5 where g': "gettoken s4 = (tok', q', eq', s5)" by (cases "gettoken s4") auto
    have c: "suffix s5 s" "cmd_ok s c"
      using parsesD [OF L] Inr x peek_suffix [OF p'] gettoken_suffix [OF g'] s2
      by (blast intro: suffix_order.trans cmd_ok_mono)+
    have r: "suffix s6 s \<and> (\<forall>x \<in> set rs. redir_ok s x)" if "parseredirs [] s5 = Inr (rs, s6)" for rs s6
      using parseredirs_ok [OF that] c(1) by (auto intro: suffix_order.trans redir_ok_mono)
    show ?thesis using c r by (auto simp: p g Inr x p' g' split: sum.split)
  qed (simp add: p g)
qed

lemma parser_parses:
  "parses s (parseline n s) \<and> parses s (parsepipe n s) \<and> parses s (parseexec n s) \<and> parses s (parseblock n s)"
proof (induction n arbitrary: s)
  case (Suc n)
  then show ?case using parseline_step parsepipe_step parseexec_step parseblock_step by blast
qed simp

section \<open>The parser returns\<close>

lemma parseredirs_no_fuel: "parseredirs rs s \<noteq> Inl Out_of_fuel"
  by (induction rs s rule: parseredirs.induct) (subst parseredirs.simps, auto split: prod.splits)

lemma parseargs_no_fuel: "parseargs args rs s \<noteq> Inl Out_of_fuel"
  by (induction args rs s rule: parseargs.induct)
    (subst parseargs.simps, auto split: prod.splits sum.splits simp: parseredirs_no_fuel)

text \<open>The fuel that a line needs: four calls for every character of it, and those on the way to the next character.\<close>

lemmas parse_le = suffix_length_le [OF conjunct1 [OF parsesD]]

lemma parseline_fuel_step:
  assumes P: "\<And>s. 4 * length s + 2 \<le> n \<Longrightarrow> parsepipe n s \<noteq> Inl Out_of_fuel"
    and L: "\<And>s. 4 * length s + 3 \<le> n \<Longrightarrow> parseline n s \<noteq> Inl Out_of_fuel"
    and n: "4 * length s + 3 \<le> Suc n"
  shows "parseline (Suc n) s \<noteq> Inl Out_of_fuel"
proof (cases "parsepipe n s")
  case (Inl e)
  then show ?thesis using P [of s] n by auto
next
  case (Inr x)
  obtain c s1 where x: "x = (c, s1)" by fastforce
  obtain c' s2 where b: "parsebacks c s1 = (c', s2)" by fastforce
  obtain p s3 where p: "peek s2 '';'' = (p, s3)" by fastforce
  obtain tok q eq s4 where g: "gettoken s3 = (tok, q, eq, s4)" by (cases "gettoken s3") auto
  have "length s2 \<le> length s"
    using parse_le [of s "parsepipe n s" c s1] parser_parses [of s n] Inr x suffix_length_le [of s2 s1] parsebacks_ok [OF b] by simp
  then have "parseline n s4 \<noteq> Inl Out_of_fuel" if p
    using L [of s4] n peek_gettoken_less [of s3 s2 "'';''" tok q eq s4] p g that by simp
  then show ?thesis by (auto simp: Inr x b p g split: sum.split)
qed

lemma parsepipe_fuel_step:
  assumes E: "\<And>s. 4 * length s + 1 \<le> n \<Longrightarrow> parseexec n s \<noteq> Inl Out_of_fuel"
    and P: "\<And>s. 4 * length s + 2 \<le> n \<Longrightarrow> parsepipe n s \<noteq> Inl Out_of_fuel"
    and n: "4 * length s + 2 \<le> Suc n"
  shows "parsepipe (Suc n) s \<noteq> Inl Out_of_fuel"
proof (cases "parseexec n s")
  case (Inl e)
  then show ?thesis using E [of s] n by auto
next
  case (Inr x)
  obtain c s1 where x: "x = (c, s1)" by fastforce
  obtain p s3 where p: "peek s1 ''|'' = (p, s3)" by fastforce
  obtain tok q eq s4 where g: "gettoken s3 = (tok, q, eq, s4)" by (cases "gettoken s3") auto
  have "length s1 \<le> length s"
    using parse_le [of s "parseexec n s" c s1] parser_parses [of s n] Inr x by simp
  then have "parsepipe n s4 \<noteq> Inl Out_of_fuel" if p
    using P [of s4] n peek_gettoken_less [of s3 s1 "''|''" tok q eq s4] p g that by simp
  then show ?thesis by (auto simp: Inr x p g split: sum.split)
qed

lemma parseexec_fuel_step:
  assumes B: "\<And>s. 4 * length s \<le> n \<Longrightarrow> skip_white s \<noteq> [] \<Longrightarrow> parseblock n s \<noteq> Inl Out_of_fuel"
    and n: "4 * length s + 1 \<le> Suc n"
  shows "parseexec (Suc n) s \<noteq> Inl Out_of_fuel"
proof -
  obtain p s1 where p: "peek s ''('' = (p, s1)" by fastforce
  then have "parseblock n s1 \<noteq> Inl Out_of_fuel" if p
    using B [of s1] n suffix_length_le [OF peek_suffix [OF p]] peek_True [of s "''(''" s1] that by simp
  then show ?thesis
    using parseredirs_no_fuel [of "[]" s1] by (auto simp: p parseargs_no_fuel split: sum.split)
qed

lemma parseblock_fuel_step:
  assumes L: "\<And>s. 4 * length s + 3 \<le> n \<Longrightarrow> parseline n s \<noteq> Inl Out_of_fuel"
    and n: "4 * length s \<le> Suc n"
  shows "parseblock (Suc n) s \<noteq> Inl Out_of_fuel"
proof -
  obtain p s1 where p: "peek s ''('' = (p, s1)" by fastforce
  obtain tok q eq s2 where g: "gettoken s1 = (tok, q, eq, s2)" by (cases "gettoken s1") auto
  have "parseline n s2 \<noteq> Inl Out_of_fuel" if p
    using L [of s2] n peek_gettoken_less [of s1 s "''(''" tok q eq s2] p g that by simp
  then show ?thesis
    by (auto simp: p g parseredirs_no_fuel split: sum.split prod.split)
qed

lemma parser_fuel:
  "(4 * length s + 3 \<le> n \<longrightarrow> parseline n s \<noteq> Inl Out_of_fuel) \<and>
   (4 * length s + 2 \<le> n \<longrightarrow> parsepipe n s \<noteq> Inl Out_of_fuel) \<and>
   (4 * length s + 1 \<le> n \<longrightarrow> parseexec n s \<noteq> Inl Out_of_fuel) \<and>
   (4 * length s \<le> n \<longrightarrow> skip_white s \<noteq> [] \<longrightarrow> parseblock n s \<noteq> Inl Out_of_fuel)"
proof (induction n arbitrary: s)
  case 0
  then show ?case by (auto simp: skip_white_def)
next
  case (Suc n)
  then show ?case
    using parseline_fuel_step [of n s] parsepipe_fuel_step [of n s] parseexec_fuel_step [of n s] parseblock_fuel_step [of n s]
    by blast
qed

text \<open>
  C35: \<^verbatim>\<open>parsecmd\<close> returns for every command line: the functions that call each other never run out of the fuel that the length of the
  line gives, so that the only errors are the shell's own messages.
\<close>

theorem parsecmd_returns:
  "(\<exists>c buf. parsecmd s = Inr (c, buf)) \<or> (\<exists>msg. parsecmd s = Inl (Panic_sh msg))"
proof -
  have "parsecmd s \<noteq> Inl Out_of_fuel"
    using parser_fuel [of s "4 * length s + 4"] by (auto simp: parsecmd_def split: sum.split prod.split)
  then show ?thesis by (cases "parsecmd s") (auto, metis perr.exhaust)
qed

section \<open>Ending the strings\<close>

lemma nulterminate_slices: "nulterminate n c buf = foldl (put_nul n) buf (slices c)"
  by (induction c arbitrary: buf) simp_all

lemma length_put_nuls [simp]: "length (foldl (put_nul n) buf fs) = length buf"
  by (induction fs arbitrary: buf) (simp_all add: put_nul_def)

lemma nth_put_nuls:
  "i < length buf \<Longrightarrow> foldl (put_nul n) buf fs ! i = (if i \<in> (\<lambda>f. n - length (snd f)) ` set fs then NUL else buf ! i)"
  by (induction fs arbitrary: buf) (auto simp: put_nul_def)

text \<open>The C string at a pointer into a line of length \<open>n\<close>, in the buffer.\<close>

definition cstr_at :: "nat \<Rightarrow> string \<Rightarrow> string \<Rightarrow> string" where
  "cstr_at n buf q = takeWhile (\<lambda>c. c \<noteq> NUL) (drop (n - length q) buf)"

lemma takeWhile_NUL: "NUL \<notin> set w \<Longrightarrow> takeWhile (\<lambda>c. c \<noteq> NUL) (w @ NUL # r) = w"
  by (induction w) auto

lemma drop_eq_append:
  assumes "i + length w < length xs" and "\<And>k. k < length w \<Longrightarrow> xs ! (i + k) = w ! k" and "xs ! (i + length w) = x"
  shows "drop i xs = w @ x # drop (Suc (i + length w)) xs"
proof -
  have "take (length w) (drop i xs) = w" using assms(1,2) by (intro nth_equalityI) auto
  then have "drop i xs = w @ drop (i + length w) xs" by (metis append_take_drop_id drop_drop add.commute)
  then show ?thesis using assms(1,3) by (metis Cons_nth_drop_Suc)
qed

lemma word_at_bounds:
  assumes "word_at s (q, eq)"
  shows "length eq < length q" "length q \<le> length s" "q = drop (length s - length q) s"
    "q = slice_text (q, eq) @ eq" "\<forall>c \<in> set (slice_text (q, eq)). is_word c"
    "eq = [] \<or> \<not> is_word (hd eq)"
proof -
  have q: "suffix q s" "q \<noteq> []" "is_word (hd q)" "eq = dropWhile is_word q" using assms by (auto simp: word_at_def)
  have e: "takeWhile is_word q @ eq = q" using q by simp
  have l: "length q - length eq = length (takeWhile is_word q)" using arg_cong [OF e, of length] by simp
  have t: "slice_text (q, eq) = takeWhile is_word q"
    unfolding slice_text_def prod.case l by (metis append_eq_conv_conj e)
  show "length eq < length q" using q by (cases q) (auto simp: less_Suc_eq_le length_dropWhile_le)
  show "length q \<le> length s" using q by (simp add: suffix_length_le)
  show "q = drop (length s - length q) s" using q(1) by (auto simp: suffix_def)
  show "q = slice_text (q, eq) @ eq" using e t by simp
  show "\<forall>c \<in> set (slice_text (q, eq)). is_word c" using t by (auto dest: set_takeWhileD)
  show "eq = [] \<or> \<not> is_word (hd eq)" using q(4) hd_dropWhile by metis
qed

text \<open>The character behind a word of the line, where \<^verbatim>\<open>nulterminate\<close> writes, belongs to no word.\<close>

lemma word_end_not_word:
  assumes "word_at s f" and "i = length s - length (snd f)" and "i < length s"
  shows "\<not> is_word (s ! i)"
proof -
  obtain q eq where f: "f = (q, eq)" by fastforce
  note b = word_at_bounds [OF assms(1) [unfolded f]]
  have "eq = drop (length q - length eq) q" using b(4) by (metis append_eq_conv_conj length_append add_diff_cancel_right')
  also have "\<dots> = drop i s"
    using b assms(2) f by (metis (no_types, lifting) drop_drop length_drop snd_conv Nat.add_diff_assoc2 diff_add_inverse2 le_add_diff_inverse less_imp_le_nat ordered_cancel_comm_monoid_diff_class.diff_diff_right)
  finally have "hd eq = s ! i" "eq \<noteq> []" using assms(3) by (auto simp: hd_drop_conv_nth)
  then show ?thesis using b(6) by simp
qed

text \<open>
  C34: After \<^verbatim>\<open>parsecmd\<close> every string of the command, arguments and file names alike, is a NUL-terminated string in the line's buffer
  that reads exactly the word the parser saw: a terminator is only ever written behind a word, on a character that belongs to none.
\<close>

theorem parsecmd_strings:
  assumes "parsecmd s = Inr (c, buf)" and "NUL \<notin> set s" and "f \<in> set (slices c)"
  shows "cstr_at (length s) buf (fst f) = slice_text f \<and> slice_text f \<noteq> [] \<and> (\<forall>x \<in> set (slice_text f). is_word x)"
proof -
  let ?n = "length s"
  have ok: "\<forall>f \<in> set (slices c). word_at s f" and buf: "buf = foldl (put_nul ?n) (s @ [NUL]) (slices c)"
    using assms(1) parser_parses [of s "4 * length s + 4"]
    by (auto simp: parsecmd_def nulterminate_slices cmd_ok_def split: sum.splits prod.splits if_splits)
  obtain q eq where f: "f = (q, eq)" by fastforce
  let ?w = "slice_text f"
  note b = word_at_bounds [OF ok [rule_format, OF assms(3), unfolded f], folded f]
  let ?i = "?n - length q"
  have lw: "length ?w = length q - length eq" using arg_cong [OF b(4), of length] by simp
  have len: "length buf = Suc ?n" by (simp add: buf)
  have char: "buf ! (?i + k) = ?w ! k" if "k < length ?w" for k
  proof -
    have k: "?i + k < ?n" using that lw b(1,2) by simp
    have "s ! (?i + k) = q ! k" using b(2,3) k by (metis nth_drop diff_le_self)
    also have "\<dots> = ?w ! k" using b(4) that by (metis nth_append)
    finally have s: "s ! (?i + k) = ?w ! k" .
    then have "is_word (s ! (?i + k))" using b(5) that by simp
    then have "?i + k \<notin> (\<lambda>f. ?n - length (snd f)) ` set (slices c)"
      using word_end_not_word ok k by blast
    then show ?thesis using k s by (simp add: buf nth_put_nuls nth_append)
  qed
  have stop: "buf ! (?i + length ?w) = NUL"
    using assms(3) b(1,2) lw f by (auto simp: buf nth_put_nuls intro!: rev_image_eqI)
  have "drop ?i buf = ?w @ NUL # drop (Suc (?i + length ?w)) buf"
    by (rule drop_eq_append) (use char stop b(1,2) lw len in simp_all)
  moreover have "NUL \<notin> set ?w" using assms(2) b(2,3,4) by (metis UnCI in_set_dropD set_append)
  ultimately have "cstr_at ?n buf q = ?w" by (simp add: cstr_at_def f takeWhile_NUL)
  then show ?thesis using b(1,5) lw f by auto
qed

text \<open>
  No \<^verbatim>\<open>argv\<close> array that the parser fills overflows: each holds fewer than \<^verbatim>\<open>MAXARGS\<close> arguments, which leaves room for the null pointer.
\<close>

theorem parsecmd_argv_fits: "parsecmd s = Inr (c, buf) \<Longrightarrow> argv_fits c"
  using parser_parses [of s "4 * length s + 4"]
  by (auto simp: parsecmd_def cmd_ok_def split: sum.splits prod.splits if_splits)

text \<open>The line \<^verbatim>\<open>ls>f\<close>, parsed.\<close>

lemma demo_line:
  "parsecmd ''ls>f'' = Inr (REDIR (EXEC [(''ls>f'', ''>f'')]) (''f'', []) WRONLY_CREATE 1, ''ls'' @ NUL # ''f'' @ [NUL])"
  by code_simp

theorem parsecmd_strings_witness:
  "cstr_at 4 (''ls'' @ NUL # ''f'' @ [NUL]) ''ls>f'' = ''ls''"
proof -
  have "NUL \<notin> set ''ls>f''" by (simp add: NUL_def)
  then show ?thesis using parsecmd_strings [OF demo_line, of "(''ls>f'', ''>f'')"] by (simp add: slice_text_def eval_nat_numeral)
qed

end
