(* ===== verification/Shrun.thy ===== *)
theory Shrun
  imports Sh
begin

text \<open>
  How the shell runs a command (\<^verbatim>\<open>runcmd\<close> and the loop of \<^verbatim>\<open>sh.c\<close>). A process is the tree of its system calls, with a branch for each of
  the results that the shell distinguishes. The strings of a command are the words of the line, as the parser leaves them in its buffer.
\<close>

section \<open>Processes\<close>

datatype prog =
    Exit
  | Exec "string list" prog
  | Close nat prog
  | Open string mode prog prog
  | Dup nat prog
  | Mkpipe "nat \<times> nat \<Rightarrow> prog" prog
  | Fork prog prog prog
  | Wait prog
  | Chdir string prog prog
  | Print string prog

definition panic_sh :: "string \<Rightarrow> prog" where
  "panic_sh msg = Print (msg @ [CHR 0x0A]) Exit"

definition fork1 :: "prog \<Rightarrow> prog \<Rightarrow> prog" where
  "fork1 child parent = Fork child parent (panic_sh ''fork'')"

fun runcmd :: "cmd \<Rightarrow> prog" where
  "runcmd (EXEC args) =
     (if args = [] then Exit
      else Exec (map slice_text args) (Print (''exec '' @ slice_text (hd args) @ '' failed'' @ [CHR 0x0A]) Exit))"
| "runcmd (REDIR c f m fd) =
     Close fd (Open (slice_text f) m (runcmd c) (Print (''open '' @ slice_text f @ '' failed'' @ [CHR 0x0A]) Exit))"
| "runcmd (LIST l r) = fork1 (runcmd l) (Wait (runcmd r))"
| "runcmd (PIPE l r) =
     Mkpipe (\<lambda>(p0, p1).
       fork1 (Close 1 (Dup p1 (Close p0 (Close p1 (runcmd l)))))
       (fork1 (Close 0 (Dup p0 (Close p0 (Close p1 (runcmd r)))))
       (Close p0 (Close p1 (Wait (Wait Exit))))))
     (panic_sh ''pipe'')"
| "runcmd (BACK c) = fork1 (runcmd c) Exit"

text \<open>The body of the loop of \<^verbatim>\<open>main\<close> for one line, which goes on with \<open>rest\<close>.\<close>

definition shell_line :: "string \<Rightarrow> prog \<Rightarrow> prog" where
  "shell_line buf rest =
     (if take 3 buf = ''cd '' then
        let dir = butlast (drop 3 buf) in
        Chdir dir rest (Print (''cannot cd '' @ dir @ [CHR 0x0A]) rest)
      else
        fork1 (case parsecmd buf of
                 Inl (Panic_sh msg) \<Rightarrow> panic_sh msg
               | Inl Out_of_fuel \<Rightarrow> Exit
               | Inr (c, _) \<Rightarrow> runcmd c)
          (Wait rest))"

section \<open>Descriptors\<close>

text \<open>What a descriptor refers to, with a number for every pipe.\<close>

datatype obj = Console | File string mode | Pipe_r nat | Pipe_w nat

type_synonym fds = "nat \<Rightarrow> obj option"

definition lowest :: "fds \<Rightarrow> nat" where
  "lowest fds = (case find (\<lambda>i. fds i = None) [0..<16] of Some i \<Rightarrow> i | None \<Rightarrow> 16)"

text \<open>
  The programs that a process and its children execute, each with its descriptors, when no system call fails; the number counts the
  pipes.
\<close>

primrec execs :: "prog \<Rightarrow> fds \<Rightarrow> nat \<Rightarrow> (string list \<times> fds) list \<times> nat" where
  "execs Exit = (\<lambda>fds n. ([], n))"
| "execs (Exec argv bad) = (\<lambda>fds n. ([(argv, fds)], n))"
| "execs (Close fd p) = (\<lambda>fds n. execs p (fds(fd := None)) n)"
| "execs (Open f m p bad) = (\<lambda>fds n. execs p (fds(lowest fds := Some (File f m))) n)"
| "execs (Dup fd p) = (\<lambda>fds n. execs p (fds(lowest fds := fds fd)) n)"
| "execs (Mkpipe f bad) = (\<lambda>fds n.
     let p0 = lowest fds; fds = fds(p0 := Some (Pipe_r n)); p1 = lowest fds; fds = fds(p1 := Some (Pipe_w n)) in
     (execs \<circ> f) (p0, p1) fds (Suc n))"
| "execs (Fork child parent bad) = (\<lambda>fds n.
     case execs child fds n of (a, n) \<Rightarrow> case execs parent fds n of (b, n) \<Rightarrow> (a @ b, n))"
| "execs (Wait p) = execs p"
| "execs (Chdir d p bad) = execs p"
| "execs (Print s p) = execs p"

section \<open>What a command means\<close>

text \<open>The programs of a command and the descriptors that each should have.\<close>

fun wiring :: "cmd \<Rightarrow> fds \<Rightarrow> nat \<Rightarrow> (string list \<times> fds) list \<times> nat" where
  "wiring (EXEC args) fds n = (if args = [] then [] else [(map slice_text args, fds)], n)"
| "wiring (REDIR c f m fd) fds n = wiring c (fds(fd := Some (File (slice_text f) m))) n"
| "wiring (LIST l r) fds n = (case wiring l fds n of (a, n) \<Rightarrow> case wiring r fds n of (b, n) \<Rightarrow> (a @ b, n))"
| "wiring (PIPE l r) fds n =
     (case wiring l (fds(1 := Some (Pipe_w n))) (Suc n) of (a, k) \<Rightarrow>
      case wiring r (fds(0 := Some (Pipe_r n))) k of (b, k) \<Rightarrow> (a @ b, k))"
| "wiring (BACK c) fds n = wiring c fds n"

text \<open>The shell's descriptors: the three standard ones are open, and the next two are not.\<close>

definition std_fds :: "fds \<Rightarrow> bool" where
  "std_fds fds \<longleftrightarrow> fds 0 \<noteq> None \<and> fds 1 \<noteq> None \<and> fds 2 \<noteq> None \<and> fds 3 = None \<and> fds 4 = None"

lemma find_upt16: "find P [0..<16] = (if P 0 then Some 0 else if P 1 then Some 1 else if P 2 then Some 2
    else if P 3 then Some 3 else if P 4 then Some 4 else find P [5..<16])"
proof -
  have "[0..<16] = 0 # 1 # 2 # 3 # 4 # [5..<16 :: nat]" by (simp add: upt_conv_Cons)
  then show ?thesis by (simp only: find.simps)
qed

lemma lowest_closed:
  assumes "fds 0 \<noteq> None" and "fd < 2"
  shows "lowest (fds(fd := None)) = fd"
proof (cases "fd = 0")
  case False
  then have "fd = 1" using assms(2) by simp
  then show ?thesis using assms(1) by (simp add: lowest_def find_upt16)
qed (simp add: lowest_def find_upt16)

lemma lowest_std: "std_fds fds \<Longrightarrow> lowest fds = 3" "std_fds fds \<Longrightarrow> lowest (fds(3 := Some x)) = 4"
  by (simp_all add: lowest_def find_upt16 std_fds_def)

lemma execs_runcmd: "std_fds fds \<Longrightarrow> redirs_std c \<Longrightarrow> execs (runcmd c) fds n = wiring c fds n"
proof (induction c arbitrary: fds n)
  case (REDIR c f m fd)
  have "fd < 2" using REDIR.prems(2) by (auto simp: std_redir_def)
  then have "lowest (fds(fd := None)) = fd" "std_fds (fds(fd := Some (File (slice_text f) m)))"
    using lowest_closed [of fds fd] REDIR.prems(1) by (auto simp: std_fds_def)
  then show ?case using REDIR.IH REDIR.prems(2) by simp
next
  case (PIPE l r)
  let ?p = "fds(3 := Some (Pipe_r n), 4 := Some (Pipe_w n))"
  note p = lowest_std [OF PIPE.prems(1)]
  have low: "lowest (?p(1 := None)) = 1" "lowest (?p(0 := None)) = 0"
    using lowest_closed [of ?p 1] lowest_closed [of ?p 0] PIPE.prems(1) by (auto simp: std_fds_def)
  have fds: "?p(1 := None, 1 := (?p(1 := None)) 4, 3 := None, 4 := None) = fds(1 := Some (Pipe_w n))"
    "?p(0 := None, 0 := (?p(0 := None)) 3, 3 := None, 4 := None) = fds(0 := Some (Pipe_r n))"
    using PIPE.prems(1) by (simp_all add: std_fds_def fun_eq_iff)
  have std: "std_fds (fds(1 := Some (Pipe_w n)))" "std_fds (fds(0 := Some (Pipe_r n)))"
    using PIPE.prems(1) by (auto simp: std_fds_def)
  have l: "execs (runcmd l) (fds(1 := Some (Pipe_w n))) (Suc n) = wiring l (fds(1 := Some (Pipe_w n))) (Suc n)"
    by (rule PIPE.IH(1) [OF std(1)]) (use PIPE.prems(2) in simp)
  have r: "execs (runcmd r) (fds(0 := Some (Pipe_r n))) k = wiring r (fds(0 := Some (Pipe_r n))) k" for k
    by (rule PIPE.IH(2) [OF std(2)]) (use PIPE.prems(2) in simp)
  have l': "execs (Close 1 (Dup 4 (Close 3 (Close 4 (runcmd l))))) ?p (Suc n) = wiring l (fds(1 := Some (Pipe_w n))) (Suc n)"
    by (simp only: execs.simps low fds l)
  have r': "execs (Close 0 (Dup 3 (Close 3 (Close 4 (runcmd r))))) ?p k = wiring r (fds(0 := Some (Pipe_r n))) k" for k
    by (simp only: execs.simps low fds r)
  have e: "execs (Close 3 (Close 4 (Wait (Wait Exit)))) ?p k = ([], k)" for k by simp
  have q: "execs (runcmd (PIPE l r)) fds n =
      execs (fork1 (Close 1 (Dup 4 (Close 3 (Close 4 (runcmd l)))))
        (fork1 (Close 0 (Dup 3 (Close 3 (Close 4 (runcmd r))))) (Close 3 (Close 4 (Wait (Wait Exit)))))) ?p (Suc n)"
    by (simp only: runcmd.simps execs.simps(6) Let_def p comp_apply prod.case)
  show ?case
    unfolding q fork1_def execs.simps(7) l' r' e by (simp only: wiring.simps prod.case append_Nil2 case_prod_eta) (simp only: prod.case_eq_if prod.collapse fst_conv snd_conv)
next
  case (LIST l r)
  then show ?case by (simp add: fork1_def)
next
  case (BACK c)
  then show ?case by (simp add: fork1_def split: prod.split)
qed simp

section \<open>Properties\<close>

text \<open>
  C33: The shell connects the programs of a line as the line says: for every line that parses, the system calls of \<^verbatim>\<open>runcmd\<close> start the
  programs of the line, each with the shell's descriptors but for its redirections and the ends of its pipes; no end of a pipe is left over.
\<close>

theorem runcmd_wires:
  assumes "parsecmd s = Inr (c, buf)" and "std_fds fds"
  shows "execs (runcmd c) fds n = wiring c fds n"
proof -
  have "redirs_std c"
    using assms(1) parser_parses [of s "4 * length s + 4"]
    by (auto simp: parsecmd_def cmd_ok_def split: sum.splits prod.splits if_splits)
  then show ?thesis using assms(2) by (rule execs_runcmd [rotated])
qed

definition console_fds :: fds where
  "console_fds = (\<lambda>fd. if fd < 3 then Some Console else None)"

theorem runcmd_wires_witness:
  "\<exists>c buf. parsecmd ''a|b>f'' = Inr (c, buf) \<and> execs (runcmd c) console_fds 0 =
     ([([''a''], console_fds(1 := Some (Pipe_w 0))), ([''b''], console_fds(0 := Some (Pipe_r 0), 1 := Some (File ''f'' WRONLY_CREATE)))], 1)"
proof -
  let ?c = "PIPE (EXEC [(''a|b>f'', ''|b>f'')]) (REDIR (EXEC [(''b>f'', ''>f'')]) (''f'', []) WRONLY_CREATE 1)"
  have p: "parsecmd ''a|b>f'' = Inr (?c, [CHR ''a'', NUL, CHR ''b'', NUL, CHR ''f'', NUL])" by code_simp
  have "std_fds console_fds" by (simp add: std_fds_def console_fds_def)
  from runcmd_wires [OF p this, of 0]
  have "execs (runcmd ?c) console_fds 0 = wiring ?c console_fds 0" .
  also have "\<dots> = ([([''a''], console_fds(1 := Some (Pipe_w 0))), ([''b''], console_fds(0 := Some (Pipe_r 0), 1 := Some (File ''f'' WRONLY_CREATE)))], 1)"
    by (simp add: slice_text_def)
  finally show ?thesis using p by blast
qed

end
