(* ===== verification/Ulib.thy ===== *)
theory Ulib
  imports Memory Console
begin

text \<open>
  The library of the user programs: the string routines of \<^verbatim>\<open>ulib.c\<close> over byte-addressed memory, and the formatted output of \<^verbatim>\<open>printf.c\<close>. Routines that
  the kernel has under the same name have the suffix \<open>_user\<close>. A routine that reads to a terminator is a partial function: \<open>None\<close> when there is none.
\<close>

section \<open>Strings\<close>

partial_function (option) strcpy_loop :: "u32 \<Rightarrow> u32 \<Rightarrow> mem \<Rightarrow> mem option" where
  "strcpy_loop s t m =
     (let m' = m(s := m t) in
      if m t \<noteq> 0 then strcpy_loop (s + 1) (t + 1) m' else Some m')"

definition strcpy :: "u32 \<Rightarrow> u32 \<Rightarrow> mem \<Rightarrow> (u32 \<times> mem) option" where
  "strcpy s t m = map_option (Pair s) (strcpy_loop s t m)"

partial_function (option) strcmp :: "mem \<Rightarrow> u32 \<Rightarrow> u32 \<Rightarrow> int option" where
  "strcmp m p q =
     (if m p \<noteq> 0 \<and> m p = m q then strcmp m (p + 1) (q + 1) else Some (uint (m p) - uint (m q)))"

partial_function (option) strlen_user_from :: "mem \<Rightarrow> u32 \<Rightarrow> nat \<Rightarrow> nat option" where
  "strlen_user_from m s n = (if m (s + of_nat n) \<noteq> 0 then strlen_user_from m s (Suc n) else Some n)"

definition strlen_user :: "mem \<Rightarrow> u32 \<Rightarrow> nat option" where
  "strlen_user m s = strlen_user_from m s 0"

definition memset_user :: "u32 \<Rightarrow> u32 \<Rightarrow> u32 \<Rightarrow> mem \<Rightarrow> mem" where
  "memset_user dst c n m = stosb (unat n) dst (ucast c) m"

text \<open>The result is the address of the character, or the null pointer.\<close>

partial_function (option) strchr :: "mem \<Rightarrow> u32 \<Rightarrow> u8 \<Rightarrow> u32 option" where
  "strchr m s c = (if m s \<noteq> 0 then (if m s = c then Some s else strchr m (s + 1) c) else Some 0)"

text \<open>\<^verbatim>\<open>gets\<close>, for the bytes that \<^verbatim>\<open>read\<close> delivers from descriptor 0, one by one, before it reports the end. The result has what is left of them.\<close>

fun gets_loop :: "u32 \<Rightarrow> int \<Rightarrow> int \<Rightarrow> u8 list \<Rightarrow> mem \<Rightarrow> int \<times> u8 list \<times> mem" where
  "gets_loop buf mx i [] m = (i, [], m)"
| "gets_loop buf mx i (c # inp) m =
     (if i + 1 < mx then
        let m = m(buf + of_int i := c); i = i + 1 in
        if c = 10 \<or> c = 13 then (i, inp, m) else gets_loop buf mx i inp m
      else (i, c # inp, m))"

definition gets_user :: "u32 \<Rightarrow> int \<Rightarrow> u8 list \<Rightarrow> mem \<Rightarrow> u8 list \<times> mem" where
  "gets_user buf mx inp m = (case gets_loop buf mx 0 inp m of (i, inp, m) \<Rightarrow> (inp, m(buf + of_int i := 0)))"

text \<open>\<^verbatim>\<open>stat\<close>, for the system calls that it makes.\<close>

definition stat_user :: "(string \<Rightarrow> 's \<Rightarrow> int \<times> 's) \<Rightarrow> (int \<Rightarrow> 's \<Rightarrow> int \<times> 's) \<Rightarrow> (int \<Rightarrow> 's \<Rightarrow> int \<times> 's) \<Rightarrow> string \<Rightarrow> 's \<Rightarrow> int \<times> 's" where
  "stat_user opn fstat_call cls n s =
     (case opn n s of (fd, s) \<Rightarrow>
        if fd < 0 then (-1, s)
        else case fstat_call fd s of (r, s) \<Rightarrow> (r, snd (cls fd s)))"

partial_function (option) atoi_loop :: "mem \<Rightarrow> u32 \<Rightarrow> u32 \<Rightarrow> u32 option" where
  "atoi_loop m s n =
     (if 48 \<le> m s \<and> m s \<le> 57 then atoi_loop m (s + 1) (n * 10 + ucast (m s) - 48) else Some n)"

definition atoi :: "mem \<Rightarrow> u32 \<Rightarrow> u32 option" where
  "atoi m s = atoi_loop m s 0"

fun memmove_user_loop :: "nat \<Rightarrow> u32 \<Rightarrow> u32 \<Rightarrow> mem \<Rightarrow> mem" where
  "memmove_user_loop 0 d s m = m"
| "memmove_user_loop (Suc n) d s m = memmove_user_loop n (d + 1) (s + 1) (m(d := m s))"

definition memmove_user :: "u32 \<Rightarrow> u32 \<Rightarrow> int \<Rightarrow> mem \<Rightarrow> mem" where
  "memmove_user dst src n m = memmove_user_loop (nat n) dst src m"

section \<open>Formatted output\<close>

text \<open>A write of one character to a descriptor.\<close>

type_synonym written = "int \<times> char"

definition putc :: "int \<Rightarrow> char \<Rightarrow> written" where
  "putc fd c = (fd, c)"

definition digits_user :: string where "digits_user = ''0123456789ABCDEF''"

definition printint_user :: "int \<Rightarrow> int \<Rightarrow> nat \<Rightarrow> bool \<Rightarrow> written list" where
  "printint_user fd xx base sign =
     (let neg = (sign \<and> xx < 0);
          x = nat ((if neg then - xx else xx) mod 2 ^ 32);
          buf = map (\<lambda>d. digits_user ! d) (digits_rev base x) @ (if neg then ''-'' else '''')
      in map (putc fd) (rev buf))"

text \<open>
  The loop over the format, with the state (\<open>True\<close> behind a percent sign), the words of the variable arguments and a function that gives the string at an address.
  \<open>None\<close> stands for reading past the arguments.
\<close>

fun printf_loop :: "int \<Rightarrow> (u32 \<Rightarrow> string) \<Rightarrow> bool \<Rightarrow> string \<Rightarrow> u32 list \<Rightarrow> written list option" where
  "printf_loop fd str state [] args = Some []"
| "printf_loop fd str state (c # cs) args =
     (if \<not> state then
        (if c = CHR ''%'' then printf_loop fd str True cs args
         else map_option (Cons (putc fd c)) (printf_loop fd str False cs args))
      else if c = CHR ''d'' then
        (case args of [] \<Rightarrow> None | a # as \<Rightarrow> map_option (append (printint_user fd (sint a) 10 True)) (printf_loop fd str False cs as))
      else if c = CHR ''x'' \<or> c = CHR ''p'' then
        (case args of [] \<Rightarrow> None | a # as \<Rightarrow> map_option (append (printint_user fd (sint a) 16 False)) (printf_loop fd str False cs as))
      else if c = CHR ''s'' then
        (case args of [] \<Rightarrow> None
         | a # as \<Rightarrow> map_option (append (map (putc fd) (if a = 0 then ''(null)'' else str a))) (printf_loop fd str False cs as))
      else if c = CHR ''c'' then
        (case args of [] \<Rightarrow> None | a # as \<Rightarrow> map_option (Cons (putc fd (char_of (uint a)))) (printf_loop fd str False cs as))
      else if c = CHR ''%'' then map_option (Cons (putc fd c)) (printf_loop fd str False cs args)
      else map_option (append [putc fd CHR ''%'', putc fd c]) (printf_loop fd str False cs args))"

definition printf :: "int \<Rightarrow> (u32 \<Rightarrow> string) \<Rightarrow> string \<Rightarrow> u32 list \<Rightarrow> written list option" where
  "printf fd str fmt args = printf_loop fd str False fmt args"

section \<open>Numbers out and in\<close>

text \<open>The string at \<open>s\<close>, with its terminator.\<close>

fun holds :: "mem \<Rightarrow> u32 \<Rightarrow> string \<Rightarrow> bool" where
  "holds m s [] = (m s = 0)"
| "holds m s (c # cs) = (m s = of_char c \<and> holds m (s + 1) cs)"

text \<open>The value of decimal digits, the most significant first, behind those read before.\<close>

fun decimal :: "nat \<Rightarrow> nat list \<Rightarrow> nat" where
  "decimal n [] = n"
| "decimal n (d # ds) = decimal (n * 10 + d) ds"

lemma digit_char:
  assumes "d < 10"
  shows "(of_char (digits_user ! d) :: u8) = of_nat (48 + d)"
proof -
  have "d \<in> {0, 1, 2, 3, 4, 5, 6, 7, 8, 9}" using assms by auto
  then show ?thesis by (auto simp: digits_user_def of_char_of)
qed

lemma atoi_loop_digits:
  "\<forall>d \<in> set ds. d < 10 \<Longrightarrow> holds m s (map (\<lambda>d. digits_user ! d) ds) \<Longrightarrow> atoi_loop m s (of_nat n) = Some (of_nat (decimal n ds))"
proof (induction ds arbitrary: s n)
  case Nil
  then show ?case by (subst atoi_loop.simps) simp
next
  case (Cons d ds)
  then have m: "m s = of_nat (48 + d)" "d < 10" using digit_char by auto
  then have u: "unat (m s) = 48 + d" using unat_of_nat [of "48 + d", where 'a = 8] by simp
  have "ucast (m s) = (of_nat (48 + d) :: u32)" using u by (metis of_nat_unat)
  then have e: "of_nat n * 10 + ucast (m s) - 48 = (of_nat (n * 10 + d) :: u32)" by simp
  have "48 \<le> m s \<and> m s \<le> 57" using u m(2) by (simp add: word_le_nat_alt)
  then have "atoi_loop m s (of_nat n) = atoi_loop m (s + 1) (of_nat (n * 10 + d))" unfolding e [symmetric] by (subst atoi_loop.simps) simp
  also have "\<dots> = Some (of_nat (decimal (n * 10 + d) ds))" using Cons.prems by (intro Cons.IH) auto
  finally show ?case by simp
qed

lemma decimal_append: "decimal n (ds @ [d]) = decimal n ds * 10 + d"
  by (induction ds arbitrary: n) auto

lemma decimal_rev: "decimal 0 (rev ds) = digits_value 10 ds"
  by (induction ds) (auto simp: decimal_append)

section \<open>Lines\<close>

text \<open>The bytes up to the end of the line, which is a newline or a carriage return.\<close>

fun line_of :: "u8 list \<Rightarrow> u8 list" where
  "line_of [] = []"
| "line_of (c # cs) = (if c = 10 \<or> c = 13 then [c] else c # line_of cs)"

fun stored :: "u32 \<Rightarrow> u8 list \<Rightarrow> mem \<Rightarrow> mem" where
  "stored b [] m = m"
| "stored b (c # l) m = stored (b + 1) l (m(b := c))"

lemma stored_eq: "length l \<le> 2 ^ 32 \<Longrightarrow> stored b l m a = (if unat (a - b) < length l then l ! unat (a - b) else m a)"
proof (induction l arbitrary: b m)
  case (Cons c l)
  show ?case
  proof (cases "a = b")
    case True
    have "\<not> unat (b - (b + 1)) < length l" using Cons.prems by (simp add: unat_u32_minus_one)
    then show ?thesis using True Cons by simp
  next
    case False
    then have "unat (a - b) = Suc (unat (a - (b + 1)))" using diff_add_one [of a b] by (simp add: unat_gt_0)
    then show ?thesis using False Cons by simp
  qed
qed simp

lemma length_line_of: "length (line_of inp) \<le> length inp"
  by (induction inp) auto

lemma gets_loop_line:
  "0 \<le> i \<Longrightarrow> i < mx \<Longrightarrow> gets_loop buf mx i inp m =
    (let l = take (nat (mx - i - 1)) (line_of inp) in (i + int (length l), drop (length l) inp, stored (buf + of_int i) l m))"
proof (induction inp arbitrary: i m)
  case (Cons c inp)
  show ?case
  proof (cases "i + 1 < mx")
    case True
    then have n: "nat (mx - i - 1) = Suc (nat (mx - (i + 1) - 1))" using Cons.prems by simp
    show ?thesis
    proof (cases "c = 10 \<or> c = 13")
      case nl: False
      have "gets_loop buf mx i (c # inp) m = gets_loop buf mx (i + 1) inp (m(buf + of_int i := c))" using True nl by (simp add: Let_def)
      also note Cons.IH [OF _ True]
      finally show ?thesis using Cons.prems nl unfolding n by (simp add: Let_def add.assoc fun_upd_def)
    qed (use True n in \<open>auto simp: Let_def\<close>)
  qed (use Cons.prems in auto)
qed simp

section \<open>Strings in memory\<close>

definition text_str :: "string \<Rightarrow> bool" where
  "text_str w \<longleftrightarrow> (\<forall>c \<in> set w. (of_char c :: u8) \<noteq> 0)"

lemma unat_of_char [simp]: "unat (of_char c :: u8) = of_char c"
proof -
  have "unat (of_nat (of_char c) :: u8) = of_char c" by (simp only: unat_of_nat) (simp add: nat_of_char_less_256)
  then show ?thesis unfolding of_nat_of_char .
qed

lemma of_char_u8 [simp]: "(of_char c :: u8) = of_char d \<longleftrightarrow> c = d"
  by (simp add: word_unat_eq_iff)

lemma strcmp_equal: "text_str v \<Longrightarrow> text_str w \<Longrightarrow> holds m p v \<Longrightarrow> holds m q w \<Longrightarrow> \<exists>r. strcmp m p q = Some r \<and> (r = 0 \<longleftrightarrow> v = w)"
proof (induction v arbitrary: w p q)
  case Nil
  then show ?case by (subst strcmp.simps, cases w) (auto simp: text_str_def unsigned_eq_0_iff simp flip: word_uint_eq_iff)
next
  case (Cons c v)
  show ?case
  proof (cases "\<exists>w'. w = c # w'")
    case True
    then show ?thesis using Cons by (subst strcmp.simps) (auto simp: text_str_def)
  next
    case False
    then show ?thesis using Cons.prems by (subst strcmp.simps, cases w) (auto simp: text_str_def unsigned_eq_0_iff simp flip: word_uint_eq_iff)
  qed
qed

lemma strlen_user_length: "text_str w \<Longrightarrow> holds m (s + of_nat n) w \<Longrightarrow> strlen_user_from m s n = Some (n + length w)"
proof (induction w arbitrary: n)
  case Nil
  then show ?case by (subst strlen_user_from.simps) simp
next
  case (Cons c w)
  then have "strlen_user_from m s (Suc n) = Some (Suc n + length w)" by (intro Cons.IH) (auto simp: text_str_def algebra_simps)
  then show ?case using Cons.prems by (subst strlen_user_from.simps) (auto simp: text_str_def)
qed

lemma holds_upd: "(\<And>i. i \<le> length w \<Longrightarrow> a \<noteq> b + of_nat i) \<Longrightarrow> holds (m(a := x)) b w \<longleftrightarrow> holds m b w"
proof (induction w arbitrary: b)
  case Nil
  from Nil [of 0] show ?case by simp
next
  case (Cons c w)
  have "holds (m(a := x)) (b + 1) w \<longleftrightarrow> holds m (b + 1) w"
    using Cons.prems [of "Suc _"] by (intro Cons.IH) (auto simp: add.assoc)
  moreover have "b \<noteq> a" using Cons.prems [of 0] by auto
  ultimately show ?case by (simp only: holds.simps fun_upd_other not_False_eq_True)
qed

lemma strcpy_stored:
  "text_str w \<Longrightarrow> holds m t w \<Longrightarrow> length w < unat (s - t) \<Longrightarrow> strcpy_loop s t m = Some (stored s (map of_char w @ [0]) m)"
proof (induction w arbitrary: s t m)
  case Nil
  then show ?case by (subst strcpy_loop.simps) simp
next
  case (Cons c w)
  have "s \<noteq> t + 1 + of_nat i" if "i \<le> length w" for i
  proof
    assume "s = t + 1 + of_nat i"
    then have "s - t = of_nat (Suc i)" by simp
    then have "unat (s - t) \<le> Suc i" using unat_of_nat [of "Suc i", where 'a = 32] by (simp del: of_nat_Suc)
    then show False using Cons.prems(3) that by simp
  qed
  then have h: "holds (m(s := of_char c)) (t + 1) w" using Cons.prems(2) by (subst holds_upd) auto
  have "strcpy_loop (s + 1) (t + 1) (m(s := of_char c)) = Some (stored (s + 1) (map of_char w @ [0]) (m(s := of_char c)))"
    using Cons.prems by (intro Cons.IH [OF _ h]) (auto simp: text_str_def)
  then show ?case using Cons.prems by (subst strcpy_loop.simps) (auto simp: text_str_def Let_def)
qed

section \<open>Formats\<close>

text \<open>Characters other than percent signs are printed as they are; a string argument is printed in place of its conversion.\<close>

lemma printf_plain:
  "CHR ''%'' \<notin> set fmt \<Longrightarrow> printf fd str (fmt @ rest) args = map_option (append (map (putc fd) fmt)) (printf fd str rest args)"
  unfolding printf_def by (induction fmt) (auto simp: map_option_case split: option.splits)

lemma printf_string:
  "CHR ''%'' \<notin> set fmt \<Longrightarrow> a \<noteq> 0 \<Longrightarrow> printf fd str (fmt @ ''%s'' @ rest) (a # args)
     = map_option (append (map (putc fd) (fmt @ str a))) (printf fd str rest args)"
  by (subst printf_plain) (auto simp: printf_def map_option_case split: option.splits)

section \<open>Properties\<close>

text \<open>
  what \<^verbatim>\<open>printf\<close> prints for a number that is not negative, \<^verbatim>\<open>atoi\<close> reads back.
\<close>

theorem atoi_printint:
  assumes "0 \<le> xx" and "xx < 2 ^ 31" and "holds m s (map snd (printint_user fd xx 10 sign))"
  shows "map_option sint (atoi m s) = Some xx"
proof -
  let ?ds = "digits_rev 10 (nat xx)"
  have x: "nat (xx mod 4294967296) = nat xx" using assms(1,2) by simp
  have "map snd (printint_user fd xx 10 sign) = map (\<lambda>d. digits_user ! d) (rev ?ds)"
    using assms(1) x by (simp add: printint_user_def putc_def comp_def rev_map)
  with assms(3) have h: "holds m s (map (\<lambda>d. digits_user ! d) (rev ?ds))" by simp
  have "\<forall>d \<in> set (rev ?ds). d < 10" using digits_rev_less [of 10 _ "nat xx"] by auto
  from atoi_loop_digits [OF this h, of 0] have "atoi m s = Some (of_nat (nat xx))"
    by (simp add: atoi_def decimal_rev digits_rev_value del: of_nat_nat)
  moreover have "sint (of_nat (nat xx) :: u32) = xx"
    using assms(1,2) signed_take_bit_int_eq_self_iff [of 31 xx] by (simp add: sint_sbintrunc')
  ultimately show ?thesis by simp
qed

text \<open>The number 7, printed to memory at 100.\<close>

theorem atoi_printint_witness: "map_option sint (atoi ((\<lambda>_. 0)(100 := 55)) 100) = Some 7"
proof (rule atoi_printint)
  have "digits_rev 10 7 = [7]" by (subst digits_rev.simps) simp
  then show "holds ((\<lambda>_. 0)(100 := 55)) 100 (map snd (printint_user 1 7 10 True))"
    by (simp add: printint_user_def putc_def digits_user_def)
qed simp_all

text \<open>
  \<^verbatim>\<open>gets\<close> stores the next line of the input, or its part that fits, with a terminator, and nothing else: of the \<open>mx\<close> bytes of the buffer at most all are used.
\<close>

theorem gets_line:
  assumes "0 < mx" and "mx < 2 ^ 31" and l: "l = take (nat (mx - 1)) (line_of inp)"
  shows "\<exists>m'. gets_user buf mx inp m = (drop (length l) inp, m') \<and> int (length l) < mx \<and>
    (\<forall>a. m' a = (if unat (a - buf) < length l then l ! unat (a - buf) else if unat (a - buf) = length l then 0 else m a))"
proof -
  have n: "int (length l) < mx" using assms by simp
  have g: "gets_user buf mx inp m = (drop (length l) inp, (stored buf l m)(buf + of_nat (length l) := 0))"
    using gets_loop_line [of 0 mx buf inp m] assms(1) by (simp add: gets_user_def Let_def l)
  have "unat (of_nat (length l) :: u32) = length l" using n assms(2) by (simp add: unat_of_nat)
  moreover have "a = buf + x \<longleftrightarrow> a - buf = x" for a x by (auto simp: algebra_simps)
  ultimately have e: "a = buf + of_nat (length l) \<longleftrightarrow> unat (a - buf) = length l" for a by (simp add: word_unat_eq_iff)
  show ?thesis using n assms(2) by (intro exI [of _ "(stored buf l m)(buf + of_nat (length l) := 0)"]) (auto simp: g e stored_eq)
qed

end
