(* ===== verification/Shmain.thy ===== *)
theory Shmain
  imports Shrun Ulib
begin

text \<open>
  The shell from its start: \<^verbatim>\<open>getcmd\<close> and \<^verbatim>\<open>main\<close> of \<^verbatim>\<open>sh.c\<close>. The input is the list of bytes that \<^verbatim>\<open>read\<close> delivers from descriptor 0 before it reports the end; the result is the tree of
  system calls of theory \<open>Shrun\<close>.
\<close>

section \<open>Model\<close>

definition getcmd :: "u32 \<Rightarrow> u32 \<Rightarrow> u8 list \<Rightarrow> mem \<Rightarrow> int \<times> u8 list \<times> mem" where
  "getcmd buf nbuf inp m =
     (let m = memset_user buf 0 nbuf m; (inp, m) = gets_user buf (uint nbuf) inp m in
      (if m buf = 0 then -1 else 0, inp, m))"

text \<open>The string in the buffer.\<close>

definition buf_text :: "u32 \<Rightarrow> u32 \<Rightarrow> mem \<Rightarrow> string" where
  "buf_text buf nbuf m = map (\<lambda>i. char_of (unat (m (buf + of_nat i)))) (takeWhile (\<lambda>i. m (buf + of_nat i) \<noteq> 0) [0..<unat nbuf])"

lemma gets_user_line:
  "gets_user buf 100 inp m = (let l = take 99 (line_of inp) in (drop (length l) inp, (stored buf l m)(buf + of_nat (length l) := 0)))"
  using gets_loop_line [of 0 100 buf inp m] by (simp add: gets_user_def Let_def)

lemma getcmd_shorter: "getcmd buf 100 inp m = (r, inp', m') \<Longrightarrow> \<not> r < 0 \<Longrightarrow> length inp' < length inp"
  by (cases inp) (auto simp: getcmd_def gets_user_line Let_def split: if_splits)

function shell_loop :: "u32 \<Rightarrow> u8 list \<Rightarrow> mem \<Rightarrow> prog" where
  "shell_loop buf inp m =
     Print ''$ ''
       (case getcmd buf 100 inp m of (r, inp', m') \<Rightarrow>
          if r < 0 then Exit else shell_line (buf_text buf 100 m') (shell_loop buf inp' m'))"
  by pat_completeness auto
termination
  by (relation "measure (\<lambda>(buf, inp, m). length inp)") (auto dest: getcmd_shorter [OF sym])

declare shell_loop.simps [simp del]

text \<open>The start of \<^verbatim>\<open>main\<close>: the console is opened until all standard descriptors are in use. \<open>lowest\<close> is the descriptor that \<^verbatim>\<open>open\<close> returns, or 16 if it fails.\<close>

lemma lowest_free: "lowest fds < 16 \<Longrightarrow> fds (lowest fds) = None"
proof -
  assume "lowest fds < 16"
  then obtain i where f: "find (\<lambda>i. fds i = None) [0..<16] = Some i" by (auto simp: lowest_def split: option.splits)
  then have "fds i = None" by (auto simp: find_Some_iff)
  then show ?thesis by (simp add: lowest_def f)
qed

function open_console :: "fds \<Rightarrow> fds" where
  "open_console fds = (if lowest fds < 3 then open_console (fds(lowest fds := Some Console)) else fds)"
  by pat_completeness auto
termination
proof (relation "measure (\<lambda>fds. card {i. i < 3 \<and> fds i = None})")
  fix fds
  assume l: "lowest fds < 3"
  have "{i. i < 3 \<and> (fds(lowest fds := Some Console)) i = None} \<subset> {i. i < 3 \<and> fds i = None}" using l lowest_free [of fds] by auto
  then show "(fds(lowest fds := Some Console), fds) \<in> measure (\<lambda>fds. card {i. i < 3 \<and> fds i = None})" by (simp add: psubset_card_mono)
qed simp

declare open_console.simps [simp del]

section \<open>Lines of input\<close>

lemma open_console_std: "fds 3 = None \<Longrightarrow> fds 4 = None \<Longrightarrow> std_fds (open_console fds) \<and> (\<forall>i. fds i \<noteq> None \<longrightarrow> open_console fds i = fds i)"
proof (induction fds rule: open_console.induct)
  case (1 fds)
  show ?case
  proof (cases "lowest fds < 3")
    case True
    let ?g = "fds(lowest fds := Some Console)"
    have "fds (lowest fds) = None" using True lowest_free [of fds] by simp
    moreover have "open_console fds = open_console ?g" using True by (subst open_console.simps) simp
    moreover have "std_fds (open_console ?g) \<and> (\<forall>i. ?g i \<noteq> None \<longrightarrow> open_console ?g i = ?g i)" by (rule 1(1)) (use True 1(2,3) in auto)
    ultimately show ?thesis by (metis fun_upd_other)
  next
    case False
    then have "fds 0 \<noteq> None" "fds 1 \<noteq> None" "fds 2 \<noteq> None" by (auto simp: lowest_def find_upt16 split: if_splits)
    moreover have "open_console fds = fds" using False by (subst open_console.simps) simp
    ultimately show ?thesis using 1(2,3) by (simp add: std_fds_def)
  qed
qed

definition plain :: "u8 list \<Rightarrow> bool" where
  "plain l \<longleftrightarrow> length l \<le> 98 \<and> 0 \<notin> set l \<and> 10 \<notin> set l \<and> 13 \<notin> set l"

lemma line_of_plain: "10 \<notin> set l \<Longrightarrow> 13 \<notin> set l \<Longrightarrow> line_of (l @ 10 # rest) = l @ [10]"
  by (induction l) auto

lemma takeWhile_upt: "k \<le> n \<Longrightarrow> (\<And>i. i < k \<Longrightarrow> P i) \<Longrightarrow> \<not> P k \<Longrightarrow> k < n \<Longrightarrow> takeWhile P [0..<n] = [0..<k]"
proof -
  assume a: "k \<le> n" "\<And>i. i < k \<Longrightarrow> P i" "\<not> P k" "k < n"
  have "[0..<n] = [0..<k] @ k # [Suc k..<n]" using a(4) by (metis le_eq_less_or_eq upt_add_eq_append upt_conv_Cons le_add_diff_inverse zero_le)
  moreover have "takeWhile P ([0..<k] @ k # [Suc k..<n]) = [0..<k]" using a(2,3) by (subst takeWhile_append2) auto
  ultimately show ?thesis by (simp only:)
qed

lemma buffer_line:
  assumes len: "length L \<le> 99" and nz: "0 \<notin> set L" and m: "m = (stored buf L m0)(buf + of_nat (length L) := 0)"
  shows "buf_text buf 100 m = map (\<lambda>b. char_of (unat b)) L \<and> (L \<noteq> [] \<longrightarrow> m buf \<noteq> 0)"
proof -
  have u: "unat (of_nat i :: u32) = i" if "i \<le> 99" for i using that by (intro unat_of_nat_small) auto
  have at: "m (buf + of_nat i) = L ! i" if i: "i < length L" for i
  proof -
    have "(of_nat i :: u32) \<noteq> of_nat (length L)" using i len u [of i] u [of "length L"] by auto
    then show ?thesis using u [of i] i len by (simp add: m stored_eq)
  qed
  have nzi: "L ! i \<noteq> 0" if "i < length L" for i using that nz nth_mem by fastforce
  have w: "takeWhile (\<lambda>i. m (buf + of_nat i) \<noteq> 0) [0..<100] = [0..<length L]"
  proof (rule takeWhile_upt)
    show "\<not> m (buf + of_nat (length L)) \<noteq> 0" by (simp add: m)
    show "m (buf + of_nat i) \<noteq> 0" if "i < length L" for i using at [OF that] nzi [OF that] by simp
  qed (use len in simp_all)
  have "map (\<lambda>i. char_of (unat (m (buf + of_nat i)))) [0..<length L] = map (\<lambda>b. char_of (unat b)) L"
    by (rule nth_equalityI) (use at in simp_all)
  moreover have "m buf \<noteq> 0" if "L \<noteq> []" using that at [of 0] nzi [of 0] by simp
  ultimately show ?thesis using w by (simp add: buf_text_def)
qed

lemma getcmd_line:
  assumes "plain l"
  shows "\<exists>m'. getcmd buf 100 (l @ 10 # rest) m = (0, rest, m') \<and> buf_text buf 100 m' = map (\<lambda>b. char_of (unat b)) (l @ [10])"
proof -
  define L where "L = l @ [10]"
  let ?m = "(stored buf L (memset_user buf 0 100 m))(buf + of_nat (length L) := 0)"
  have len: "length L \<le> 99" "0 \<notin> set L" "L \<noteq> []" using assms by (auto simp: plain_def L_def)
  have "line_of (l @ 10 # rest) = L" unfolding L_def using assms by (intro line_of_plain) (auto simp: plain_def)
  moreover have "drop (length L) (l @ 10 # rest) = rest" by (simp add: L_def)
  ultimately have "gets_user buf 100 (l @ 10 # rest) (memset_user buf 0 100 m) = (rest, ?m)" using len(1) by (simp add: gets_user_line Let_def)
  then have "getcmd buf 100 (l @ 10 # rest) m = (0, rest, ?m)" using buffer_line [OF len(1,2) refl] len(3) by (simp add: getcmd_def)
  then show ?thesis using buffer_line [OF len(1,2) refl] unfolding L_def by blast
qed

text \<open>
  From its start the shell makes sure that the standard descriptors are open, and then runs exactly the lines of its input, one after the other, each after a prompt, until the end of the input.
\<close>

theorem shell_runs_lines:
  assumes "\<forall>l \<in> set ls. plain l"
  shows "shell_loop buf (concat (map (\<lambda>l. l @ [10]) ls)) m = foldr (\<lambda>l rest. Print ''$ '' (shell_line (map (\<lambda>b. char_of (unat b)) (l @ [10])) rest)) ls (Print ''$ '' Exit)"
  using assms
proof (induction ls arbitrary: m)
  case Nil
  have "getcmd buf 100 [] m = (-1, [], (memset_user buf 0 100 m)(buf := 0))" by (simp add: getcmd_def gets_user_line Let_def)
  then show ?case by (subst shell_loop.simps) simp
next
  case (Cons l ls)
  obtain m' where m': "getcmd buf 100 (l @ 10 # concat (map (\<lambda>l. l @ [10]) ls)) m = (0, concat (map (\<lambda>l. l @ [10]) ls), m')"
    "buf_text buf 100 m' = map (\<lambda>b. char_of (unat b)) (l @ [10])" using getcmd_line [of l buf "concat (map (\<lambda>l. l @ [10]) ls)" m] Cons.prems by auto
  then show ?case using Cons.IH [of m'] Cons.prems by (subst shell_loop.simps) simp
qed

end
