(* ===== verification/Grep.thy ===== *)
theory Grep
  imports Main
begin

text \<open>
  The user program \<^verbatim>\<open>grep\<close>: its matcher for regular expressions, which is compared with what an expression means, and the loop that
  reads a file through a buffer and splits it into lines. A string is the list of its characters before the NUL.
\<close>

section \<open>The matcher\<close>

function (sequential) matchhere :: "string \<Rightarrow> string \<Rightarrow> bool"
  and matchstar :: "char \<Rightarrow> string \<Rightarrow> string \<Rightarrow> bool" where
  "matchhere re tx =
     (case re of
        [] \<Rightarrow> True
      | c # re' \<Rightarrow>
          if re' \<noteq> [] \<and> hd re' = CHR ''*'' then matchstar c (tl re') tx
          else if c = CHR ''$'' \<and> re' = [] then tx = []
          else if tx \<noteq> [] \<and> (c = CHR ''.'' \<or> c = hd tx) then matchhere re' (tl tx)
          else False)"
| "matchstar c re tx =
     (if matchhere re tx then True
      else if tx \<noteq> [] \<and> (hd tx = c \<or> c = CHR ''.'') then matchstar c re (tl tx)
      else False)"
  by pat_completeness auto
termination
  by (relation "measures [\<lambda>x. case x of Inl (re, tx) \<Rightarrow> length re | Inr (c, re, tx) \<Rightarrow> length re,
      \<lambda>x. case x of Inl (re, tx) \<Rightarrow> length tx | Inr (c, re, tx) \<Rightarrow> length tx,
      \<lambda>x. case x of Inl _ \<Rightarrow> 0 | Inr _ \<Rightarrow> 1]") auto

declare matchhere.simps [simp del] matchstar.simps [simp del]

text \<open>The loop of \<^verbatim>\<open>match\<close>, which also looks at the empty string at the end.\<close>

fun match_loop :: "string \<Rightarrow> string \<Rightarrow> bool" where
  "match_loop re [] = matchhere re []"
| "match_loop re (x # tx) = (if matchhere re (x # tx) then True else match_loop re tx)"

definition match :: "string \<Rightarrow> string \<Rightarrow> bool" where
  "match re tx = (if re \<noteq> [] \<and> hd re = CHR ''^'' then matchhere (tl re) tx else match_loop re tx)"

section \<open>What an expression means\<close>

definition accepts :: "char \<Rightarrow> char \<Rightarrow> bool" where
  "accepts c x \<longleftrightarrow> c = CHR ''.'' \<or> c = x"

text \<open>\<open>denotes re u v\<close>: the expression describes the string \<open>u\<close> when \<open>v\<close> follows it in the text.\<close>

inductive denotes :: "string \<Rightarrow> string \<Rightarrow> string \<Rightarrow> bool" where
  empty: "denotes [] [] v"
| star: "\<lbrakk>\<forall>x \<in> set w. accepts c x; denotes re u v\<rbrakk> \<Longrightarrow> denotes (c # CHR ''*'' # re) (w @ u) v"
| end_of_text: "denotes ''$'' [] []"
| char: "\<lbrakk>take 1 re \<noteq> ''*''; \<not> (c = CHR ''$'' \<and> re = []); accepts c x; denotes re u v\<rbrakk> \<Longrightarrow> denotes (c # re) (x # u) v"

inductive_cases denotes_Nil: "denotes [] u v"
inductive_cases denotes_star: "denotes (c # CHR ''*'' # re) u v"
inductive_cases denotes_dollar: "denotes ''$'' u v"
inductive_cases denotes_char: "denotes (c # re) u v"

definition matches_prefix :: "string \<Rightarrow> string \<Rightarrow> bool" where
  "matches_prefix re tx \<longleftrightarrow> (\<exists>u v. tx = u @ v \<and> denotes re u v)"

lemma prefix_star:
  "matches_prefix (c # CHR ''*'' # re) tx \<longleftrightarrow>
     matches_prefix re tx \<or> (tx \<noteq> [] \<and> accepts c (hd tx) \<and> matches_prefix (c # CHR ''*'' # re) (tl tx))"
proof
  assume "matches_prefix (c # CHR ''*'' # re) tx"
  then obtain u v where t: "tx = u @ v" "denotes (c # CHR ''*'' # re) u v" by (auto simp: matches_prefix_def)
  from t(2) obtain w u' where w: "u = w @ u'" "\<forall>x \<in> set w. accepts c x" "denotes re u' v"
    by (auto elim: denotes_star)
  show "matches_prefix re tx \<or> (tx \<noteq> [] \<and> accepts c (hd tx) \<and> matches_prefix (c # CHR ''*'' # re) (tl tx))"
  proof (cases w)
    case Nil
    then show ?thesis using w t(1) by (auto simp: matches_prefix_def)
  next
    case (Cons x w')
    then have "denotes (c # CHR ''*'' # re) (w' @ u') v" using w by (auto intro: denotes.star)
    then show ?thesis using w t(1) Cons by (auto simp: matches_prefix_def)
  qed
next
  assume "matches_prefix re tx \<or> (tx \<noteq> [] \<and> accepts c (hd tx) \<and> matches_prefix (c # CHR ''*'' # re) (tl tx))"
  then show "matches_prefix (c # CHR ''*'' # re) tx"
  proof
    assume "matches_prefix re tx"
    then show ?thesis using denotes.star [of "[]" c re] by (auto simp: matches_prefix_def)
  next
    assume a: "tx \<noteq> [] \<and> accepts c (hd tx) \<and> matches_prefix (c # CHR ''*'' # re) (tl tx)"
    then obtain u v where t: "tl tx = u @ v" "denotes (c # CHR ''*'' # re) u v" by (auto simp: matches_prefix_def)
    from t(2) obtain w u' where w: "u = w @ u'" "\<forall>x \<in> set w. accepts c x" "denotes re u' v"
      by (auto elim: denotes_star)
    have "denotes (c # CHR ''*'' # re) ((hd tx # w) @ u') v" by (rule denotes.star) (use a w in auto)
    moreover have "tx = ((hd tx # w) @ u') @ v" using a t(1) w(1) by (cases tx) auto
    ultimately show ?thesis unfolding matches_prefix_def by blast
  qed
qed

lemma prefix_char:
  assumes "take 1 re \<noteq> ''*''" and "\<not> (c = CHR ''$'' \<and> re = [])"
  shows "matches_prefix (c # re) tx \<longleftrightarrow> tx \<noteq> [] \<and> accepts c (hd tx) \<and> matches_prefix re (tl tx)"
proof
  assume "matches_prefix (c # re) tx"
  then obtain u v where t: "tx = u @ v" "denotes (c # re) u v" by (auto simp: matches_prefix_def)
  from t(2) obtain x u' where "u = x # u'" "accepts c x" "denotes re u' v"
    using assms by (auto elim: denotes_char)
  then show "tx \<noteq> [] \<and> accepts c (hd tx) \<and> matches_prefix re (tl tx)" using t(1) by (auto simp: matches_prefix_def)
next
  assume a: "tx \<noteq> [] \<and> accepts c (hd tx) \<and> matches_prefix re (tl tx)"
  then obtain u v where t: "tl tx = u @ v" "denotes re u v" by (auto simp: matches_prefix_def)
  have "denotes (c # re) (hd tx # u) v" using assms a t(2) by (auto intro: denotes.char)
  moreover have "tx = (hd tx # u) @ v" using a t(1) by (cases tx) auto
  ultimately show "matches_prefix (c # re) tx" unfolding matches_prefix_def by blast
qed

lemma prefix_Nil: "matches_prefix [] tx"
  by (auto simp: matches_prefix_def intro: denotes.empty)

lemma prefix_dollar: "matches_prefix ''$'' tx \<longleftrightarrow> tx = []"
  by (auto simp: matches_prefix_def intro: denotes.end_of_text elim: denotes_dollar)

lemma matcher_correct:
  "matchhere re tx \<longleftrightarrow> matches_prefix re tx"
  "matchstar c re tx \<longleftrightarrow> matches_prefix (c # CHR ''*'' # re) tx"
proof (induction re tx and c re tx rule: matchhere_matchstar.induct)
  case (1 re tx)
  show ?case
  proof (cases re)
    case Nil
    then show ?thesis by (simp add: matchhere.simps [of "[]"] prefix_Nil)
  next
    case (Cons c re')
    consider (star) "re' \<noteq> []" "hd re' = CHR ''*''" | (dollar) "c = CHR ''$''" "re' = []"
      | (char) "take 1 re' \<noteq> ''*''" "\<not> (c = CHR ''$'' \<and> re' = [])" by (cases re') auto
    then show ?thesis
    proof cases
      case star
      then have "re' = CHR ''*'' # tl re'" by (cases re') auto
      then show ?thesis using 1(1) [OF Cons] star Cons by (simp add: matchhere.simps [of "c # re'"])
    next
      case dollar
      then show ?thesis using Cons by (simp add: matchhere.simps [of "''$''"] prefix_dollar)
    next
      case char
      then have "\<not> (re' \<noteq> [] \<and> hd re' = CHR ''*'')" by (cases re') auto
      then show ?thesis
        using 1(2) [OF Cons] char Cons prefix_char [OF char] by (auto simp: matchhere.simps [of "c # re'"] accepts_def)
    qed
  qed
next
  case (2 c re tx)
  then show ?case
    using prefix_star [of c re tx] by (auto simp: matchstar.simps [of c re tx] accepts_def)
qed

lemma split_Cons: "(\<exists>t r. x # tx = t @ r \<and> P r) \<longleftrightarrow> P (x # tx) \<or> (\<exists>t r. tx = t @ r \<and> P r)"
  by (auto simp: Cons_eq_append_conv)

lemma match_loop_prefix: "match_loop re tx \<longleftrightarrow> (\<exists>t r. tx = t @ r \<and> matches_prefix re r)"
proof (induction tx)
  case Nil
  then show ?case by (simp add: matcher_correct)
next
  case (Cons x tx)
  then show ?case unfolding split_Cons by (simp add: matcher_correct)
qed

lemma match_loop_correct: "match_loop re tx \<longleftrightarrow> (\<exists>t u v. tx = t @ u @ v \<and> denotes re u v)"
  unfolding match_loop_prefix matches_prefix_def by blast

section \<open>Reading lines\<close>

text \<open>
  \<^verbatim>\<open>strchr(p, '\n')\<close> on the buffer from \<open>p\<close> on: the position of the newline, a NUL before it, or neither up to the end of the
  buffer, when the search goes on in whatever lies behind it.
\<close>

datatype found = At nat | No_newline | Overrun

definition NL :: char where "NL = CHR 0x0A"
definition NUL :: char where "NUL = CHR 0x00"

fun strchr_nl :: "string \<Rightarrow> nat \<Rightarrow> found" where
  "strchr_nl [] p = Overrun"
| "strchr_nl (x # xs) p = (if x = NUL then No_newline else if x = NL then At p else strchr_nl xs (Suc p))"

lemma strchr_nl_At: "strchr_nl xs p = At q \<Longrightarrow> p \<le> q \<and> q < p + length xs"
proof (induction xs arbitrary: p)
  case (Cons x xs)
  then show ?case by (fastforce split: if_splits)
qed simp

text \<open>
  The inner loop, which prints the lines that match. The newline behind a line is overwritten by a NUL, and put back only
  if the line matches.
\<close>

function grep_lines :: "string \<Rightarrow> string \<Rightarrow> nat \<Rightarrow> string \<Rightarrow> (nat \<times> string \<times> string) option" where
  "grep_lines re buf p out =
     (case strchr_nl (drop p buf) p of
        Overrun \<Rightarrow> None
      | No_newline \<Rightarrow> Some (p, buf, out)
      | At q \<Rightarrow>
          let line = take (q - p) (drop p buf) in
          if match re line then grep_lines re buf (Suc q) (out @ line @ [NL])
          else grep_lines re (buf[q := NUL]) (Suc q) out)"
  by pat_completeness auto
termination
  by (relation "measure (\<lambda>(re, buf, p, out). length buf - p)") (auto dest!: strchr_nl_At)

declare grep_lines.simps [simp del]

definition BUFSIZE :: nat where "BUFSIZE = 1024"

text \<open>
  The outer loop over the results of \<^verbatim>\<open>read\<close>, each of which goes to the buffer behind the \<open>m\<close> bytes that are kept. \<open>None\<close> is an access
  outside the buffer. The buffer is a global variable: a call of \<^verbatim>\<open>grep\<close> finds in it what the call before has left there.
\<close>

fun grep_loop :: "string \<Rightarrow> string list \<Rightarrow> string \<Rightarrow> int \<Rightarrow> string \<Rightarrow> (string \<times> string) option" where
  "grep_loop re [] buf m out = Some (buf, out)"
| "grep_loop re (chunk # chunks) buf m out =
     (if chunk = [] then Some (buf, out)
      else if m < 0 \<or> nat m + length chunk > length buf then None
      else
        let buf = take (nat m) buf @ chunk @ drop (nat m + length chunk) buf; m = m + int (length chunk) in
        case grep_lines re buf 0 out of
          None \<Rightarrow> None
        | Some (p, buf, out) \<Rightarrow>
            let m = (if p = 0 then 0 else m); m = (if m > 0 then m - int p else m) in
            grep_loop re chunks (take (nat m) (drop p buf) @ drop (nat m) buf) m out)"

definition grep :: "string \<Rightarrow> string list \<Rightarrow> string \<times> string \<Rightarrow> (string \<times> string) option" where
  "grep re chunks = (\<lambda>(buf, out). grep_loop re chunks buf 0 out)"

text \<open>
  \<^verbatim>\<open>main\<close> on the arguments behind the program's name: \<open>files\<close> gives for each name the results of \<^verbatim>\<open>read\<close>, if it can be opened, and \<open>stdin\<close> those of
  the standard input. The result is the buffer and what goes to the standard output; the usage message goes to the standard error.
\<close>

fun grep_files :: "(string \<Rightarrow> string list option) \<Rightarrow> string \<Rightarrow> string list \<Rightarrow> string \<times> string \<Rightarrow> (string \<times> string) option" where
  "grep_files files re [] s = Some s"
| "grep_files files re (name # names) s =
     (case files name of
        None \<Rightarrow> Some (fst s, snd s @ ''grep: cannot open '' @ name @ [NL])
      | Some chunks \<Rightarrow> (case grep re chunks s of None \<Rightarrow> None | Some s \<Rightarrow> grep_files files re names s))"

definition main_grep :: "(string \<Rightarrow> string list option) \<Rightarrow> string list \<Rightarrow> string list \<Rightarrow> (string \<times> string) option" where
  "main_grep files stdin argv =
     (let s = (replicate BUFSIZE NUL, []) in
      case argv of
        [] \<Rightarrow> Some s
      | [re] \<Rightarrow> grep re stdin s
      | re # names \<Rightarrow> grep_files files re names s)"

text \<open>The complete lines of a text.\<close>

fun lines_of :: "string \<Rightarrow> string \<Rightarrow> string list" where
  "lines_of l [] = []"
| "lines_of l (x # xs) = (if x = NL then l # lines_of [] xs else lines_of (l @ [x]) xs)"

lemma lines_of_none: "NL \<notin> set t \<Longrightarrow> lines_of l t = []"
  by (induction t arbitrary: l) auto

lemma lines_of_first: "NL \<notin> set l \<Longrightarrow> lines_of k (l @ NL # r) = (k @ l) # lines_of [] r"
  by (induction l arbitrary: k) auto

lemma strchr_nl_none: "NL \<notin> set t \<Longrightarrow> NUL \<notin> set t \<Longrightarrow> strchr_nl (t @ NUL # junk) p = No_newline"
  by (induction t arbitrary: p) auto

lemma strchr_nl_first: "NL \<notin> set l \<Longrightarrow> NUL \<notin> set l \<Longrightarrow> strchr_nl (l @ NL # r) p = At (p + length l)"
  by (induction l arbitrary: p) (auto simp: NUL_def NL_def)

definition matching :: "string \<Rightarrow> string \<Rightarrow> string" where
  "matching re t = concat (map (\<lambda>l. l @ [NL]) (filter (match re) (lines_of [] t)))"

lemma grep_lines_text:
  assumes "NUL \<notin> set t"
  shows "\<exists>p buf. grep_lines re (pre @ t @ NUL # junk) (length pre) out = Some (p, buf, out @ matching re t)"
  using assms
proof (induction "length t" arbitrary: t pre out rule: less_induct)
  case less
  show ?case
  proof (cases "NL \<in> set t")
    case False
    then have "grep_lines re (pre @ t @ NUL # junk) (length pre) out = Some (length pre, pre @ t @ NUL # junk, out)"
      using less.prems by (subst grep_lines.simps) (simp add: strchr_nl_none)
    then show ?thesis using False by (simp add: matching_def lines_of_none)
  next
    case True
    then obtain l r where t: "t = l @ NL # r" "NL \<notin> set l" by (meson split_list_first)
    let ?nul = "if match re l then NL else NUL" and ?out = "if match re l then out @ l @ [NL] else out"
    have "grep_lines re (pre @ t @ NUL # junk) (length pre) out =
        grep_lines re ((pre @ l @ [?nul]) @ r @ NUL # junk) (length (pre @ l @ [?nul])) ?out"
      using less.prems t by (subst grep_lines.simps) (simp add: strchr_nl_first list_update_append Let_def)
    moreover have "?out @ matching re r = out @ matching re t"
      using t by (simp add: matching_def lines_of_first)
    ultimately show ?thesis
      using less.hyps [of r "pre @ l @ [?nul]" ?out] t less.prems by simp
  qed
qed

section \<open>Properties\<close>

text \<open>
  C27: The matcher decides what the expression means: after a \<open>^\<close>, some beginning of the text is described by the rest of the expression;
  otherwise some part of the text is, anywhere in it.
\<close>

theorem match_correct:
  "match re tx \<longleftrightarrow>
     (if re \<noteq> [] \<and> hd re = CHR ''^'' then \<exists>u v. tx = u @ v \<and> denotes (tl re) u v
      else \<exists>t u v. tx = t @ u @ v \<and> denotes re u v)"
  by (simp add: match_def match_loop_correct matcher_correct matches_prefix_def)

lemma grep_read:
  assumes "NUL \<notin> set t" and "t \<noteq> []" and "length t < length buf" and "NUL \<in> set (drop (length t) buf)"
  shows "\<exists>buf'. grep re [t] (buf, out) = Some (buf', out @ matching re (t @ takeWhile (\<lambda>x. x \<noteq> NUL) (drop (length t) buf)))"
proof -
  let ?k = "takeWhile (\<lambda>x. x \<noteq> NUL) (drop (length t) buf)"
  obtain a b where ab: "drop (length t) buf = a @ NUL # b" "NUL \<notin> set a" using assms(4) by (meson split_list_first)
  have "takeWhile (\<lambda>x. x \<noteq> NUL) (a @ NUL # b) = a @ takeWhile (\<lambda>x. x \<noteq> NUL) (NUL # b)" by (rule takeWhile_append2) (use ab(2) in auto)
  then have k: "?k = a" using ab(1) by simp
  obtain p buf' where "grep_lines re ((t @ a) @ NUL # b) 0 out = Some (p, buf', out @ matching re (t @ a))"
    using grep_lines_text [of "t @ a" re "[]" b out] assms(1) ab(2) by auto
  then show ?thesis using assms(2,3) ab(1) unfolding k by (simp add: grep_def Let_def)
qed

text \<open>
  C31: \<^verbatim>\<open>grep\<close> on a text that arrives in one piece and fits into the buffer. It prints the complete lines that match, in their order, of the text and of what the buffer holds behind it up to the next NUL. So for the standard input and
  for the first file of the command line, where the buffer is still clear, \<^verbatim>\<open>main\<close> prints exactly the complete lines of the text that match; for a later file the remains of an earlier one count as part of its text.
\<close>

theorem grep_one_read:
  assumes "NUL \<notin> set t" and "t \<noteq> []" and "length t < BUFSIZE"
  shows "(length buf = BUFSIZE \<and> NUL \<in> set (drop (length t) buf) \<longrightarrow>
      (\<exists>buf'. grep re [t] (buf, out) = Some (buf', out @ matching re (t @ takeWhile (\<lambda>x. x \<noteq> NUL) (drop (length t) buf)))))
    \<and> (\<exists>buf'. main_grep files [t] [re] = Some (buf', matching re t))
    \<and> (files name = Some [t] \<longrightarrow> (\<exists>buf'. main_grep files stdin [re, name] = Some (buf', matching re t)))"
proof -
  let ?z = "replicate BUFSIZE NUL"
  have z: "NUL \<in> set (drop (length t) ?z)" "takeWhile (\<lambda>x. x \<noteq> NUL) (drop (length t) ?z) = []" "length t < length ?z"
    using assms(3) by (simp_all add: takeWhile_replicate)
  obtain buf' where "grep re [t] (?z, []) = Some (buf', matching re t)"
    using grep_read [OF assms(1,2) z(3,1), of re "[]"] unfolding z(2) by auto
  then show ?thesis using grep_read [OF assms(1,2), of buf re out] assms(3) by (auto simp: main_grep_def)
qed

theorem grep_one_read_witness:
  "(\<exists>buf'. main_grep (\<lambda>_. Some [''ab'' @ NL # ''c'' @ [NL]]) [] [''b'', ''file''] = Some (buf', ''ab'' @ [NL]))
   \<and> (\<exists>buf'. grep ''b'' [''a''] (''xb'' @ [NL] @ replicate 1021 NUL, []) = Some (buf', ''ab'' @ [NL]))"
proof -
  let ?t = "''ab'' @ NL # ''c'' @ [NL]" and ?buf = "''xb'' @ [NL] @ replicate 1021 NUL"
  have t: "NUL \<notin> set ?t" "?t \<noteq> []" "length ?t < BUFSIZE" "NUL \<notin> set ''a''" "''a'' \<noteq> []" "length ''a'' < BUFSIZE" by (simp_all add: NUL_def NL_def BUFSIZE_def)
  have m: "matching ''b'' ?t = ''ab'' @ [NL]" "matching ''b'' (''ab'' @ [NL]) = ''ab'' @ [NL]" by code_simp+
  have "\<exists>buf'. main_grep (\<lambda>_. Some [?t]) [] [''b'', ''file''] = Some (buf', ''ab'' @ [NL])"
    using grep_one_read [OF t(1-3), of "[]" "''b''" "[]" "\<lambda>_. Some [?t]" "''file''" "[]"] unfolding m(1) by blast
  moreover have "length ?buf = BUFSIZE" "takeWhile (\<lambda>x. x \<noteq> NUL) (drop (length ''a'') ?buf) = ''b'' @ [NL]" "NUL \<in> set (drop (length ''a'') ?buf)"
    by (simp_all add: BUFSIZE_def NUL_def NL_def takeWhile_replicate)
  ultimately show ?thesis
    using grep_one_read [OF t(4-6), of ?buf "''b''" "[]"] m(2) by simp
qed

text \<open>
  The buffer is not terminated behind the bytes that were read, and a piece without newline is dropped. For the text \<^verbatim>\<open>aaaa\nbc\n\<close> in two
  pieces, \<^verbatim>\<open>grep\<close> prints a line that the text does not have, which remains from the first piece; in the text \<^verbatim>\<open>aaaa\nbcd\n\<close> in three
  pieces it misses a line that matches.
\<close>

lemma grep_pieces_differ:
  "map_option snd (main_grep (\<lambda>_. None) [''aaaa'' @ NL # ''b'', ''c'' @ [NL]] [''a'']) = Some (''aaaa'' @ NL # ''a'' @ [NL])"
  "map_option snd (main_grep (\<lambda>_. None) [''aaaa'' @ NL # ''b'', ''c'', ''d'' @ [NL]] [''b'']) = Some []"
  by code_simp+

end
