(* ===== verification/Umalloc.thy ===== *)
theory Umalloc
  imports Prelude
begin

text \<open>
  The memory allocator of the user library (\<^verbatim>\<open>umalloc.c\<close>). A pointer to a \<^verbatim>\<open>Header\<close> is its position in units of a header; the free blocks form
  a ring in the order of their addresses, which begins with the static header \<^verbatim>\<open>base\<close>. Sizes are in units; they are less than the number of units
  in the address space, so that their sums do not wrap around.
\<close>

section \<open>State\<close>

record heap =
  hptr :: "nat \<Rightarrow> nat"
  hsize :: "nat \<Rightarrow> nat"
  freep :: "nat option"

section \<open>free\<close>

text \<open>The loop that finds the place of \<open>bp\<close> in the ring, from \<open>p\<close> on; \<open>None\<close> when the fuel is used up.\<close>

fun free_search :: "nat \<Rightarrow> (nat \<Rightarrow> nat) \<Rightarrow> nat \<Rightarrow> nat \<Rightarrow> nat option" where
  "free_search 0 ptr bp p = None"
| "free_search (Suc k) ptr bp p =
     (if bp > p \<and> bp < ptr p then Some p
      else if p \<ge> ptr p \<and> (bp > p \<or> bp < ptr p) then Some p
      else free_search k ptr bp (ptr p))"

text \<open>The two halves of what follows: the block is joined to its successor, and to its predecessor.\<close>

definition join_next :: "nat \<Rightarrow> nat \<Rightarrow> heap \<Rightarrow> heap" where
  "join_next bp p h =
     (let q = hptr h p in
      if bp + hsize h bp = q
      then h\<lparr>hsize := (hsize h)(bp := hsize h bp + hsize h q), hptr := (hptr h)(bp := hptr h q)\<rparr>
      else h\<lparr>hptr := (hptr h)(bp := q)\<rparr>)"

definition join_prev :: "nat \<Rightarrow> nat \<Rightarrow> heap \<Rightarrow> heap" where
  "join_prev bp p h =
     (if p + hsize h p = bp
      then h\<lparr>hsize := (hsize h)(p := hsize h p + hsize h bp), hptr := (hptr h)(p := hptr h bp)\<rparr>
      else h\<lparr>hptr := (hptr h)(p := bp)\<rparr>)"

definition free :: "nat \<Rightarrow> nat \<Rightarrow> heap \<Rightarrow> heap option" where
  "free fuel ap h =
     (let bp = ap - 1 in
      case freep h of
        None \<Rightarrow> None
      | Some f \<Rightarrow>
          map_option (\<lambda>p. (join_prev bp p (join_next bp p h))\<lparr>freep := Some p\<rparr>) (free_search fuel (hptr h) bp f))"

section \<open>malloc\<close>

text \<open>Units for a request, header included, at the width of the code.\<close>

definition nunits_of :: "u32 \<Rightarrow> u32" where
  "nunits_of nbytes = (nbytes + 8 - 1) div 8 + 1"

text \<open>The bytes that \<^verbatim>\<open>morecore\<close> asks \<^verbatim>\<open>sbrk\<close> for, at the width of the code.\<close>

definition core_bytes :: "u32 \<Rightarrow> u32" where
  "core_bytes nu = (if nu < 4096 then 4096 else nu) * 8"

text \<open>
  \<^verbatim>\<open>morecore\<close>, with what \<^verbatim>\<open>sbrk\<close> answers to the number of bytes it is asked for, an \<^verbatim>\<open>int\<close>: an address, or \<open>None\<close> when it fails. The result is the new \<^verbatim>\<open>freep\<close>,
  or the null pointer.
\<close>

definition core_units :: "nat \<Rightarrow> nat" where
  "core_units nu = (if nu < 4096 then 4096 else nu)"

definition morecore :: "nat \<Rightarrow> (int \<Rightarrow> nat option) \<Rightarrow> nat \<Rightarrow> heap \<Rightarrow> (nat option \<times> heap) option" where
  "morecore fuel sbrk nu h =
     (case sbrk (sint (core_bytes (of_nat nu))) of
        None \<Rightarrow> Some (None, h)
      | Some hp \<Rightarrow> map_option (\<lambda>h. (freep h, h)) (free fuel (hp + 1) (h\<lparr>hsize := (hsize h)(hp := core_units nu)\<rparr>)))"

text \<open>The block found at \<open>p\<close>, behind \<open>prevp\<close>: all of it, or its tail.\<close>

definition carve :: "nat \<Rightarrow> nat \<Rightarrow> nat \<Rightarrow> heap \<Rightarrow> nat \<times> heap" where
  "carve nunits prevp p h =
     (if hsize h p = nunits
      then (p + 1, h\<lparr>hptr := (hptr h)(prevp := hptr h p), freep := Some prevp\<rparr>)
      else
        let n = hsize h p - nunits in
        (p + n + 1, h\<lparr>hsize := (hsize h)(p := n, p + n := nunits), freep := Some prevp\<rparr>))"

text \<open>
  The loop, with what the calls of \<^verbatim>\<open>sbrk\<close> to come answer. The inner option of the result is the null pointer; the outer one is \<open>None\<close>
  when the fuel or the answers are used up.
\<close>

fun malloc_loop :: "nat \<Rightarrow> nat \<Rightarrow> nat \<Rightarrow> nat \<Rightarrow> (int \<Rightarrow> nat option) list \<Rightarrow> heap \<Rightarrow> (nat option \<times> heap) option" where
  "malloc_loop 0 nunits prevp p brks h = None"
| "malloc_loop (Suc k) nunits prevp p brks h =
     (if hsize h p \<ge> nunits then (case carve nunits prevp p h of (r, h) \<Rightarrow> Some (Some r, h))
      else if freep h = Some p then
        (case brks of
           [] \<Rightarrow> None
         | sbrk # brks \<Rightarrow>
             (case morecore (Suc k) sbrk nunits h of
                None \<Rightarrow> None
              | Some (None, h) \<Rightarrow> Some (None, h)
              | Some (Some p, h) \<Rightarrow> malloc_loop k nunits p (hptr h p) brks h))
      else malloc_loop k nunits p (hptr h p) brks h)"

definition malloc :: "nat \<Rightarrow> nat \<Rightarrow> u32 \<Rightarrow> (int \<Rightarrow> nat option) list \<Rightarrow> heap \<Rightarrow> (nat option \<times> heap) option" where
  "malloc fuel base nbytes brks h =
     (let nunits = unat (nunits_of nbytes);
          h = (if freep h = None then \<lparr>hptr = (hptr h)(base := base), hsize = (hsize h)(base := 0), freep = Some base\<rparr> else h) in
      case freep h of
        None \<Rightarrow> None
      | Some prevp \<Rightarrow> malloc_loop fuel nunits prevp (hptr h prevp) brks h)"

section \<open>The ring of free blocks\<close>

text \<open>From \<open>a\<close> the pointers lead through the list to \<open>e\<close>.\<close>

fun linked :: "(nat \<Rightarrow> nat) \<Rightarrow> nat \<Rightarrow> nat list \<Rightarrow> nat \<Rightarrow> bool" where
  "linked ptr a [] e = (ptr a = e)"
| "linked ptr a (b # bs) e = (ptr a = b \<and> linked ptr b bs e)"

lemma linked_append [simp]: "linked ptr a (xs @ b # ys) e \<longleftrightarrow> linked ptr a xs b \<and> linked ptr b ys e"
  by (induction xs arbitrary: a) auto

lemma linked_upd [simp]: "x \<noteq> a \<Longrightarrow> x \<notin> set bs \<Longrightarrow> linked (ptr(x := y)) a bs e \<longleftrightarrow> linked ptr a bs e"
  by (induction bs arbitrary: a) auto

type_synonym blocks = "(nat \<times> nat) list"

definition apart :: "blocks \<Rightarrow> bool" where
  "apart B \<longleftrightarrow> sorted_wrt (\<lambda>x y. fst x + snd x < fst y) B"

text \<open>The free blocks, with their sizes, in the order of their addresses, and \<open>base\<close> before them.\<close>

definition ring :: "nat \<Rightarrow> blocks \<Rightarrow> heap \<Rightarrow> bool" where
  "ring base B h \<longleftrightarrow> apart ((base, 0) # B) \<and> (\<forall>x \<in> set ((base, 0) # B). hsize h (fst x) = snd x) \<and> (\<forall>x \<in> set B. 0 < snd x)
     \<and> linked (hptr h) base (map fst B) base \<and> (\<exists>f. freep h = Some f \<and> f \<in> insert base (fst ` set B))"

definition units :: "blocks \<Rightarrow> nat set" where
  "units B = (\<Union>(a, n) \<in> set B. {a..<a + n})"

subsection \<open>The search\<close>

lemma search_at:
  assumes "p < bp" and "ptr p = e" and "bp < e \<or> e \<le> p"
  shows "free_search (Suc k) ptr bp p = Some p"
  using assms by auto

lemma search_below:
  assumes "linked ptr q vs p" and "sorted_wrt (<) (q # vs @ [p])" and "p < bp" and "ptr p = e" "bp < e \<or> e \<le> p"
  shows "free_search (Suc (Suc (length vs + k))) ptr bp q = Some p"
  using assms
proof (induction vs arbitrary: q)
  case Nil
  then show ?case by auto
next
  case (Cons v vs)
  have "free_search (Suc (Suc (length vs + k))) ptr bp v = Some p" using Cons by auto
  moreover have "ptr q = v" "q < v" "v < bp" using Cons.prems by auto
  ultimately show ?case by simp
qed

lemma search_above:
  assumes "linked ptr q vs base" and "sorted_wrt (<) (q # vs)" and "bp < q" and "base < bp"
  shows "free_search (Suc (length vs + k)) ptr bp q = free_search k ptr bp base"
  using assms
proof (induction vs arbitrary: q)
  case (Cons v vs)
  have "free_search (Suc (length vs + k)) ptr bp v = free_search k ptr bp base" using Cons by auto
  moreover have "ptr q = v" "q < v" using Cons.prems by auto
  ultimately show ?case using Cons.prems(3) by simp
qed auto

lemma linked_mid: "base # bs = us @ f # vs \<Longrightarrow> linked ptr base bs e \<Longrightarrow> linked ptr f vs e"
  by (cases us) auto

lemma search_ring:
  assumes L: "base # bs = xs @ p # ys" and lk: "linked ptr base bs base" and st: "sorted_wrt (<) (base # bs)"
    and lo: "\<forall>x \<in> set (xs @ [p]). x < bp" and hi: "\<forall>y \<in> set ys. bp < y" and f: "f \<in> set (base # bs)"
    and k: "2 * length (base # bs) < k"
  shows "free_search k ptr bp f = Some p"
proof -
  have b: "base < bp" using L lo by (cases xs) auto
  have lp: "linked ptr p ys base" by (rule linked_mid [OF L lk])
  obtain e where e: "ptr p = e" "bp < e \<or> e \<le> p"
  proof (cases ys)
    case Nil
    have "base \<le> p" using L st by (cases xs) auto
    then show ?thesis using that lp Nil by simp
  next
    case (Cons y ys')
    then show ?thesis using that lp hi by simp
  qed
  have below: "free_search k' ptr bp g = Some p" if "g \<in> set (xs @ [p])" "length (base # bs) < k'" for g k'
  proof (cases "g = p")
    case True
    then show ?thesis using search_at [of p bp ptr e "k' - 1"] e lo that(2) by (cases k') auto
  next
    case False
    then have "g \<in> set xs" using that(1) by simp
    then obtain us vs where xs: "xs = us @ g # vs" by (meson split_list)
    have "linked ptr g (vs @ p # ys) base" by (rule linked_mid [OF _ lk]) (use L xs in simp)
    then have "linked ptr g vs p" by simp
    moreover have "sorted_wrt (<) (g # vs @ [p])" using st L xs by (auto simp: sorted_wrt_append)
    moreover have "length vs + 2 \<le> k'" using that(2) arg_cong [OF L, of length] xs by simp
    then obtain j where "k' = Suc (Suc (length vs + j))" by (metis add_2_eq_Suc' le_Suc_ex add_Suc)
    ultimately show ?thesis using search_below e lo by simp
  qed
  show ?thesis
  proof (cases "f \<in> set ys")
    case False
    then have "f \<in> set (xs @ [p])" using f L by (metis Un_iff set_append list.set(2) insert_iff list.set(1) empty_iff)
    then show ?thesis using below k by simp
  next
    case True
    then obtain us vs where ys: "ys = us @ f # vs" by (meson split_list)
    have lf: "linked ptr f vs base" by (rule linked_mid [of _ _ "xs @ p # us", OF _ lk]) (use L ys in simp)
    have sf: "sorted_wrt (<) (f # vs)" using st L ys by (auto simp: sorted_wrt_append)
    have l: "length vs < length (base # bs)" using arg_cong [OF L, of length] ys by simp
    then have "Suc (length vs) \<le> k" using k by simp
    then obtain j where j: "k = Suc (length vs + j)" by (metis le_Suc_ex add_Suc)
    have "free_search k ptr bp f = free_search j ptr bp base"
      unfolding j by (rule search_above [OF lf sf]) (use hi True b in auto)
    moreover have "base \<in> set (xs @ [p])" using L by (cases xs) auto
    then have "free_search j ptr bp base = Some p" by (rule below) (use k l j in simp)
    ultimately show ?thesis by simp
  qed
qed

subsection \<open>The list with a block inserted\<close>

definition join_right :: "nat \<Rightarrow> nat \<Rightarrow> blocks \<Rightarrow> nat \<times> blocks" where
  "join_right b n Y = (if Y \<noteq> [] \<and> b + n = fst (hd Y) then (n + snd (hd Y), tl Y) else (n, Y))"

definition insert_block :: "blocks \<Rightarrow> nat \<Rightarrow> nat \<Rightarrow> blocks \<Rightarrow> blocks" where
  "insert_block X b n Y =
     (case join_right b n Y of (n, Y) \<Rightarrow>
      if X \<noteq> [] \<and> fst (last X) + snd (last X) = b then butlast X @ (fst (last X), snd (last X) + n) # Y
      else X @ (b, n) # Y)"

text \<open>A block that lies between the blocks of \<open>X\<close> and those of \<open>Y\<close>.\<close>

definition fits :: "nat \<Rightarrow> blocks \<Rightarrow> nat \<Rightarrow> nat \<Rightarrow> blocks \<Rightarrow> bool" where
  "fits base X b n Y \<longleftrightarrow> base < b \<and> 0 < n \<and> (\<forall>x \<in> set X. fst x + snd x \<le> b) \<and> (\<forall>y \<in> set Y. b + n \<le> fst y)"

lemma join_right_apart:
  assumes "apart Y" "0 < n" "\<forall>y \<in> set Y. b + n \<le> fst y" "join_right b n Y = (n', Y')"
  shows "apart ((b, n') # Y') \<and> n \<le> n' \<and> set Y' \<subseteq> set Y \<and> units ((b, n') # Y') = {b..<b + n} \<union> units Y"
proof (cases "Y \<noteq> [] \<and> b + n = fst (hd Y)")
  case True
  then obtain c k Y2 where Y: "Y = (c, k) # Y2" "c = b + n" by (cases Y) auto
  then have "n' = n + k" "Y' = Y2" using assms(4) by (auto simp: join_right_def)
  moreover have "{b..<b + (n + k)} = {b..<b + n} \<union> {b + n..<b + n + k}" by auto
  ultimately show ?thesis using assms Y by (auto simp: apart_def units_def)
next
  case False
  then have j: "n' = n" "Y' = Y" using assms(4) by (auto simp: join_right_def split: if_splits)
  have "b + n < fst y" if "y \<in> set Y" for y
  proof (cases Y)
    case (Cons z Z)
    then have "b + n < fst z" using False assms(3) by fastforce
    then show ?thesis using Cons that assms(1) by (fastforce simp: apart_def)
  qed (use that in simp)
  then show ?thesis using assms(1) j by (auto simp: apart_def units_def)
qed

lemma units_append [simp]: "units (X @ Y) = units X \<union> units Y"
  by (auto simp: units_def)

lemma units_Nil [simp]: "units [] = {}"
  by (simp add: units_def)

lemma units_Cons: "units (x # Y) = {fst x..<fst x + snd x} \<union> units Y"
  by (auto simp: units_def)

lemma apart_append: "apart (X @ Y) \<longleftrightarrow> apart X \<and> apart Y \<and> (\<forall>x \<in> set X. \<forall>y \<in> set Y. fst x + snd x < fst y)"
  by (auto simp: apart_def sorted_wrt_append)

lemma apart_Cons: "apart (x # Y) \<longleftrightarrow> (\<forall>y \<in> set Y. fst x + snd x < fst y) \<and> apart Y"
  by (auto simp: apart_def)

lemma insert_block_ok:
  assumes "apart ((base, 0) # X @ Y)" and "fits base X b n Y" and "\<forall>x \<in> set (X @ Y). 0 < snd x"
  shows "apart ((base, 0) # insert_block X b n Y) \<and> (\<forall>x \<in> set (insert_block X b n Y). 0 < snd x)
     \<and> units (insert_block X b n Y) = units (X @ Y) \<union> {b..<b + n}"
proof -
  obtain n' Y' where j: "join_right b n Y = (n', Y')" by fastforce
  have XY: "apart Y" "apart X" "\<forall>x \<in> set X. \<forall>y \<in> set Y. fst x + snd x < fst y" "\<forall>x \<in> set (X @ Y). base < fst x"
    using assms(1) by (auto simp: apart_def sorted_wrt_append)
  have Y': "apart ((b, n') # Y')" "n \<le> n'" "set Y' \<subseteq> set Y" "units ((b, n') # Y') = {b..<b + n} \<union> units Y"
    using join_right_apart [OF XY(1) _ _ j] assms(2) by (auto simp: fits_def)
  have bY: "b + n' < fst y" if "y \<in> set Y'" for y using Y'(1) that by (auto simp: apart_def)
  show ?thesis
  proof (cases "X \<noteq> [] \<and> fst (last X) + snd (last X) = b")
    case True
    then obtain X0 p m where X: "X = X0 @ [(p, m)]" "p + m = b" by (cases X rule: rev_cases) auto
    have i: "insert_block X b n Y = X0 @ (p, m + n') # Y'" using X j by (simp add: insert_block_def)
    have u: "{p..<p + (m + n')} = {p..<p + m} \<union> {b..<b + n'}" using X(2) by auto
    have un: "units (X0 @ (p, m + n') # Y') = units (X @ Y) \<union> {b..<b + n}"
      using Y'(4) u by (simp add: X(1) units_Cons) blast
    have "apart X0" "\<forall>x \<in> set X0. fst x + snd x < p" using XY(2) X(1) by (auto simp: apart_append)
    moreover have "\<forall>x \<in> set X0. \<forall>y \<in> set Y'. fst x + snd x < fst y" using XY(3) Y'(3) X(1) by auto
    moreover have "\<forall>y \<in> set Y'. p + (m + n') < fst y" using bY X(2) by (simp add: add.assoc [symmetric])
    moreover have "apart Y'" using Y'(1) by (simp add: apart_Cons)
    moreover have "\<forall>x \<in> set (X0 @ (p, m + n') # Y'). base < fst x" using XY(4) Y'(3) X(1) by auto
    ultimately have ap: "apart ((base, 0) # X0 @ (p, m + n') # Y')" by (simp add: apart_append apart_Cons)
    have "\<forall>x \<in> set (X0 @ (p, m + n') # Y'). 0 < snd x" using assms(3) Y'(3) X(1) by auto
    then show ?thesis using un ap unfolding i by blast
  next
    case False
    have i: "insert_block X b n Y = X @ (b, n') # Y'" using False j by (auto simp: insert_block_def)
    have Xb: "fst x + snd x < b" if "x \<in> set X" for x
    proof (cases X rule: rev_cases)
      case (snoc X0 z)
      have "fst z + snd z < b" using False snoc assms(2) by (fastforce simp: fits_def)
      then show ?thesis using snoc that XY(2) by (fastforce simp: apart_def sorted_wrt_append)
    qed (use that in simp)
    have un: "units (X @ (b, n') # Y') = units (X @ Y) \<union> {b..<b + n}" using Y'(4) by (simp add: Un_ac)
    have "\<forall>x \<in> set X. \<forall>y \<in> set Y'. fst x + snd x < fst y" using XY(3) Y'(3) by auto
    moreover have "\<forall>x \<in> set (X @ (b, n') # Y'). base < fst x" using XY(4) Y'(3) assms(2) by (auto simp: fits_def)
    ultimately have ap: "apart ((base, 0) # X @ (b, n') # Y')" using XY(2) Y'(1) Xb by (simp add: apart_append apart_Cons)
    have "\<forall>x \<in> set (X @ (b, n') # Y'). 0 < snd x" using assms(2,3) Y'(2,3) by (auto simp: fits_def)
    then show ?thesis using un ap unfolding i by blast
  qed
qed

subsection \<open>The heap with a block inserted\<close>

lemma join_next_run:
  assumes "linked (hptr h) p (map fst Y) base" and "\<forall>y \<in> set Y. hsize h (fst y) = snd y" and "base < b" and "b \<notin> fst ` set Y"
    and "hsize h b = n" and "join_right b n Y = (n', Y')"
  shows "hsize (join_next b p h) b = n' \<and> linked (hptr (join_next b p h)) b (map fst Y') base \<and> freep (join_next b p h) = freep h
     \<and> (\<forall>x. x \<noteq> b \<longrightarrow> hptr (join_next b p h) x = hptr h x \<and> hsize (join_next b p h) x = hsize h x)"
proof (cases Y)
  case Nil
  then show ?thesis using assms by (auto simp: join_next_def join_right_def Let_def)
next
  case (Cons y Y2)
  obtain c k where y: "y = (c, k)" by fastforce
  have "b \<noteq> c" "b \<notin> set (map fst Y2)" using assms(4) Cons y by auto
  moreover have "linked (hptr h) c (map fst Y2) base" "hptr h p = c" "hsize h c = k" using assms(1,2) Cons y by auto
  ultimately show ?thesis
    using assms(5,6) Cons y
    by (cases "map fst Y2") (auto simp: join_next_def join_right_def Let_def split: if_splits)
qed

lemma linked_cong: "\<forall>x \<in> insert a (set bs). ptr x = ptr' x \<Longrightarrow> linked ptr a bs e \<longleftrightarrow> linked ptr' a bs e"
  by (induction bs arbitrary: a) auto

lemma linked_start: "linked ptr b bs e \<Longrightarrow> p \<notin> set bs \<Longrightarrow> linked (ptr(p := ptr b)) p bs e"
  by (cases bs) auto

lemma fits_fst:
  assumes "fits base X b n Y" and "\<forall>x \<in> set (X @ Y). 0 < snd x"
  shows "\<forall>x \<in> set X. fst x < b" "\<forall>y \<in> set Y. b < fst y"
proof -
  show "\<forall>x \<in> set X. fst x < b"
  proof
    fix x assume "x \<in> set X"
    then have "fst x + snd x \<le> b" "0 < snd x" using assms by (auto simp: fits_def)
    then show "fst x < b" by simp
  qed
  show "\<forall>y \<in> set Y. b < fst y" using assms(1) by (fastforce simp: fits_def)
qed

lemma apart_sorted: "apart B \<Longrightarrow> sorted_wrt (<) (map fst B)"
  unfolding apart_def sorted_wrt_map by (rule sorted_wrt_mono_rel) auto

lemma free_found:
  assumes R: "ring base (X @ Y) h" and f: "fits base X b n Y" and k: "2 * length (X @ Y) + 2 < k" and P: "base # map fst X = P @ [p]"
  shows "free k (b + 1) h = Some ((join_prev b p (join_next b p h))\<lparr>freep := Some p\<rparr>)"
proof -
  have pos: "\<forall>x \<in> set (X @ Y). 0 < snd x" using R by (auto simp: ring_def)
  note lohi = fits_fst [OF f pos]
  obtain g where g: "freep h = Some g" "g \<in> set (base # map fst (X @ Y))" using R by (auto simp: ring_def)
  have "free_search k (hptr h) b g = Some p"
  proof (rule search_ring [of base _ P p "map fst Y"])
    show "base # map fst (X @ Y) = P @ p # map fst Y" using P by simp
    show "linked (hptr h) base (map fst (X @ Y)) base" using R by (simp add: ring_def)
    show "sorted_wrt (<) (base # map fst (X @ Y))"
      using R apart_sorted [of "(base, 0) # X @ Y"] by (simp add: ring_def)
    have "set (P @ [p]) = insert base (fst ` set X)" using arg_cong [OF P, of set] by simp
    then show "\<forall>x \<in> set (P @ [p]). x < b" using lohi(1) f by (auto simp: fits_def)
    show "\<forall>y \<in> set (map fst Y). b < y" using lohi(2) by simp
  qed (use g k in simp_all)
  then show ?thesis by (simp add: free_def g)
qed

text \<open>\<^verbatim>\<open>free\<close> inserts the block, joined with the neighbours it touches, and the ring is in order again.\<close>

text \<open>A freed block in front of all others, and the state after the block has been joined with the blocks behind it.\<close>

lemma ring_facts:
  assumes R: "ring base (X @ Y) h" and f: "fits base X b (hsize h b) Y" and j: "join_right b (hsize h b) Y = (n', Y')"
  shows "apart ((base, 0) # X @ Y)" "\<forall>x \<in> set ((base, 0) # X @ Y). hsize h (fst x) = snd x" "\<forall>x \<in> set (X @ Y). 0 < snd x"
    "linked (hptr h) base (map fst (X @ Y)) base" "base < b" "b \<notin> fst ` set X" "b \<notin> fst ` set Y" "set Y' \<subseteq> set Y"
    "\<And>y. y \<in> set Y' \<Longrightarrow> fst y \<noteq> b \<and> hsize h (fst y) = snd y"
proof -
  show ap: "apart ((base, 0) # X @ Y)" and sz: "\<forall>x \<in> set ((base, 0) # X @ Y). hsize h (fst x) = snd x" and pos: "\<forall>x \<in> set (X @ Y). 0 < snd x"
    and "linked (hptr h) base (map fst (X @ Y)) base" using R by (auto simp: ring_def)
  show b: "base < b" "b \<notin> fst ` set X" "b \<notin> fst ` set Y" using f fits_fst [OF f pos] by (auto simp: fits_def)
  show Y': "set Y' \<subseteq> set Y" using j by (cases Y) (auto simp: join_right_def split: if_splits)
  show "\<And>y. y \<in> set Y' \<Longrightarrow> fst y \<noteq> b \<and> hsize h (fst y) = snd y" using Y' sz b(3) by auto
qed

lemma free_ring_first:
  assumes R: "ring base Y h" and f: "fits base [] b (hsize h b) Y" and k: "2 * length Y + 2 < k"
  shows "\<exists>h'. free k (b + 1) h = Some h' \<and> ring base (insert_block [] b (hsize h b) Y) h'
     \<and> (\<forall>x. x \<notin> insert b (fst ` set Y) \<longrightarrow> hsize h' x = hsize h x)"
proof -
  let ?n = "hsize h b" and ?h1 = "join_next b base h"
  obtain n' Y' where j: "join_right b ?n Y = (n', Y')" by fastforce
  have R0: "ring base ([] @ Y) h" using R by simp
  note F = ring_facts [OF R0 f j] and ins = insert_block_ok [OF ring_facts(1) [OF R0 f j] f ring_facts(3) [OF R0 f j]]
  have h1: "hsize ?h1 b = n'" "linked (hptr ?h1) b (map fst Y') base"
    "\<And>x. x \<noteq> b \<Longrightarrow> hptr ?h1 x = hptr h x \<and> hsize ?h1 x = hsize h x"
    using join_next_run [OF _ _ F(5) F(7) refl j, of base] F(2,4) by auto
  have fr: "free k (b + 1) h = Some ((join_prev b base ?h1)\<lparr>freep := Some base\<rparr>)"
    using free_found [OF R0 f, of k "[]" base] k by simp
  have h2: "join_prev b base ?h1 = ?h1\<lparr>hptr := (hptr ?h1)(base := b)\<rparr>"
    using h1(3) [of base] F(2,5) by (simp add: join_prev_def)
  have i: "insert_block [] b ?n Y = (b, n') # Y'" using j by (simp add: insert_block_def)
  have "base \<notin> set (map fst Y')" using F(1,8) by (fastforce simp: apart_def)
  moreover have "hsize ?h1 (fst y) = snd y" if "y \<in> set Y'" for y using F(9) [OF that] h1(3) by simp
  ultimately have "ring base ((b, n') # Y') (?h1\<lparr>hptr := (hptr ?h1)(base := b), freep := Some base\<rparr>)"
    using ins h1 F(2,5) unfolding i by (auto simp: ring_def)
  then show ?thesis using fr h2 i h1(3) by auto
qed

lemma joined_after:
  assumes R: "ring base ((X0 @ [(p, m)]) @ Y) h" and f: "fits base (X0 @ [(p, m)]) b (hsize h b) Y" and j: "join_right b (hsize h b) Y = (n', Y')"
    and h1: "h1 = join_next b p h"
  shows "hsize h1 b = n'" "linked (hptr h1) b (map fst Y') base" "\<And>x. x \<noteq> b \<Longrightarrow> hptr h1 x = hptr h x \<and> hsize h1 x = hsize h x"
    "p \<noteq> b" "hsize h1 p = m" "hsize h1 base = 0" "linked (hptr h1) base (map fst X0) p"
    "p \<notin> set (map fst X0)" "p \<noteq> base" "p \<notin> set (map fst Y')" "base \<notin> set (map fst X0)"
    "\<And>x. x \<in> set X0 \<union> set Y' \<Longrightarrow> hsize h1 (fst x) = snd x"
proof -
  note F = ring_facts [OF R f j]
  have lkp: "linked (hptr h) base (map fst X0) p" "linked (hptr h) p (map fst Y) base" using F(4) by simp_all
  show a: "hsize h1 b = n'" "linked (hptr h1) b (map fst Y') base" and same: "\<And>x. x \<noteq> b \<Longrightarrow> hptr h1 x = hptr h x \<and> hsize h1 x = hsize h x"
    using join_next_run [OF lkp(2) _ F(5) F(7) refl j] F(2) unfolding h1 by auto
  show "p \<noteq> b" "hsize h1 p = m" "hsize h1 base = 0" using same [of p] same [of base] F(2,5,6) by auto
  have bX0: "b \<notin> insert base (set (map fst X0))" using F(5,6) by auto
  have "hptr h1 x = hptr h x" if "x \<in> insert base (set (map fst X0))" for x using that bX0 same by metis
  then show "linked (hptr h1) base (map fst X0) p" using lkp(1) linked_cong [of base "map fst X0" "hptr h1" "hptr h"] by simp
  have a: "\<forall>x \<in> set X0. fst x + snd x < p" "\<forall>y \<in> set Y. p + m < fst y" "base < p" "\<forall>x \<in> set X0. base < fst x"
    using F(1) by (auto simp: apart_append apart_Cons)
  show "p \<notin> set (map fst X0)" "p \<noteq> base" "p \<notin> set (map fst Y')" "base \<notin> set (map fst X0)" using a F(8) by fastforce+
  show "hsize h1 (fst x) = snd x" if "x \<in> set X0 \<union> set Y'" for x
  proof (cases "x \<in> set Y'")
    case True
    then show ?thesis using F(9) same by simp
  next
    case False
    then have "x \<in> set (X0 @ [(p, m)])" using that by simp
    moreover from this have "fst x \<noteq> b" using F(6) by blast
    ultimately show ?thesis using F(2) same by auto
  qed
qed

lemma free_ring_after:
  assumes R: "ring base ((X0 @ [(p, m)]) @ Y) h" and f: "fits base (X0 @ [(p, m)]) b (hsize h b) Y" and k: "2 * length ((X0 @ [(p, m)]) @ Y) + 2 < k"
  shows "\<exists>h'. free k (b + 1) h = Some h' \<and> ring base (insert_block (X0 @ [(p, m)]) b (hsize h b) Y) h'
     \<and> (\<forall>x. x \<notin> insert b (fst ` set ((X0 @ [(p, m)]) @ Y)) \<longrightarrow> hsize h' x = hsize h x)"
proof -
  let ?X = "X0 @ [(p, m)]" and ?h1 = "join_next b p h"
  obtain n' Y' where j: "join_right b (hsize h b) Y = (n', Y')" by fastforce
  note F = ring_facts [OF R f j] and J = joined_after [OF R f j refl]
  note ins = insert_block_ok [OF F(1) f F(3)]
  have fr: "free k (b + 1) h = Some ((join_prev b p ?h1)\<lparr>freep := Some p\<rparr>)"
    using free_found [OF R f k, of "base # map fst X0" p] by simp
  show ?thesis
  proof (cases "p + m = b")
    case True
    then have i: "insert_block ?X b (hsize h b) Y = X0 @ (p, m + n') # Y'" using j by (simp add: insert_block_def)
    let ?h2 = "?h1\<lparr>hsize := (hsize ?h1)(p := m + n'), hptr := (hptr ?h1)(p := hptr ?h1 b), freep := Some p\<rparr>"
    have h2: "free k (b + 1) h = Some ?h2" using fr True J(1,4,5) by (simp add: join_prev_def)
    have "ring base (X0 @ (p, m + n') # Y') ?h2"
      unfolding ring_def
    proof (intro conjI)
      show "apart ((base, 0) # X0 @ (p, m + n') # Y')" using ins i by simp
      show "linked (hptr ?h2) base (map fst (X0 @ (p, m + n') # Y')) base" using J(7-11) linked_start [OF J(2) J(10)] by simp
      show "\<forall>x \<in> set (X0 @ (p, m + n') # Y'). 0 < snd x" using ins i by simp
      have "fst x \<noteq> p" if "x \<in> set X0 \<union> set Y'" for x using that J(8,10) by auto
      then show "\<forall>x \<in> set ((base, 0) # X0 @ (p, m + n') # Y'). hsize ?h2 (fst x) = snd x" using J(6,9,12) by auto
    qed simp
    then show ?thesis using h2 i J(3) by auto
  next
    case False
    then have i: "insert_block ?X b (hsize h b) Y = ?X @ (b, n') # Y'" using j by (simp add: insert_block_def)
    let ?h2 = "?h1\<lparr>hptr := (hptr ?h1)(p := b), freep := Some p\<rparr>"
    have h2: "free k (b + 1) h = Some ?h2" using fr False J(5) by (simp add: join_prev_def)
    have "ring base (?X @ (b, n') # Y') ?h2"
      unfolding ring_def
    proof (intro conjI)
      show "apart ((base, 0) # ?X @ (b, n') # Y')" using ins i by simp
      show "linked (hptr ?h2) base (map fst (?X @ (b, n') # Y')) base" using J(2,4,7-11) by simp
      show "\<forall>x \<in> set (?X @ (b, n') # Y'). 0 < snd x" using ins i by simp
      show "\<forall>x \<in> set ((base, 0) # ?X @ (b, n') # Y'). hsize ?h2 (fst x) = snd x" using J(1,5,6,12) by auto
      show "\<exists>f. freep ?h2 = Some f \<and> f \<in> insert base (fst ` set (?X @ (b, n') # Y'))" by simp
    qed
    then show ?thesis using h2 i J(3) by auto
  qed
qed

lemma free_ring:
  assumes R: "ring base (X @ Y) h" and f: "fits base X b (hsize h b) Y" and k: "2 * length (X @ Y) + 2 < k"
  shows "\<exists>h'. free k (b + 1) h = Some h' \<and> ring base (insert_block X b (hsize h b) Y) h'
     \<and> (\<forall>x. x \<notin> insert b (fst ` set (X @ Y)) \<longrightarrow> hsize h' x = hsize h x)"
proof (cases X rule: rev_cases)
  case Nil
  then show ?thesis using free_ring_first [of base Y h b k] R f k by simp
next
  case (snoc X0 z)
  then show ?thesis using free_ring_after [of base X0 "fst z" "snd z" Y h b k] R f k by simp
qed

lemma disjoint_fits:
  assumes R: "ring base B h" and b: "base < b" "0 < n" "{b..<b + n} \<inter> units B = {}"
  shows "fits base (takeWhile (\<lambda>x. fst x < b) B) b n (dropWhile (\<lambda>x. fst x < b) B)"
proof -
  have ap: "apart B" and pos: "\<forall>x \<in> set B. 0 < snd x" using R by (auto simp: ring_def apart_Cons)
  define X Y where "X = takeWhile (\<lambda>x. fst x < b) B" and "Y = dropWhile (\<lambda>x. fst x < b) B"
  then have B: "B = X @ Y" and X: "\<forall>x \<in> set X. fst x < b" and Y: "Y \<noteq> [] \<Longrightarrow> \<not> fst (hd Y) < b"
    using hd_dropWhile [of "\<lambda>x. fst x < b" B] by (auto dest: set_takeWhileD)
  have no: False if "x \<in> {b..<b + n}" "x \<in> {fst z..<fst z + snd z}" "z \<in> set B" for x z
    using that b(3) by (force simp: units_def)
  have "fst x + snd x \<le> b" if "x \<in> set X" for x
    using no [of b x] that X B b(2) by force
  moreover have "b + n \<le> fst y" if "y \<in> set Y" for y
  proof -
    have "b \<le> fst y"
    proof (cases Y)
      case (Cons z Z)
      then show ?thesis using Y that ap B by (auto simp: apart_append apart_Cons)
    qed (use that in simp)
    then show ?thesis using no [of "fst y" y] that B pos by force
  qed
  ultimately show ?thesis using b unfolding X_def Y_def by (simp add: fits_def)
qed

subsection \<open>Taking a block\<close>

lemma linked_skip:
  assumes "linked ptr base (xs @ p # ys) base" and "prevp = last (base # xs)" and "distinct (base # xs @ p # ys)"
  shows "linked (ptr(prevp := ptr p)) base (xs @ ys) base"
proof (cases xs rule: rev_cases)
  case Nil
  then show ?thesis using assms linked_start [of ptr p ys base base] by simp
next
  case (snoc us q)
  then show ?thesis using assms linked_start [of ptr p ys base q] by simp
qed

lemma cut_units:
  assumes "A \<inter> P = {}" "C \<inter> P = {}" "P - Q = R" "Q \<subseteq> P"
  shows "A \<union> (R \<union> C) = A \<union> (P \<union> C) - Q"
  using assms by blast

lemma ring_block:
  assumes R: "ring base (X @ (p, m) # Y) h"
  shows "hsize h p = m" "\<forall>x \<in> set ((base, 0) # X). fst x + snd x < p" "\<forall>y \<in> set Y. p + m < fst y"
    "units X \<inter> {p..<p + m} = {}" "units Y \<inter> {p..<p + m} = {}"
proof -
  show "hsize h p = m" using R by (auto simp: ring_def)
  show lt: "\<forall>x \<in> set ((base, 0) # X). fst x + snd x < p" "\<forall>y \<in> set Y. p + m < fst y"
    using R by (auto simp: ring_def apart_append apart_Cons)
  have "u < p" if "u \<in> units X" for u using that lt(1) by (auto simp: units_def)
  then show "units X \<inter> {p..<p + m} = {}" by fastforce
  have "p + m < u" if "u \<in> units Y" for u using that lt(2) by (auto simp: units_def)
  then show "units Y \<inter> {p..<p + m} = {}" by fastforce
qed

lemma carve_whole:
  assumes R: "ring base (X @ (p, m) # Y) h" and prev: "prevp = last (base # map fst X)"
  shows "\<exists>h'. carve m prevp p h = (p + 1, h') \<and> ring base (X @ Y) h' \<and> hsize h' p = m \<and> units (X @ Y) = units (X @ (p, m) # Y) - {p..<p + m}"
proof -
  have ap: "apart ((base, 0) # X @ (p, m) # Y)" and sz: "\<forall>x \<in> set ((base, 0) # X @ (p, m) # Y). hsize h (fst x) = snd x"
    and pos: "\<forall>x \<in> set (X @ (p, m) # Y). 0 < snd x" and lk: "linked (hptr h) base (map fst (X @ (p, m) # Y)) base"
    using R by (auto simp: ring_def)
  note B = ring_block [OF R]
  have pin: "prevp \<in> insert base (fst ` set X)" using prev by (cases X rule: rev_cases) auto
  let ?h' = "h\<lparr>hptr := (hptr h)(prevp := hptr h p), freep := Some prevp\<rparr>"
  have d: "distinct (base # map fst X @ p # map fst Y)"
    using apart_sorted [OF ap] strict_sorted_iff [of "base # map fst X @ p # map fst Y"] by simp
  have l: "linked ((hptr h)(prevp := hptr h p)) base (map fst X @ map fst Y) base"
    by (rule linked_skip [OF _ prev d]) (use lk in simp)
  have "apart ((base, 0) # X @ Y)" using ap by (simp add: apart_append apart_Cons)
  then have "ring base (X @ Y) ?h'"
    using sz pos l pin unfolding ring_def by (simp add: image_Un) blast
  moreover have "units (X @ Y) = units (X @ (p, m) # Y) - {p..<p + m}" using cut_units [OF B(4,5), of "{p..<p + m}" "{}"] by (simp add: units_Cons)
  ultimately show ?thesis using B(1) by (auto simp: carve_def)
qed

lemma carve_tail:
  assumes R: "ring base (X @ (p, m) # Y) h" and n: "0 < nunits" "nunits < m" and prev: "prevp = last (base # map fst X)"
  shows "\<exists>h'. carve nunits prevp p h = (p + (m - nunits) + 1, h') \<and> ring base (X @ (p, m - nunits) # Y) h' \<and> hsize h' (p + (m - nunits)) = nunits
     \<and> units (X @ (p, m - nunits) # Y) = units (X @ (p, m) # Y) - {p + (m - nunits)..<p + m}"
proof -
  have ap: "apart ((base, 0) # X @ (p, m) # Y)" and sz: "\<forall>x \<in> set ((base, 0) # X @ (p, m) # Y). hsize h (fst x) = snd x"
    and pos: "\<forall>x \<in> set (X @ (p, m) # Y). 0 < snd x" and lk: "linked (hptr h) base (map fst (X @ (p, m) # Y)) base"
    using R by (auto simp: ring_def)
  note B = ring_block [OF R]
  have pin: "prevp \<in> insert base (fst ` set X)" using prev by (cases X rule: rev_cases) auto
  let ?q = "p + (m - nunits)"
  let ?h' = "h\<lparr>hsize := (hsize h)(p := m - nunits, ?q := nunits), freep := Some prevp\<rparr>"
  obtain d where d: "m = nunits + d" "0 < d" using n(2) less_imp_add_positive by blast
  have q: "p < ?q" "?q < p + m" using d n(1) by auto
  have ne: "fst x \<noteq> ?q" "fst x \<noteq> p" if "x \<in> set ((base, 0) # X) \<or> x \<in> set Y" for x
  proof -
    have "fst x + snd x < p \<or> p + m < fst x" using that B(2,3) by blast
    then show "fst x \<noteq> ?q" "fst x \<noteq> p" using q by auto
  qed
  have "ring base (X @ (p, m - nunits) # Y) ?h'"
    unfolding ring_def
  proof (intro conjI)
    show "apart ((base, 0) # X @ (p, m - nunits) # Y)" using ap by (auto simp: apart_append apart_Cons)
    show "\<forall>x \<in> set ((base, 0) # X @ (p, m - nunits) # Y). hsize ?h' (fst x) = snd x"
    proof
      fix x assume x: "x \<in> set ((base, 0) # X @ (p, m - nunits) # Y)"
      show "hsize ?h' (fst x) = snd x"
      proof (cases "x = (p, m - nunits)")
        case False
        then have "x \<in> set ((base, 0) # X) \<or> x \<in> set Y" using x by auto
        then show ?thesis using ne [of x] sz by auto
      next
        case True
        then show ?thesis using d by simp
      qed
    qed
    show "\<forall>x \<in> set (X @ (p, m - nunits) # Y). 0 < snd x" using pos n by auto
    show "linked (hptr ?h') base (map fst (X @ (p, m - nunits) # Y)) base" using lk by simp
    show "\<exists>f. freep ?h' = Some f \<and> f \<in> insert base (fst ` set (X @ (p, m - nunits) # Y))" using pin by auto
  qed
  moreover have "units (X @ (p, m - nunits) # Y) = units (X @ (p, m) # Y) - {?q..<p + m}"
  proof -
    have "{p..<p + m} - {?q..<p + m} = {p..<?q}" "{?q..<p + m} \<subseteq> {p..<p + m}" using q by auto
    then show ?thesis using cut_units [OF B(4,5)] by (simp only: units_append units_Cons fst_conv snd_conv)
  qed
  ultimately show ?thesis using B(1) n by (auto simp: carve_def Let_def)
qed

lemma carve_ring:
  assumes R: "ring base (X @ (p, m) # Y) h" and n: "0 < nunits" "nunits \<le> m" and prev: "prevp = last (base # map fst X)"
  shows "\<exists>B' h'. carve nunits prevp p h = (p + (m - nunits) + 1, h') \<and> ring base B' h' \<and> hsize h' (p + (m - nunits)) = nunits
     \<and> units B' = units (X @ (p, m) # Y) - {p + (m - nunits)..<p + m}"
proof (cases "m = nunits")
  case True
  obtain h' where h': "carve m prevp p h = (p + 1, h')" "ring base (X @ Y) h'" "hsize h' p = m" "units (X @ Y) = units (X @ (p, m) # Y) - {p..<p + m}"
    using carve_whole [OF R prev] by blast
  show ?thesis by (rule exI [of _ "X @ Y"], rule exI [of _ h']) (use h' True in simp)
next
  case False
  then show ?thesis using carve_tail [OF R n(1) _ prev] n(2) by (metis le_neq_implies_less)
qed

lemma malloc_walk:
  assumes "linked (hptr h) q W g" and "\<forall>x \<in> set W. hsize h x < nunits \<and> freep h \<noteq> Some x"
  shows "malloc_loop (length W + k) nunits q (hptr h q) brks h = malloc_loop k nunits (last (q # W)) g brks h"
  using assms
proof (induction W arbitrary: q)
  case (Cons w W)
  then show ?case by auto
qed simp

lemma linked_last: "linked ptr q W g \<Longrightarrow> ptr (last (q # W)) = g"
  by (induction W arbitrary: q) auto

lemma ring_distinct: "ring base B h \<Longrightarrow> distinct (base # map fst B)"
  using apart_sorted [of "(base, 0) # B"] strict_sorted_iff [of "base # map fst B"] by (simp add: ring_def)

lemma ring_pred:
  assumes R: "ring base (X @ (g, m) # Y) h" and x: "x \<in> set (base # map fst (X @ (g, m) # Y))" and g: "hptr h x = g"
  shows "x = last (base # map fst X)"
proof -
  let ?L = "base # map fst (X @ (g, m) # Y)"
  have d: "distinct ?L" using ring_distinct [OF R] .
  have L: "?L = (base # map fst X) @ g # map fst Y" by simp
  from x obtain us vs where v: "?L = us @ x # vs" by (meson split_list)
  have "linked (hptr h) x vs base" by (rule linked_mid [OF v]) (use R in \<open>simp add: ring_def\<close>)
  moreover have "g \<noteq> base" using d by auto
  ultimately obtain ws where "vs = g # ws" using g by (cases vs) auto
  then have "(us @ [x]) @ g # ws = (base # map fst X) @ g # map fst Y" using v L by simp
  moreover have "distinct (us @ x # g # ws)" using d unfolding v \<open>vs = g # ws\<close> .
  then have "g \<notin> set (us @ [x])" "g \<notin> set ws" by auto
  ultimately have "us @ [x] = base # map fst X" using append_Cons_eq_iff by metis
  then show ?thesis by (metis last_snoc)
qed

lemma ring_from:
  assumes R: "ring base B h" and f: "freep h = Some f"
  shows "\<exists>C. linked (hptr h) f C f \<and> set (f # C) = set (base # map fst B) \<and> f \<notin> set C \<and> length C = length B"
proof -
  have "f \<in> set (base # map fst B)" using R f by (auto simp: ring_def)
  then obtain us vs where L: "base # map fst B = us @ f # vs" by (meson split_list)
  have lf: "linked (hptr h) f vs base" by (rule linked_mid [OF L]) (use R in \<open>simp add: ring_def\<close>)
  have "linked (hptr h) f (vs @ us) f"
  proof (cases us)
    case Nil
    then show ?thesis using lf L by simp
  next
    case (Cons u us')
    then have "linked (hptr h) base (us' @ f # vs) base" "u = base" using R L by (auto simp: ring_def)
    then show ?thesis using lf Cons by simp
  qed
  moreover have "set (f # vs @ us) = set (base # map fst B)" using L by auto
  moreover have "f \<notin> set (vs @ us)" using ring_distinct [OF R] L by auto
  moreover have "length (vs @ us) = length B" using arg_cong [OF L, of length] by simp
  ultimately show ?thesis by blast
qed

text \<open>The memory that a successful \<^verbatim>\<open>malloc\<close> takes from \<open>U\<close>: a block with its header at \<open>r\<close>.\<close>

definition takes :: "nat \<Rightarrow> nat \<Rightarrow> nat set \<Rightarrow> nat \<Rightarrow> heap \<Rightarrow> bool" where
  "takes base n U r h' \<longleftrightarrow> hsize h' r = n \<and> {r..<r + n} \<subseteq> U \<and> (\<exists>B'. ring base B' h' \<and> units B' = U - {r..<r + n})"

lemma malloc_fit:
  assumes R: "ring base B h" and f: "freep h = Some f" and n: "0 < nunits" and fit: "\<exists>x \<in> set B. nunits \<le> snd x"
    and k: "length B < k"
  shows "\<exists>r h'. malloc_loop k nunits f (hptr h f) brks h = Some (Some (r + 1), h') \<and> takes base nunits (units B) r h'"
proof -
  from ring_from [OF R f] obtain C where C: "linked (hptr h) f C f" "set (f # C) = set (base # map fst B)" "f \<notin> set C" "length C = length B"
    by blast
  have sz: "hsize h (fst x) = snd x" if "x \<in> set B" for x using R that by (auto simp: ring_def)
  have "\<exists>x \<in> set (C @ [f]). nunits \<le> hsize h x"
  proof -
    from fit obtain x where "x \<in> set B" "nunits \<le> snd x" by blast
    then have "fst x \<in> set (C @ [f])" "nunits \<le> hsize h (fst x)" using C(2) sz by auto
    then show ?thesis by blast
  qed
  from split_list_first_prop [OF this] obtain W g V where W: "C @ [f] = W @ g # V" "nunits \<le> hsize h g" "\<forall>x \<in> set W. \<not> nunits \<le> hsize h x"
    by blast
  have Wg: "linked (hptr h) f W g" "set W \<subseteq> set C" "length W \<le> length B"
  proof -
    have "V = [] \<and> W = C \<and> g = f \<or> (\<exists>V'. C = W @ g # V')" using W(1) by (cases V rule: rev_cases) auto
    then show "linked (hptr h) f W g" "set W \<subseteq> set C" "length W \<le> length B" using C by auto
  qed
  have "g \<in> set (base # map fst B)" using W(1) C(2) by (metis Un_iff append_Cons list.set_intros(1) rotate1.simps(2) set_append set_rotate1)
  moreover have "g \<noteq> base" using W(2) n R by (auto simp: ring_def)
  ultimately obtain X m Y where B: "B = X @ (g, m) # Y" by (auto dest: split_list)
  have m: "nunits \<le> m" using sz [of "(g, m)"] W(2) B by simp
  have "last (f # W) \<in> set (f # C)" using Wg(2) by (cases W rule: rev_cases) auto
  then have "last (f # W) \<in> set (base # map fst (X @ (g, m) # Y))" unfolding C(2) B .
  then have pr: "last (f # W) = last (base # map fst X)"
    by (rule ring_pred [OF R [unfolded B] _ linked_last [OF Wg(1)]])
  obtain j where j: "k = length W + Suc j" using k Wg(3) by (metis add_Suc_right le_imp_less_Suc less_imp_Suc_add order_le_less_trans)
  have "malloc_loop k nunits f (hptr h f) brks h = malloc_loop (Suc j) nunits (last (f # W)) g brks h"
    unfolding j by (rule malloc_walk [OF Wg(1)]) (use W(3) Wg(2) C(3) f in auto)
  also have "\<dots> = (case carve nunits (last (f # W)) g h of (r, h) \<Rightarrow> Some (Some r, h))" using W(2) by simp
  finally have l: "malloc_loop k nunits f (hptr h f) brks h = (case carve nunits (last (f # W)) g h of (r, h) \<Rightarrow> Some (Some r, h))" .
  define r where "r = g + (m - nunits)"
  then have r: "g + m = r + nunits" "g \<le> r" using m by simp_all
  from carve_ring [OF R [unfolded B] n m pr, folded r_def B] obtain B' h' where c: "carve nunits (last (f # W)) g h = (r + 1, h')"
    "ring base B' h'" "hsize h' r = nunits" "units B' = units B - {r..<r + nunits}" unfolding r(1) by blast
  have "{r..<r + nunits} \<subseteq> {g..<g + m}" unfolding r(1) using r(2) by auto
  then have "{r..<r + nunits} \<subseteq> units B" by (auto simp: B units_Cons)
  then show ?thesis using l c by (auto simp: takes_def)
qed

lemma malloc_around:
  assumes R: "ring base B h" and f: "freep h = Some f" and n: "0 < nunits" and full: "\<forall>x \<in> set B. snd x < nunits"
  shows "malloc_loop (length B + Suc j) nunits f (hptr h f) brks h =
    (case brks of
       [] \<Rightarrow> None
     | sbrk # brks \<Rightarrow>
         (case morecore (Suc j) sbrk nunits h of
            None \<Rightarrow> None
          | Some (None, h) \<Rightarrow> Some (None, h)
          | Some (Some p, h) \<Rightarrow> malloc_loop j nunits p (hptr h p) brks h))"
proof -
  from ring_from [OF R f] obtain C where C: "linked (hptr h) f C f" "set (f # C) = set (base # map fst B)" "f \<notin> set C" "length C = length B"
    by blast
  have small: "hsize h x < nunits" if x: "x \<in> set (f # C)" for x
  proof (cases "x = base")
    case True
    then show ?thesis using R n by (simp add: ring_def)
  next
    case False
    then obtain y where y: "y \<in> set B" "x = fst y" using x unfolding C(2) by auto
    then have "hsize h x = snd y" using R by (simp add: ring_def)
    then show ?thesis using full y(1) by simp
  qed
  have "malloc_loop (length B + Suc j) nunits f (hptr h f) brks h = malloc_loop (Suc j) nunits (last (f # C)) f brks h"
    unfolding C(4) [symmetric] by (rule malloc_walk [OF C(1)]) (use small C(3) f in auto)
  also have "\<not> nunits \<le> hsize h f" using small [of f] by simp
  ultimately show ?thesis using f by simp
qed

lemma insert_block_big:
  "(\<exists>x \<in> set (insert_block X b n Y). n \<le> snd x) \<and> length (insert_block X b n Y) \<le> Suc (length (X @ Y))"
proof -
  obtain n' Y' where j: "join_right b n Y = (n', Y')" by fastforce
  then have n: "n \<le> n'" "length Y' \<le> length Y" by (auto simp: join_right_def split: if_splits)
  show ?thesis
  proof (cases "X \<noteq> [] \<and> fst (last X) + snd (last X) = b")
    case True
    then show ?thesis using n by (auto simp: insert_block_def j intro!: bexI [of _ "(fst (last X), snd (last X) + n')"])
  next
    case False
    then have i: "insert_block X b n Y = X @ (b, n') # Y'" by (auto simp: insert_block_def j)
    show ?thesis unfolding i using n by (auto intro!: bexI [of _ "(b, n')"])
  qed
qed

lemma morecore_ring:
  assumes R: "ring base B h" and hp: "base < hp" "{hp..<hp + core_units n} \<inter> units B = {}" and k: "2 * length B + 2 < k"
    and brk: "sbrk (sint (core_bytes (of_nat n))) = Some hp"
  shows "\<exists>h' B'. morecore k sbrk n h = Some (freep h', h') \<and> ring base B' h' \<and> units B' = units B \<union> {hp..<hp + core_units n}
     \<and> (\<exists>x \<in> set B'. n \<le> snd x) \<and> length B' \<le> Suc (length B)"
proof -
  let ?h = "h\<lparr>hsize := (hsize h)(hp := core_units n)\<rparr>"
  let ?X = "takeWhile (\<lambda>x. fst x < hp) B" and ?Y = "dropWhile (\<lambda>x. fst x < hp) B"
  have c: "0 < core_units n" "n \<le> core_units n" by (auto simp: core_units_def)
  have "hp \<notin> fst ` set B"
  proof
    assume "hp \<in> fst ` set B"
    then have "hp \<in> units B" using R by (force simp: units_def ring_def)
    moreover have "hp \<in> {hp..<hp + core_units n}" using c(1) by simp
    ultimately show False using hp(2) by blast
  qed
  then have R': "ring base B ?h" using R hp(1) unfolding ring_def by auto
  then have R2: "ring base (?X @ ?Y) ?h" by simp
  have hs: "hsize ?h hp = core_units n" by simp
  have f: "fits base ?X hp (hsize ?h hp) ?Y" using disjoint_fits [OF R' hp(1) c(1) hp(2)] unfolding hs .
  let ?B = "insert_block ?X hp (core_units n) ?Y"
  have "units ?B = units (?X @ ?Y) \<union> {hp..<hp + core_units n}"
    using R2 insert_block_ok [OF _ f] unfolding hs by (auto simp: ring_def)
  then have u: "units ?B = units B \<union> {hp..<hp + core_units n}" unfolding takeWhile_dropWhile_id .
  have "2 * length (?X @ ?Y) + 2 < k" using k unfolding takeWhile_dropWhile_id .
  from free_ring [OF R2 f this] obtain h' where "morecore k sbrk n h = Some (freep h', h')" "ring base ?B h'"
    unfolding morecore_def hs brk by auto
  moreover have "\<exists>x \<in> set ?B. n \<le> snd x" using insert_block_big [of ?X hp "core_units n" ?Y] c(2) by (meson le_trans)
  moreover have "length ?B \<le> Suc (length B)" using insert_block_big [of ?X hp "core_units n" ?Y] unfolding takeWhile_dropWhile_id by blast
  ultimately show ?thesis using u by blast
qed

lemma nunits_pos: "0 < unat (nunits_of nbytes)"
proof -
  have "unat ((nbytes + 8 - 1) div 8) < 2 ^ 29" using unsigned_less [of "nbytes + 8 - 1"] by (simp add: unat_div div_less_iff_less_mult)
  then have "unat ((nbytes + 8 - 1) div 8 + 1) = unat ((nbytes + 8 - 1) div 8) + 1"
    using unat_add_lem [of "(nbytes + 8 - 1) div 8" 1] by simp
  then show ?thesis by (simp add: nunits_of_def)
qed

text \<open>The block holds the bytes of the request behind its header, for all but the largest requests, and \<^verbatim>\<open>sbrk\<close> is asked for all of it.\<close>

lemma nunits_enough:
  assumes "unat nbytes \<le> 2 ^ 32 - 8"
  shows "unat nbytes \<le> 8 * (unat (nunits_of nbytes) - 1)"
proof -
  have a: "unat (7 + nbytes) = unat nbytes + 7" using unat_add_lem [of 7 nbytes] assms by simp
  have "unat ((7 + nbytes) div 8) < 2 ^ 29" using unsigned_less [of "7 + nbytes"] by (simp add: unat_div div_less_iff_less_mult)
  then have "unat ((7 + nbytes) div 8 + 1) = unat ((7 + nbytes) div 8) + 1" using unat_add_lem [of "(7 + nbytes) div 8" 1] by simp
  moreover have "nunits_of nbytes = (7 + nbytes) div 8 + 1" by (simp add: nunits_of_def)
  ultimately have "unat (nunits_of nbytes) - 1 = (unat nbytes + 7) div 8" using a by (simp add: unat_div)
  then show ?thesis by linarith
qed

lemma core_bytes_enough:
  assumes "unat nu < 2 ^ 28"
  shows "sint (core_bytes nu) = 8 * int (core_units (unat nu))"
proof -
  have "unat (core_bytes nu) = 8 * core_units (unat nu)"
  proof (cases "nu < 4096")
    case True
    then show ?thesis by (simp add: core_bytes_def core_units_def word_less_nat_alt)
  next
    case False
    have "unat (nu * 8) = unat nu * 8" using unat_mult_lem [of nu 8] assms by simp
    then show ?thesis using False by (simp add: core_bytes_def core_units_def word_less_nat_alt)
  qed
  moreover have "8 * core_units (unat nu) < 2 ^ 31" using assms by (simp add: core_units_def)
  moreover have "uint (core_bytes nu) = int (unat (core_bytes nu))" by simp
  ultimately have "uint (core_bytes nu) = 8 * int (core_units (unat nu))" "uint (core_bytes nu) < 2 ^ 31" by simp_all
  then show ?thesis using signed_take_bit_int_eq_self_iff [of 31 "uint (core_bytes nu)"] by (simp add: sint_uint)
qed

text \<open>A request near the top of the range asks \<^verbatim>\<open>sbrk\<close> for a negative number of bytes: the process shrinks.\<close>

lemma malloc_huge_shrinks: "sint (core_bytes (nunits_of 0xFFFFF000)) = - 4088"
  by code_simp

text \<open>A request at the very top wraps around to a block of one header.\<close>

lemma malloc_wraps: "nunits_of 0xFFFFFFFF = 1"
  by code_simp

text \<open>The loop, with one call of \<^verbatim>\<open>sbrk\<close>.\<close>

definition got :: "nat \<Rightarrow> nat \<Rightarrow> nat set \<Rightarrow> nat option \<Rightarrow> nat \<Rightarrow> heap \<Rightarrow> bool" where
  "got base n U r p h' \<longleftrightarrow> takes base n U p h' \<or> (\<exists>hp. r = Some hp \<and> takes base n (U \<union> {hp..<hp + core_units n}) p h')"

lemma malloc_loop_ring:
  assumes R: "ring base B h" and f: "freep h = Some f" and pos: "0 < n" and r: "r = sbrk (sint (core_bytes (of_nat n)))"
    and brk: "\<And>hp. r = Some hp \<Longrightarrow> base < hp \<and> {hp..<hp + core_units n} \<inter> units B = {}" and k: "4 * length B + 10 \<le> k"
  shows "\<exists>res h'. malloc_loop k n f (hptr h f) [sbrk] h = Some (res, h') \<and>
    (case res of
       None \<Rightarrow> r = None \<and> h' = h \<and> (\<forall>x \<in> set B. snd x < n)
     | Some q \<Rightarrow> \<exists>p. q = p + 1 \<and> got base n (units B) r p h')"
proof (cases "\<exists>x \<in> set B. n \<le> snd x")
  case True
  then show ?thesis using malloc_fit [OF R f pos True, of k "[sbrk]"] k by (auto simp: got_def)
next
  case False
  then have full: "\<forall>x \<in> set B. snd x < n" by auto
  obtain j where j: "k = length B + Suc j" using k by (intro that [of "k - Suc (length B)"]) simp
  note a = malloc_around [OF R f pos full, of j "[sbrk]", folded j]
  show ?thesis
  proof (cases r)
    case None
    then show ?thesis using a full r by (simp add: morecore_def)
  next
    case (Some hp)
    have "2 * length B + 2 < Suc j" using k j by simp
    from morecore_ring [OF R _ _ this, of hp n sbrk] brk [OF Some] Some r obtain h1 B1 where h1: "morecore (Suc j) sbrk n h = Some (freep h1, h1)" "ring base B1 h1"
      "units B1 = units B \<union> {hp..<hp + core_units n}" "\<exists>x \<in> set B1. n \<le> snd x" "length B1 \<le> Suc (length B)" by auto
    obtain f1 where f1: "freep h1 = Some f1" using h1(2) by (auto simp: ring_def)
    have "length B1 < j" using h1(5) k j by simp
    from malloc_fit [OF h1(2) f1 pos h1(4) this, of "[]"] show ?thesis using a Some h1(1,3) f1 by (auto simp: got_def)
  qed
qed

text \<open>A request of less than 2 GB asks \<^verbatim>\<open>sbrk\<close> for the bytes of the units it wants.\<close>

lemma nunits_small: "unat nbytes \<le> 2 ^ 31 - 16 \<Longrightarrow> unat (nunits_of nbytes) < 2 ^ 28"
proof -
  assume n: "unat nbytes \<le> 2 ^ 31 - 16"
  have a: "unat (7 + nbytes) = unat nbytes + 7" using unat_add_lem [of 7 nbytes] n by simp
  then have d: "unat ((7 + nbytes) div 8) < 2 ^ 28 - 1" using n by (simp add: unat_div div_less_iff_less_mult)
  then have "unat ((7 + nbytes) div 8 + 1) = unat ((7 + nbytes) div 8) + 1" using unat_add_lem [of "(7 + nbytes) div 8" 1] by simp
  moreover have "nunits_of nbytes = (7 + nbytes) div 8 + 1" by (simp add: nunits_of_def)
  ultimately show ?thesis using d by simp
qed

section \<open>Properties\<close>

text \<open>
  C26: \<^verbatim>\<open>free\<close> of a block that overlaps no free block returns, from wherever in the ring its search starts; the ring is in order again, with neighbours joined, and the free memory
  is what was free before and the block.
\<close>

theorem free_correct:
  assumes "ring base B h" and "base < b" and "0 < hsize h b" and "{b..<b + hsize h b} \<inter> units B = {}" and "2 * length B + 2 < k"
  shows "\<exists>h' B'. free k (b + 1) h = Some h' \<and> ring base B' h' \<and> units B' = units B \<union> {b..<b + hsize h b}"
proof -
  let ?X = "takeWhile (\<lambda>x. fst x < b) B" and ?Y = "dropWhile (\<lambda>x. fst x < b) B"
  have f: "fits base ?X b (hsize h b) ?Y" using assms(1-4) by (rule disjoint_fits)
  have R: "ring base (?X @ ?Y) h" using assms(1) by simp
  then have "units (insert_block ?X b (hsize h b) ?Y) = units (?X @ ?Y) \<union> {b..<b + hsize h b}"
    using insert_block_ok [OF _ f] by (auto simp: ring_def)
  then show ?thesis using free_ring [OF R f] assms(5) by (metis takeWhile_dropWhile_id)
qed

text \<open>
  C25: \<^verbatim>\<open>malloc\<close> of less than 2 GB returns, on its first call and on later ones: a block that holds the bytes asked for, taken from free memory, or from free memory and the bytes that \<^verbatim>\<open>sbrk\<close>
  was asked for and added, with the rest in order in the ring; or the null pointer, when no free block is large enough and \<^verbatim>\<open>sbrk\<close> fails, and then what was free stays free. Of \<^verbatim>\<open>sbrk\<close> it relies
  on this: when it answers a positive number of bytes with an address, so many bytes from there are new to the process.
\<close>

theorem malloc_correct:
  assumes R: "freep h = None \<and> B = [] \<or> ring base B h" and n: "n = unat (nunits_of nbytes)" and nb: "unat nbytes \<le> 2 ^ 31 - 16"
    and brk: "\<And>bytes hp. 0 < bytes \<Longrightarrow> sbrk bytes = Some hp \<Longrightarrow> base < hp \<and> {hp..<hp + nat bytes div 8} \<inter> units B = {}" and k: "4 * length B + 10 \<le> k"
  shows "\<exists>res h'. malloc k base nbytes [sbrk] h = Some (res, h') \<and>
    (case res of
       None \<Rightarrow> sbrk (8 * int (core_units n)) = None \<and> ring base B h' \<and> (\<forall>x \<in> set B. snd x < n)
     | Some q \<Rightarrow> \<exists>p. q = p + 1 \<and> unat nbytes \<le> 8 * (n - 1) \<and>
         (takes base n (units B) p h' \<or>
          (\<exists>hp. sbrk (8 * int (core_units n)) = Some hp \<and> takes base n (units B \<union> {hp..<hp + core_units n}) p h')))"
proof -
  define h0 where "h0 = (if freep h = None then \<lparr>hptr = (hptr h)(base := base), hsize = (hsize h)(base := 0), freep = Some base\<rparr> else h)"
  have R0: "ring base B h0" using R by (auto simp: h0_def ring_def apart_def)
  then obtain f where f: "freep h0 = Some f" by (auto simp: ring_def)
  have m: "malloc k base nbytes [sbrk] h = malloc_loop k n f (hptr h0 f) [sbrk] h0" using f n unfolding malloc_def h0_def [symmetric] by simp
  have e: "unat nbytes \<le> 8 * (n - 1)" using nunits_enough [of nbytes] nb n by simp
  have c: "sint (core_bytes (of_nat n)) = 8 * int (core_units n)"
    using core_bytes_enough [OF nunits_small [OF nb]] n by simp
  have b: "base < hp \<and> {hp..<hp + core_units n} \<inter> units B = {}" if "sbrk (8 * int (core_units n)) = Some hp" for hp
    using brk [OF _ that] by (simp add: core_units_def nat_mult_distrib split: if_splits)
  have pos: "0 < n" using nunits_pos [of nbytes] n by simp
  obtain res h' where
    "malloc_loop k n f (hptr h0 f) [sbrk] h0 = Some (res, h')"
    "case res of None \<Rightarrow> sbrk (8 * int (core_units n)) = None \<and> h' = h0 \<and> (\<forall>x \<in> set B. snd x < n)
     | Some q \<Rightarrow> \<exists>p. q = p + 1 \<and> got base n (units B) (sbrk (8 * int (core_units n))) p h'"
    using malloc_loop_ring [where sbrk = sbrk, OF R0 f pos c [symmetric, THEN arg_cong [of _ _ sbrk]] b k] by blast
  then show ?thesis using R0 e unfolding m got_def by (cases res) auto
qed

text \<open>The first call, of a program with the static header at 10, and \<^verbatim>\<open>sbrk\<close> that gives memory from 100 on: 10 bytes are 3 units with the header.\<close>

theorem malloc_correct_witness:
  "\<exists>q h'. malloc 10 10 10 [\<lambda>bytes. if 0 < bytes then Some 100 else None] \<lparr>hptr = (\<lambda>_. 0), hsize = (\<lambda>_. 0), freep = None\<rparr> = Some (Some q, h') \<and>
    (\<exists>p. q = p + 1 \<and> (takes 10 3 {} p h' \<or> takes 10 3 {100..<100 + 4096} p h'))"
proof -
  let ?sbrk = "\<lambda>bytes :: int. if 0 < bytes then Some (100 :: nat) else None"
  have n: "3 = unat (nunits_of 10)" by code_simp
  have c: "core_units 3 = 4096" by (simp add: core_units_def)
  show ?thesis
    using malloc_correct [of "\<lparr>hptr = (\<lambda>_. 0), hsize = (\<lambda>_. 0), freep = None\<rparr>" "[]" 10 3 10 ?sbrk 10, OF _ n]
    by (auto simp: c units_def split: option.splits if_splits)
qed

text \<open>A ring of one free block, of 5 units at 20; the block of 4 units behind it is given back.\<close>

theorem free_correct_witness:
  "\<exists>h' B'. free 10 (25 + 1) \<lparr>hptr = (\<lambda>_. 10)(10 := 20), hsize = (\<lambda>_. 0)(20 := 5, 25 := 4), freep = Some 10\<rparr> = Some h' \<and> ring 10 B' h'
     \<and> units B' = units [(20, 5)] \<union> {25..<25 + 4}"
  using free_correct [of 10 "[(20, 5)]" "\<lparr>hptr = (\<lambda>_. 10)(10 := 20), hsize = (\<lambda>_. 0)(20 := 5, 25 := 4), freep = Some 10\<rparr>" 25 10]
  by (simp add: ring_def apart_def units_def)

end
