(* ===== verification/Utils.thy ===== *)
theory Utils
  imports Fs Ulib
begin

text \<open>
  The small user programs \<^verbatim>\<open>wc.c\<close>, \<^verbatim>\<open>cat.c\<close>, \<^verbatim>\<open>echo.c\<close>, \<^verbatim>\<open>kill.c\<close>, \<^verbatim>\<open>ln.c\<close>, \<^verbatim>\<open>mkdir.c\<close> and \<^verbatim>\<open>rm.c\<close>. What \<^verbatim>\<open>read\<close> returns from a descriptor is a list: the bytes
  of each call, or \<open>None\<close> for an error; behind the list is the end of the file. Other system calls are arguments that map a state of the system to a result
  and a state. The strings of the program are given by their addresses.
\<close>

section \<open>wc\<close>

type_synonym reads = "string option list"

record counts =
  lines :: u32
  wordcount :: u32
  chars :: u32
  inword :: bool

definition blanks :: string where
  "blanks = [CHR '' '', CHR 0x0D, CHR 0x09, CHR 0x0A, CHR 0x0B]"

definition wc_byte :: "char \<Rightarrow> counts \<Rightarrow> counts" where
  "wc_byte x s =
     (let s = s\<lparr>chars := chars s + 1\<rparr>;
          s = (if x = CHR 0x0A then s\<lparr>lines := lines s + 1\<rparr> else s)
      in if x \<in> set blanks then s\<lparr>inword := False\<rparr>
         else if \<not> inword s then s\<lparr>wordcount := wordcount s + 1, inword := True\<rparr>
         else s)"

text \<open>The loop over the calls of \<^verbatim>\<open>read\<close>; \<open>None\<close> when one fails.\<close>

fun wc_loop :: "reads \<Rightarrow> counts \<Rightarrow> counts option" where
  "wc_loop [] s = Some s"
| "wc_loop (None # rs) s = None"
| "wc_loop (Some part # rs) s = (if part = [] then Some s else wc_loop rs (fold wc_byte part s))"

text \<open>The output, and whether the program goes on.\<close>

definition wc :: "(u32 \<Rightarrow> string) \<Rightarrow> reads \<Rightarrow> u32 \<Rightarrow> written list option \<times> bool" where
  "wc str rs name =
     (case wc_loop rs \<lparr>lines = 0, wordcount = 0, chars = 0, inword = False\<rparr> of
        None \<Rightarrow> (printf 1 str (''wc: read error'' @ [CHR 0x0A]) [], False)
      | Some s \<Rightarrow> (printf 1 str (''%d %d %d %s'' @ [CHR 0x0A]) [lines s, wordcount s, chars s, name], True))"

text \<open>\<^verbatim>\<open>main\<close>, for what \<^verbatim>\<open>open\<close> and \<^verbatim>\<open>read\<close> give for each name, \<open>None\<close> where \<^verbatim>\<open>open\<close> fails; \<open>nil\<close> is the address of the empty string.\<close>

fun wc_files :: "(u32 \<Rightarrow> string) \<Rightarrow> (string \<Rightarrow> reads option) \<Rightarrow> u32 list \<Rightarrow> written list option" where
  "wc_files str fs [] = Some []"
| "wc_files str fs (a # as) =
     (case fs (str a) of
        None \<Rightarrow> printf 1 str (''wc: cannot open %s'' @ [CHR 0x0A]) [a]
      | Some rs \<Rightarrow>
          (case wc str rs a of
             (None, _) \<Rightarrow> None
           | (Some out, go) \<Rightarrow> if go then map_option (append out) (wc_files str fs as) else Some out))"

definition wc_main :: "(u32 \<Rightarrow> string) \<Rightarrow> (string \<Rightarrow> reads option) \<Rightarrow> reads \<Rightarrow> u32 \<Rightarrow> u32 list \<Rightarrow> written list option" where
  "wc_main str fs stdin nil args = (if args = [] then fst (wc str stdin nil) else wc_files str fs args)"

section \<open>cat\<close>

fun cat_loop :: "reads \<Rightarrow> string \<Rightarrow> string \<times> bool" where
  "cat_loop [] out = (out, True)"
| "cat_loop (None # rs) out = (out @ ''cat: read error'' @ [CHR 0x0A], False)"
| "cat_loop (Some part # rs) out = (if part = [] then (out, True) else cat_loop rs (out @ part))"

definition cat :: "reads \<Rightarrow> string \<times> bool" where
  "cat rs = cat_loop rs []"

text \<open>\<^verbatim>\<open>main\<close>, for what \<^verbatim>\<open>open\<close> and \<^verbatim>\<open>read\<close> give for each name, \<open>None\<close> where \<^verbatim>\<open>open\<close> fails.\<close>

fun cat_files :: "(string \<Rightarrow> reads option) \<Rightarrow> string list \<Rightarrow> string" where
  "cat_files fs [] = []"
| "cat_files fs (a # as) =
     (case fs a of
        None \<Rightarrow> ''cat: cannot open '' @ a @ [CHR 0x0A]
      | Some rs \<Rightarrow> (case cat rs of (out, go) \<Rightarrow> out @ (if go then cat_files fs as else [])))"

definition cat_main :: "(string \<Rightarrow> reads option) \<Rightarrow> reads \<Rightarrow> string list \<Rightarrow> string" where
  "cat_main fs stdin args = (if args = [] then fst (cat stdin) else cat_files fs args)"

section \<open>echo\<close>

fun echo_main :: "(u32 \<Rightarrow> string) \<Rightarrow> u32 \<Rightarrow> u32 \<Rightarrow> u32 list \<Rightarrow> written list option" where
  "echo_main str blank newline [] = Some []"
| "echo_main str blank newline (a # as) =
     (case printf 1 str ''%s%s'' [a, if as \<noteq> [] then blank else newline] of
        None \<Rightarrow> None
      | Some out \<Rightarrow> map_option (append out) (echo_main str blank newline as))"

section \<open>kill, ln, mkdir and rm\<close>

fun kill_loop_user :: "mem \<Rightarrow> (u32 \<Rightarrow> 's \<Rightarrow> int \<times> 's) \<Rightarrow> u32 list \<Rightarrow> 's \<Rightarrow> 's option" where
  "kill_loop_user m kill [] s = Some s"
| "kill_loop_user m kill (a # as) s =
     (case atoi m a of None \<Rightarrow> None | Some pid \<Rightarrow> kill_loop_user m kill as (snd (kill pid s)))"

text \<open>\<^verbatim>\<open>main\<close>, for all of \<^verbatim>\<open>argv\<close>, with the name of the program.\<close>

definition kill_main :: "mem \<Rightarrow> (u32 \<Rightarrow> 's \<Rightarrow> int \<times> 's) \<Rightarrow> u32 list \<Rightarrow> 's \<Rightarrow> (string \<times> 's) option" where
  "kill_main m kill argv s =
     (if length argv < 1 then Some (''usage: kill pid...'' @ [CHR 0x0A], s)
      else map_option (Pair []) (kill_loop_user m kill (tl argv) s))"

definition ln_main :: "(string \<Rightarrow> string \<Rightarrow> 's \<Rightarrow> int \<times> 's) \<Rightarrow> string list \<Rightarrow> 's \<Rightarrow> string \<times> 's" where
  "ln_main link args s =
     (case args of
        [old, new] \<Rightarrow>
          (case link old new s of (r, s) \<Rightarrow>
             (if r < 0 then ''link '' @ old @ '' '' @ new @ '': failed'' @ [CHR 0x0A] else [], s))
      | _ \<Rightarrow> (''Usage: ln old new'' @ [CHR 0x0A], s))"

fun mkdir_loop :: "(string \<Rightarrow> 's \<Rightarrow> int \<times> 's) \<Rightarrow> string list \<Rightarrow> 's \<Rightarrow> string \<times> 's" where
  "mkdir_loop mkdir [] s = ([], s)"
| "mkdir_loop mkdir (a # as) s =
     (case mkdir a s of (r, s) \<Rightarrow>
        if r < 0 then (''mkdir: '' @ a @ '' failed to create'' @ [CHR 0x0A], s) else mkdir_loop mkdir as s)"

definition mkdir_main :: "(string \<Rightarrow> 's \<Rightarrow> int \<times> 's) \<Rightarrow> string list \<Rightarrow> 's \<Rightarrow> string \<times> 's" where
  "mkdir_main mkdir args s = (if args = [] then (''Usage: mkdir files...'' @ [CHR 0x0A], s) else mkdir_loop mkdir args s)"

fun rm_loop :: "(string \<Rightarrow> 's \<Rightarrow> int \<times> 's) \<Rightarrow> string list \<Rightarrow> 's \<Rightarrow> string \<times> 's" where
  "rm_loop rmv [] s = ([], s)"
| "rm_loop rmv (a # as) s =
     (case rmv a s of (r, s) \<Rightarrow>
        if r < 0 then (''rm: '' @ a @ '' failed to delete'' @ [CHR 0x0A], s) else rm_loop rmv as s)"

definition rm_main :: "(string \<Rightarrow> 's \<Rightarrow> int \<times> 's) \<Rightarrow> string list \<Rightarrow> 's \<Rightarrow> string \<times> 's" where
  "rm_main rmv args s = (if args = [] then (''Usage: rm files...'' @ [CHR 0x0A], s) else rm_loop rmv args s)"

section \<open>ls\<close>

text \<open>The position behind the last slash, for the loop that goes back from \<open>n\<close>.\<close>

fun name_pos :: "string \<Rightarrow> nat \<Rightarrow> nat" where
  "name_pos path n =
     (if n < length path \<and> path ! n = CHR ''/'' then Suc n
      else if n = 0 then 0
      else name_pos path (n - 1))"

declare name_pos.simps [simp del]

definition fmtname :: "string \<Rightarrow> string" where
  "fmtname path =
     (let p = drop (name_pos path (length path)) path in
      if length p \<ge> DIRSIZ then p else p @ replicate (DIRSIZ - length p) (CHR '' ''))"

text \<open>What \<^verbatim>\<open>stat\<close> says of a file, and the line for it.\<close>

record st =
  st_type :: u16
  st_dev :: int
  st_ino :: u32
  st_nlink :: u16
  st_size :: u32

definition ls_row :: "string \<Rightarrow> st \<Rightarrow> string" where
  "ls_row path s =
     fmtname path @ '' '' @ map snd (printint_user 1 (sint (st_type s)) 10 True) @ '' '' @ map snd (printint_user 1 (sint (st_ino s)) 10 True)
       @ '' '' @ map snd (printint_user 1 (sint (st_size s)) 10 True) @ [CHR 0x0A]"

text \<open>The loop over the entries of a directory, which are inode numbers and the bytes of names.\<close>

fun ls_entries :: "(string \<Rightarrow> st option) \<Rightarrow> string \<Rightarrow> (nat \<times> string) list \<Rightarrow> string" where
  "ls_entries stat path [] = []"
| "ls_entries stat path ((inum, name) # des) =
     (if inum = 0 then ls_entries stat path des
      else
        let buf = path @ ''/'' @ takeWhile (\<lambda>x. x \<noteq> CHR 0x00) name in
        (case stat buf of
           None \<Rightarrow> ''ls: cannot stat '' @ buf @ [CHR 0x0A]
         | Some s \<Rightarrow> ls_row buf s) @ ls_entries stat path des)"

text \<open>\<open>fs\<close> gives what \<^verbatim>\<open>fstat\<close> says of an open file and the entries that \<^verbatim>\<open>read\<close> returns, or \<open>None\<close> where \<^verbatim>\<open>open\<close> fails.\<close>

definition ls :: "(string \<Rightarrow> (st option \<times> (nat \<times> string) list) option) \<Rightarrow> (string \<Rightarrow> st option) \<Rightarrow> string \<Rightarrow> string" where
  "ls fs stat path =
     (case fs path of
        None \<Rightarrow> ''ls: cannot open '' @ path @ [CHR 0x0A]
      | Some (None, _) \<Rightarrow> ''ls: cannot stat '' @ path @ [CHR 0x0A]
      | Some (Some s, des) \<Rightarrow>
          if st_type s = T_FILE then ls_row path s
          else if st_type s = T_DIR then
            if length path + 1 + DIRSIZ + 1 > 512 then ''ls: path too long'' @ [CHR 0x0A] else ls_entries stat path des
          else [])"

definition ls_main :: "(string \<Rightarrow> (st option \<times> (nat \<times> string) list) option) \<Rightarrow> (string \<Rightarrow> st option) \<Rightarrow> string list \<Rightarrow> string" where
  "ls_main fs stat args = (if args = [] then ls fs stat ''.'' else concat (map (ls fs stat) args))"

section \<open>Words\<close>

text \<open>The words of a text: its longest parts without blanks.\<close>

abbreviation blank :: "char \<Rightarrow> bool" where
  "blank x \<equiv> x \<in> set blanks"

lemma words_shrink:
  assumes "dropWhile blank t \<noteq> []"
  shows "length (dropWhile (\<lambda>x. \<not> blank x) (dropWhile blank t)) < length t"
proof -
  obtain x u where u: "dropWhile blank t = x # u" using assms by (cases "dropWhile blank t") auto
  then have "\<not> blank x" using hd_dropWhile [OF assms] by simp
  then have "length (dropWhile (\<lambda>x. \<not> blank x) (dropWhile blank t)) \<le> length u" using u by (simp add: length_dropWhile_le)
  also have "\<dots> < length t" using u length_dropWhile_le [of blank t] by simp
  finally show ?thesis .
qed

function words_of :: "string \<Rightarrow> string list" where
  "words_of t =
     (let u = dropWhile blank t in
      if u = [] then [] else takeWhile (\<lambda>x. \<not> blank x) u # words_of (dropWhile (\<lambda>x. \<not> blank x) u))"
  by pat_completeness auto
termination
  by (relation "measure length") (simp_all add: words_shrink del: dropWhile_eq_Nil_conv)

declare words_of.simps [simp del]

lemma wc_loop_concat:
  "(\<forall>c \<in> set cs. c \<noteq> []) \<Longrightarrow> wc_loop (map Some cs) s = Some (fold wc_byte (concat cs) s)"
  by (induction cs arbitrary: s) auto

lemma words_blank: "blank x \<Longrightarrow> words_of (x # t) = words_of t"
  by (subst (1 2) words_of.simps) simp

lemma words_Nil [simp]: "words_of [] = []"
  by (subst words_of.simps) simp

text \<open>The words that begin in a text, behind a blank or behind a part of a word.\<close>

definition begins :: "bool \<Rightarrow> string \<Rightarrow> string list" where
  "begins b t = words_of (if b then dropWhile (\<lambda>x. \<not> blank x) t else t)"

lemma begins_simps [simp]:
  "begins b [] = []"
  "blank x \<Longrightarrow> begins b (x # t) = begins False t"
  "\<not> blank x \<Longrightarrow> length (begins b (x # t)) = (if b then 0 else 1) + length (begins True t)"
proof -
  show "begins b [] = []" by (simp add: begins_def)
  show "blank x \<Longrightarrow> begins b (x # t) = begins False t" by (simp add: begins_def words_blank)
  assume "\<not> blank x"
  then show "length (begins b (x # t)) = (if b then 0 else 1) + length (begins True t)"
    unfolding begins_def by (cases b) (simp, subst words_of.simps, simp)
qed

lemma wc_bytes:
  "lines (fold wc_byte t s) = lines s + of_nat (length (filter (\<lambda>x. x = CHR 0x0A) t)) \<and>
   chars (fold wc_byte t s) = chars s + of_nat (length t) \<and>
   wordcount (fold wc_byte t s) = wordcount s + of_nat (length (begins (inword s) t))"
proof (induction t arbitrary: s)
  case (Cons x t)
  show ?case using Cons [of "wc_byte x s"] by (cases "blank x"; cases "inword s") (auto simp: wc_byte_def Let_def)
qed simp

section \<open>Properties\<close>

text \<open>
  C40: for every way in which a text arrives in calls of \<^verbatim>\<open>read\<close>, \<^verbatim>\<open>wc\<close> prints the number of its newlines, of its words and of its characters.
\<close>

theorem wc_counts:
  assumes "\<forall>c \<in> set cs. c \<noteq> []" and "t = concat cs"
  shows "wc str (map Some cs) name =
    (printf 1 str (''%d %d %d %s'' @ [CHR 0x0A])
       [of_nat (length (filter (\<lambda>x. x = CHR 0x0A) t)), of_nat (length (words_of t)), of_nat (length t), name], True)"
  using assms(1) wc_bytes [of t "\<lparr>lines = 0, wordcount = 0, chars = 0, inword = False\<rparr>"]
  by (simp add: wc_def wc_loop_concat assms(2) begins_def)

text \<open>A text in two pieces, which part a word.\<close>

theorem wc_counts_witness:
  "wc (\<lambda>_. '''') (map Some [''ab'', ''c d'']) 1 = (printf 1 (\<lambda>_. '''') (''%d %d %d %s'' @ [CHR 0x0A]) [0, 2, 5, 1], True)"
proof -
  have "words_of ''abc d'' = [''abc'', ''d'']" by (simp add: words_of.simps blanks_def)
  then show ?thesis using wc_counts [of "[''ab'', ''c d'']" "''abc d''" "\<lambda>_. ''''" 1] by simp
qed

section \<open>The other programs\<close>

lemma cat_copies: "(\<forall>c \<in> set cs. c \<noteq> []) \<Longrightarrow> cat (map Some cs) = (concat cs, True)"
proof -
  have "(\<forall>c \<in> set cs. c \<noteq> []) \<Longrightarrow> cat_loop (map Some cs) out = (out @ concat cs, True)" for out
    by (induction cs arbitrary: out) auto
  then show "(\<forall>c \<in> set cs. c \<noteq> []) \<Longrightarrow> cat (map Some cs) = (concat cs, True)" by (simp add: cat_def)
qed

text \<open>The arguments with blanks between them, and a newline behind them.\<close>

fun joined :: "string list \<Rightarrow> string" where
  "joined [] = []"
| "joined (w # ws) = w @ (if ws \<noteq> [] then '' '' else [CHR 0x0A]) @ joined ws"

lemma echo_joins:
  assumes "blk \<noteq> 0" and "nl \<noteq> 0" and "str blk = '' ''" and "str nl = [CHR 0x0A]"
  shows "0 \<notin> set as \<Longrightarrow> echo_main str blk nl as = Some (map (putc 1) (joined (map str as)))"
  using assms by (induction as) (auto simp: printf_def)

text \<open>\<^verbatim>\<open>rm\<close> and \<^verbatim>\<open>mkdir\<close> print a message exactly if one of their calls fails, and then that was the last one.\<close>

lemma rm_silent: "rm_loop rmv as s = ([], s') \<Longrightarrow> fold (\<lambda>a s. snd (rmv a s)) as s = s'"
  by (induction as arbitrary: s) (auto split: prod.splits if_splits)

lemma mkdir_silent: "mkdir_loop mkdir as s = ([], s') \<Longrightarrow> fold (\<lambda>a s. snd (mkdir a s)) as s = s'"
  by (induction as arbitrary: s) (auto split: prod.splits if_splits)

text \<open>\<^verbatim>\<open>kill\<close> without a process does nothing, and prints no message.\<close>

lemma kill_no_usage: "kill_main m kill [a] s = Some ([], s)"
  by (simp add: kill_main_def)

lemma name_pos_le: "name_pos path n \<le> (if n < length path \<and> path ! n = CHR ''/'' then Suc n else n)"
proof (induction n)
  case (Suc n)
  then have "name_pos path n \<le> Suc n" by (auto split: if_splits)
  then show ?case by (subst name_pos.simps) simp
qed (subst name_pos.simps, simp)

lemma name_pos_last:
  "n \<le> length path \<Longrightarrow> drop (name_pos path n) (take n path) = rev (takeWhile (\<lambda>x. x \<noteq> CHR ''/'') (rev (take n path))) \<or> n < length path \<and> path ! n = CHR ''/''"
proof (induction n)
  case 0
  then show ?case by simp
next
  case (Suc n)
  show ?case
  proof (cases "Suc n < length path \<and> path ! Suc n = CHR ''/''")
    case False
    then have p: "name_pos path (Suc n) = name_pos path n" by (subst name_pos.simps) auto
    have t: "take (Suc n) path = take n path @ [path ! n]" using Suc.prems by (simp add: take_Suc_conv_app_nth)
    show ?thesis
    proof (cases "path ! n = CHR ''/''")
      case True
      then have "name_pos path n = Suc n" using Suc.prems by (subst name_pos.simps) simp
      then show ?thesis using True p t by simp
    next
      case n: False
      have "name_pos path n \<le> n" using n name_pos_le [of path n] by simp
      then show ?thesis using Suc n p t by simp
    qed
  qed simp
qed

text \<open>\<^verbatim>\<open>fmtname\<close> gives the last element of a path, filled up with blanks to the width of a name.\<close>

theorem fmtname_last:
  "fmtname path = (let w = rev (takeWhile (\<lambda>x. x \<noteq> CHR ''/'') (rev path)) in w @ replicate (DIRSIZ - length w) (CHR '' ''))"
  using name_pos_last [of "length path" path] by (simp add: fmtname_def Let_def)

end
