(* ===== verification/Kbd.thy ===== *)
theory Kbd
  imports Console
begin

text \<open>
  The keyboard driver: the tables of \<^verbatim>\<open>kbd.h\<close> and the decoding of scan codes of \<^verbatim>\<open>kbd.c\<close>. The static variable \<^verbatim>\<open>shift\<close> is passed as state; what the
  keyboard controller delivers is an argument.
\<close>

section \<open>Tables\<close>

definition SHIFT :: u32 where "SHIFT = 1"
definition CTL :: u32 where "CTL = 2"
definition ALT :: u32 where "ALT = 4"
definition CAPSLOCK :: u32 where "CAPSLOCK = 8"
definition NUMLOCK :: u32 where "NUMLOCK = 16"
definition SCROLLLOCK :: u32 where "SCROLLLOCK = 32"
definition E0ESC :: u32 where "E0ESC = 64"

definition KEY_HOME :: u8 where "KEY_HOME = 0xE0"
definition KEY_END :: u8 where "KEY_END = 0xE1"
definition KEY_UP :: u8 where "KEY_UP = 0xE2"
definition KEY_DN :: u8 where "KEY_DN = 0xE3"
definition KEY_LF :: u8 where "KEY_LF = 0xE4"
definition KEY_RT :: u8 where "KEY_RT = 0xE5"
definition KEY_PGUP :: u8 where "KEY_PGUP = 0xE6"
definition KEY_PGDN :: u8 where "KEY_PGDN = 0xE7"
definition KEY_INS :: u8 where "KEY_INS = 0xE8"
definition KEY_DEL :: u8 where "KEY_DEL = 0xE9"

text \<open>The code of a letter with the control key, the macro \<^verbatim>\<open>C\<close>.\<close>

definition ctl :: "u8 \<Rightarrow> u8" where "ctl x = x - 64"

text \<open>An array with the initialisers of its first elements and of designated ones; the others are 0.\<close>

definition table :: "'a list \<Rightarrow> (u8 \<times> 'a) list \<Rightarrow> u8 \<Rightarrow> 'a :: zero" where
  "table xs ds i = (case map_of ds i of Some c \<Rightarrow> c | None \<Rightarrow> if unat i < length xs then xs ! unat i else 0)"

definition shiftcode :: "u8 \<Rightarrow> u32" where
  "shiftcode = table [] [(0x1D, CTL), (0x2A, SHIFT), (0x36, SHIFT), (0x38, ALT),
      (0x9D, CTL), (0xB8, ALT)]"

definition togglecode :: "u8 \<Rightarrow> u32" where
  "togglecode = table [] [(0x3A, CAPSLOCK), (0x45, NUMLOCK), (0x46, SCROLLLOCK)]"

definition normalmap :: "u8 \<Rightarrow> u8" where
  "normalmap = table
     [0, 27, 49, 50, 51, 52, 53, 54,
      55, 56, 57, 48, 45, 61, 8, 9,
      113, 119, 101, 114, 116, 121, 117, 105,
      111, 112, 91, 93, 10, 0, 97, 115,
      100, 102, 103, 104, 106, 107, 108, 59,
      39, 96, 0, 92, 122, 120, 99, 118,
      98, 110, 109, 44, 46, 47, 0, 42,
      0, 32, 0, 0, 0, 0, 0, 0,
      0, 0, 0, 0, 0, 0, 0, 55,
      56, 57, 45, 52, 53, 54, 43, 49,
      50, 51, 48, 46, 0, 0, 0, 0]
     [(0x9C, 10), (0xB5, 47), (0xC8, KEY_UP), (0xD0, KEY_DN),
      (0xC9, KEY_PGUP), (0xD1, KEY_PGDN), (0xCB, KEY_LF), (0xCD, KEY_RT),
      (0x97, KEY_HOME), (0xCF, KEY_END), (0xD2, KEY_INS), (0xD3, KEY_DEL)]"

definition shiftmap :: "u8 \<Rightarrow> u8" where
  "shiftmap = table
     [0, 27, 33, 64, 35, 36, 37, 94,
      38, 42, 40, 41, 95, 43, 8, 9,
      81, 87, 69, 82, 84, 89, 85, 73,
      79, 80, 123, 125, 10, 0, 65, 83,
      68, 70, 71, 72, 74, 75, 76, 58,
      34, 126, 0, 124, 90, 88, 67, 86,
      66, 78, 77, 60, 62, 63, 0, 42,
      0, 32, 0, 0, 0, 0, 0, 0,
      0, 0, 0, 0, 0, 0, 0, 55,
      56, 57, 45, 52, 53, 54, 43, 49,
      50, 51, 48, 46, 0, 0, 0, 0]
     [(0x9C, 10), (0xB5, 47), (0xC8, KEY_UP), (0xD0, KEY_DN),
      (0xC9, KEY_PGUP), (0xD1, KEY_PGDN), (0xCB, KEY_LF), (0xCD, KEY_RT),
      (0x97, KEY_HOME), (0xCF, KEY_END), (0xD2, KEY_INS), (0xD3, KEY_DEL)]"

definition ctlmap :: "u8 \<Rightarrow> u8" where
  "ctlmap = table
     [0, 0, 0, 0, 0, 0, 0, 0,
      0, 0, 0, 0, 0, 0, 0, 0,
      ctl 81, ctl 87, ctl 69, ctl 82, ctl 84, ctl 89, ctl 85, ctl 73,
      ctl 79, ctl 80, 0, 0, 13, 0, ctl 65, ctl 83,
      ctl 68, ctl 70, ctl 71, ctl 72, ctl 74, ctl 75, ctl 76, 0,
      0, 0, 0, ctl 92, ctl 90, ctl 88, ctl 67, ctl 86,
      ctl 66, ctl 78, ctl 77, 0, 0, ctl 47, 0, 0]
     [(0x9C, 13), (0xB5, ctl 47), (0xC8, KEY_UP), (0xD0, KEY_DN),
      (0xC9, KEY_PGUP), (0xD1, KEY_PGDN), (0xCB, KEY_LF), (0xCD, KEY_RT),
      (0x97, KEY_HOME), (0xCF, KEY_END), (0xD2, KEY_INS), (0xD3, KEY_DEL)]"

section \<open>Decoding\<close>

text \<open>\<open>None\<close> when the controller has no data. The result is the character, 0 for none, or -1; and the new \<^verbatim>\<open>shift\<close>.\<close>

definition key_char :: "u8 \<Rightarrow> u32 \<Rightarrow> int \<times> u32" where
  "key_char data shift =
     (let shift = shift OR shiftcode data;
          shift = shift XOR togglecode data;
          c = ([normalmap, shiftmap, ctlmap, ctlmap] ! unat (shift AND (CTL OR SHIFT))) data;
          c = (if shift AND CAPSLOCK \<noteq> 0 then
                 if 97 \<le> c \<and> c \<le> 122 then c + (65 - 97) else if 65 \<le> c \<and> c \<le> 90 then c + (97 - 65) else c
               else c)
      in (uint c, shift))"

definition kbdgetc :: "u8 option \<Rightarrow> u32 \<Rightarrow> int \<times> u32" where
  "kbdgetc st shift =
     (case st of
        None \<Rightarrow> (-1, shift)
      | Some data \<Rightarrow>
          if data = 0xE0 then (0, shift OR E0ESC)
          else if data AND 0x80 \<noteq> 0 then
            let data = (if shift AND E0ESC \<noteq> 0 then data else data AND 0x7F) in
            (0, shift AND NOT (shiftcode data OR E0ESC))
          else if shift AND E0ESC \<noteq> 0 then key_char (data OR 0x80) (shift AND NOT E0ESC)
          else key_char data shift)"

text \<open>The characters of the scan codes that the controller has, until it has none.\<close>

fun kbd_chars :: "u8 list \<Rightarrow> u32 \<Rightarrow> int list \<times> u32" where
  "kbd_chars [] shift = ([], snd (kbdgetc None shift))"
| "kbd_chars (d # ds) shift =
     (case kbdgetc (Some d) shift of (c, shift) \<Rightarrow> case kbd_chars ds shift of (cs, shift) \<Rightarrow> (c # cs, shift))"

definition kbdintr :: "int list \<Rightarrow> u8 list \<Rightarrow> u32 \<Rightarrow> (cons, u32) kop" where
  "kbdintr dump ds shift =
     (case kbd_chars ds shift of (cs, shift) \<Rightarrow> andthen (consoleintr dump cs) (\<lambda>_. ret shift))"

section \<open>Letters\<close>

text \<open>The letters of the three rows of the keyboard.\<close>

definition letter_key :: "u8 \<Rightarrow> bool" where
  "letter_key d \<longleftrightarrow> 0x10 \<le> d \<and> d \<le> 0x19 \<or> 0x1E \<le> d \<and> d \<le> 0x26 \<or> 0x2C \<le> d \<and> d \<le> 0x32"

lemma letter_keys:
  assumes "letter_key d"
  shows "d \<in> set (map of_nat ([0x10..<0x1A] @ [0x1E..<0x27] @ [0x2C..<0x33]))"
proof -
  have "unat d \<in> {0x10..<0x1A} \<union> ({0x1E..<0x27} \<union> {0x2C..<0x33})" using assms by (auto simp: letter_key_def word_le_nat_alt)
  then have "unat d \<in> set ([0x10..<0x1A] @ [0x1E..<0x27] @ [0x2C..<0x33])" unfolding set_append set_upt .
  then have "of_nat (unat d) \<in> set (map of_nat ([0x10..<0x1A] @ [0x1E..<0x27] @ [0x2C..<0x33]) :: u8 list)" unfolding set_map by (rule imageI)
  then show ?thesis unfolding of_nat_unat ucast_id .
qed

lemma letter_tables:
  "\<forall>d \<in> set (map of_nat ([0x10..<0x1A] @ [0x1E..<0x27] @ [0x2C..<0x33])). uint (normalmap d) \<in> {97..122} \<and>
     shiftmap d = normalmap d - 32 \<and> ctlmap d = normalmap d - 96 \<and> shiftcode d = 0 \<and> togglecode d = 0 \<and> d \<noteq> 0xE0 \<and> d AND 0x80 = 0"
  by code_simp

lemma char_range:
  assumes "uint (n :: u8) \<in> {97..122}"
  shows "97 \<le> n \<and> n \<le> 122" "uint (n - 32) = uint n - 32" "uint (n - 96) = uint n - 96"
  using assms by (auto simp: word_le_def uint_word_ariths)

lemma and_exp: "(w :: u32) AND 2 ^ n = (if bit w n then 2 ^ n else 0)"
  by (rule bit_eqI) (auto simp: bit_and_iff bit_exp_iff)

lemma low_bits: "(sh :: u32) AND (CTL OR SHIFT) = (if sh AND CTL = 0 then 0 else 2) OR (if sh AND SHIFT = 0 then 0 else 1)"
proof -
  have "sh AND CTL = 0 \<or> sh AND CTL = 2" "sh AND SHIFT = 0 \<or> sh AND SHIFT = 1"
    using and_exp [of sh 1] and_exp [of sh 0] by (auto simp: CTL_def SHIFT_def)
  then show ?thesis by (auto simp: bit.conj_disj_distrib)
qed

section \<open>Properties\<close>

text \<open>
  a letter key gives the letter's control code with the control key; otherwise the capital exactly if one of the shift key and the caps lock is on, and not
  the other. The modifiers stay as they are.
\<close>

theorem kbd_letter:
  assumes "letter_key d" and "sh AND E0ESC = 0"
  shows "uint (normalmap d) \<in> {97..122} \<and> kbdgetc (Some d) sh =
    (if sh AND CTL \<noteq> 0 then uint (normalmap d) - 96
     else if (sh AND SHIFT \<noteq> 0) \<noteq> (sh AND CAPSLOCK \<noteq> 0) then uint (normalmap d) - 32 else uint (normalmap d), sh)"
proof -
  from letter_tables letter_keys [OF assms(1)] have t: "uint (normalmap d) \<in> {97..122}" "shiftmap d = normalmap d - 32" "ctlmap d = normalmap d - 96"
    "shiftcode d = 0" "togglecode d = 0" "d \<noteq> 0xE0" "d AND 0x80 = 0" by blast+
  note r = char_range [OF t(1)]
  have "kbdgetc (Some d) sh = key_char d sh" using t(6,7) assms(2) by (simp add: kbdgetc_def)
  then show ?thesis using t(1) r unfolding key_char_def t(4,5) or.right_neutral xor.right_neutral Let_def low_bits
    by (auto simp: t(2,3) word_le_def)
qed

text \<open>The key of the letter a, with caps lock on.\<close>

theorem kbd_letter_witness: "kbdgetc (Some 0x1E) CAPSLOCK = (65, CAPSLOCK)"
proof -
  have "normalmap 0x1E = 97" by code_simp
  then show ?thesis using kbd_letter [of "0x1E" CAPSLOCK] by (simp add: letter_key_def CAPSLOCK_def E0ESC_def CTL_def SHIFT_def)
qed

section \<open>Modifiers\<close>

text \<open>A modifier is on from the press of its key to the release of any key that has it; caps lock changes with each press.\<close>

lemma modifier_press:
  assumes "sh AND E0ESC = 0" and "d AND 0x80 = 0" and "d \<noteq> 0xE0"
  shows "snd (kbdgetc (Some d) sh) = (sh OR shiftcode d) XOR togglecode d"
  using assms by (simp add: kbdgetc_def key_char_def Let_def)

lemma modifier_release:
  assumes "sh AND E0ESC = 0" and "d AND 0x80 \<noteq> 0" and "d \<noteq> 0xE0"
  shows "kbdgetc (Some d) sh = (0, sh AND NOT (shiftcode (d AND 0x7F) OR E0ESC))"
  using assms by (simp add: kbdgetc_def)

lemma shift_keys_share: "snd (kbd_chars [0x2A, 0x36, 0xAA] 0) AND SHIFT = 0"
  by code_simp

lemma home_key_lost: "fst (kbd_chars [0xE0, 0x47] 0) = [0, 0] \<and> fst (kbd_chars [0xE0, 0x4F] 0) = [0, uint KEY_END]"
  by code_simp

end
