(* ===== verification/Mp.thy ===== *)
theory Mp
  imports Memory Kalloc
begin

text \<open>
  The search for the description of a multiprocessor in memory, and the walk through its table of processors and interrupt controllers (\<^verbatim>\<open>mp.c\<close>). Loops over
  memory are partial functions: \<open>None\<close> when they do not end. The messages on the console are left out.
\<close>

section \<open>The structures\<close>

text \<open>Positions of the fields of \<^verbatim>\<open>struct mp\<close>, \<^verbatim>\<open>struct mpconf\<close>, \<^verbatim>\<open>struct mpproc\<close> and \<^verbatim>\<open>struct mpioapic\<close>, and their sizes.\<close>

definition mp_physaddr :: u32 where "mp_physaddr = 4"
definition mp_imcrp :: u32 where "mp_imcrp = 12"
definition mp_bytes :: u32 where "mp_bytes = 16"
definition conf_length :: u32 where "conf_length = 4"
definition conf_version :: u32 where "conf_version = 6"
definition conf_lapicaddr :: u32 where "conf_lapicaddr = 36"
definition conf_bytes :: u32 where "conf_bytes = 44"
definition proc_apicid :: u32 where "proc_apicid = 1"
definition proc_flags :: u32 where "proc_flags = 3"
definition proc_bytes :: u32 where "proc_bytes = 20"
definition ioapic_apicno :: u32 where "ioapic_apicno = 1"
definition ioapic_bytes :: u32 where "ioapic_bytes = 8"
definition MPBOOT :: u8 where "MPBOOT = 2"
definition MPPROC :: u8 where "MPPROC = 0"
definition MPBUS :: u8 where "MPBUS = 1"
definition MPIOAPIC :: u8 where "MPIOAPIC = 2"
definition MPIOINTR :: u8 where "MPIOINTR = 3"
definition MPLINTR :: u8 where "MPLINTR = 4"

definition NCPU :: nat where "NCPU = 8"

record mpstate =
  cpu_id :: "nat \<Rightarrow> nat"
  bcpu :: nat
  ismp :: bool
  ncpu :: nat
  ioapicid :: u8
  lapic :: u32
  outs :: "(u32 \<times> u8) list"

section \<open>The search\<close>

definition mpbcpu :: "mpstate \<Rightarrow> nat" where
  "mpbcpu s = bcpu s"

fun sum_loop :: "nat \<Rightarrow> mem \<Rightarrow> u32 \<Rightarrow> int \<Rightarrow> int" where
  "sum_loop 0 m a acc = acc"
| "sum_loop (Suc n) m a acc = sum_loop n m (a + 1) (acc + uint (m a))"

definition sum :: "mem \<Rightarrow> u32 \<Rightarrow> nat \<Rightarrow> u8" where
  "sum m a len = word_of_int (sum_loop len m a 0)"

text \<open>\<^verbatim>\<open>memcmp\<close> with a string constant.\<close>

definition signature_at :: "mem \<Rightarrow> u32 \<Rightarrow> string \<Rightarrow> bool" where
  "signature_at m p w \<longleftrightarrow> map (\<lambda>i. m (p + of_nat i)) [0..<length w] = map of_char w"

partial_function (option) mpsearch1_loop :: "mem \<Rightarrow> u32 \<Rightarrow> u32 \<Rightarrow> u32 option" where
  "mpsearch1_loop m p e =
     (if p < e then
        if signature_at m p ''_MP_'' \<and> sum m p 16 = 0 then Some p
        else mpsearch1_loop m (p + mp_bytes) e
      else Some 0)"

definition mpsearch1 :: "mem \<Rightarrow> u32 \<Rightarrow> u32 \<Rightarrow> u32 option" where
  "mpsearch1 m a len = mpsearch1_loop m (p2v a) (p2v a + len)"

definition mget16 :: "mem \<Rightarrow> u32 \<Rightarrow> u32" where
  "mget16 m a = push_bit 8 (ucast (m (a + 1))) OR ucast (m a)"

definition mpsearch :: "mem \<Rightarrow> u32 option" where
  "mpsearch m =
     (let bda = p2v 0x400; p = push_bit 4 (mget16 m (bda + 0x0E)) in
      case (if p \<noteq> 0 then mpsearch1 m p 1024 else mpsearch1 m (mget16 m (bda + 0x13) * 1024 - 1024) 1024) of
        None \<Rightarrow> None
      | Some mp \<Rightarrow> if mp \<noteq> 0 then Some mp else mpsearch1 m 0xF0000 0x10000)"

text \<open>The structure and the table it leads to; \<open>Some None\<close> when there is none.\<close>

definition mpconfig :: "mem \<Rightarrow> (u32 \<times> u32) option option" where
  "mpconfig m =
     (case mpsearch m of
        None \<Rightarrow> None
      | Some mp \<Rightarrow>
          if mp = 0 \<or> mget32 m (mp + mp_physaddr) = 0 then Some None
          else
            let conf = p2v (mget32 m (mp + mp_physaddr)) in
            if \<not> signature_at m conf ''PCMP'' then Some None
            else if m (conf + conf_version) \<noteq> 1 \<and> m (conf + conf_version) \<noteq> 4 then Some None
            else if sum m conf (unat (mget16 m (conf + conf_length))) \<noteq> 0 then Some None
            else Some (Some (mp, conf)))"

section \<open>The table\<close>

text \<open>The entry of a processor. A processor beyond the array \<^verbatim>\<open>cpus\<close> is a write outside it.\<close>

definition add_cpu :: "mem \<Rightarrow> u32 \<Rightarrow> mpstate \<Rightarrow> fault + mpstate" where
  "add_cpu m p s =
     (let s = (if int (ncpu s) \<noteq> uint (m (p + proc_apicid)) then s\<lparr>ismp := False\<rparr> else s);
          s = (if m (p + proc_flags) AND MPBOOT \<noteq> 0 then s\<lparr>bcpu := ncpu s\<rparr> else s)
      in if ncpu s \<ge> NCPU then Inl (Undef ''cpus'')
         else Inr (s\<lparr>cpu_id := (cpu_id s)(ncpu s := ncpu s), ncpu := ncpu s + 1\<rparr>))"

partial_function (option) mp_loop :: "mem \<Rightarrow> u32 \<Rightarrow> u32 \<Rightarrow> mpstate \<Rightarrow> (fault + mpstate) option" where
  "mp_loop m p e s =
     (if p < e then
        if m p = MPPROC then
          (case add_cpu m p s of
             Inl f \<Rightarrow> Some (Inl f)
           | Inr s \<Rightarrow> mp_loop m (p + proc_bytes) e s)
        else if m p = MPIOAPIC then mp_loop m (p + ioapic_bytes) e (s\<lparr>ioapicid := m (p + ioapic_apicno)\<rparr>)
        else if m p = MPBUS \<or> m p = MPIOINTR \<or> m p = MPLINTR then mp_loop m (p + 8) e s
        else mp_loop m p e (s\<lparr>ismp := False\<rparr>)
      else Some (Inr s))"

text \<open>\<^verbatim>\<open>mpinit\<close>, with the value that port 0x23 has.\<close>

definition mpinit :: "u8 \<Rightarrow> mem \<Rightarrow> mpstate \<Rightarrow> (fault + mpstate) option" where
  "mpinit in23 m s =
     (let s = s\<lparr>bcpu := 0\<rparr> in
      case mpconfig m of
        None \<Rightarrow> None
      | Some None \<Rightarrow> Some (Inr s)
      | Some (Some (mp, conf)) \<Rightarrow>
          let s = s\<lparr>ismp := True, lapic := mget32 m (conf + conf_lapicaddr)\<rparr> in
          case mp_loop m (conf + conf_bytes) (conf + mget16 m (conf + conf_length)) s of
            None \<Rightarrow> None
          | Some (Inl f) \<Rightarrow> Some (Inl f)
          | Some (Inr s) \<Rightarrow>
              if \<not> ismp s then Some (Inr (s\<lparr>ncpu := 1, lapic := 0, ioapicid := 0\<rparr>))
              else if m (mp + mp_imcrp) \<noteq> 0 then Some (Inr (s\<lparr>outs := outs s @ [(0x22, 0x70), (0x23, in23 OR 1)]\<rparr>))
              else Some (Inr s))"

section \<open>What the search finds\<close>

text \<open>The search returns the first position, in steps of 16 bytes, that has the signature and the checksum, and 0 if there is none.\<close>

lemma mpsearch1_first:
  "unat p + 16 * k = unat e \<Longrightarrow> mpsearch1_loop m p e =
     Some (case filter (\<lambda>p. signature_at m p ''_MP_'' \<and> sum m p 16 = 0) (map (\<lambda>i. p + of_nat (16 * i)) [0..<k]) of [] \<Rightarrow> 0 | r # _ \<Rightarrow> r)"
proof (induction k arbitrary: p)
  case 0
  then have "p = e" by (simp add: word_unat_eq_iff)
  then show ?case by (subst mpsearch1_loop.simps) simp
next
  case (Suc k)
  then have "p < e" by (simp add: word_less_nat_alt)
  have "unat (p + 16) = unat p + 16" using Suc.prems unat_u32_less [of e] unat_add_lem [of p 16] by simp
  then have IH: "mpsearch1_loop m (p + 16) e =
     Some (case filter (\<lambda>p. signature_at m p ''_MP_'' \<and> sum m p 16 = 0) (map (\<lambda>i. p + 16 + of_nat (16 * i)) [0..<k]) of [] \<Rightarrow> 0 | r # _ \<Rightarrow> r)"
    using Suc.prems by (intro Suc.IH) simp
  have "map (\<lambda>i. p + of_nat (16 * i)) [0..<Suc k] = p # map (\<lambda>i. p + 16 + of_nat (16 * i)) [0..<k]"
    unfolding upt_conv_Cons [OF zero_less_Suc] map_Suc_upt [symmetric] by (simp add: add.assoc)
  then show ?case using \<open>p < e\<close> IH by (subst mpsearch1_loop.simps) (simp add: mp_bytes_def del: upt_Suc)
qed

section \<open>Walks through a table\<close>

definition entry_bytes :: "u8 \<Rightarrow> u32" where
  "entry_bytes t = (if t = MPPROC then proc_bytes else 8)"

text \<open>From \<open>p\<close> entries of the known types \<open>ts\<close> lead to \<open>q\<close>; all of them begin before \<open>e\<close>.\<close>

fun walk :: "mem \<Rightarrow> u32 \<Rightarrow> u32 \<Rightarrow> u8 list \<Rightarrow> u32 \<Rightarrow> bool" where
  "walk m e p [] q = (p = q)"
| "walk m e p (t # ts) q = (p < e \<and> m p = t \<and> t \<le> 4 \<and> walk m e (p + entry_bytes t) ts q)"

definition procs :: "u8 list \<Rightarrow> nat" where
  "procs ts = length (filter (\<lambda>t. t = MPPROC) ts)"

lemmas mp_types = MPPROC_def MPBUS_def MPIOAPIC_def MPIOINTR_def MPLINTR_def

lemma known_types: "(t :: u8) \<le> 4 \<longleftrightarrow> t = MPPROC \<or> t = MPBUS \<or> t = MPIOAPIC \<or> t = MPIOINTR \<or> t = MPLINTR"
proof -
  have "t \<le> 4 \<longleftrightarrow> unat t \<in> {0, 1, 2, 3, 4}" by (auto simp: word_le_nat_alt)
  also have "\<dots> \<longleftrightarrow> t = MPPROC \<or> t = MPBUS \<or> t = MPIOAPIC \<or> t = MPIOINTR \<or> t = MPLINTR"
    by (auto simp: mp_types word_unat_eq_iff)
  finally show ?thesis .
qed

lemma mp_loop_unknown:
  assumes "p < e" and "4 < m p"
  shows "mp_loop m p e s = None"
proof -
  have "\<not> (m' = m \<and> p' = p \<and> e' = e)" if "mp_loop m' p' e' s = Some y" for m' p' e' s y
  proof (rule mp_loop.raw_induct [where P = "\<lambda>m' p' e' s y. \<not> (m' = m \<and> p' = p \<and> e' = e)", OF _ that])
    fix f :: "mem \<Rightarrow> u32 \<Rightarrow> u32 \<Rightarrow> mpstate \<Rightarrow> (fault + mpstate) option" and m' p' e' s y
    assume IH: "\<And>m' p' e' s y. f m' p' e' s = Some y \<Longrightarrow> \<not> (m' = m \<and> p' = p \<and> e' = e)"
      and body: "(if p' < e' then
        if m' p' = MPPROC then (case add_cpu m' p' s of Inl f \<Rightarrow> Some (Inl f) | Inr s \<Rightarrow> f m' (p' + proc_bytes) e' s)
        else if m' p' = MPIOAPIC then f m' (p' + ioapic_bytes) e' (s\<lparr>ioapicid := m' (p' + ioapic_apicno)\<rparr>)
        else if m' p' = MPBUS \<or> m' p' = MPIOINTR \<or> m' p' = MPLINTR then f m' (p' + 8) e' s
        else f m' p' e' (s\<lparr>ismp := False\<rparr>)
      else Some (Inr s)) = Some y"
    show "\<not> (m' = m \<and> p' = p \<and> e' = e)"
    proof
      assume "m' = m \<and> p' = p \<and> e' = e"
      then have "f m p e (s\<lparr>ismp := False\<rparr>) = Some y" using body assms known_types [of "m p"] by (simp add: not_le [symmetric])
      then show False using IH by blast
    qed
  qed
  then show ?thesis by (metis not_None_eq)
qed

lemma add_cpu_ok:
  assumes "ncpu s < NCPU"
  shows "\<exists>s'. add_cpu m p s = Inr s' \<and> ncpu s' = Suc (ncpu s) \<and> cpu_id s' = (cpu_id s)(ncpu s := ncpu s)"
  using assms by (auto simp: add_cpu_def Let_def)

lemma mp_loop_walk:
  "walk m e p ts q \<Longrightarrow> ncpu s + procs ts \<le> NCPU \<Longrightarrow>
   \<exists>s'. mp_loop m p e s = mp_loop m q e s' \<and> ncpu s' = ncpu s + procs ts \<and> (\<forall>i. ncpu s \<le> i \<and> i < ncpu s' \<longrightarrow> cpu_id s' i = i)
     \<and> (\<forall>i < ncpu s. cpu_id s' i = cpu_id s i)"
proof (induction ts arbitrary: p s)
  case Nil
  then show ?case by (auto simp: procs_def)
next
  case (Cons t ts)
  show ?case
  proof (cases "t = MPPROC")
    case True
    then have "ncpu s < NCPU" using Cons.prems(2) by (simp add: procs_def)
    from add_cpu_ok [OF this] obtain s1 where s1: "add_cpu m p s = Inr s1" "ncpu s1 = Suc (ncpu s)" "cpu_id s1 = (cpu_id s)(ncpu s := ncpu s)" by blast
    have "mp_loop m p e s = mp_loop m (p + proc_bytes) e s1" using Cons.prems(1) True s1(1) by (subst mp_loop.simps) simp
    moreover have "ncpu s1 + procs ts \<le> NCPU" using Cons.prems(2) True s1(2) by (simp add: procs_def)
    moreover have "walk m e (p + proc_bytes) ts q" using Cons.prems(1) True by (simp add: entry_bytes_def)
    ultimately obtain s' where s': "mp_loop m p e s = mp_loop m q e s'" "ncpu s' = ncpu s1 + procs ts"
      "\<forall>i. ncpu s1 \<le> i \<and> i < ncpu s' \<longrightarrow> cpu_id s' i = i" "\<forall>i < ncpu s1. cpu_id s' i = cpu_id s1 i"
      using Cons.IH [of "p + proc_bytes" s1] by auto
    have "cpu_id s' i = i" if "ncpu s \<le> i \<and> i < ncpu s'" for i
      using that s'(3,4) s1(2,3) by (cases "i = ncpu s") auto
    moreover have "\<forall>i < ncpu s. cpu_id s' i = cpu_id s i" using s'(4) s1(2,3) by simp
    ultimately show ?thesis using s'(1,2) s1(2) True by (intro exI [of _ s']) (simp add: procs_def)
  next
    case False
    define s1 where "s1 = (if t = MPIOAPIC then s\<lparr>ioapicid := m (p + ioapic_apicno)\<rparr> else s)"
    have "mp_loop m p e s = mp_loop m (p + 8) e s1"
      using Cons.prems(1) False known_types [of t] by (subst mp_loop.simps) (auto simp: s1_def ioapic_bytes_def mp_types)
    moreover have "ncpu s1 = ncpu s" "cpu_id s1 = cpu_id s" by (simp_all add: s1_def)
    moreover have "procs (t # ts) = procs ts" using False by (simp add: procs_def)
    ultimately show ?thesis using Cons.IH [of "p + 8" s1] Cons.prems False by (simp add: entry_bytes_def)
  qed
qed

section \<open>Properties\<close>

text \<open>
  C39: a table of known entries with at most \<^verbatim>\<open>NCPU\<close> processors is read to its end, and its processors are counted and numbered; at an entry of an unknown type the
  loop does not end.
\<close>

theorem mp_table:
  assumes "walk m e p ts q" and "ncpu s + procs ts \<le> NCPU"
  shows "(e \<le> q \<longrightarrow> (\<exists>s'. mp_loop m p e s = Some (Inr s') \<and> ncpu s' = ncpu s + procs ts \<and> (\<forall>i. ncpu s \<le> i \<and> i < ncpu s' \<longrightarrow> cpu_id s' i = i)))
    \<and> (q < e \<and> 4 < m q \<longrightarrow> mp_loop m p e s = None)"
proof -
  from mp_loop_walk [OF assms] obtain s' where s': "mp_loop m p e s = mp_loop m q e s'" "ncpu s' = ncpu s + procs ts"
    "\<forall>i. ncpu s \<le> i \<and> i < ncpu s' \<longrightarrow> cpu_id s' i = i" by blast
  have "e \<le> q \<Longrightarrow> mp_loop m q e s' = Some (Inr s')" by (subst mp_loop.simps) (simp add: leD)
  then show ?thesis using s' mp_loop_unknown [of q e m s'] by auto
qed

text \<open>A processor, and an entry of type 9 behind it.\<close>

theorem mp_table_witness:
  "mp_loop ((\<lambda>_. 0)(120 := 9)) 100 128 \<lparr>cpu_id = (\<lambda>_. 0), bcpu = 0, ismp = True, ncpu = 0, ioapicid = 0, lapic = 0, outs = []\<rparr> = None"
  using mp_table [of "(\<lambda>_. 0)(120 := 9)" 128 100 "[0]" 120 "\<lparr>cpu_id = (\<lambda>_. 0), bcpu = 0, ismp = True, ncpu = 0, ioapicid = 0, lapic = 0, outs = []\<rparr>"]
  by (simp add: entry_bytes_def proc_bytes_def mp_types procs_def NCPU_def)

end
