(* ===== verification/Bootmain.thy ===== *)
theory Bootmain
  imports Memory
begin

text \<open>
  The boot loader of \<^verbatim>\<open>bootmain.c\<close>, which reads the segments of the kernel from the disk. A disk gives the bytes of its sectors. Loops over addresses are partial
  functions: \<open>None\<close> when they do not end.
\<close>

section \<open>Reading the disk\<close>

type_synonym disk_bytes = "nat \<Rightarrow> nat \<Rightarrow> u8"

definition SECTSIZE :: nat where "SECTSIZE = 512"

text \<open>The sector that the registers of the drive select, 28 bits of \<open>offset\<close>, goes to memory.\<close>

definition readsect :: "disk_bytes \<Rightarrow> u32 \<Rightarrow> u32 \<Rightarrow> mem \<Rightarrow> mem" where
  "readsect disk dst offset m =
     (\<lambda>a. if unat (a - dst) < SECTSIZE then disk (unat offset mod 2 ^ 28) (unat (a - dst)) else m a)"

partial_function (option) readseg_loop :: "disk_bytes \<Rightarrow> u32 \<Rightarrow> u32 \<Rightarrow> u32 \<Rightarrow> mem \<Rightarrow> mem option" where
  "readseg_loop disk pa epa offset m =
     (if pa < epa then readseg_loop disk (pa + of_nat SECTSIZE) epa (offset + 1) (readsect disk pa offset m)
      else Some m)"

definition readseg :: "disk_bytes \<Rightarrow> u32 \<Rightarrow> u32 \<Rightarrow> u32 \<Rightarrow> mem \<Rightarrow> mem option" where
  "readseg disk pa count offset m =
     readseg_loop disk (pa - offset mod of_nat SECTSIZE) (pa + count) (offset div of_nat SECTSIZE + 1) m"

section \<open>Loading the kernel\<close>

text \<open>The fields of the headers that are read, at their positions in memory.\<close>

definition elf_entry :: "mem \<Rightarrow> u32 \<Rightarrow> u32" where "elf_entry m p = mget32 m (p + 24)"
definition elf_phoff :: "mem \<Rightarrow> u32 \<Rightarrow> u32" where "elf_phoff m p = mget32 m (p + 28)"
definition elf_phnum :: "mem \<Rightarrow> u32 \<Rightarrow> u32" where "elf_phnum m p = push_bit 8 (ucast (m (p + 45))) OR ucast (m (p + 44))"
definition ph_off :: "mem \<Rightarrow> u32 \<Rightarrow> u32" where "ph_off m p = mget32 m (p + 4)"
definition ph_paddr :: "mem \<Rightarrow> u32 \<Rightarrow> u32" where "ph_paddr m p = mget32 m (p + 12)"
definition ph_filesz :: "mem \<Rightarrow> u32 \<Rightarrow> u32" where "ph_filesz m p = mget32 m (p + 16)"
definition ph_memsz :: "mem \<Rightarrow> u32 \<Rightarrow> u32" where "ph_memsz m p = mget32 m (p + 20)"

definition load_seg :: "disk_bytes \<Rightarrow> u32 \<Rightarrow> mem \<Rightarrow> mem option" where
  "load_seg disk ph m =
     (let pa = ph_paddr m ph in
      case readseg disk pa (ph_filesz m ph) (ph_off m ph) m of
        None \<Rightarrow> None
      | Some m \<Rightarrow>
          if ph_memsz m ph > ph_filesz m ph
          then Some (stosb (unat (ph_memsz m ph - ph_filesz m ph)) (pa + ph_filesz m ph) 0 m)
          else Some m)"

partial_function (option) load_segs :: "disk_bytes \<Rightarrow> u32 \<Rightarrow> u32 \<Rightarrow> mem \<Rightarrow> mem option" where
  "load_segs disk ph eph m =
     (if ph < eph then (case load_seg disk ph m of None \<Rightarrow> None | Some m \<Rightarrow> load_segs disk (ph + 32) eph m) else Some m)"

text \<open>The memory when the loader jumps to the kernel, and where; or the memory when it gives up.\<close>

definition bootmain :: "disk_bytes \<Rightarrow> mem \<Rightarrow> (u32 option \<times> mem) option" where
  "bootmain disk m =
     (let elf = 0x10000 in
      case readseg disk elf 4096 0 m of
        None \<Rightarrow> None
      | Some m \<Rightarrow>
          if mget32 m elf \<noteq> 0x464C457F then Some (None, m)
          else
            let ph = elf + elf_phoff m elf; eph = ph + elf_phnum m elf * 32 in
            case load_segs disk ph eph m of
              None \<Rightarrow> None
            | Some m \<Rightarrow> Some (Some (elf_entry m elf), m))"

section \<open>What is read\<close>

text \<open>The byte of the kernel's file, which begins at sector 1.\<close>

definition kernel_byte :: "disk_bytes \<Rightarrow> nat \<Rightarrow> u8" where
  "kernel_byte disk i = disk (Suc (i div SECTSIZE)) (i mod SECTSIZE)"

lemma sector_split: "n = x + 512 * d \<Longrightarrow> n div 512 = d + x div 512 \<and> n mod 512 = x mod (512 :: nat)"
  by simp

lemma unat_diff_le: "p \<le> (a :: u32) \<Longrightarrow> unat (a - p) = unat a - unat p"
  by (simp add: unat_sub)

lemma readsect_at:
  assumes "unat p + SECTSIZE \<le> 2 ^ 32"
  shows "readsect disk p off m a =
    (if unat p \<le> unat a \<and> unat a < unat p + SECTSIZE then disk (unat off mod 2 ^ 28) (unat a - unat p) else m a)"
proof (cases "p \<le> a")
  case True
  then show ?thesis using unat_diff_le [OF True] by (auto simp: readsect_def word_le_nat_alt)
next
  case False
  then have "unat (a - p) = 2 ^ 32 + unat a - unat p" by (simp add: unat_sub_if' word_le_nat_alt)
  then have "\<not> unat (a - p) < SECTSIZE" using assms by simp
  then show ?thesis using False by (simp add: readsect_def word_le_nat_alt)
qed

lemma readseg_loop_reads:
  "unat epa \<le> unat p + SECTSIZE * k \<Longrightarrow> unat p + SECTSIZE * k < unat epa + SECTSIZE \<Longrightarrow> unat p + SECTSIZE * k < 2 ^ 32 \<Longrightarrow> unat off + k \<le> 2 ^ 28 \<Longrightarrow>
   \<exists>m'. readseg_loop disk p epa off m = Some m' \<and> (\<forall>a. m' a =
     (if unat p \<le> unat a \<and> unat a < unat p + SECTSIZE * k
      then disk (unat off + (unat a - unat p) div SECTSIZE) ((unat a - unat p) mod SECTSIZE) else m a))"
proof (induction k arbitrary: p off m)
  case 0
  then have "\<not> p < epa" by (simp add: word_less_nat_alt)
  then show ?case by (subst readseg_loop.simps) auto
next
  case (Suc k)
  have S: "SECTSIZE = 512" by (simp add: SECTSIZE_def)
  have lt: "p < epa" using Suc.prems(2) by (simp add: word_less_nat_alt S)
  have p': "unat (p + of_nat SECTSIZE) = unat p + SECTSIZE" using Suc.prems(3) unat_add_lem [of p 512] by (simp add: S)
  have o': "unat (off + 1) = unat off + 1" using Suc.prems(4) unat_add_lem [of off 1] by simp
  have "unat epa \<le> unat (p + of_nat SECTSIZE) + SECTSIZE * k" "unat (p + of_nat SECTSIZE) + SECTSIZE * k < unat epa + SECTSIZE"
    "unat (p + of_nat SECTSIZE) + SECTSIZE * k < 2 ^ 32" "unat (off + 1) + k \<le> 2 ^ 28"
    using Suc.prems unfolding p' o' by simp_all
  note IH = Suc.IH [OF this, of "readsect disk p off m"]
  obtain m' where m': "readseg_loop disk (p + of_nat SECTSIZE) epa (off + 1) (readsect disk p off m) = Some m'"
    "\<forall>a. m' a = (if unat p + SECTSIZE \<le> unat a \<and> unat a < unat p + SECTSIZE + SECTSIZE * k
      then disk (unat off + 1 + (unat a - (unat p + SECTSIZE)) div SECTSIZE) ((unat a - (unat p + SECTSIZE)) mod SECTSIZE)
      else readsect disk p off m a)"
    using IH unfolding p' o' by blast
  have rs: "readsect disk p off m a = (if unat p \<le> unat a \<and> unat a < unat p + SECTSIZE then disk (unat off mod 2 ^ 28) (unat a - unat p) else m a)" for a
    using Suc.prems(3) by (intro readsect_at) simp
  have "m' a = (if unat p \<le> unat a \<and> unat a < unat p + SECTSIZE * Suc k
      then disk (unat off + (unat a - unat p) div SECTSIZE) ((unat a - unat p) mod SECTSIZE) else m a)" for a
  proof (cases "unat p + SECTSIZE \<le> unat a")
    case True
    then obtain x where x: "unat a = unat p + SECTSIZE + x" using le_iff_add by blast
    have "(SECTSIZE + x) div SECTSIZE = Suc (x div SECTSIZE)" "(SECTSIZE + x) mod SECTSIZE = x mod SECTSIZE" by (simp_all add: S)
    moreover have "unat a - unat p = SECTSIZE + x" "unat a - (unat p + SECTSIZE) = x" unfolding x by simp_all
    ultimately show ?thesis using True m'(2) rs by auto
  next
    case False
    then have a: "m' a = readsect disk p off m a" using m'(2) by simp
    show ?thesis
    proof (cases "unat p \<le> unat a")
      case True
      then have "unat a - unat p < SECTSIZE" using False by linarith
      then have "(unat a - unat p) div SECTSIZE = 0" "(unat a - unat p) mod SECTSIZE = unat a - unat p" by simp_all
      then show ?thesis using a True False Suc.prems(4) unfolding rs by simp
    qed (use a rs in simp)
  qed
  moreover have "readseg_loop disk p epa off m = Some m'" using m'(1) lt by (subst readseg_loop.simps) simp
  ultimately show ?case by blast
qed

section \<open>Properties\<close>

text \<open>
  C8: \<^verbatim>\<open>readseg\<close> puts the \<open>count\<close> bytes of the kernel's file from \<open>offset\<close> on at \<open>pa\<close>, wherever \<open>offset\<close> lies in its sector; around them it writes less
  than a sector on each side.
\<close>

theorem readseg_loads:
  assumes "unat pa + unat count + 1024 \<le> 2 ^ 32" and "SECTSIZE \<le> unat pa"
  shows "\<exists>m'. readseg disk pa count offset m = Some m' \<and>
    (\<forall>a. unat pa \<le> unat a \<and> unat a < unat pa + unat count \<longrightarrow> m' a = kernel_byte disk (unat offset + (unat a - unat pa))) \<and>
    (\<forall>a. unat a + SECTSIZE \<le> unat pa \<or> unat pa + unat count + SECTSIZE \<le> unat a \<longrightarrow> m' a = m a)"
proof -
  have S: "SECTSIZE = 512" by (simp add: SECTSIZE_def)
  define r where "r = unat offset mod SECTSIZE"
  have r: "r < 512" "unat (offset mod of_nat SECTSIZE) = r" by (simp_all add: r_def S unat_mod)
  obtain b where b: "unat pa = b + r" using r(1) assms(2) by (intro that [of "unat pa - r"]) (simp add: S)
  have p: "unat (pa - offset mod of_nat SECTSIZE) = b"
    using r b unat_diff_le [of "offset mod of_nat SECTSIZE" pa] by (simp add: word_le_nat_alt)
  have e: "unat (pa + count) = b + r + unat count" using assms(1) unat_add_lem [of pa count] b by simp
  have d: "unat (offset div of_nat SECTSIZE) = unat offset div 512" by (simp add: S unat_div)
  have q: "unat offset div 512 < 2 ^ 23" using unat_u32_less [of offset] by (simp add: div_less_iff_less_mult)
  then have o1: "unat (offset div of_nat SECTSIZE + 1) = Suc (unat offset div 512)"
    using unat_add_lem [of "offset div of_nat SECTSIZE" 1] by (simp add: d)
  define k where "k = (r + unat count + 511) div 512"
  have "512 * k + (r + unat count + 511) mod 512 = r + unat count + 511" "(r + unat count + 511) mod 512 < 512" by (simp_all add: k_def)
  then have k: "r + unat count \<le> 512 * k" "512 * k < r + unat count + 512" by linarith+
  have "unat (pa + count) \<le> unat (pa - offset mod of_nat SECTSIZE) + SECTSIZE * k"
    "unat (pa - offset mod of_nat SECTSIZE) + SECTSIZE * k < unat (pa + count) + SECTSIZE"
    "unat (pa - offset mod of_nat SECTSIZE) + SECTSIZE * k < 2 ^ 32"
    using k q r(1) assms(1) b unfolding p e o1 unfolding S by linarith+
  moreover have "unat (offset div of_nat SECTSIZE + 1) + k \<le> 2 ^ 28" using k(2) q r(1) assms(1) unfolding o1 by simp
  note readseg_loop_reads [OF calculation this, of disk m]
  then obtain m' where m': "readseg disk pa count offset m = Some m'"
    "\<forall>a. m' a = (if b \<le> unat a \<and> unat a < b + 512 * k
      then disk (Suc (unat offset div 512) + (unat a - b) div 512) ((unat a - b) mod 512) else m a)"
    unfolding p o1 readseg_def unfolding S by blast
  have "m' a = kernel_byte disk (unat offset + (unat a - unat pa))" if a: "unat pa \<le> unat a" "unat a < unat pa + unat count" for a
  proof -
    let ?x = "unat a - b"
    have x: "?x = r + (unat a - unat pa)" using a(1) b by linarith
    have "r + 512 * (unat offset div 512) = unat offset" by (simp add: r_def S)
    then have "unat offset + (unat a - unat pa) = ?x + 512 * (unat offset div 512)" unfolding x by linarith
    note sector_split [OF this]
    moreover have "b \<le> unat a \<and> unat a < b + 512 * k" using a b k(1) by linarith
    then have "m' a = disk (Suc (unat offset div 512) + ?x div 512) (?x mod 512)" using m'(2) by simp
    ultimately show ?thesis by (simp add: kernel_byte_def S)
  qed
  moreover have "m' a = m a" if "unat a + 512 \<le> unat pa \<or> unat pa + unat count + 512 \<le> unat a" for a
  proof -
    have "\<not> (b \<le> unat a \<and> unat a < b + 512 * k)" using that b k(2) r(1) by linarith
    then show ?thesis using m'(2) by auto
  qed
  ultimately show ?thesis using m'(1) by (auto simp: S)
qed

text \<open>A segment of 100 bytes at 1 MB, from the middle of a sector.\<close>

theorem readseg_loads_witness:
  "\<exists>m'. readseg (\<lambda>_ _. 7) 0x100000 100 4000 (\<lambda>_. 0) = Some m' \<and> m' 0x100001 = 7"
proof -
  obtain m' where "readseg (\<lambda>_ _. 7) 0x100000 100 4000 (\<lambda>_. 0) = Some m'"
    "\<forall>a. unat (0x100000 :: u32) \<le> unat a \<and> unat a < unat (0x100000 :: u32) + unat (100 :: u32) \<longrightarrow> m' a = kernel_byte (\<lambda>_ _. 7) (unat (4000 :: u32) + (unat a - unat (0x100000 :: u32)))"
    using readseg_loads [of "0x100000" 100 "\<lambda>_ _. 7" 4000 "\<lambda>_. 0"] by (auto simp: SECTSIZE_def)
  then show ?thesis by (auto simp: kernel_byte_def)
qed

end
