(* ===== verification/Devices.thy ===== *)
theory Devices
  imports Trap
begin

text \<open>
  Interrupt controllers, timer and serial port: \<^verbatim>\<open>picirq.c\<close>, \<^verbatim>\<open>ioapic.c\<close>, \<^verbatim>\<open>timer.c\<close> and \<^verbatim>\<open>uart.c\<close>, and the start of the devices in \<^verbatim>\<open>ide.c\<close>, \<^verbatim>\<open>console.c\<close> and \<^verbatim>\<open>main.c\<close>. A device is an argument: the value that a read
  returns, as a function of all accesses before it. The state has these accesses, the latest first.
\<close>

section \<open>Accesses\<close>

datatype loc = Port u16 | Lapic nat | Ioapic_reg | Ioapic_data

datatype io = Wr loc u32 | Rd loc u32

type_synonym device = "io list \<Rightarrow> loc \<Rightarrow> u32"

definition port_out :: "u16 \<Rightarrow> u8 \<Rightarrow> io list \<Rightarrow> io list" where
  "port_out p v h = Wr (Port p) (ucast v) # h"

definition port_in :: "device \<Rightarrow> u16 \<Rightarrow> io list \<Rightarrow> u8 \<times> io list" where
  "port_in dev p h = (ucast (dev h (Port p)), Rd (Port p) (dev h (Port p)) # h)"

definition outs :: "(u16 \<times> u8) list \<Rightarrow> io list \<Rightarrow> io list" where
  "outs = fold (\<lambda>(p, v). port_out p v)"

text \<open>The value that was written last.\<close>

fun last_wr :: "loc \<Rightarrow> io list \<Rightarrow> u32 option" where
  "last_wr l [] = None"
| "last_wr l (Wr k v # h) = (if k = l then Some v else last_wr l h)"
| "last_wr l (Rd k v # h) = last_wr l h"

section \<open>The two 8259A controllers\<close>

record hw =
  accs :: "io list"
  irqmask :: u16
  uart :: bool

definition IO_PIC1 :: u16 where "IO_PIC1 = 0x20"
definition IO_PIC2 :: u16 where "IO_PIC2 = 0xA0"
definition IRQ_SLAVE :: nat where "IRQ_SLAVE = 2"

definition hw0 :: hw where
  "hw0 = \<lparr>accs = [], irqmask = 0xFFFF AND NOT (push_bit IRQ_SLAVE 1), uart = False\<rparr>"

definition picsetmask :: "u16 \<Rightarrow> hw \<Rightarrow> hw" where
  "picsetmask msk s = s\<lparr>irqmask := msk, accs := outs [(IO_PIC1 + 1, ucast msk), (IO_PIC2 + 1, ucast (drop_bit 8 msk))] (accs s)\<rparr>"

definition picenable :: "nat \<Rightarrow> hw \<Rightarrow> hw" where
  "picenable n s = picsetmask (irqmask s AND NOT (push_bit n 1)) s"

definition picinit :: "hw \<Rightarrow> hw" where
  "picinit s =
     (let s = s\<lparr>accs := outs
        [(IO_PIC1 + 1, 0xFF), (IO_PIC2 + 1, 0xFF),
         (IO_PIC1, 0x11), (IO_PIC1 + 1, ucast T_IRQ0), (IO_PIC1 + 1, push_bit IRQ_SLAVE 1), (IO_PIC1 + 1, 0x3),
         (IO_PIC2, 0x11), (IO_PIC2 + 1, ucast (T_IRQ0 + 8)), (IO_PIC2 + 1, of_nat IRQ_SLAVE), (IO_PIC2 + 1, 0x3),
         (IO_PIC1, 0x68), (IO_PIC1, 0x0a), (IO_PIC2, 0x68), (IO_PIC2, 0x0a)] (accs s)\<rparr> in
      if irqmask s \<noteq> 0xFFFF then picsetmask (irqmask s) s else s)"

section \<open>The timer\<close>

definition IO_TIMER1 :: u16 where "IO_TIMER1 = 0x040"
definition TIMER_FREQ :: nat where "TIMER_FREQ = 1193182"
definition TIMER_DIV :: "nat \<Rightarrow> nat" where "TIMER_DIV x = (TIMER_FREQ + x div 2) div x"
definition TIMER_MODE :: u16 where "TIMER_MODE = IO_TIMER1 + 3"
definition TIMER_SEL0 :: u8 where "TIMER_SEL0 = 0x00"
definition TIMER_RATEGEN :: u8 where "TIMER_RATEGEN = 0x04"
definition TIMER_16BIT :: u8 where "TIMER_16BIT = 0x30"

definition timerinit :: "hw \<Rightarrow> hw" where
  "timerinit s = picenable (unat IRQ_TIMER) (s\<lparr>accs := outs
     [(TIMER_MODE, TIMER_SEL0 OR TIMER_RATEGEN OR TIMER_16BIT), (IO_TIMER1, of_nat (TIMER_DIV 100 mod 256)), (IO_TIMER1, of_nat (TIMER_DIV 100 div 256))] (accs s)\<rparr>)"

section \<open>The I/O APIC\<close>

definition REG_ID :: u32 where "REG_ID = 0x00"
definition REG_VER :: u32 where "REG_VER = 0x01"
definition REG_TABLE :: u32 where "REG_TABLE = 0x10"
definition INT_DISABLED :: u32 where "INT_DISABLED = 0x00010000"

definition ioapicread :: "device \<Rightarrow> u32 \<Rightarrow> io list \<Rightarrow> u32 \<times> io list" where
  "ioapicread dev reg h = (let h = Wr Ioapic_reg reg # h in (dev h Ioapic_data, Rd Ioapic_data (dev h Ioapic_data) # h))"

definition ioapicwrite :: "u32 \<Rightarrow> u32 \<Rightarrow> io list \<Rightarrow> io list" where
  "ioapicwrite reg data h = Wr Ioapic_data data # Wr Ioapic_reg reg # h"

definition ioapic_off :: "nat \<Rightarrow> io list \<Rightarrow> io list" where
  "ioapic_off i h = ioapicwrite (REG_TABLE + 2 * of_nat i + 1) 0 (ioapicwrite (REG_TABLE + 2 * of_nat i) (INT_DISABLED OR (T_IRQ0 + of_nat i)) h)"

text \<open>The result has the message, if the controller's number is not the expected one.\<close>

definition ioapicinit :: "device \<Rightarrow> bool \<Rightarrow> u32 \<Rightarrow> io list \<Rightarrow> string option \<times> io list" where
  "ioapicinit dev ismp ioapicid h =
     (if \<not> ismp then (None, h)
      else
        let (v, h) = ioapicread dev REG_VER h; maxintr = unat (drop_bit 16 v AND 0xFF); (v, h) = ioapicread dev REG_ID h; id = drop_bit 24 v in
        (if id \<noteq> ioapicid then Some ''ioapicinit: id isn't equal to ioapicid; not a MP'' else None, fold ioapic_off [0..<maxintr + 1] h))"

definition ioapicenable :: "bool \<Rightarrow> nat \<Rightarrow> u32 \<Rightarrow> io list \<Rightarrow> io list" where
  "ioapicenable ismp n cpunum h =
     (if \<not> ismp then h
      else ioapicwrite (REG_TABLE + 2 * of_nat n + 1) (push_bit 24 cpunum) (ioapicwrite (REG_TABLE + 2 * of_nat n) (T_IRQ0 + of_nat n) h))"

section \<open>The serial port\<close>

definition COM1 :: u16 where "COM1 = 0x3f8"

fun uart_wait :: "device \<Rightarrow> nat \<Rightarrow> io list \<Rightarrow> io list" where
  "uart_wait dev 0 h = h"
| "uart_wait dev (Suc n) h = (let (v, h) = port_in dev (COM1 + 5) h in if v AND 0x20 \<noteq> 0 then h else uart_wait dev n h)"

definition uart_putc :: "device \<Rightarrow> u8 \<Rightarrow> hw \<Rightarrow> hw" where
  "uart_putc dev c s = (if \<not> uart s then s else s\<lparr>accs := port_out (COM1 + 0) c (uart_wait dev 128 (accs s))\<rparr>)"

definition uartinit :: "device \<Rightarrow> bool \<Rightarrow> hw \<Rightarrow> hw" where
  "uartinit dev ismp s =
     (let h = outs [(COM1 + 2, 0), (COM1 + 3, 0x80), (COM1 + 0, of_nat (115200 div 9600)), (COM1 + 1, 0), (COM1 + 3, 0x03), (COM1 + 4, 0), (COM1 + 1, 0x01)] (accs s);
          (v, h) = port_in dev (COM1 + 5) h in
      if v = 0xFF then s\<lparr>accs := h\<rparr>
      else
        let (_, h) = port_in dev (COM1 + 2) h; (_, h) = port_in dev (COM1 + 0) h;
            s = picenable (unat IRQ_COM1) (s\<lparr>accs := h, uart := True\<rparr>);
            s = s\<lparr>accs := ioapicenable ismp (unat IRQ_COM1) 0 (accs s)\<rparr> in
        fold (\<lambda>c. uart_putc dev (of_nat (of_char c))) (''xv6...'' @ [CHR 10]) s)"

definition uartgetc :: "device \<Rightarrow> hw \<Rightarrow> int \<times> hw" where
  "uartgetc dev s =
     (if \<not> uart s then (-1, s)
      else
        let (v, h) = port_in dev (COM1 + 5) (accs s) in
        if v AND 0x01 = 0 then (-1, s\<lparr>accs := h\<rparr>)
        else let (c, h) = port_in dev (COM1 + 0) h in (uint c, s\<lparr>accs := h\<rparr>))"

section \<open>The start of the devices\<close>

text \<open>The interrupts of the keyboard. The device table of the file system, which \<^verbatim>\<open>consoleinit\<close> fills as well, is a constant of theory \<open>Fs\<close>.\<close>

definition consoleinit :: "bool \<Rightarrow> hw \<Rightarrow> hw" where
  "consoleinit ismp s = (let s = picenable (unat IRQ_KBD) s in s\<lparr>accs := ioapicenable ismp (unat IRQ_KBD) 0 (accs s)\<rparr>)"

definition IDE_BSY :: u8 where "IDE_BSY = 0x80"
definition IDE_DRDY :: u8 where "IDE_DRDY = 0x40"

partial_function (option) ide_ready :: "device \<Rightarrow> io list \<Rightarrow> io list option" where
  "ide_ready dev h = (let (r, h) = port_in dev 0x1f7 h in if r AND (IDE_BSY OR IDE_DRDY) \<noteq> IDE_DRDY then ide_ready dev h else Some h)"

fun ide_probe :: "device \<Rightarrow> nat \<Rightarrow> io list \<Rightarrow> bool \<times> io list" where
  "ide_probe dev 0 h = (False, h)"
| "ide_probe dev (Suc n) h = (let (r, h) = port_in dev 0x1f7 h in if r \<noteq> 0 then (True, h) else ide_probe dev n h)"

text \<open>The result tells whether there is a second disk.\<close>

definition ideinit :: "device \<Rightarrow> bool \<Rightarrow> u32 \<Rightarrow> hw \<Rightarrow> (bool \<times> hw) option" where
  "ideinit dev ismp ncpu s =
     (let s = picenable (unat IRQ_IDE) s; h = ioapicenable ismp (unat IRQ_IDE) (ncpu - 1) (accs s) in
      case ide_ready dev h of
        None \<Rightarrow> None
      | Some h \<Rightarrow>
          let (d1, h) = ide_probe dev 1000 (port_out 0x1f6 (0xe0 OR push_bit 4 1) h) in
          Some (d1, s\<lparr>accs := port_out 0x1f6 (0xe0 OR push_bit 4 0) h\<rparr>))"

text \<open>The calls of \<^verbatim>\<open>main\<close> that concern these devices, in their order; the calls between them set up tables and locks in memory and access no device.\<close>

definition main_devices :: "device \<Rightarrow> bool \<Rightarrow> u32 \<Rightarrow> u32 \<Rightarrow> hw \<Rightarrow> (bool \<times> hw) option" where
  "main_devices dev ismp ioapicid ncpu s =
     (let s = picinit s;
          s = s\<lparr>accs := snd (ioapicinit dev ismp ioapicid (accs s))\<rparr>;
          s = consoleinit ismp s;
          s = uartinit dev ismp s in
      case ideinit dev ismp ncpu s of
        None \<Rightarrow> None
      | Some (d1, s) \<Rightarrow> Some (d1, if \<not> ismp then timerinit s else s))"

section \<open>Which lines interrupt\<close>

definition line_enabled :: "io list \<Rightarrow> nat \<Rightarrow> bool" where
  "line_enabled h i \<longleftrightarrow> (case last_wr (Port (if i < 8 then IO_PIC1 + 1 else IO_PIC2 + 1)) h of None \<Rightarrow> False | Some v \<Rightarrow> \<not> bit v (i mod 8))"

text \<open>The controllers let through exactly the lines of \<open>M\<close>, and the kernel's mask agrees.\<close>

definition pic_ok :: "nat set \<Rightarrow> hw \<Rightarrow> bool" where
  "pic_ok M s \<longleftrightarrow> (\<forall>i < 16. (line_enabled (accs s) i \<longleftrightarrow> i \<in> M) \<and> (bit (irqmask s) i \<longleftrightarrow> i \<notin> M))"

lemma picsetmask_ok: "(\<And>i. i < 16 \<Longrightarrow> bit msk i \<longleftrightarrow> i \<notin> M) \<Longrightarrow> pic_ok M (picsetmask msk s)"
  by (auto simp: pic_ok_def picsetmask_def line_enabled_def outs_def port_out_def IO_PIC1_def IO_PIC2_def bit_simps le_mod_geq)

lemma picenable_ok: "pic_ok M s \<Longrightarrow> pic_ok (insert n M) (picenable n s)"
  unfolding picenable_def by (rule picsetmask_ok) (auto simp: pic_ok_def bit_simps)

lemma picinit_ok: "pic_ok {IRQ_SLAVE} (picinit hw0)"
proof -
  have "\<forall>k \<in> set [0..<16]. bit (65531 :: u16) k \<longleftrightarrow> k \<notin> {2}" by code_simp
  then show ?thesis unfolding picinit_def by (simp add: hw0_def Let_def IRQ_SLAVE_def picsetmask_ok)
qed

text \<open>Accesses to other places keep the masks.\<close>

definition masks_kept :: "io list \<Rightarrow> io list \<Rightarrow> bool" where
  "masks_kept h h' \<longleftrightarrow> (\<forall>p \<in> {IO_PIC1 + 1, IO_PIC2 + 1}. last_wr (Port p) h' = last_wr (Port p) h)"

lemma masks_kept_refl [simp]: "masks_kept h h"
  by (simp add: masks_kept_def)

lemma masks_kept_trans: "masks_kept h h' \<Longrightarrow> masks_kept h' h'' \<Longrightarrow> masks_kept h h''"
  by (simp add: masks_kept_def)

lemma pic_ok_kept: "pic_ok M s \<Longrightarrow> masks_kept (accs s) (accs t) \<Longrightarrow> irqmask t = irqmask s \<Longrightarrow> pic_ok M t"
proof -
  assume a: "pic_ok M s" "masks_kept (accs s) (accs t)" "irqmask t = irqmask s"
  have "line_enabled (accs t) i = line_enabled (accs s) i" for i using a(2) by (simp add: masks_kept_def line_enabled_def)
  then show ?thesis using a(1,3) by (simp add: pic_ok_def)
qed

lemma kept_io:
  "masks_kept h (Rd l v # h)" "l \<notin> {Port (IO_PIC1 + 1), Port (IO_PIC2 + 1)} \<Longrightarrow> masks_kept h (Wr l v # h)"
  by (auto simp: masks_kept_def)

lemma kept_ioapic: "masks_kept h (ioapicwrite r v h)"
  by (auto simp: masks_kept_def ioapicwrite_def)

lemma kept_fold: "(\<And>x h. masks_kept h (f x h)) \<Longrightarrow> masks_kept h (fold f xs h)"
  by (induction xs arbitrary: h) (auto intro: masks_kept_trans)

lemma kept_enable: "masks_kept h (ioapicenable ismp n cpu h)"
  using kept_ioapic masks_kept_trans by (fastforce simp: ioapicenable_def)

lemma kept_ioapicinit: "masks_kept h (snd (ioapicinit dev ismp ioapicid h))"
proof -
  have "masks_kept h (ioapic_off i h)" for i h unfolding ioapic_off_def using kept_ioapic masks_kept_trans by blast
  then have f: "masks_kept h (fold ioapic_off xs h)" for h xs by (rule kept_fold)
  have r: "masks_kept h (snd (ioapicread dev r h))" for r h by (auto simp: masks_kept_def ioapicread_def Let_def)
  show ?thesis using masks_kept_trans [OF masks_kept_trans [OF r r] f] by (auto simp: ioapicinit_def Let_def split_beta simp del: upt_Suc)
qed

lemma kept_in: "masks_kept h (snd (port_in dev p h))"
  by (simp add: port_in_def kept_io)

lemma kept_outs: "\<forall>(p, v) \<in> set xs. p \<notin> {IO_PIC1 + 1, IO_PIC2 + 1} \<Longrightarrow> masks_kept h (outs xs h)"
proof (induction xs arbitrary: h)
  case (Cons x xs)
  obtain p v where x: "x = (p, v)" by (cases x)
  have "masks_kept h (port_out p v h)" using Cons.prems by (auto simp: x port_out_def intro!: kept_io(2))
  then show ?case using masks_kept_trans [OF _ Cons.IH] Cons.prems by (simp add: outs_def x)
qed (simp add: outs_def)

lemma kept_uart_wait: "masks_kept h (uart_wait dev n h)"
proof (induction n arbitrary: h)
  case (Suc n)
  then show ?case using masks_kept_trans [OF kept_in Suc] kept_in by (auto simp: Let_def split_beta)
qed simp

lemma uart_putc_ok: "pic_ok M s \<Longrightarrow> pic_ok M (uart_putc dev c s)"
proof -
  assume a: "pic_ok M s"
  have o: "masks_kept h (port_out (COM1 + 0) c h)" for h unfolding port_out_def by (rule kept_io) (simp add: COM1_def IO_PIC1_def IO_PIC2_def)
  have "masks_kept (accs s) (port_out (COM1 + 0) c (uart_wait dev 128 (accs s)))" by (rule masks_kept_trans [OF kept_uart_wait o])
  then have "masks_kept (accs s) (accs (uart_putc dev c s))" by (simp add: uart_putc_def)
  then show ?thesis by (rule pic_ok_kept [OF a]) (simp add: uart_putc_def)
qed

lemma uart_puts_ok: "pic_ok M s \<Longrightarrow> pic_ok M (fold (\<lambda>c. uart_putc dev (f c)) cs s) \<and> uart (fold (\<lambda>c. uart_putc dev (f c)) cs s) = uart s"
proof (induction cs arbitrary: s)
  case (Cons c cs)
  then show ?case using uart_putc_ok [OF Cons.prems, of dev "f c"] by (simp add: uart_putc_def)
qed simp

lemma consoleinit_ok: "pic_ok M s \<Longrightarrow> pic_ok (insert 1 M) (consoleinit ismp s)"
  unfolding consoleinit_def Let_def IRQ_KBD_def by (rule pic_ok_kept [OF picenable_ok [of M s 1]]) (simp_all add: kept_enable)

lemma uartinit_ok: "pic_ok M s \<Longrightarrow> \<not> uart s \<Longrightarrow> pic_ok (if uart (uartinit dev ismp s) then insert 4 M else M) (uartinit dev ismp s)"
proof -
  assume a: "pic_ok M s" "\<not> uart s"
  define h1 where "h1 = outs [(COM1 + 2, 0), (COM1 + 3, 0x80), (COM1 + 0, of_nat (115200 div 9600)), (COM1 + 1, 0), (COM1 + 3, 0x03), (COM1 + 4, 0), (COM1 + 1, 0x01)] (accs s)"
  define h2 where "h2 = snd (port_in dev (COM1 + 5) h1)"
  define h3 where "h3 = snd (port_in dev (COM1 + 0) (snd (port_in dev (COM1 + 2) h2)))"
  define s1 where "s1 = picenable 4 (s\<lparr>accs := h3, uart := True\<rparr>)"
  define s2 where "s2 = s1\<lparr>accs := ioapicenable ismp 4 0 (accs s1)\<rparr>"
  have k2: "masks_kept (accs s) h2" unfolding h1_def h2_def by (rule masks_kept_trans [OF kept_outs kept_in]) (simp add: COM1_def IO_PIC1_def IO_PIC2_def)
  then have k3: "masks_kept (accs s) h3" unfolding h3_def using masks_kept_trans kept_in by blast
  have p1: "pic_ok (insert 4 M) s1" unfolding s1_def by (rule picenable_ok, rule pic_ok_kept [OF a(1)]) (simp_all add: k3)
  have p2: "pic_ok (insert 4 M) s2" by (rule pic_ok_kept [OF p1]) (simp_all add: s2_def kept_enable)
  have u2: "uart s2" by (simp add: s2_def s1_def picenable_def picsetmask_def)
  have e: "uartinit dev ismp s = (if fst (port_in dev (COM1 + 5) h1) = 0xFF then s\<lparr>accs := h2\<rparr> else fold (\<lambda>c. uart_putc dev (of_nat (of_char c))) (''xv6...'' @ [CHR 10]) s2)"
    unfolding uartinit_def h1_def h2_def h3_def s1_def s2_def by (simp add: Let_def split_beta IRQ_COM1_def)
  show ?thesis
  proof (cases "fst (port_in dev (COM1 + 5) h1) = 0xFF")
    case True
    then show ?thesis using pic_ok_kept [OF a(1), of "s\<lparr>accs := h2\<rparr>"] k2 a(2) by (simp add: e)
  next
    case False
    then show ?thesis using uart_puts_ok [OF p2, of dev "\<lambda>c. of_nat (of_char c)" "''xv6...'' @ [CHR 10]"] u2 by (simp only: e if_False if_True)
  qed
qed

lemma kept_ready: "ide_ready dev h = Some h' \<Longrightarrow> masks_kept h h'"
proof -
  assume a: "ide_ready dev h = Some h'"
  show ?thesis
  proof (rule ide_ready.raw_induct [OF _ a], goal_cases)
    case (1 loop dev h y)
    then show ?case by (auto simp: Let_def split_beta split: if_splits intro: kept_in masks_kept_trans [OF kept_in])
  qed
qed

lemma ide_ready_now: "dev h (Port 0x1f7) AND 0xC0 = 0x40 \<Longrightarrow> ide_ready dev h \<noteq> None"
proof -
  assume "dev h (Port 0x1f7) AND 0xC0 = 0x40"
  then have "ucast (dev h (Port 0x1f7) AND 0xC0) = (0x40 :: u8)" by simp
  then have "(ucast (dev h (Port 0x1f7)) :: u8) AND 0xC0 = 0x40" by (simp add: unsigned_and_eq)
  then show ?thesis by (subst ide_ready.simps) (simp add: port_in_def IDE_BSY_def IDE_DRDY_def)
qed

lemma kept_probe: "masks_kept h (snd (ide_probe dev n h))"
proof (induction n arbitrary: h)
  case (Suc n)
  then show ?case using masks_kept_trans [OF kept_in Suc] kept_in by (simp add: Let_def split_beta)
qed simp

lemma ideinit_ok:
  assumes "pic_ok M s" and "ideinit dev ismp ncpu s = Some (d, t)"
  shows "pic_ok (insert 14 M) t \<and> uart t = uart s"
proof -
  let ?s = "picenable 14 s"
  let ?h = "ioapicenable ismp 14 (ncpu - 1) (accs ?s)"
  obtain h where r: "ide_ready dev ?h = Some h" and t: "t = ?s\<lparr>accs := port_out 0x1f6 0xe0 (snd (ide_probe dev 1000 (port_out 0x1f6 0xf0 h)))\<rparr>"
    using assms(2) by (auto simp: ideinit_def Let_def split_beta IRQ_IDE_def split: option.splits)
  have o: "masks_kept h (port_out 0x1f6 v h)" for v h unfolding port_out_def by (rule kept_io) (simp add: IO_PIC1_def IO_PIC2_def)
  have "masks_kept (accs ?s) (accs t)" using masks_kept_trans [OF masks_kept_trans [OF kept_enable kept_ready [OF r]] masks_kept_trans [OF o masks_kept_trans [OF kept_probe o]]] by (simp add: t)
  then have "pic_ok (insert 14 M) t" by (rule pic_ok_kept [OF picenable_ok [OF assms(1)]]) (simp add: t)
  then show ?thesis by (simp add: t picenable_def picsetmask_def)
qed

lemma timerinit_ok: "pic_ok M s \<Longrightarrow> pic_ok (insert 0 M) (timerinit s)"
proof -
  assume a: "pic_ok M s"
  have "masks_kept (accs s) (outs [(TIMER_MODE, TIMER_SEL0 OR TIMER_RATEGEN OR TIMER_16BIT), (IO_TIMER1, of_nat (TIMER_DIV 100 mod 256)), (IO_TIMER1, of_nat (TIMER_DIV 100 div 256))] (accs s))"
    by (rule kept_outs) (simp add: TIMER_MODE_def IO_TIMER1_def IO_PIC1_def IO_PIC2_def)
  then show ?thesis unfolding timerinit_def IRQ_TIMER_def using picenable_ok [OF pic_ok_kept [OF a]] by simp
qed

section \<open>Where interrupts go\<close>

text \<open>The register of the I/O APIC with number \<open>r\<close>: what was last written to the data register while \<open>r\<close> was selected.\<close>

fun redir :: "io list \<Rightarrow> u32 \<Rightarrow> u32 option" where
  "redir [] r = None"
| "redir (Wr k v # h) r = (if k = Ioapic_data \<and> last_wr Ioapic_reg h = Some r then Some v else redir h r)"
| "redir (Rd k v # h) r = redir h r"

lemma redir_write: "redir (ioapicwrite reg v h) r = (if r = reg then Some v else redir h r)"
  by (auto simp: ioapicwrite_def)

definition low_reg :: "nat \<Rightarrow> u32" where "low_reg i = REG_TABLE + 2 * of_nat i"

definition high_reg :: "nat \<Rightarrow> u32" where "high_reg i = REG_TABLE + 2 * of_nat i + 1"

lemma ioapic_off_regs: "ioapic_off i h = ioapicwrite (high_reg i) 0 (ioapicwrite (low_reg i) (INT_DISABLED OR (T_IRQ0 + of_nat i)) h)"
  by (simp add: ioapic_off_def low_reg_def high_reg_def)

lemma ioapicenable_regs: "ioapicenable True n cpu h = ioapicwrite (high_reg n) (push_bit 24 cpu) (ioapicwrite (low_reg n) (T_IRQ0 + of_nat n) h)"
  by (simp add: ioapicenable_def low_reg_def high_reg_def)

lemma reg_eq:
  assumes "i < 256" and "j < 256"
  shows "low_reg i = low_reg j \<longleftrightarrow> i = j" "high_reg i = high_reg j \<longleftrightarrow> i = j" "low_reg i \<noteq> high_reg j" "high_reg i \<noteq> low_reg j"
proof -
  have u: "unat (low_reg k) = 16 + 2 * k" "unat (high_reg k) = 17 + 2 * k" if "k < 256" for k
    using that by (simp_all add: low_reg_def high_reg_def REG_TABLE_def unat_word_ariths unat_of_nat)
  note ui = u [OF assms(1)] and uj = u [OF assms(2)]
  have "16 + 2 * i \<noteq> 17 + 2 * j" "17 + 2 * i \<noteq> 16 + 2 * j" by presburger+
  then show "low_reg i \<noteq> high_reg j" "high_reg i \<noteq> low_reg j" using ui uj by metis+
  show "low_reg i = low_reg j \<longleftrightarrow> i = j" "high_reg i = high_reg j \<longleftrightarrow> i = j" using ui uj by (metis add_left_cancel mult_left_cancel zero_neq_numeral)+
qed

lemma ioapic_off_all:
  "n \<le> 256 \<Longrightarrow> i < n \<Longrightarrow> redir (fold ioapic_off [0..<n] h) (low_reg i) = Some (INT_DISABLED OR (T_IRQ0 + of_nat i)) \<and> redir (fold ioapic_off [0..<n] h) (high_reg i) = Some 0"
proof (induction n)
  case (Suc n)
  then show ?case using reg_eq [of i n]
    by (cases "i = n") (auto simp: ioapic_off_regs redir_write)
qed simp

definition maxintr :: "device \<Rightarrow> io list \<Rightarrow> nat" where
  "maxintr dev h = unat (drop_bit 16 (dev (Wr Ioapic_reg REG_VER # h) Ioapic_data) AND 0xFF)"

text \<open>Accesses to ports do not change the table of the I/O APIC.\<close>

lemma redir_ports [simp]: "redir (port_out p v h) = redir h" "redir (snd (port_in dev p h)) = redir h" "redir (outs xs h) = redir h"
proof -
  show o: "redir (port_out p v h) = redir h" for p v h by (auto simp: port_out_def)
  show "redir (snd (port_in dev p h)) = redir h" by (auto simp: port_in_def)
  show "redir (outs xs h) = redir h" unfolding outs_def by (induction xs arbitrary: h) (auto simp: o)
qed

lemma redir_pic [simp]: "redir (accs (picenable n s)) = redir (accs s)" "redir (accs (picinit s)) = redir (accs s)"
  by (simp_all add: picenable_def picsetmask_def picinit_def Let_def)

lemma redir_uart_wait [simp]: "redir (uart_wait dev n h) = redir h"
proof (induction n arbitrary: h)
  case (Suc n)
  then show ?case by (simp add: Let_def split_beta)
qed simp

lemma redir_uart_puts [simp]: "redir (accs (fold (\<lambda>c. uart_putc dev (f c)) cs s)) = redir (accs s)"
  by (induction cs arbitrary: s) (simp_all add: uart_putc_def)

lemma redir_ide: "ide_ready dev h = Some h' \<Longrightarrow> redir h' = redir h" "redir (snd (ide_probe dev n h)) = redir h"
proof -
  assume a: "ide_ready dev h = Some h'"
  show "redir h' = redir h"
  proof (rule ide_ready.raw_induct [OF _ a], goal_cases)
    case (1 loop dev h y)
    then show ?case using redir_ports(2) [of dev "0x1f7" h] by (auto simp: Let_def split_beta split: if_splits)
  qed
next
  show "redir (snd (ide_probe dev n h)) = redir h"
  proof (induction n arbitrary: h)
    case (Suc n)
    then show ?case by (simp add: Let_def split_beta)
  qed simp
qed

lemma redir_enable:
  assumes "n < 256" and "i < 256"
  shows "redir (ioapicenable True n cpu h) (low_reg i) = (if i = n then Some (T_IRQ0 + of_nat n) else redir h (low_reg i))"
    "redir (ioapicenable True n cpu h) (high_reg i) = (if i = n then Some (push_bit 24 cpu) else redir h (high_reg i))"
  using reg_eq [OF assms(2,1)] reg_eq [OF assms] by (auto simp: ioapicenable_regs redir_write)

text \<open>
  The table of the I/O APIC has all its interrupts, up to \<open>maxi\<close>, with the vectors that \<^verbatim>\<open>trap\<close> expects: those of \<open>R\<close> are enabled and go to the processor that \<open>R\<close> gives; the
  others are disabled and go to none.
\<close>

definition apic_ok :: "nat \<Rightarrow> (nat \<rightharpoonup> u32) \<Rightarrow> io list \<Rightarrow> bool" where
  "apic_ok maxi R h \<longleftrightarrow> (\<forall>i \<le> maxi. case R i of
       None \<Rightarrow> redir h (low_reg i) = Some (INT_DISABLED OR (T_IRQ0 + of_nat i)) \<and> redir h (high_reg i) = Some 0
     | Some cpu \<Rightarrow> redir h (low_reg i) = Some (T_IRQ0 + of_nat i) \<and> redir h (high_reg i) = Some (push_bit 24 cpu))"

lemma apic_ok_cong: "redir h = redir h' \<Longrightarrow> apic_ok maxi R h = apic_ok maxi R h'"
  by (simp only: apic_ok_def)

lemma maxintr_less: "maxintr dev h < 256"
proof -
  have "unat (x AND 0xFF) < 256" for x :: u32 unfolding masks32(1) take_bit_eq_mask [symmetric] using take_bit_nat_less_exp [of 8 "unat x"] by (simp add: unsigned_take_bit_eq)
  then show ?thesis by (simp add: maxintr_def)
qed

lemma ioapicinit_ok: "apic_ok (maxintr dev h) Map.empty (snd (ioapicinit dev True ioapicid h))"
proof -
  obtain h' where h': "snd (ioapicinit dev True ioapicid h) = fold ioapic_off [0..<maxintr dev h + 1] h'"
    by (auto simp: ioapicinit_def ioapicread_def maxintr_def Let_def)
  show ?thesis unfolding h' apic_ok_def
    using ioapic_off_all [of "maxintr dev h + 1" _ h'] maxintr_less [of dev h] by (simp del: upt_Suc fold_simps)
qed

lemma ioapicenable_ok: "apic_ok maxi R h \<Longrightarrow> maxi < 256 \<Longrightarrow> n < 256 \<Longrightarrow> apic_ok maxi (R(n \<mapsto> cpu)) (ioapicenable True n cpu h)"
  unfolding apic_ok_def by (auto simp: redir_enable split: option.splits)

lemma devices_apic:
  "redir (accs (consoleinit ismp s)) = redir (ioapicenable ismp 1 0 (accs s))" (is ?console)
  "redir (accs (uartinit dev ismp s)) = (if uart (uartinit dev ismp s) \<and> \<not> uart s then redir (ioapicenable ismp 4 0 (accs s)) else redir (accs s)) \<or> uart s" (is ?uart)
  "ideinit dev ismp ncpu s = Some (d, t) \<Longrightarrow> redir (accs t) = redir (ioapicenable ismp 14 (ncpu - 1) (accs s))"
  "redir (accs (timerinit s)) = redir (accs s)"
proof -
  have e: "redir (ioapicenable ismp n cpu h) = redir (ioapicenable ismp n cpu h')" if "redir h = redir h'" for n cpu h h'
    using that by (auto simp: ioapicenable_def redir_write)
  show ?console unfolding consoleinit_def Let_def IRQ_KBD_def by (simp add: e [of "accs (picenable (Suc 0) s)" "accs s"])
  have u: "uart (fold (\<lambda>c. uart_putc dev (f c)) cs s) = uart s" for f and cs :: string and s by (induction cs arbitrary: s) (auto simp: uart_putc_def)
  have p: "uart (picenable n s) = uart s" for n s by (simp add: picenable_def picsetmask_def)
  show ?uart
  proof (cases "uart s")
    case False
    define h1 where "h1 = outs [(COM1 + 2, 0), (COM1 + 3, 0x80), (COM1 + 0, of_nat (115200 div 9600)), (COM1 + 1, 0), (COM1 + 3, 0x03), (COM1 + 4, 0), (COM1 + 1, 0x01)] (accs s)"
    define s1 where "s1 = picenable 4 (s\<lparr>accs := snd (port_in dev (COM1 + 0) (snd (port_in dev (COM1 + 2) (snd (port_in dev (COM1 + 5) h1))))), uart := True\<rparr>)"
    define cs where "cs = ''xv6...'' @ [CHR 10]"
    have i: "uartinit dev ismp s = (if fst (port_in dev (COM1 + 5) h1) = 0xFF then s\<lparr>accs := snd (port_in dev (COM1 + 5) h1)\<rparr>
        else fold (\<lambda>c. uart_putc dev (of_nat (of_char c))) cs (s1\<lparr>accs := ioapicenable ismp 4 0 (accs s1)\<rparr>))"
      unfolding uartinit_def h1_def s1_def cs_def by (simp add: Let_def split_beta IRQ_COM1_def)
    have "redir (accs s1) = redir (accs s)" "uart s1" by (simp_all add: s1_def h1_def p)
    then show ?thesis using False e [of "accs s1" "accs s" 4 0] unfolding i by (simp add: u h1_def)
  qed simp
  show "redir (accs t) = redir (ioapicenable ismp 14 (ncpu - 1) (accs s))" if "ideinit dev ismp ncpu s = Some (d, t)"
  proof -
    have "redir (ioapicenable ismp 14 (ncpu - 1) (accs (picenable 14 s))) = redir (ioapicenable ismp 14 (ncpu - 1) (accs s))" by (rule e) simp
    then show ?thesis using that by (auto simp: ideinit_def Let_def split_beta IRQ_IDE_def redir_ide(2) split: option.splits dest!: redir_ide(1))
  qed
  show "redir (accs (timerinit s)) = redir (accs s)" by (simp add: timerinit_def)
qed


text \<open>A machine with two processors, 24 interrupts in its I/O APIC, a serial port and a disk that is ready.\<close>

definition ready_devices :: device where
  "ready_devices h l = (if l = Port 0x1f7 then 0x40 else if l = Ioapic_data then 0x00170011 else 0)"


text \<open>The timer counts down from the number of ticks in a hundredth of a second, rounded.\<close>

lemma timer_count:
  "last_wr (Port TIMER_MODE) (accs (timerinit s)) = Some 0x34 \<and> TIMER_DIV 100 = 11932 \<and> \<not> bit (irqmask (timerinit s)) 0"
  by (simp add: timerinit_def picenable_def picsetmask_def outs_def port_out_def TIMER_MODE_def IO_TIMER1_def IO_PIC1_def IO_PIC2_def TIMER_SEL0_def TIMER_RATEGEN_def TIMER_16BIT_def
    TIMER_DIV_def TIMER_FREQ_def IRQ_TIMER_def bit_simps)

end
