(* ===== verification/Lapic.thy ===== *)
theory Lapic
  imports Devices "HOL-Library.Sublist"
begin

text \<open>
  The local APIC and the real-time clock: \<^verbatim>\<open>lapic.c\<close>. Registers of the APIC are accesses of theory \<open>Devices\<close>; the two loops that wait for a device are partial
  functions, which have no value if the device keeps them waiting.
\<close>

section \<open>Registers\<close>

text \<open>The registers and the values for them.\<close>

datatype lapic_reg = ID | VER | TPR | EOI | SVR | ESR | ICRLO | ICRHI | TIMER | PCINT | LINT0 | LINT1 | ERROR | TICR | TDCR

primrec lapic_index :: "lapic_reg \<Rightarrow> nat" where
  "lapic_index ID = 0x0020 div 4"
| "lapic_index VER = 0x0030 div 4"
| "lapic_index TPR = 0x0080 div 4"
| "lapic_index EOI = 0x00B0 div 4"
| "lapic_index SVR = 0x00F0 div 4"
| "lapic_index ESR = 0x0280 div 4"
| "lapic_index ICRLO = 0x0300 div 4"
| "lapic_index ICRHI = 0x0310 div 4"
| "lapic_index TIMER = 0x0320 div 4"
| "lapic_index PCINT = 0x0340 div 4"
| "lapic_index LINT0 = 0x0350 div 4"
| "lapic_index LINT1 = 0x0360 div 4"
| "lapic_index ERROR = 0x0370 div 4"
| "lapic_index TICR = 0x0380 div 4"
| "lapic_index TDCR = 0x03E0 div 4"

datatype lapic_flag = ENABLE | INIT | STARTUP | DELIVS | ASSERT | LEVEL | BCAST | X1 | PERIODIC | MASKED

primrec flag_bits :: "lapic_flag \<Rightarrow> u32" where
  "flag_bits ENABLE = 0x00000100"
| "flag_bits INIT = 0x00000500"
| "flag_bits STARTUP = 0x00000600"
| "flag_bits DELIVS = 0x00001000"
| "flag_bits ASSERT = 0x00004000"
| "flag_bits LEVEL = 0x00008000"
| "flag_bits BCAST = 0x00080000"
| "flag_bits X1 = 0x0000000B"
| "flag_bits PERIODIC = 0x00020000"
| "flag_bits MASKED = 0x00010000"

definition flags :: "lapic_flag list \<Rightarrow> u32" where
  "flags fs = fold (\<lambda>f x. x OR flag_bits f) fs 0"

definition IRQ_ERROR :: u32 where "IRQ_ERROR = 19"

definition lapicr :: "device \<Rightarrow> lapic_reg \<Rightarrow> io list \<Rightarrow> u32 \<times> io list" where
  "lapicr dev r h = (let l = Lapic (lapic_index r) in (dev h l, Rd l (dev h l) # h))"

definition lapicw :: "device \<Rightarrow> lapic_reg \<Rightarrow> u32 \<Rightarrow> io list \<Rightarrow> io list" where
  "lapicw dev r v h = snd (lapicr dev ID (Wr (Lapic (lapic_index r)) v # h))"

partial_function (option) lapic_wait :: "device \<Rightarrow> io list \<Rightarrow> io list option" where
  "lapic_wait dev h = (let (v, h) = lapicr dev ICRLO h in if v AND flags [DELIVS] \<noteq> 0 then lapic_wait dev h else Some h)"

definition lapicinit :: "device \<Rightarrow> bool \<Rightarrow> io list \<Rightarrow> io list option" where
  "lapicinit dev lapic h =
     (if \<not> lapic then Some h
      else
        let h = lapicw dev SVR (flags [ENABLE] OR (T_IRQ0 + IRQ_SPURIOUS)) h;
            h = lapicw dev TDCR (flags [X1]) h;
            h = lapicw dev TIMER (flags [PERIODIC] OR (T_IRQ0 + IRQ_TIMER)) h;
            h = lapicw dev TICR 10000000 h;
            h = lapicw dev LINT0 (flags [MASKED]) h;
            h = lapicw dev LINT1 (flags [MASKED]) h;
            (v, h) = lapicr dev VER h;
            h = (if 4 \<le> drop_bit 16 v AND 0xFF then lapicw dev PCINT (flags [MASKED]) h else h);
            h = lapicw dev ERROR (T_IRQ0 + IRQ_ERROR) h;
            h = lapicw dev ESR 0 h;
            h = lapicw dev ESR 0 h;
            h = lapicw dev EOI 0 h;
            h = lapicw dev ICRHI 0 h;
            h = lapicw dev ICRLO (flags [BCAST, INIT, LEVEL]) h in
        case lapic_wait dev h of None \<Rightarrow> None | Some h \<Rightarrow> Some (lapicw dev TPR 0 h))"

text \<open>The number of the processor. With interrupts on, the first call of all, counted by \<open>n\<close>, prints a message.\<close>

definition cpunum :: "device \<Rightarrow> bool \<Rightarrow> bool \<Rightarrow> nat \<Rightarrow> io list \<Rightarrow> (u32 \<times> bool) \<times> nat \<times> io list" where
  "cpunum dev lapic fl_if n h =
     (let (warn, n) = (if fl_if then (n = 0, n + 1) else (False, n)) in
      if lapic then case lapicr dev ID h of (v, h) \<Rightarrow> ((drop_bit 24 v, warn), n, h)
      else ((0, warn), n, h))"

definition lapiceoi :: "device \<Rightarrow> bool \<Rightarrow> io list \<Rightarrow> io list" where
  "lapiceoi dev lapic h = (if lapic then lapicw dev EOI 0 h else h)"

definition CMOS_PORT :: u16 where "CMOS_PORT = 0x70"
definition CMOS_RETURN :: u16 where "CMOS_RETURN = 0x71"

definition mput16 :: "mem \<Rightarrow> u32 \<Rightarrow> u16 \<Rightarrow> mem" where
  "mput16 m a v = m(a := ucast v, a + 1 := ucast (drop_bit 8 v))"

text \<open>The start of another processor: the warm reset vector in memory, and then the interrupts.\<close>

definition lapicstartap :: "device \<Rightarrow> u8 \<Rightarrow> u32 \<Rightarrow> mem \<times> io list \<Rightarrow> mem \<times> io list" where
  "lapicstartap dev apicid addr s =
     (case s of (m, h) \<Rightarrow>
        let h = outs [(CMOS_PORT, 0xF), (CMOS_PORT + 1, 0x0A)] h;
            wrv = p2v (push_bit 4 0x40 OR 0x67);
            m = mput16 (mput16 m wrv 0) (wrv + 2) (ucast (drop_bit 4 addr));
            h = lapicw dev ICRHI (push_bit 24 (ucast apicid)) h;
            h = lapicw dev ICRLO (flags [INIT, LEVEL, ASSERT]) h;
            h = lapicw dev ICRLO (flags [INIT, LEVEL]) h in
        (m, ((\<lambda>h. lapicw dev ICRLO (flags [STARTUP] OR drop_bit 12 addr) (lapicw dev ICRHI (push_bit 24 (ucast apicid)) h)) ^^ 2) h))"

section \<open>The real-time clock\<close>

definition CMOS_STATA :: u8 where "CMOS_STATA = 0x0a"
definition CMOS_STATB :: u8 where "CMOS_STATB = 0x0b"
definition CMOS_UIP :: u32 where "CMOS_UIP = push_bit 7 1"
definition SECS :: u8 where "SECS = 0x00"
definition MINS :: u8 where "MINS = 0x02"
definition HOURS :: u8 where "HOURS = 0x04"
definition DAY :: u8 where "DAY = 0x07"
definition MONTH :: u8 where "MONTH = 0x08"
definition YEAR :: u8 where "YEAR = 0x09"

record rtcdate =
  second :: u32
  minute :: u32
  hour :: u32
  day :: u32
  month :: u32
  year :: u32

definition cmos_read :: "device \<Rightarrow> u8 \<Rightarrow> io list \<Rightarrow> u32 \<times> io list" where
  "cmos_read dev reg h = (case port_in dev CMOS_RETURN (port_out CMOS_PORT reg h) of (v, h) \<Rightarrow> (ucast v, h))"

definition fill_rtcdate :: "device \<Rightarrow> io list \<Rightarrow> rtcdate \<times> io list" where
  "fill_rtcdate dev h =
     (let (s, h) = cmos_read dev SECS h; (m, h) = cmos_read dev MINS h; (hr, h) = cmos_read dev HOURS h;
          (d, h) = cmos_read dev DAY h; (n, h) = cmos_read dev MONTH h; (y, h) = cmos_read dev YEAR h in
      (\<lparr>second = s, minute = m, hour = hr, day = d, month = n, year = y\<rparr>, h))"

partial_function (option) cmos_loop :: "device \<Rightarrow> io list \<Rightarrow> (rtcdate \<times> io list) option" where
  "cmos_loop dev h =
     (let (t1, h) = fill_rtcdate dev h; (a, h) = cmos_read dev CMOS_STATA h in
      if a AND CMOS_UIP \<noteq> 0 then cmos_loop dev h
      else let (t2, h) = fill_rtcdate dev h in if t1 = t2 then Some (t1, h) else cmos_loop dev h)"

definition CONV :: "u32 \<Rightarrow> u32" where
  "CONV x = drop_bit 4 x * 10 + (x AND 0xf)"

definition cmostime :: "device \<Rightarrow> io list \<Rightarrow> (rtcdate \<times> io list) option" where
  "cmostime dev h =
     (let (sb, h) = cmos_read dev CMOS_STATB h; bcd = (sb AND push_bit 2 1 = 0) in
      case cmos_loop dev h of
        None \<Rightarrow> None
      | Some (t1, h) \<Rightarrow>
          let t1 = (if bcd then \<lparr>second = CONV (second t1), minute = CONV (minute t1), hour = CONV (hour t1),
                      day = CONV (day t1), month = CONV (month t1), year = CONV (year t1)\<rparr> else t1) in
          Some (t1\<lparr>year := year t1 + 2000\<rparr>, h))"

section \<open>A clock\<close>

text \<open>
  The documented behaviour of the clock. Its phases are numbered: in phase \<open>2 * n\<close> it shows the date \<open>cal n\<close>, and in phase \<open>2 * n + 1\<close> it updates its registers from that date to the next.
  After the accesses \<open>h\<close> the clock is in phase \<open>P h\<close>, which never goes back. A read of the data port has the field of the register selected just before, in the format that register B announces;
  during an update such a read has any value at all, and register A then has the flag \<^verbatim>\<open>CMOS_UIP\<close>. Between two updates there is time for 26 accesses, the number that a round of \<^verbatim>\<open>cmostime\<close> makes: from
  one update to the next but one the clock takes almost a second.
\<close>

definition enc :: "bool \<Rightarrow> u32 \<Rightarrow> u32" where
  "enc bcd x = (if bcd then 16 * (x div 10) + x mod 10 else x)"

definition sel :: "u8 \<Rightarrow> io list \<Rightarrow> io list" where
  "sel r h = Wr (Port CMOS_PORT) (ucast r) # h"

definition displays :: "device \<Rightarrow> (io list \<Rightarrow> nat) \<Rightarrow> (nat \<Rightarrow> rtcdate) \<Rightarrow> bool \<Rightarrow> u8 \<Rightarrow> (rtcdate \<Rightarrow> u32) \<Rightarrow> bool" where
  "displays dev P cal bcd r f \<longleftrightarrow> (\<forall>h. even (P (sel r h)) \<longrightarrow> dev (sel r h) (Port CMOS_RETURN) = enc bcd (f (cal (P (sel r h) div 2)))) \<and> (\<forall>n. f (cal n) < 100)"

definition rtc_clock :: "device \<Rightarrow> (io list \<Rightarrow> nat) \<Rightarrow> (nat \<Rightarrow> rtcdate) \<Rightarrow> bool \<Rightarrow> bool" where
  "rtc_clock dev P cal bcd \<longleftrightarrow> (\<forall>h e. P h \<le> P (e # h)) \<and> (\<forall>h es. length es \<le> 26 \<longrightarrow> P (es @ h) \<le> 2 * (P h div 2) + 2)
     \<and> (\<forall>h. odd (P (sel CMOS_STATA h)) \<longrightarrow> bit (dev (sel CMOS_STATA h) (Port CMOS_RETURN)) 7)
     \<and> (\<forall>h. dev (sel CMOS_STATB h) (Port CMOS_RETURN) AND 4 = (if bcd then 0 else 4))
     \<and> displays dev P cal bcd SECS second \<and> displays dev P cal bcd MINS minute \<and> displays dev P cal bcd HOURS hour
     \<and> displays dev P cal bcd DAY day \<and> displays dev P cal bcd MONTH month \<and> displays dev P cal bcd YEAR year"

lemma unat_enc: "x < 100 \<Longrightarrow> unat (enc True x) = 16 * (unat x div 10) + unat x mod 10 \<and> unat (enc True x) < 160"
proof -
  assume "x < 100"
  then have x: "unat x < 100" by (simp add: word_less_nat_alt)
  have q: "unat x div 10 < 10" "unat x mod 10 < 10" using x by (simp_all add: div_less_iff_less_mult)
  then have "unat (16 * (x div 10) + x mod 10) = 16 * (unat x div 10) + unat x mod 10" by (simp add: unat_word_ariths unat_div unat_mod)
  then show ?thesis using q by (simp add: enc_def)
qed

lemma CONV_enc: "x < 100 \<Longrightarrow> CONV (enc True x) = x"
proof -
  assume x: "x < 100"
  let ?e = "enc True x"
  have e: "unat ?e div 16 = unat x div 10" "unat ?e mod 16 = unat x mod 10" using unat_enc [OF x] by simp_all
  have "unat (drop_bit 4 ?e) = unat x div 10" "unat (?e AND 0xf) = unat x mod 10"
    unfolding masks32(2) take_bit_eq_mask [symmetric] using e by (simp_all add: unsigned_drop_bit_eq unsigned_take_bit_eq drop_bit_eq_div take_bit_eq_mod unat_div unat_mod)
  then have "unat (CONV ?e) = unat x" using x by (simp add: CONV_def unat_word_ariths word_less_nat_alt)
  then show ?thesis by (simp only: word_unat_eq_iff)
qed

lemma enc_byte: "x < 100 \<Longrightarrow> ucast (ucast (enc b x) :: u8) = enc b x"
proof -
  assume x: "x < 100"
  then have "unat (enc b x) < 256" using unat_enc [OF x] by (cases b) (auto simp: enc_def [of False] word_less_nat_alt)
  then have "unat (enc b x mod 256) = unat (enc b x)" by (simp add: unat_mod)
  then have "enc b x mod 256 = enc b x" by (simp only: word_unat_eq_iff)
  then show ?thesis by (simp add: unsigned_ucast_eq take_bit_eq_mod)
qed

lemma enc_inj: "x < 100 \<Longrightarrow> y < 100 \<Longrightarrow> enc b x = enc b y \<Longrightarrow> x = y"
  by (cases b) (metis CONV_enc, simp add: enc_def)

lemma rtcD:
  assumes "rtc_clock dev P cal bcd"
  shows "displays dev P cal bcd SECS second" "displays dev P cal bcd MINS minute" "displays dev P cal bcd HOURS hour" "displays dev P cal bcd DAY day"
    "displays dev P cal bcd MONTH month" "displays dev P cal bcd YEAR year" "odd (P (sel CMOS_STATA h)) \<Longrightarrow> bit (dev (sel CMOS_STATA h) (Port CMOS_RETURN)) 7"
  using assms unfolding rtc_clock_def by blast+

lemma rtc_small:
  assumes "rtc_clock dev P cal bcd"
  shows "second (cal n) < 100" "minute (cal n) < 100" "hour (cal n) < 100" "day (cal n) < 100" "month (cal n) < 100" "year (cal n) < 100"
  using rtcD [OF assms] unfolding displays_def by blast+

lemma rtc_mono:
  assumes "rtc_clock dev P cal bcd"
  shows "suffix h h' \<Longrightarrow> P h \<le> P h'" and "suffix h h' \<Longrightarrow> length h' \<le> length h + 26 \<Longrightarrow> P h' \<le> 2 * (P h div 2) + 2"
proof -
  have "P h \<le> P (es @ h)" for es
  proof (induction es)
    case (Cons e es)
    then show ?case using assms by (auto simp: rtc_clock_def intro: order_trans)
  qed simp
  then show "suffix h h' \<Longrightarrow> P h \<le> P h'" by (auto simp: suffix_def)
  show "suffix h h' \<Longrightarrow> length h' \<le> length h + 26 \<Longrightarrow> P h' \<le> 2 * (P h div 2) + 2" using assms by (auto simp: rtc_clock_def suffix_def)
qed

lemma cmos_read_suffix: "suffix (sel r h) (snd (cmos_read dev r h))" "suffix h (snd (cmos_read dev r h))"
  by (auto simp: cmos_read_def port_in_def port_out_def sel_def suffix_def)

lemma cmos_read_displays:
  assumes "displays dev P cal bcd r f" and "even (P (sel r h))"
  shows "fst (cmos_read dev r h) = enc bcd (f (cal (P (sel r h) div 2)))"
  using assms enc_byte by (simp add: displays_def cmos_read_def port_in_def port_out_def sel_def)

lemma cmos_read_bit: "n < 8 \<Longrightarrow> bit (fst (cmos_read dev r h)) n \<longleftrightarrow> bit (dev (sel r h) (Port CMOS_RETURN)) n"
  by (simp add: cmos_read_def port_in_def port_out_def sel_def bit_simps)

definition enc_date :: "bool \<Rightarrow> rtcdate \<Rightarrow> rtcdate" where
  "enc_date bcd d = \<lparr>second = enc bcd (second d), minute = enc bcd (minute d), hour = enc bcd (hour d), day = enc bcd (day d), month = enc bcd (month d), year = enc bcd (year d)\<rparr>"

text \<open>A date that is read in one phase between two updates is the date that the clock shows.\<close>

lemma fill_displays:
  assumes c: "rtc_clock dev P cal bcd" and f: "fill_rtcdate dev h = (t, h')"
  shows "suffix h h'" "suffix (sel SECS h) h'" "length h' = length h + 12" "P (sel SECS h) = P h' \<Longrightarrow> even (P h') \<Longrightarrow> t = enc_date bcd (cal (P h' div 2))"
proof -
  let ?r = "\<lambda>r h. snd (cmos_read dev r h)"
  define h1 where "h1 = ?r SECS h"
  define h2 where "h2 = ?r MINS h1"
  define h3 where "h3 = ?r HOURS h2"
  define h4 where "h4 = ?r DAY h3"
  define h5 where "h5 = ?r MONTH h4"
  note hs = h1_def h2_def h3_def h4_def h5_def
  have h': "h' = ?r YEAR h5" and t: "t = \<lparr>second = fst (cmos_read dev SECS h), minute = fst (cmos_read dev MINS h1), hour = fst (cmos_read dev HOURS h2),
      day = fst (cmos_read dev DAY h3), month = fst (cmos_read dev MONTH h4), year = fst (cmos_read dev YEAR h5)\<rparr>"
    using f by (simp_all add: fill_rtcdate_def Let_def hs split_beta)
  have l: "length (?r x y) = length y + 2" for x y by (simp add: cmos_read_def port_in_def port_out_def)
  show "length h' = length h + 12" by (simp add: h' hs l)
  have a: "suffix (sel SECS h) h1" "suffix h1 h2" "suffix h2 h3" "suffix h3 h4" "suffix h4 h5" "suffix h5 h'"
    unfolding h' hs by (rule cmos_read_suffix)+
  have s: "suffix (sel MINS h1) h2" "suffix (sel HOURS h2) h3" "suffix (sel DAY h3) h4" "suffix (sel MONTH h4) h5" "suffix (sel YEAR h5) h'"
    unfolding h' hs by (rule cmos_read_suffix)+
  have p: "suffix x (sel r x)" for x r by (simp add: sel_def suffix_def)
  have "suffix h3 h'" using suffix_order.trans [OF a(4) suffix_order.trans [OF a(5) a(6)]] .
  then show suf: "suffix (sel SECS h) h'" using suffix_order.trans [OF a(1) suffix_order.trans [OF a(2) suffix_order.trans [OF a(3)]]] by simp
  show "suffix h h'" using suffix_order.trans [OF p suf] .
  note M = rtc_mono(1) [OF c]
  note S = rtcD [OF c]
  assume eq: "P (sel SECS h) = P h'" and ev: "even (P h')"
  have m: "P (sel SECS h) \<le> P h1" "P h1 \<le> P (sel MINS h1)" "P (sel MINS h1) \<le> P h2" "P h2 \<le> P (sel HOURS h2)" "P (sel HOURS h2) \<le> P h3" "P h3 \<le> P (sel DAY h3)"
    "P (sel DAY h3) \<le> P h4" "P h4 \<le> P (sel MONTH h4)" "P (sel MONTH h4) \<le> P h5" "P h5 \<le> P (sel YEAR h5)" "P (sel YEAR h5) \<le> P h'"
    using M [OF a(1)] M [OF s(1)] M [OF s(2)] M [OF s(3)] M [OF s(4)] M [OF s(5)] M [OF p] by auto
  have "P (sel MINS h1) = P h'" "P (sel HOURS h2) = P h'" "P (sel DAY h3) = P h'" "P (sel MONTH h4) = P h'" "P (sel YEAR h5) = P h'" using m eq by linarith+
  then have e: "P (sel MINS h1) = P h'" "P (sel HOURS h2) = P h'" "P (sel DAY h3) = P h'" "P (sel MONTH h4) = P h'" "P (sel YEAR h5) = P h'" by simp_all
  have "fst (cmos_read dev SECS h) = enc bcd (second (cal (P h' div 2)))" "fst (cmos_read dev MINS h1) = enc bcd (minute (cal (P h' div 2)))"
    "fst (cmos_read dev HOURS h2) = enc bcd (hour (cal (P h' div 2)))" "fst (cmos_read dev DAY h3) = enc bcd (day (cal (P h' div 2)))"
    "fst (cmos_read dev MONTH h4) = enc bcd (month (cal (P h' div 2)))" "fst (cmos_read dev YEAR h5) = enc bcd (year (cal (P h' div 2)))"
    using cmos_read_displays [OF S(1), of h] cmos_read_displays [OF S(2), of h1] cmos_read_displays [OF S(3), of h2] cmos_read_displays [OF S(4), of h3]
      cmos_read_displays [OF S(5), of h4] cmos_read_displays [OF S(6), of h5] unfolding eq e using ev by blast+
  then show "t = enc_date bcd (cal (P h' div 2))" by (simp add: t enc_date_def)
qed

text \<open>The loop ends with two readings in a row that agree, and no update was in progress between them.\<close>

lemma cmos_loop_result:
  assumes a: "cmos_loop dev h = Some y"
  shows "\<exists>h0 h1 h2. suffix h h0 \<and> fill_rtcdate dev h0 = (fst y, h1) \<and> h2 = snd (cmos_read dev CMOS_STATA h1)
     \<and> fst (cmos_read dev CMOS_STATA h1) AND CMOS_UIP = 0 \<and> fill_rtcdate dev h2 = y"
proof (rule cmos_loop.raw_induct [OF _ a], goal_cases)
  case (1 loop dev h y)
  obtain t1 h1 where f1: "fill_rtcdate dev h = (t1, h1)" by fastforce
  obtain a h2 where r: "cmos_read dev CMOS_STATA h1 = (a, h2)" by fastforce
  obtain t2 h3 where f2: "fill_rtcdate dev h2 = (t2, h3)" by fastforce
  have s: "suffix h h1" if "fill_rtcdate dev h = (t1, h1)" for h t1 h1
    using that by (auto simp: fill_rtcdate_def cmos_read_def port_in_def port_out_def suffix_def)
  have sr: "suffix h1 h2" using cmos_read_suffix(2) [of h1 dev CMOS_STATA] r by simp
  have sh: "suffix h h2" "suffix h h3" using s [OF f1] sr s [OF f2] suffix_order.trans by blast+
  have again: "\<exists>h0 h1 h2. suffix h h0 \<and> fill_rtcdate dev h0 = (fst y, h1) \<and> h2 = snd (cmos_read dev CMOS_STATA h1)
     \<and> fst (cmos_read dev CMOS_STATA h1) AND CMOS_UIP = 0 \<and> fill_rtcdate dev h2 = y"
    if "loop dev h' = Some y" "suffix h h'" for h'
    using 1(1) [OF that(1)] that(2) suffix_order.trans by blast
  consider "loop dev h2 = Some y" | "loop dev h3 = Some y" | "t1 = t2" "y = (t1, h3)" "a AND CMOS_UIP = 0" using 1(2) f1 r f2 by (auto split: if_splits)
  then show ?case
  proof cases
    case 1
    then show ?thesis by (rule again) (rule sh)
  next
    case 2
    then show ?thesis by (rule again) (rule sh)
  next
    case 3
    then show ?thesis using f1 f2 r by (intro exI [of _ h] exI [of _ h1] exI [of _ h2]) simp
  qed
qed

lemma one_round:
  assumes c: "rtc_clock dev P cal bcd" and T: "\<And>x. suffix h x \<Longrightarrow> length x \<le> length h + 28 \<Longrightarrow> P x = P h" and ev: "even (P h)"
    and b: "suffix h b" "length b = length h + 2" and u: "\<And>x. suffix h x \<Longrightarrow> length x \<le> length h + 14 \<Longrightarrow> fst (cmos_read dev CMOS_STATA x) AND CMOS_UIP = 0"
  shows "cmos_loop dev b \<noteq> None"
proof -
  obtain t1 h1 where f1: "fill_rtcdate dev b = (t1, h1)" by fastforce
  obtain a h2 where r: "cmos_read dev CMOS_STATA h1 = (a, h2)" by fastforce
  obtain t2 h3 where f2: "fill_rtcdate dev h2 = (t2, h3)" by fastforce
  have l: "length h1 = length h + 14" "length h2 = length h + 16" "length h3 = length h + 28"
    using fill_displays(3) [OF c f1] fill_displays(3) [OF c f2] r b(2) by (auto simp: cmos_read_def port_in_def port_out_def)
  have s1: "suffix h h1" using suffix_order.trans [OF b(1) fill_displays(1) [OF c f1]] .
  have s2: "suffix h h2" using suffix_order.trans [OF s1] cmos_read_suffix(2) [of h1 dev CMOS_STATA] r by simp
  have s3: "suffix h h3" using suffix_order.trans [OF s2 fill_displays(1) [OF c f2]] .
  have sl: "suffix h (sel SECS x)" "length (sel SECS x) = Suc (length x)" if "suffix h x" for x using that by (auto simp: sel_def suffix_def)
  have "P (sel SECS b) = P h" "P h1 = P h" "P (sel SECS h2) = P h" "P h3 = P h"
    using T [OF sl(1) [OF b(1)]] T [OF s1] T [OF sl(1) [OF s2]] T [OF s3] by (simp_all add: sl(2) [OF b(1)] sl(2) [OF s2] l b(2))
  then have "t1 = t2" using fill_displays(4) [OF c f1] fill_displays(4) [OF c f2] ev by simp
  then show ?thesis using u [OF s1] l(1) by (subst cmos_loop.simps) (simp add: f1 f2 r)
qed

lemma conv_date:
  assumes "rtc_clock dev P cal bcd" and "t = enc_date bcd (cal n)"
  shows "(if bcd then \<lparr>second = CONV (second t), minute = CONV (minute t), hour = CONV (hour t), day = CONV (day t), month = CONV (month t), year = CONV (year t)\<rparr> else t) = cal n"
  using assms(2) CONV_enc rtc_small [OF assms(1), of n] by (simp add: enc_date_def enc_def [of False])

text \<open>Of two readings with no update in progress between them, one was made within one phase.\<close>

lemma two_readings:
  assumes c: "rtc_clock dev P cal bcd" and f: "fill_rtcdate dev h0 = (t, h1)" "h2 = snd (cmos_read dev CMOS_STATA h1)" "fill_rtcdate dev h2 = (t, h')"
    and u: "fst (cmos_read dev CMOS_STATA h1) AND CMOS_UIP = 0"
  shows "\<exists>n. P h0 \<le> 2 * n \<and> 2 * n \<le> P h' \<and> t = enc_date bcd (cal n)"
proof -
  note M = rtc_mono(1) [OF c]
  let ?a = "P h0" and ?q = "P (sel CMOS_STATA h1)" and ?b = "P h'"
  have "\<not> bit (dev (sel CMOS_STATA h1) (Port CMOS_RETURN)) 7"
    using u cmos_read_bit [of 7 dev CMOS_STATA h1] by (simp add: CMOS_UIP_def bit_iff_and_push_bit_not_eq_0)
  then have q: "even ?q" using rtcD(7) [OF c] by blast
  have p: "suffix x (sel r x)" for x r by (simp add: sel_def suffix_def)
  have s: "suffix (sel CMOS_STATA h1) h2" "suffix h1 h2" unfolding f(2) by (rule cmos_read_suffix)+
  have h': "suffix h0 h'" using suffix_order.trans [OF fill_displays(1) [OF c f(1)] suffix_order.trans [OF s(2) fill_displays(1) [OF c f(3)]]] .
  have "length h2 = length h1 + 2" by (simp add: f(2) cmos_read_def port_in_def port_out_def)
  then have "length h' = length h0 + 26" using fill_displays(3) [OF c f(1)] fill_displays(3) [OF c f(3)] by simp
  then have b: "?b \<le> 2 * (?a div 2) + 2" using rtc_mono(2) [OF c h'] by simp
  have m: "?a \<le> P (sel SECS h0)" "P (sel SECS h0) \<le> P h1" "P h1 \<le> ?q" "?q \<le> P (sel SECS h2)" "P (sel SECS h2) \<le> ?b"
    using M [OF p] M [OF fill_displays(2) [OF c f(1)]] M [OF fill_displays(2) [OF c f(3)]] M [OF suffix_order.trans [OF s(1) p]] by blast+
  show ?thesis
  proof (cases "?q \<le> 2 * (?a div 2)")
    case True
    then have "P (sel SECS h0) = P h1" "even (P h1)" "P h1 = ?a" using m q by presburger+
    moreover from this have "t = enc_date bcd (cal (P h1 div 2))" using fill_displays(4) [OF c f(1)] by simp
    ultimately show ?thesis using m by (intro exI [of _ "P h1 div 2"]) simp
  next
    case False
    then have "P (sel SECS h2) = ?b" "even ?b" using m q b by presburger+
    moreover from this have "t = enc_date bcd (cal (?b div 2))" using fill_displays(4) [OF c f(3)] by simp
    ultimately show ?thesis using m by (intro exI [of _ "?b div 2"]) simp
  qed
qed

text \<open>
  C28: \<^verbatim>\<open>cmostime\<close> returns a date that the clock showed during the call, never a mixture of two and nothing that was read during an update of the clock, where a read has any value: whenever it returns, its
  result is the date of a phase between the call and the return, with the fields converted from the clock's format and the century added. It does return, in its first round, if no update of the clock begins or is
  announced for so long.
\<close>

theorem cmostime_reads_clock:
  assumes c: "rtc_clock dev P cal bcd"
  shows "(cmostime dev h = Some (r, h') \<longrightarrow> (\<exists>n. P h \<le> 2 * n \<and> 2 * n \<le> P h' \<and> r = (cal n)\<lparr>year := year (cal n) + 2000\<rparr>))
     \<and> (even (P h) \<and> (\<forall>es. length es \<le> 28 \<longrightarrow> P (es @ h) = P h \<and> \<not> bit (dev (sel CMOS_STATA (es @ h)) (Port CMOS_RETURN)) 7) \<longrightarrow> cmostime dev h \<noteq> None)"
proof (intro conjI impI)
  let ?b = "snd (cmos_read dev CMOS_STATB h)"
  have b: "suffix h ?b" "length ?b = length h + 2" using cmos_read_suffix(2) by (simp_all add: cmos_read_def port_in_def port_out_def)
  have B: "fst (cmos_read dev CMOS_STATB h) AND push_bit 2 1 = 0 \<longleftrightarrow> bcd"
  proof -
    have "dev (sel CMOS_STATB h) (Port CMOS_RETURN) AND push_bit 2 1 = (if bcd then 0 else 4)" using c by (simp add: rtc_clock_def)
    then show ?thesis using cmos_read_bit [of 2 dev CMOS_STATB h] by (auto simp: bit_iff_and_push_bit_not_eq_0)
  qed
  {
    assume a: "cmostime dev h = Some (r, h')"
    then obtain t where t: "cmos_loop dev ?b = Some (t, h')"
      and r: "r = (let t1 = (if bcd then \<lparr>second = CONV (second t), minute = CONV (minute t), hour = CONV (hour t), day = CONV (day t), month = CONV (month t), year = CONV (year t)\<rparr> else t) in t1\<lparr>year := year t1 + 2000\<rparr>)"
      using B by (auto simp: cmostime_def Let_def split: prod.splits option.splits)
    obtain h0 h1 h2 where l: "suffix ?b h0" "fill_rtcdate dev h0 = (t, h1)" "h2 = snd (cmos_read dev CMOS_STATA h1)" "fill_rtcdate dev h2 = (t, h')"
      "fst (cmos_read dev CMOS_STATA h1) AND CMOS_UIP = 0" using cmos_loop_result [OF t] by auto
    have "P h \<le> P h0" using rtc_mono(1) [OF c suffix_order.trans [OF b(1) l(1)]] .
    moreover obtain n where n: "P h0 \<le> 2 * n" "2 * n \<le> P h'" "t = enc_date bcd (cal n)" using two_readings [OF c l(2-5)] by blast
    ultimately show "\<exists>n. P h \<le> 2 * n \<and> 2 * n \<le> P h' \<and> r = (cal n)\<lparr>year := year (cal n) + 2000\<rparr>"
      using conv_date [OF c n(3)] r by (intro exI [of _ n]) (simp add: Let_def)
  }
  {
    assume a: "even (P h) \<and> (\<forall>es. length es \<le> 28 \<longrightarrow> P (es @ h) = P h \<and> \<not> bit (dev (sel CMOS_STATA (es @ h)) (Port CMOS_RETURN)) 7)"
    have T: "P x = P h" if "suffix h x" "length x \<le> length h + 28" for x using that a by (auto simp: suffix_def)
    have "fst (cmos_read dev CMOS_STATA x) AND CMOS_UIP = 0" if "suffix h x" "length x \<le> length h + 14" for x
      using a that cmos_read_bit [of 7 dev CMOS_STATA x] by (auto simp: suffix_def CMOS_UIP_def bit_iff_and_push_bit_not_eq_0)
    then have "cmos_loop dev ?b \<noteq> None" using one_round [OF c T _ b] a by blast
    then show "cmostime dev h \<noteq> None" by (auto simp: cmostime_def Let_def split_beta split: option.splits)
  }
qed

text \<open>
  A clock in binary-coded decimals that comes to 12:34:57 on the 5th of May 2015: it shows the second before for ten accesses, then it is updated for four, and its registers read as \<open>0xFF\<close> meanwhile.
\<close>

definition tick_date :: "nat \<Rightarrow> rtcdate" where
  "tick_date n = \<lparr>second = of_nat (n mod 60), minute = 34, hour = 12, day = 5, month = 5, year = 15\<rparr>"

definition tick_phase :: "io list \<Rightarrow> nat" where
  "tick_phase h = (if length h < 10 then 112 else if length h < 14 then 113 else 114)"

definition tick_clock :: device where
  "tick_clock h l = (case h of
     Wr _ r # _ \<Rightarrow>
       let d = tick_date (tick_phase h div 2) in
       if r = ucast CMOS_STATB then 0 else if odd (tick_phase h) then 0xFF else if r = ucast SECS then enc True (second d) else if r = ucast MINS then enc True (minute d)
       else if r = ucast HOURS then enc True (hour d) else if r = ucast DAY then enc True (day d) else if r = ucast MONTH then enc True (month d)
       else if r = ucast YEAR then enc True (year d) else 0
   | _ \<Rightarrow> 0)"

theorem cmostime_reads_clock_witness:
  "rtc_clock tick_clock tick_phase tick_date True \<and>
   (\<exists>h'. cmostime tick_clock (replicate 14 (Wr (Port 0) 0)) = Some (\<lparr>second = 57, minute = 34, hour = 12, day = 5, month = 5, year = 2015\<rparr>, h'))"
proof -
  let ?h = "replicate 14 (Wr (Port 0) 0)"
  have s: "of_nat (n mod 60) < (100 :: u32)" for n
  proof -
    have "unat (of_nat (n mod 60) :: u32) = n mod 60" using mod_less_divisor [of 60 n] by (intro unat_of_nat_small) auto
    then show ?thesis using mod_less_divisor [of 60 n] by (simp add: word_less_nat_alt)
  qed
  have b: "bit (0xFF :: u32) 7" by (simp add: bit_numeral_rec)
  note regs = SECS_def MINS_def HOURS_def DAY_def MONTH_def YEAR_def CMOS_STATA_def CMOS_STATB_def
  have d: "displays tick_clock tick_phase tick_date True SECS second" "displays tick_clock tick_phase tick_date True MINS minute" "displays tick_clock tick_phase tick_date True HOURS hour"
    "displays tick_clock tick_phase tick_date True DAY day" "displays tick_clock tick_phase tick_date True MONTH month" "displays tick_clock tick_phase tick_date True YEAR year"
    by (simp_all add: displays_def tick_clock_def tick_date_def sel_def s regs)
  have c: "rtc_clock tick_clock tick_phase tick_date True"
    unfolding rtc_clock_def
    by (intro conjI d) (auto simp: tick_phase_def tick_clock_def sel_def regs b)
  have p: "tick_phase (es @ ?h) = 114" for es by (simp add: tick_phase_def)
  have "\<not> bit (tick_clock (sel CMOS_STATA (es @ ?h)) (Port CMOS_RETURN)) 7" for es
    using p [of "[Wr (Port CMOS_PORT) (ucast CMOS_STATA)] @ es"] by (simp add: tick_clock_def sel_def regs)
  then obtain r h' where r: "cmostime tick_clock ?h = Some (r, h')"
    using cmostime_reads_clock [OF c, of ?h] p p [of "[]"] by (metis even_numeral append_Nil not_Some_eq surj_pair)
  have "tick_phase ?h = 114" "tick_phase h' \<le> 114" using p [of "[]"] by (simp_all add: tick_phase_def)
  moreover obtain n where n: "tick_phase ?h \<le> 2 * n" "2 * n \<le> tick_phase h'" "r = (tick_date n)\<lparr>year := year (tick_date n) + 2000\<rparr>"
    using cmostime_reads_clock [OF c, of ?h r h'] r by blast
  ultimately have "n = 57" by linarith
  then show ?thesis using c r n(3) by (simp add: tick_date_def)
qed

end
