(* ===== verification/Startup.thy ===== *)
theory Startup
  imports Lapic
begin

text \<open>
  The start of the other processors in \<^verbatim>\<open>main.c\<close>. The state has the page allocator, with memory, and the accesses to devices. Where the kernel and the entry code of the other
  processors lie in memory is given by arguments, and so is whether a processor reports that it has started; if one does not, the loop that waits for it has no result.
\<close>

section \<open>Model\<close>

record boot =
  bk :: kmem
  bh :: "io list"

definition bkm :: "(kmem, 'a) kop \<Rightarrow> (boot, 'a) kop" where
  "bkm = zoom bk (\<lambda>x s. s\<lparr>bk := x\<rparr>)"

definition bram :: "(mem \<Rightarrow> mem) \<Rightarrow> (boot, unit) kop" where
  "bram f = upd (\<lambda>s. s\<lparr>bk := (bk s)\<lparr>kram := f (kram (bk s))\<rparr>\<rparr>)"

definition entry_code :: u32 where "entry_code = p2v 0x7000"

definition entry_args :: "u32 \<Rightarrow> u32 \<Rightarrow> u32 \<Rightarrow> mem \<Rightarrow> mem" where
  "entry_args stack mpenter entrypgdir m =
     mput32 (mput32 (mput32 m (entry_code - 4) (stack + KSTACKSIZE)) (entry_code - 8) mpenter) (entry_code - 12) (v2p entrypgdir)"

definition start_other :: "device \<Rightarrow> (nat \<Rightarrow> bool) \<Rightarrow> (nat \<Rightarrow> u8) \<Rightarrow> u32 \<Rightarrow> u32 \<Rightarrow> nat \<Rightarrow> (boot, unit) kop" where
  "start_other dev started apicid mpenter entrypgdir c =
     andthen (bkm kalloc) (\<lambda>stack.
     andthen (bram (entry_args stack mpenter entrypgdir)) (\<lambda>_.
     andthen (upd (\<lambda>s. case lapicstartap dev (apicid c) (v2p entry_code) (kram (bk s), bh s) of (m, h) \<Rightarrow> s\<lparr>bk := (bk s)\<lparr>kram := m\<rparr>, bh := h\<rparr>)) (\<lambda>_.
     if started c then ret () else stop (Undef ''startothers''))))"

definition startothers :: "device \<Rightarrow> (nat \<Rightarrow> bool) \<Rightarrow> (nat \<Rightarrow> u8) \<Rightarrow> u32 \<Rightarrow> u32 \<Rightarrow> u32 \<Rightarrow> u32 \<Rightarrow> nat \<Rightarrow> nat \<Rightarrow> (boot, unit) kop" where
  "startothers dev started apicid mpenter entrypgdir image_at image_size ncpu me =
     andthen (bram (memmove entry_code image_at image_size)) (\<lambda>_.
     mfor [0..<ncpu] (\<lambda>c. if c = me then ret () else start_other dev started apicid mpenter entrypgdir c))"

text \<open>The page directory that the processors start with: two large pages.\<close>

definition PTE_PS :: u32 where "PTE_PS = 0x080"

definition entrypgdir :: "nat \<Rightarrow> u32" where
  "entrypgdir i = (if i = 0 \<or> i = unat (drop_bit 22 KERNBASE) then 0 OR PTE_P OR PTE_W OR PTE_PS else 0)"

lemma entrypgdir_512: "entrypgdir i \<noteq> 0 \<longleftrightarrow> i = 0 \<or> i = 512"
  by (simp add: entrypgdir_def KERNBASE_def PTE_P_def PTE_W_def PTE_PS_def)

section \<open>Stacks for the other processors\<close>

text \<open>Writes below the memory of the allocator keep its free list.\<close>

lemma page_above:
  assumes "page_ok e p" and "0x80100000 \<le> e" and "in_page p i"
  shows "e \<le> i"
proof -
  have p: "e \<le> p" "unat (v2p p) < unat PHYSTOP" using assms(1) by (simp_all add: page_ok_def word_less_nat_alt)
  have b: "0x80100000 \<le> unat p" using p(1) assms(2) by (simp add: word_le_nat_alt)
  then have "unat (v2p p) = unat p - 0x80000000" by (subst v2p_def, subst unat_sub) (simp_all add: KERNBASE_def word_le_nat_alt)
  then have u: "unat p < 0x90000000" using p(2) b by (simp add: PHYSTOP_def)
  have d: "unat (i - p) < 4096" using assms(3) by (simp add: in_page_def PGSIZE_def)
  have "unat i = unat (p + (i - p))" by simp
  also have "\<dots> = unat p + unat (i - p)" using u d by (simp only: unat_word_ariths) simp
  finally show ?thesis using p(1) by (simp add: word_le_nat_alt)
qed

lemma low_keeps:
  assumes "kmem_ok ps k" and "0x80100000 \<le> kend k" and "\<And>i. kend k \<le> i \<Longrightarrow> m i = kram k i"
  shows "kmem_ok ps (k\<lparr>kram := m\<rparr>)"
proof -
  have f: "free_pages (kram k) (kend k) (freelist k) ps" using assms(1) by (simp add: kmem_ok_def)
  have "free_pages m (kend k) (freelist k) ps"
    by (rule free_pages_cong [OF f]) (use free_pages_ok [OF f] page_above assms(2,3) in blast)
  then show ?thesis using assms(1) by (simp add: kmem_ok_def)
qed

lemma mput32_low: "0x80100000 \<le> i \<Longrightarrow> unat a \<le> 0x800ff000 \<Longrightarrow> mput32 m a v i = m i"
proof (rule mput32_outside)
  assume a: "0x80100000 \<le> i" "unat a \<le> 0x800ff000"
  then have "unat (i - a) = unat i - unat a" by (intro unat_sub) (simp add: word_le_nat_alt)
  then show "\<not> unat (i - a) < 4" using a by (simp add: word_le_nat_alt)
qed

definition above :: "mem \<Rightarrow> mem \<Rightarrow> bool" where
  "above m m' \<longleftrightarrow> (\<forall>i. 0x80100000 \<le> i \<longrightarrow> m' i = m i)"

lemma entry_args_above: "above m (entry_args stack mpenter pd m)"
  by (simp add: above_def entry_args_def entry_code_def p2v_def KERNBASE_def mput32_low)

lemma startap_above: "lapicstartap dev apic a (m, h) = (m', h') \<Longrightarrow> above m m'"
  by (auto simp: lapicstartap_def Let_def above_def mput16_def p2v_def KERNBASE_def)

lemma above_keeps: "kmem_ok ps k \<Longrightarrow> 0x80100000 \<le> kend k \<Longrightarrow> above (kram k) m \<Longrightarrow> kmem_ok ps (k\<lparr>kram := m\<rparr>)"
  by (rule low_keeps) (auto simp: above_def)

lemma start_other_wp:
  assumes ok: "kmem_ok (p # ps) (bk s)" and e: "0x80100000 \<le> kend (bk s)" and c: "started c"
  shows "wp (start_other dev started apicid mpenter pd c) (\<lambda>_ t. kmem_ok ps (bk t) \<and> kend (bk t) = kend (bk s)) s"
proof -
  have rest: "kmem_ok ps (k\<lparr>kram := m'\<rparr>)"
    if k: "kmem_ok ps k" "kend k = kend (bk s)" and m: "lapicstartap dev (apicid c) (v2p entry_code) (entry_args p mpenter pd (kram k), h) = (m', h')" for k m' h h'
  proof -
    have "above (kram k) m'" using entry_args_above [of "kram k" p mpenter pd] startap_above [OF m] by (simp add: above_def)
    then show ?thesis using above_keeps [OF k(1)] k(2) e by simp
  qed
  have "wp kalloc (\<lambda>r t. r = p \<and> kend t = kend (bk s) \<and> kmem_ok ps t) (bk s)" using kalloc_wp [OF ok] by (rule wp_conseq) auto
  then have "wp kalloc (\<lambda>r t. wp (andthen (bram (entry_args r mpenter pd)) (\<lambda>_.
     andthen (upd (\<lambda>s. case lapicstartap dev (apicid c) (v2p entry_code) (kram (bk s), bh s) of (m, h) \<Rightarrow> s\<lparr>bk := (bk s)\<lparr>kram := m\<rparr>, bh := h\<rparr>)) (\<lambda>_. ret ())))
     (\<lambda>_ t. kmem_ok ps (bk t) \<and> kend (bk t) = kend (bk s)) (s\<lparr>bk := t\<rparr>)) (bk s)"
    by (rule wp_conseq) (use rest in \<open>auto simp: wp_simps bram_def split: prod.splits\<close>)
  then show ?thesis using c by (simp add: start_other_def bkm_def wp_simps)
qed

lemma filter_Suc: "length (filter P [0..<Suc i]) = length (filter P [0..<i]) + (if P i then 1 else 0)"
  by simp

text \<open>
  If the allocator has a page for each of the other processors and they come up, \<^verbatim>\<open>startothers\<close> returns; every processor gets a page of its own as its stack, the pages at the head of the
  free list, and the rest of the free list is as before: the entry code and its arguments lie below the memory of the allocator.
\<close>

theorem startothers_stacks:
  assumes ok: "kmem_ok ps (bk s)" and e: "0x80100000 \<le> kend (bk s)" and n: "length (filter (\<lambda>c. c \<noteq> me) [0..<ncpu]) \<le> length ps"
    and up: "\<And>c. c < ncpu \<Longrightarrow> started c" and image: "image_size \<le> 0x9000" "unat image_at + unat image_size < 2 ^ 32"
  shows "\<exists>t. startothers dev started apicid mpenter pd image_at image_size ncpu me s = Inr ((), t)
     \<and> kmem_ok (drop (length (filter (\<lambda>c. c \<noteq> me) [0..<ncpu])) ps) (bk t)"
proof -
  let ?f = "\<lambda>i. length (filter (\<lambda>c. c \<noteq> me) [0..<i])"
  let ?I = "\<lambda>i t. kmem_ok (drop (?f i) ps) (bk t) \<and> kend (bk t) = kend (bk s)"
  let ?g = "\<lambda>c. if c = me then ret () else start_other dev started apicid mpenter pd c"
  have step: "wp (?g i) (\<lambda>_. ?I (Suc i)) t" if i: "i < ncpu" and t: "?I i t" for i t
  proof (cases "i = me")
    case False
    have "?f (Suc i) \<le> ?f ncpu" using i length_filter_le by (metis (no_types, lifting) Suc_leI filter_append le_add1 le_add_diff_inverse length_append upt_add_eq_append zero_le)
    then have "?f i < length ps" using n False by simp
    then obtain q where "drop (?f i) ps = q # drop (?f (Suc i)) ps" using False by (simp add: Cons_nth_drop_Suc [symmetric])
    then show ?thesis using start_other_wp [of q "drop (?f (Suc i)) ps" t started i] t e up [OF i] False by (simp del: upt_Suc)
  qed (use t in \<open>simp add: wp_simps\<close>)
  have loop: "wp (mfor [0..<ncpu] ?g) (\<lambda>_. ?I (length [0..<ncpu])) t" if "?I 0 t" for t
  proof (rule wp_mfor [where I = ?I])
    fix i and u :: boot
    assume "i < length [0..<ncpu]" "?I i u"
    moreover from this have "[0..<ncpu] ! i = i" by simp
    ultimately show "wp (?g ([0..<ncpu] ! i)) (\<lambda>_. ?I (Suc i)) u" using step [of i u] by (simp only: length_upt diff_zero)
  qed (rule that)
  have "above (kram (bk s)) (memmove entry_code image_at image_size (kram (bk s)))"
  proof -
    have "unat image_size \<le> 0x9000" using image(1) by (simp add: word_le_nat_alt)
    moreover have "unat (i - entry_code) = unat i - 0x80007000" if "0x80100000 \<le> i" for i
      using that by (subst unat_sub) (simp_all add: entry_code_def p2v_def KERNBASE_def word_le_nat_alt)
    ultimately have "\<not> unat (i - entry_code) < unat image_size" if "0x80100000 \<le> i" for i using that by (simp add: word_le_nat_alt)
    moreover have "unat entry_code + unat image_size < 2 ^ 32" using \<open>unat image_size \<le> 0x9000\<close> by (simp add: entry_code_def p2v_def KERNBASE_def)
    ultimately show ?thesis using memmove_overlap [OF image(2), of entry_code] by (simp add: above_def)
  qed
  then have I0: "?I 0 (s\<lparr>bk := (bk s)\<lparr>kram := memmove entry_code image_at image_size (kram (bk s))\<rparr>\<rparr>)" using above_keeps [OF ok e] by simp
  have "wp (mfor [0..<ncpu] ?g) (\<lambda>_ t. kmem_ok (drop (?f ncpu) ps) (bk t)) (s\<lparr>bk := (bk s)\<lparr>kram := memmove entry_code image_at image_size (kram (bk s))\<rparr>\<rparr>)"
    using loop [OF I0] by (rule wp_conseq) simp
  then have "wp (startothers dev started apicid mpenter pd image_at image_size ncpu me) (\<lambda>_ t. kmem_ok (drop (?f ncpu) ps) (bk t)) s"
    unfolding startothers_def bram_def by (simp only: wp_andthen wp_upd)
  then show ?thesis by (auto simp: wp_iff)
qed

end
