(* ===== verification/Segments.thy ===== *)
theory Segments
  imports Trap
begin

text \<open>
  Segment and gate descriptors of \<^verbatim>\<open>mmu.h\<close>, and the tables that \<^verbatim>\<open>seginit\<close> and \<^verbatim>\<open>switchuvm\<close> of \<^verbatim>\<open>vm.c\<close> and \<^verbatim>\<open>tvinit\<close> of \<^verbatim>\<open>trap.c\<close> set up. Bit fields are words of their
  width. What the processor makes of a descriptor is stated by \<open>seg_base\<close>, \<open>seg_limit\<close> and \<open>gate_offset\<close>.
\<close>

section \<open>Descriptors\<close>

definition SEG_KCODE :: u16 where "SEG_KCODE = 1"
definition SEG_KDATA :: u16 where "SEG_KDATA = 2"
definition SEG_KCPU :: u16 where "SEG_KCPU = 3"
definition SEG_TSS :: u16 where "SEG_TSS = 6"
definition NSEGS :: nat where "NSEGS = 7"

definition STA_X :: "4 word" where "STA_X = 0x8"
definition STA_W :: "4 word" where "STA_W = 0x2"
definition STA_R :: "4 word" where "STA_R = 0x2"
definition STS_T32A :: "4 word" where "STS_T32A = 0x9"
definition STS_IG32 :: "4 word" where "STS_IG32 = 0xE"
definition STS_TG32 :: "4 word" where "STS_TG32 = 0xF"

record segdesc =
  lim_15_0 :: "16 word"
  base_15_0 :: "16 word"
  base_23_16 :: "8 word"
  sd_type :: "4 word"
  sd_s :: "1 word"
  sd_dpl :: "2 word"
  sd_p :: "1 word"
  lim_19_16 :: "4 word"
  avl :: "1 word"
  sd_rsv1 :: "1 word"
  db :: "1 word"
  sd_g :: "1 word"
  base_31_24 :: "8 word"

definition SEG :: "4 word \<Rightarrow> u32 \<Rightarrow> u32 \<Rightarrow> 2 word \<Rightarrow> segdesc" where
  "SEG type base lim dpl = \<lparr>lim_15_0 = ucast (drop_bit 12 lim AND 0xffff), base_15_0 = ucast (base AND 0xffff),
     base_23_16 = ucast (drop_bit 16 base AND 0xff), sd_type = type, sd_s = 1, sd_dpl = dpl, sd_p = 1,
     lim_19_16 = ucast (drop_bit 28 lim), avl = 0, sd_rsv1 = 0, db = 1, sd_g = 1, base_31_24 = ucast (drop_bit 24 base)\<rparr>"

definition SEG16 :: "4 word \<Rightarrow> u32 \<Rightarrow> u32 \<Rightarrow> 2 word \<Rightarrow> segdesc" where
  "SEG16 type base lim dpl = \<lparr>lim_15_0 = ucast (lim AND 0xffff), base_15_0 = ucast (base AND 0xffff),
     base_23_16 = ucast (drop_bit 16 base AND 0xff), sd_type = type, sd_s = 1, sd_dpl = dpl, sd_p = 1,
     lim_19_16 = ucast (drop_bit 16 lim), avl = 0, sd_rsv1 = 0, db = 1, sd_g = 0, base_31_24 = ucast (drop_bit 24 base)\<rparr>"

record gatedesc =
  off_15_0 :: "16 word"
  gd_cs :: "16 word"
  gd_args :: "5 word"
  gd_rsv1 :: "3 word"
  gd_type :: "4 word"
  gd_s :: "1 word"
  gd_dpl :: "2 word"
  gd_p :: "1 word"
  off_31_16 :: "16 word"

definition SETGATE :: "bool \<Rightarrow> u16 \<Rightarrow> u32 \<Rightarrow> 2 word \<Rightarrow> gatedesc" where
  "SETGATE istrap sel off d = \<lparr>off_15_0 = ucast (off AND 0xffff), gd_cs = sel, gd_args = 0, gd_rsv1 = 0,
     gd_type = (if istrap then STS_TG32 else STS_IG32), gd_s = 0, gd_dpl = d, gd_p = 1, off_31_16 = ucast (drop_bit 16 off)\<rparr>"

section \<open>The tables\<close>

text \<open>
  The registers of a processor that hold its tables, its descriptors, and the two fields of its task state that matter for traps. \<open>gdt_at\<close>, \<open>cpu_at\<close> and \<open>ts_at\<close> in the operations are
  the addresses of \<^verbatim>\<open>c->gdt\<close>, \<^verbatim>\<open>c->cpu\<close> and \<^verbatim>\<open>cpu->ts\<close>.
\<close>

record segcpu =
  gdt :: "u16 \<Rightarrow> segdesc"
  gdtr :: "u16 \<times> u16 \<times> u16"
  gs :: u16
  ts_ss0 :: u16
  ts_esp0 :: u32
  tr :: u16
  cr3 :: u32

definition table_register :: "u32 \<Rightarrow> nat \<Rightarrow> u16 \<times> u16 \<times> u16" where
  "table_register p len = (of_nat len - 1, ucast p, ucast (drop_bit 16 p))"

definition seginit :: "u32 \<Rightarrow> u32 \<Rightarrow> segcpu \<Rightarrow> segcpu" where
  "seginit gdt_at cpu_at c = c\<lparr>gdt := (gdt c)
       (SEG_KCODE := SEG (STA_X OR STA_R) 0 0xffffffff 0,
        SEG_KDATA := SEG STA_W 0 0xffffffff 0,
        SEG_UCODE := SEG (STA_X OR STA_R) 0 0xffffffff (ucast DPL_USER),
        SEG_UDATA := SEG STA_W 0 0xffffffff (ucast DPL_USER),
        SEG_KCPU := SEG STA_W cpu_at 8 0),
     gdtr := table_register gdt_at (8 * NSEGS), gs := push_bit 3 SEG_KCPU\<rparr>"

definition switchuvm :: "u32 \<Rightarrow> u32 \<Rightarrow> u32 \<Rightarrow> segcpu \<Rightarrow> fault + unit \<times> segcpu" where
  "switchuvm ts_at kstack pgdir =
     andthen (upd (\<lambda>c. c\<lparr>gdt := (gdt c)(SEG_TSS := (SEG16 STS_T32A ts_at (104 - 1) 0)\<lparr>sd_s := 0\<rparr>)\<rparr>)) (\<lambda>_.
     andthen (upd (\<lambda>c. c\<lparr>ts_ss0 := push_bit 3 SEG_KDATA, ts_esp0 := kstack + KSTACKSIZE, tr := push_bit 3 SEG_TSS\<rparr>)) (\<lambda>_.
     andthen (panic_if (pgdir = 0) ''switchuvm: no pgdir'') (\<lambda>_.
     upd (\<lambda>c. c\<lparr>cr3 := v2p pgdir\<rparr>))))"

text \<open>The page table of the kernel, for times when no process runs.\<close>

definition switchkvm :: "u32 \<Rightarrow> segcpu \<Rightarrow> segcpu" where
  "switchkvm kpgdir c = c\<lparr>cr3 := v2p kpgdir\<rparr>"

definition kvmalloc :: "u32 \<Rightarrow> (kmem \<times> segcpu, u32) kop" where
  "kvmalloc dat =
     andthen (zoom fst (\<lambda>k (_, c). (k, c)) (setupkvm dat)) (\<lambda>kpgdir.
     andthen (upd (\<lambda>(k, c). (k, switchkvm kpgdir c))) (\<lambda>_.
     ret kpgdir))"

definition tvinit :: "(nat \<Rightarrow> u32) \<Rightarrow> nat \<Rightarrow> gatedesc" where
  "tvinit vectors =
     (fold (\<lambda>i idt. idt(i := SETGATE False (push_bit 3 SEG_KCODE) (vectors i) 0)) [0..<256] (\<lambda>_. SETGATE False 0 0 0\<lparr>gd_p := 0\<rparr>))
       (unat T_SYSCALL := SETGATE True (push_bit 3 SEG_KCODE) (vectors (unat T_SYSCALL)) (ucast DPL_USER))"

definition idtinit :: "u32 \<Rightarrow> u16 \<times> u16 \<times> u16" where
  "idtinit idt_at = table_register idt_at (8 * 256)"

section \<open>What the processor reads\<close>

definition seg_base :: "segdesc \<Rightarrow> u32" where
  "seg_base d = push_bit 24 (ucast (base_31_24 d)) OR push_bit 16 (ucast (base_23_16 d)) OR ucast (base_15_0 d)"

definition seg_limit :: "segdesc \<Rightarrow> u32" where
  "seg_limit d = (let l = push_bit 16 (ucast (lim_19_16 d)) OR ucast (lim_15_0 d) in if sd_g d = 1 then push_bit 12 l OR 0xfff else l)"

definition gate_offset :: "gatedesc \<Rightarrow> u32" where
  "gate_offset g = push_bit 16 (ucast (off_31_16 g)) OR ucast (off_15_0 g)"

text \<open>An \<^verbatim>\<open>int\<close> instruction at privilege level \<open>cpl\<close> passes through the gate; the gate clears the interrupt flag.\<close>

definition may_call :: "nat \<Rightarrow> gatedesc \<Rightarrow> bool" where
  "may_call cpl g \<longleftrightarrow> gd_p g = 1 \<and> cpl \<le> unat (gd_dpl g)"

definition clears_if :: "gatedesc \<Rightarrow> bool" where
  "clears_if g \<longleftrightarrow> gd_type g = STS_IG32"

lemma masks: "(0xffff :: u32) = mask 16" "(0xff :: u32) = mask 8" "(0xfff :: u32) = mask 12"
  by (simp_all add: mask_eq_exp_minus_1)

lemma SEG_base: "seg_base (SEG type base lim dpl) = base"
  by (rule bit_word_eqI, case_tac "n < 24"; auto simp: seg_base_def SEG_def masks bit_simps)

lemma SEG16_base: "seg_base (SEG16 type base lim dpl) = base"
  using SEG_base [of type base lim dpl] by (simp add: seg_base_def SEG_def SEG16_def)

lemma SEG_limit: "seg_limit (SEG type base lim dpl) = lim OR 0xfff"
  by (rule bit_word_eqI, case_tac "n < 28"; auto simp: seg_limit_def SEG_def masks bit_simps Let_def)

lemma SEG16_limit: "seg_limit (SEG16 type base lim dpl) = take_bit 20 lim"
  by (rule bit_word_eqI, case_tac "n < 16"; auto simp: seg_limit_def SEG16_def masks bit_simps Let_def)

lemma SETGATE_offset: "gate_offset (SETGATE istrap sl off d) = off"
  by (rule bit_word_eqI) (auto simp: gate_offset_def SETGATE_def masks bit_simps)

lemma tvinit_fold: "fold (\<lambda>i f. f(i := g i)) [0..<n] f0 k = (if k < n then g k else f0 k)"
  by (induction n) auto

text \<open>
  C30: \<^verbatim>\<open>tvinit\<close> points each of the 256 gates at its vector, in the kernel's code segment; the only gate that a program can pass by an \<^verbatim>\<open>int\<close> instruction is the one of system calls,
  and it is the only one that leaves interrupts enabled.
\<close>

theorem tvinit_gates:
  assumes "n < 256"
  shows "gate_offset (tvinit vectors n) = vectors n \<and> gd_cs (tvinit vectors n) = 8 \<and> (may_call 3 (tvinit vectors n) \<longleftrightarrow> n = 64) \<and> (clears_if (tvinit vectors n) \<longleftrightarrow> n \<noteq> 64)"
proof -
  have t: "tvinit vectors n = (if n = 64 then SETGATE True 8 (vectors n) (ucast DPL_USER) else SETGATE False 8 (vectors n) 0)"
    using assms by (auto simp: tvinit_def tvinit_fold T_SYSCALL_def SEG_KCODE_def)
  have g: "gd_cs (SETGATE i sl off d) = sl" "may_call 3 (SETGATE i sl off d) \<longleftrightarrow> 3 \<le> unat d" "clears_if (SETGATE i sl off d) \<longleftrightarrow> \<not> i" for i sl off d
    by (auto simp: SETGATE_def may_call_def clears_if_def STS_IG32_def STS_TG32_def)
  show ?thesis by (simp add: t g SETGATE_offset DPL_USER_def)
qed

theorem tvinit_gates_witness: "gate_offset (tvinit (\<lambda>i. 0x80100000 + of_nat i) 64) = 0x80100040 \<and> may_call 3 (tvinit (\<lambda>i. 0x80100000 + of_nat i) 64)"
  using tvinit_gates [of 64 "\<lambda>i. 0x80100000 + of_nat i"] by simp

text \<open>The segments of the kernel and of programs cover all addresses, at their privilege levels; the task state after \<^verbatim>\<open>switchuvm\<close> leads a trap to the top of the kernel stack.\<close>

lemma seginit_flat:
  "\<forall>i \<in> {SEG_KCODE, SEG_KDATA, SEG_UCODE, SEG_UDATA}. seg_base (gdt (seginit a b c) i) = 0 \<and> seg_limit (gdt (seginit a b c) i) = - 1
     \<and> sd_dpl (gdt (seginit a b c) i) = (if i \<in> {SEG_UCODE, SEG_UDATA} then 3 else 0)"
  by (auto simp: seginit_def SEG_base SEG_limit SEG_KCODE_def SEG_KDATA_def SEG_UCODE_def SEG_UDATA_def SEG_KCPU_def) (auto simp: SEG_def DPL_USER_def)

lemma switchuvm_stack:
  assumes "pgdir \<noteq> 0"
  shows "\<exists>c'. switchuvm ts_at kstack pgdir c = Inr ((), c') \<and> ts_esp0 c' = kstack + KSTACKSIZE \<and> cr3 c' = v2p pgdir
     \<and> seg_base (gdt c' SEG_TSS) = ts_at \<and> seg_limit (gdt c' SEG_TSS) = 103 \<and> (\<forall>i. i \<noteq> SEG_TSS \<longrightarrow> gdt c' i = gdt c i)"
proof -
  have "seg_base ((SEG16 STS_T32A ts_at 103 0)\<lparr>sd_s := 0\<rparr>) = ts_at" "seg_limit ((SEG16 STS_T32A ts_at 103 0)\<lparr>sd_s := 0\<rparr>) = 103"
    using SEG16_base [of STS_T32A ts_at 103 0] SEG16_limit [of STS_T32A ts_at 103 0] by (simp_all add: seg_base_def seg_limit_def)
  then show ?thesis using assms by (simp add: switchuvm_def andthen_def upd_def panic_if_def ret_def)
qed

end
