(* ===== verification/Report.thy ===== *)
theory Report
  imports Trap Spinlock
begin

text \<open>What the kernel prints about itself: the process listing of \<^verbatim>\<open>procdump\<close> in \<^verbatim>\<open>proc.c\<close>, which control-P asks for, and the last words of \<^verbatim>\<open>panic\<close> in \<^verbatim>\<open>console.c\<close>.\<close>

primrec state_name :: "procstate \<Rightarrow> string" where
  "state_name UNUSED = ''unused''"
| "state_name EMBRYO = ''embryo''"
| "state_name SLEEPING = ''sleep ''"
| "state_name RUNNABLE = ''runble''"
| "state_name RUNNING = ''run   ''"
| "state_name ZOMBIE = ''zombie''"

definition print_pc :: "u32 \<Rightarrow> string" where
  "print_pc pc = CHR '' '' # printint (sint pc) 16 False"

definition proc_line :: "mem \<Rightarrow> proc \<Rightarrow> string" where
  "proc_line m p =
     printint (sint (p_pid p)) 10 True @ '' '' @ state_name (p_state p) @ '' '' @ map (\<lambda>b. char_of (unat b)) (takeWhile (\<lambda>b. b \<noteq> 0) (p_name p))
     @ (if p_state p = SLEEPING then concat (map print_pc (takeWhile (\<lambda>pc. pc \<noteq> 0) (getcallerpcs m (mget32 m (p_context p + 12) + 8)))) else [])
     @ [CHR 0x0A]"

definition procdump :: "mem \<Rightarrow> (nat \<Rightarrow> proc) \<Rightarrow> string" where
  "procdump m ps = concat (map (\<lambda>i. if p_state (ps i) = UNUSED then [] else proc_line m (ps i)) [0..<NPROC])"

text \<open>\<^verbatim>\<open>panic\<close> passes its message to \<^verbatim>\<open>cprintf\<close> as a format without arguments.\<close>

definition panic_text :: "(u32 \<Rightarrow> string) \<Rightarrow> u32 \<Rightarrow> string \<Rightarrow> u32 list \<Rightarrow> string option" where
  "panic_text str cpu_id s ps =
     map_option (\<lambda>t. ''cpu'' @ printint (sint cpu_id) 10 True @ '': panic: '' @ t @ [CHR 0x0A] @ concat (map print_pc ps)) (cprintf str s [])"

lemma cprintf_plain: "CHR ''%'' \<notin> set s \<Longrightarrow> cprintf str s as = Some s"
  by (induction s) auto

text \<open>A message without a percent sign is printed as it is.\<close>

lemma panic_says: "CHR ''%'' \<notin> set s \<Longrightarrow> \<exists>w. panic_text str i s ps = Some (''cpu'' @ printint (sint i) 10 True @ '': panic: '' @ s @ CHR 0x0A # w)"
  by (simp add: panic_text_def cprintf_plain)

end
