(* ===== verification/Spec2Isabelle.thy ===== *)
theory Spec2Isabelle
  imports Crash Logops Mount Names Trap Spinlock Shmain Grep Umalloc Utils Kbd Mp Bootmain Startup Segments Report
begin

text \<open>
  A verification development for the xv6 kernel, its boot loader, the builder of its file system image, its shell and some of its user programs.

  \<^bold>\<open>Model.\<close> Theory \<open>Prelude\<close> has the machine types, the outcome of a kernel routine (a value and a new state, or a
  \<open>fault\<close>: a panic, a sleep, or an undefined access) and the state-passing combinators all routines are written with, with their
  total-correctness reading \<open>wp\<close>. A routine runs until it returns or would sleep, and takes effect in one step; its calls of \<^verbatim>\<open>acquire\<close> and \<^verbatim>\<open>release\<close> are left out, and the locks
  themselves are the subject of theory \<open>Spinlock\<close>. Pointers into the
  kernel's tables are indices, null pointers are \<open>None\<close> or address 0, and 32-bit counters and addresses are words.

  \<^bold>\<open>Parts.\<close> From the disk upwards:
  \<^item> \<open>Ide\<close>: the disk driver of \<^verbatim>\<open>ide.c\<close> and the memory disk of \<^verbatim>\<open>memide.c\<close>, with the disk and the history of its writes.
  \<^item> \<open>Bio\<close>: the buffer cache of \<^verbatim>\<open>bio.c\<close>; the locale \<open>block_cache\<close> is what the log relies on.
  \<^item> \<open>Log\<close>: the write-ahead log of \<^verbatim>\<open>log.c\<close>; the locale \<open>transaction\<close> is what the file system relies on.
  \<^item> \<open>Crash\<close>: a commit or a recovery that is cut off after any of its writes, and the boot after it.
  \<^item> \<open>Logops\<close>: operations that share the log, as interleaved steps of \<^verbatim>\<open>begin_op\<close>, \<^verbatim>\<open>log_write\<close> and \<^verbatim>\<open>end_op\<close>.
  \<^item> \<open>Balloc\<close>, \<open>Fs\<close>: the file system of \<^verbatim>\<open>fs.c\<close>: blocks, inodes, content, directories and paths.
  \<^item> \<open>Content\<close>: reading and writing files; \<open>Names\<close>: path elements, names and the inode cache.
  \<^item> \<open>Mkfs\<close>: the image builder of \<^verbatim>\<open>mkfs.c\<close> and its \<^verbatim>\<open>iappend\<close>; \<open>Image\<close>: the image that its \<^verbatim>\<open>main\<close> builds; \<open>Mount\<close>: the kernel that reads the
    files of that image.
  \<^item> \<open>Memory\<close>: \<^verbatim>\<open>string.c\<close>; \<open>Kalloc\<close>: the page allocator of \<^verbatim>\<open>kalloc.c\<close>; \<open>Vm\<close>: the page tables of \<^verbatim>\<open>vm.c\<close>; \<open>Space\<close>: the
    memory that the operations on a page directory can change.
  \<^item> \<open>Ring\<close>: ring buffers with counters that wrap around; \<open>Pipe\<close>: \<^verbatim>\<open>pipe.c\<close>; \<open>Console\<close>: \<^verbatim>\<open>console.c\<close>;
    \<open>Kbd\<close>: the keyboard of \<^verbatim>\<open>kbd.c\<close>.
  \<^item> \<open>Bootmain\<close>: the boot loader of \<^verbatim>\<open>bootmain.c\<close>; \<open>Mp\<close>: the description of the processors that \<^verbatim>\<open>mp.c\<close> reads at boot.
  \<^item> \<open>Devices\<close>: the interrupt controllers, the timer and the serial port of \<^verbatim>\<open>picirq.c\<close>, \<^verbatim>\<open>ioapic.c\<close>, \<^verbatim>\<open>timer.c\<close> and \<^verbatim>\<open>uart.c\<close>, and the start of the devices; \<open>Lapic\<close>: the local
    interrupt controller and the clock of \<^verbatim>\<open>lapic.c\<close>. These see a device as the value of each read, a function of all accesses before it. \<open>Startup\<close>: the start of the other processors in \<^verbatim>\<open>main.c\<close>.
  \<^item> \<open>Segments\<close>: the descriptors of \<^verbatim>\<open>mmu.h\<close>, and their tables set up by \<^verbatim>\<open>seginit\<close>, \<^verbatim>\<open>switchuvm\<close>, \<^verbatim>\<open>kvmalloc\<close> and \<^verbatim>\<open>tvinit\<close>.
    \<open>Report\<close>: what \<^verbatim>\<open>procdump\<close> and \<^verbatim>\<open>panic\<close> print.
  \<^item> \<open>File\<close>, \<open>Sysfile\<close>: \<^verbatim>\<open>file.c\<close>, \<^verbatim>\<open>pipealloc\<close>, the argument fetching of \<^verbatim>\<open>syscall.c\<close> and the calls of \<^verbatim>\<open>sysfile.c\<close>.
  \<^item> \<open>Proc\<close>: the process table of \<^verbatim>\<open>proc.c\<close>, with trap frames and kernel stacks in memory; a switch to another kernel stack ends an operation, and
    what follows it is an operation of its own. \<open>mp_step\<close> is a step of the schedulers of any number of processors: a look at the next entry of the table, a switch
    to the process in it, or an operation of a running process.
  \<^item> \<open>Exec\<close>: \<^verbatim>\<open>exec.c\<close>, \<^verbatim>\<open>loaduvm\<close> and \<^verbatim>\<open>sys_exec\<close>; \<open>Trap\<close>: \<^verbatim>\<open>sysproc.c\<close>, the system call table of \<^verbatim>\<open>syscall.c\<close> and \<^verbatim>\<open>trap.c\<close>, which call
    all of the above.
  \<^item> \<open>Spinlock\<close>: \<^verbatim>\<open>spinlock.c\<close> on several processors, statement by statement.
  \<^item> \<open>Sh\<close>, \<open>Shrun\<close>, \<open>Shmain\<close>: the parser of \<^verbatim>\<open>sh.c\<close>, its commands as trees of system calls, and its \<^verbatim>\<open>main\<close>; \<open>Grep\<close>: \<^verbatim>\<open>grep.c\<close>; \<open>Umalloc\<close>: the allocator of the user programs, \<^verbatim>\<open>umalloc.c\<close>;
    \<open>Ulib\<close>: their library, \<^verbatim>\<open>ulib.c\<close> and \<^verbatim>\<open>printf.c\<close>; \<open>Utils\<close>: the programs of \<^verbatim>\<open>wc.c\<close>, \<^verbatim>\<open>cat.c\<close>, \<^verbatim>\<open>echo.c\<close>, \<^verbatim>\<open>kill.c\<close>, \<^verbatim>\<open>ln.c\<close>, \<^verbatim>\<open>ls.c\<close>, \<^verbatim>\<open>mkdir.c\<close> and \<^verbatim>\<open>rm.c\<close>.

  \<^bold>\<open>Properties.\<close> A commit is atomic under a crash at any write, and recovery can itself be interrupted and started again any number of times (\<open>Crash\<close>). \<^verbatim>\<open>balloc\<close> returns a
  free block, zeroed (\<open>Balloc\<close>). What \<^verbatim>\<open>writei\<close> writes is what \<^verbatim>\<open>readi\<close> reads (\<open>Content\<close>). The image that \<^verbatim>\<open>mkfs\<close>
  builds has its superblock, bitmap, root directory and files as the kernel reads them, and \<^verbatim>\<open>iappend\<close> keeps it well formed (\<open>Image\<close>); on
  that image \<^verbatim>\<open>readi\<close> returns the bytes the files had on the host (\<open>Mount\<close>). \<^verbatim>\<open>iget\<close> keeps one entry per inode, \<^verbatim>\<open>skipelem\<close> walks the
  elements of a path, and names compare by their first \<^verbatim>\<open>DIRSIZ\<close> bytes (\<open>Names\<close>). Descriptors are counted in their files, and system call arguments
  lie in the process (\<open>Sysfile\<close>). \<^verbatim>\<open>mappages\<close> maps a range of pages, allocating page tables, and keeps all other
  translations and memory (\<open>Vm\<close>). Freed pages are allocated again (\<open>Kalloc\<close>), pipes
  are first-in first-out (\<open>Pipe\<close>), the console edits lines and prints numbers (\<open>Console\<close>), and the memory routines do what their names say (\<open>Memory\<close>).
  Operations that \<^verbatim>\<open>begin_op\<close> admits fit into a log of more than \<^verbatim>\<open>LOGSIZE\<close> blocks, but not into that of the built image, as long as their calls of \<^verbatim>\<open>log_write\<close> do not
  overlap, which nothing in the code prevents: overlapping calls lose a block (\<open>Logops\<close>). A spin lock excludes, stays
  available and never panics (\<open>Spinlock\<close>). \<^verbatim>\<open>fork\<close>, \<^verbatim>\<open>exit\<close> and \<^verbatim>\<open>wait\<close> keep the table in order, and the schedulers of several processors starve no process (\<open>Proc\<close>); \<^verbatim>\<open>exec\<close> builds the new image in free
  pages only and replaces the old one wholly or not at all (\<open>Space\<close>, \<open>Exec\<close>); a killed process does not return to user mode, not even after it has yielded or slept, and an unknown system call does nothing (\<open>Trap\<close>). The shell's parser returns for every
  line, its strings are the words of the line (\<open>Sh\<close>), the programs of a line get the descriptors the line asks for (\<open>Shrun\<close>), and the lines
  of the input are run one after the other (\<open>Shmain\<close>). The matcher of \<^verbatim>\<open>grep\<close> decides what
  an expression means; its buffering is right for a text in one piece with no newline behind it in the buffer (\<open>Grep\<close>). \<^verbatim>\<open>malloc\<close> and \<^verbatim>\<open>free\<close> keep the ring of free blocks in order, and free memory
  changes by exactly the block they hand over, for requests below 2 GB (\<open>Umalloc\<close>); \<^verbatim>\<open>atoi\<close> reads what \<^verbatim>\<open>printf\<close> prints for a number (\<open>Ulib\<close>), and \<^verbatim>\<open>wc\<close> counts a text however it is cut into
  reads (\<open>Utils\<close>). Letter keys follow the modifiers (\<open>Kbd\<close>). The table of the processors is read to its end if all its entries are known (\<open>Mp\<close>), and \<^verbatim>\<open>readseg\<close>
  loads the bytes of the kernel, wherever they start in a sector (\<open>Bootmain\<close>). After boot the interrupts of exactly the devices that are there get through the 8259A
  controllers and the I/O APIC (\<open>Devices\<close>);
  \<^verbatim>\<open>cmostime\<close> returns a date that the clock has shown, although the clock updates its registers while they are read (\<open>Lapic\<close>); a program can enter the kernel by the gate of system calls only (\<open>Segments\<close>);
  the other processors get stacks of their own (\<open>Startup\<close>).

  \<^bold>\<open>Bounds.\<close> Loops over pages (\<open>Kalloc\<close>, \<open>Vm\<close>, \<open>Exec\<close>) stop with \<open>Undef\<close> after \<open>2 ^ 20\<close> pages, all there are in 32 bits. The parsing functions of
  the shell, which call each other, have four units of fuel for each character of the line, which is shown to be enough. The loops of \<^verbatim>\<open>malloc\<close> and
  \<^verbatim>\<open>free\<close>, which end only if the free blocks form a ring, have fuel, and four units for each free block and ten more are shown to be enough. The loops that read memory up to
  a terminator, the table of the processors, or a device until it is ready are partial functions, and every other loop is a terminating recursion.

  \<^bold>\<open>Not modelled.\<close> The entry code before and after the boot loader and the register switch between kernel stacks, which are assembly;
  the order in which \<^verbatim>\<open>main\<close> of the kernel calls the other parts; the system call stubs of the user library, the initial program, which is an endless loop around the shell, and the tests.
\<close>

end
